(* ===== verification/Prelude.thy ===== *)
theory Prelude
  imports Main "HOL-Library.Word"
begin

unbundle bit_operations_syntax

text \<open>
  Shared ground of the development: the machine types of the Go program, the result type of a
  Go call (a value, an \<open>error\<close> value, or a panic) with its sequencing operator and inversion
  rules, and the facts on exclusive or, on lists written by index and on index loops that the
  component theories use.
\<close>

type_synonym u8 = "8 word"
type_synonym u16 = "16 word"
type_synonym u32 = "32 word"
type_synonym u64 = "64 word"

text \<open>
  \<^item> \<open>go_eval\<close>: equations that run a model on a concrete input;
  \<^item> \<open>res_iff\<close>: when a sequenced computation returns a value.
\<close>

named_theorems go_eval
named_theorems res_iff

section \<open>Results of Go calls\<close>

text \<open>
  A Go function with an \<open>error\<close> result returns \<open>Ret\<close> on \<open>nil\<close> and \<open>Error\<close> with the message
  otherwise; \<open>Panic\<close> is a run-time panic, raised by the code or by the language.
\<close>

datatype 'a res = Ret 'a | Error string | Panic string

fun bindR :: "'a res \<Rightarrow> ('a \<Rightarrow> 'b res) \<Rightarrow> 'b res" where
  "bindR (Ret x) f = f x"
| "bindR (Error e) f = Error e"
| "bindR (Panic p) f = Panic p"

fun is_ret :: "'a res \<Rightarrow> bool" where
  "is_ret (Ret _) = True"
| "is_ret _ = False"

lemma bindR_Ret_iff [res_iff]: "bindR m f = Ret y \<longleftrightarrow> (\<exists>x. m = Ret x \<and> f x = Ret y)"
  by (cases m) auto

lemma bindR_cong [fundef_cong]:
  "m = m' \<Longrightarrow> (\<And>x. m' = Ret x \<Longrightarrow> f x = f' x) \<Longrightarrow> bindR m f = bindR m' f'"
  by (cases m') auto

lemma bindR_assoc: "bindR (bindR m f) g = bindR m (\<lambda>x. bindR (f x) g)"
  by (cases m) auto

lemma bindR_Ret_right [simp]: "bindR m Ret = m"
  by (cases m) auto

lemma if_Ret_iff [res_iff]:
  "(if b then Error e else m) = Ret x \<longleftrightarrow> \<not> b \<and> m = Ret x"
  "(if b then Panic e else m) = Ret x \<longleftrightarrow> \<not> b \<and> m = Ret x"
  by auto

section \<open>Loops and index expressions\<close>

text \<open>A \<open>for ... range\<close> loop whose body may fail.\<close>

fun foldR :: "('a \<Rightarrow> 's \<Rightarrow> 's res) \<Rightarrow> 'a list \<Rightarrow> 's \<Rightarrow> 's res" where
  "foldR body [] s = Ret s"
| "foldR body (x # xs) s = bindR (body x s) (foldR body xs)"

text \<open>\<open>xs[i]\<close>, \<open>xs[i] = v\<close> and \<open>xs[i:j]\<close>, which panic out of range.\<close>

definition goIndex :: "'a list \<Rightarrow> int \<Rightarrow> 'a res" where
  "goIndex xs i =
     (if i < 0 \<or> int (length xs) \<le> i then Panic ''index out of range'' else Ret (xs ! nat i))"

definition goAssign :: "'a list \<Rightarrow> int \<Rightarrow> 'a \<Rightarrow> 'a list res" where
  "goAssign xs i v =
     (if i < 0 \<or> int (length xs) \<le> i then Panic ''index out of range'' else Ret (xs[nat i := v]))"

definition goSlice :: "'a list \<Rightarrow> nat \<Rightarrow> nat \<Rightarrow> 'a list res" where
  "goSlice xs i j =
     (if j < i \<or> length xs < j then Panic ''slice bounds out of range'' else Ret (take (j - i) (drop i xs)))"

text \<open>The check that \<open>make([]T, n)\<close> does: the run-time system of 64-bit Go has \<open>2 ^ 48\<close> bytes of address space for the
  heap, and a length beyond it is a panic. The lengths that are checked here are of byte slices.\<close>

definition maxAlloc :: int where
  "maxAlloc = 2 ^ 48"

definition makeslice :: "int \<Rightarrow> unit res" where
  "makeslice n = (if n < 0 \<or> maxAlloc < n then Panic ''makeslice: len out of range'' else Ret ())"

text \<open>\<open>make(chan struct{}, n)\<close>: the elements have no size, so only a negative capacity panics.\<close>

definition makechan :: "int \<Rightarrow> unit res" where
  "makechan n = (if n < 0 then Panic ''makechan: size out of range'' else Ret ())"

lemma make_Ret [simp]: "0 \<le> n \<Longrightarrow> n \<le> maxAlloc \<Longrightarrow> makeslice n = Ret ()" "0 \<le> n \<Longrightarrow> makechan n = Ret ()"
  by (simp_all add: makeslice_def makechan_def)

lemma goIndex_Ret [simp]: "i < length xs \<Longrightarrow> goIndex xs (int i) = Ret (xs ! i)"
  by (simp add: goIndex_def)

lemma goAssign_Ret [simp]: "i < length xs \<Longrightarrow> goAssign xs (int i) v = Ret (xs[i := v])"
  by (simp add: goAssign_def)

lemma goSlice_Ret [simp]: "i \<le> j \<Longrightarrow> j \<le> length xs \<Longrightarrow> goSlice xs i j = Ret (take (j - i) (drop i xs))"
  by (simp add: goSlice_def)

lemma foldR_append: "foldR body (xs @ ys) s = bindR (foldR body xs s) (foldR body ys)"
proof (induction xs arbitrary: s)
  case (Cons x xs)
  then show ?case by (cases "body x s") simp_all
qed simp

text \<open>A counting loop whose body never fails under an invariant.\<close>

lemma foldR_upt_inv:
  assumes "I i s" and "i \<le> n"
    and step: "\<And>k s. i \<le> k \<Longrightarrow> k < n \<Longrightarrow> I k s \<Longrightarrow> \<exists>s'. body k s = Ret s' \<and> I (Suc k) s'"
  shows "\<exists>s'. foldR body [i..<n] s = Ret s' \<and> I n s'"
  using assms(1,2) step
proof (induction "n - i" arbitrary: i s)
  case (Suc d)
  then obtain s1 where "body i s = Ret s1" "I (Suc i) s1" by fastforce
  with Suc show ?case by (simp add: upt_conv_Cons)
qed auto

section \<open>Exclusive or\<close>

lemma xor_left_self [simp]: "(a :: 'a :: len word) XOR (a XOR b) = b"
  by (simp flip: xor.assoc)

lemma xor_right_self [simp]: "(b XOR a) XOR (a :: 'a :: len word) = b"
  by (simp add: xor.assoc)

lemma ucast_xor: "(ucast (a XOR b) :: 'b :: len word) = ucast a XOR ucast (b :: 'a :: len word)"
  by (simp add: unsigned_xor_eq)

section \<open>Words\<close>

lemma word_bits_ext: "(\<And>k. k < LENGTH('a) \<Longrightarrow> bit a k = bit b k) \<Longrightarrow> a = (b :: 'a :: len word)"
  by (rule bit_word_eqI) simp

lemma and_1_neq_0 [simp]: "(b :: 'a :: len word) AND 1 \<noteq> 0 \<longleftrightarrow> bit b 0"
  by (simp add: and_one_eq bit_0 odd_iff_mod_2_eq_one)

end
