(* ===== verification/GF16_Field.thy ===== *)
theory GF16_Field
  imports Prelude "HOL-Library.Power_By_Squaring"
begin

text \<open>
  The specification side of package \<open>gf16\<close>: the field with \<open>2 ^ 16\<close> elements that PAR2
  computes in, polynomials over GF(2) modulo \<open>x^16 + x^12 + x^3 + x + 1\<close>. An element carries
  its 16 coefficients; addition is exclusive or; multiplication sums the shifts of one factor
  selected by the coefficients of the other. The theory proves that \<open>3\<close> (the polynomial \<open>x + 1\<close>)
  and \<open>2\<close> (the polynomial \<open>x\<close>) have order 65535, so that every nonzero element is a power of
  either, and instantiates the type class \<open>field\<close>, which makes the library's algebra available
  to the model of the Reed-Solomon code.
\<close>

section \<open>Elements and addition\<close>

datatype gf = GF (gf_bits: u16)

instantiation gf :: ab_group_add
begin

definition zero_gf :: gf where
  "zero_gf = GF 0"

definition plus_gf :: "gf \<Rightarrow> gf \<Rightarrow> gf" where
  "plus_gf a b = GF (gf_bits a XOR gf_bits b)"

definition uminus_gf :: "gf \<Rightarrow> gf" where
  "uminus_gf a = a"

definition minus_gf :: "gf \<Rightarrow> gf \<Rightarrow> gf" where
  "minus_gf a b = GF (gf_bits a XOR gf_bits b)"

instance
  by standard
    (auto simp: zero_gf_def plus_gf_def uminus_gf_def minus_gf_def gf.expand ac_simps)

end

lemma gf_bits_zero [simp]: "gf_bits 0 = 0"
  by (simp add: zero_gf_def)

lemma gf_bits_plus [simp]: "gf_bits (a + b) = gf_bits a XOR gf_bits b"
  by (simp add: plus_gf_def)

lemma GF_xor: "GF (a XOR b) = GF a + GF b"
  by (simp add: plus_gf_def)

lemma GF_eq_0_iff [simp]: "GF a = 0 \<longleftrightarrow> a = 0"
  by (simp add: zero_gf_def)

lemma GF_0 [simp]: "GF 0 = 0"
  by simp

lemma gf_bits_eq_0_iff [simp]: "gf_bits a = 0 \<longleftrightarrow> a = 0"
  by (cases a) simp

lemma gf_add_self [simp]: "a + a = (0 :: gf)"
  by (rule gf.expand) simp

lemma gf_uminus [simp]: "- a = (a :: gf)"
  by (simp add: uminus_gf_def)

lemma gf_minus: "a - b = (a + b :: gf)"
  by (simp add: minus_gf_def plus_gf_def)

lemma gf_add_eq_0_iff: "a + b = 0 \<longleftrightarrow> a = (b :: gf)"
  by (metis add_diff_cancel_right' gf_minus right_minus_eq)

section \<open>Multiplication by x\<close>

definition xt :: "gf \<Rightarrow> gf" where
  "xt a = GF (push_bit 1 (gf_bits a) XOR (if bit (gf_bits a) 15 then 0x100b else 0))"

lemma xt_add [simp]: "xt (a + b) = xt a + xt b"
  by (auto simp: xt_def plus_gf_def push_bit_xor bit_xor_iff xor.assoc xor.left_commute)

lemma xt_0 [simp]: "xt 0 = 0"
  by (simp add: xt_def)

lemma xt_pow_add [simp]: "(xt ^^ k) (a + b) = (xt ^^ k) a + (xt ^^ k) b"
  by (induction k) auto

lemma xt_pow_0 [simp]: "(xt ^^ k) 0 = 0"
  by (induction k) auto

lemma xt_pow_sum: "(xt ^^ k) (sum f A) = (\<Sum>i\<in>A. (xt ^^ k) (f i))"
  by (induction A rule: infinite_finite_induct) auto

lemma xt_pow_one: "k < 16 \<Longrightarrow> (xt ^^ k) (GF 1) = GF (push_bit k 1)"
proof (induction k)
  case (Suc k)
  then show ?case
    by (simp add: xt_def bit_exp_iff)
qed simp

section \<open>Multiplication\<close>

text \<open>The terms of a product: the coefficients of the second factor select shifts of the first.\<close>

definition term_at :: "gf \<Rightarrow> gf \<Rightarrow> nat \<Rightarrow> gf" where
  "term_at a b k = (if bit (gf_bits b) k then (xt ^^ k) a else 0)"

lemma term_at_add_left: "term_at (a + a') b k = term_at a b k + term_at a' b k"
  by (simp add: term_at_def)

lemma term_at_add_right: "term_at a (b + b') k = term_at a b k + term_at a b' k"
  by (simp add: term_at_def bit_xor_iff)

lemma basis_prefix:
  "n \<le> 16 \<Longrightarrow> (\<Sum>k<n. term_at (GF 1) a k) = GF (take_bit n (gf_bits a))"
proof (induction n)
  case (Suc n)
  then have "(\<Sum>k<Suc n. term_at (GF 1) a k) =
      GF (take_bit n (gf_bits a)) + (if bit (gf_bits a) n then GF (push_bit n 1) else 0)"
    by (simp add: term_at_def xt_pow_one)
  also have "\<dots> = GF (take_bit (Suc n) (gf_bits a))"
    using Suc.prems
    by (auto intro!: gf.expand word_bits_ext
        simp: plus_gf_def bit_xor_iff bit_take_bit_iff bit_exp_iff less_Suc_eq)
  finally show ?case .
qed simp

lemma basis: "(\<Sum>k<16. term_at (GF 1) a k) = a"
proof -
  have "take_bit 16 (gf_bits a) = gf_bits a"
    by (rule word_bits_ext) (simp add: bit_take_bit_iff)
  then show ?thesis using basis_prefix[of 16 a] by simp
qed

instantiation gf :: times
begin

definition times_gf :: "gf \<Rightarrow> gf \<Rightarrow> gf" where
  "times_gf a b = (\<Sum>k<16. term_at a b k)"

instance ..

end

instantiation gf :: one
begin

definition one_gf :: gf where
  "one_gf = GF 1"

instance ..

end

lemma GF_1 [simp]: "GF 1 = 1"
  by (rule one_gf_def [symmetric])

lemma gf_bits_one [simp]: "gf_bits 1 = 1"
  by (simp add: one_gf_def del: GF_1)

lemma gf_distrib_right: "(a + a') * b = a * b + a' * (b :: gf)"
  by (simp add: times_gf_def term_at_add_left sum.distrib)

lemma gf_distrib_left: "a * (b + b') = a * b + a * (b' :: gf)"
  by (simp add: times_gf_def term_at_add_right sum.distrib)

lemma gf_mult_double:
  "a * b = (\<Sum>k<16. \<Sum>j<16. if bit (gf_bits a) j \<and> bit (gf_bits b) k then (xt ^^ (j + k)) 1 else 0)"
proof -
  have "term_at a b k = (\<Sum>j<16. if bit (gf_bits a) j \<and> bit (gf_bits b) k
      then (xt ^^ (j + k)) 1 else 0)" for k
  proof -
    have "term_at a b k = term_at (\<Sum>j<16. term_at (GF 1) a j) b k"
      by (simp only: basis)
    also have "\<dots> = (\<Sum>j<16. if bit (gf_bits b) k then (xt ^^ k) (term_at (GF 1) a j) else 0)"
      by (simp add: term_at_def[of _ b] xt_pow_sum)
    also have "\<dots> = (\<Sum>j<16. if bit (gf_bits a) j \<and> bit (gf_bits b) k
        then (xt ^^ (j + k)) 1 else 0)"
      by (rule sum.cong) (auto simp: term_at_def funpow_add add.commute[of _ k])
    finally show ?thesis .
  qed
  then show ?thesis by (simp add: times_gf_def)
qed

lemma gf_mult_commute: "a * b = b * (a :: gf)"
  unfolding gf_mult_double
  by (subst sum.swap) (intro sum.cong refl, auto simp: add.commute)

lemma xt_mult_left: "xt a * b = xt (a * b)"
proof -
  have "xt (term_at a b k) = term_at (xt a) b k" for k
    by (simp add: term_at_def funpow_swap1)
  moreover have "xt (sum f A) = (\<Sum>i\<in>A. xt (f i))" for f :: "nat \<Rightarrow> gf" and A
    using xt_pow_sum[of 1 f A] by simp
  ultimately show ?thesis by (simp add: times_gf_def)
qed

lemma xt_mult_right: "a * xt b = xt (a * b)"
  by (metis gf_mult_commute xt_mult_left)

lemma xt_pow_mult_right: "a * (xt ^^ k) b = (xt ^^ k) (a * b)"
  by (induction k) (simp_all add: xt_mult_right)

lemma gf_mult_0_right: "a * 0 = (0 :: gf)"
  by (simp add: times_gf_def term_at_def)

lemma gf_mult_sum_right: "a * sum f A = (\<Sum>i\<in>A. a * (f i :: gf))"
  by (induction A rule: infinite_finite_induct) (simp_all add: gf_mult_0_right gf_distrib_left)

lemma gf_mult_assoc: "(a * b) * c = a * (b * (c :: gf))"
proof -
  have "term_at (a * b) c k = a * term_at b c k" for k
    by (simp add: term_at_def xt_pow_mult_right gf_mult_0_right)
  then show ?thesis by (simp add: times_gf_def[of _ c] gf_mult_sum_right)
qed

lemma gf_mult_1_right: "a * 1 = (a :: gf)"
  using basis[of a] by (metis GF_1 gf_mult_commute times_gf_def)

instance gf :: comm_ring_1
proof
  fix a b c :: gf
  show "a * b * c = a * (b * c)" by (rule gf_mult_assoc)
  show "a * b = b * a" by (rule gf_mult_commute)
  show "1 * a = a" by (metis gf_mult_1_right gf_mult_commute)
  show "(a + b) * c = a * c + b * c" by (rule gf_distrib_right)
  show "(0 :: gf) \<noteq> 1" by (metis gf_bits_one gf_bits_zero zero_neq_one)
qed


section \<open>Evaluating products\<close>

text \<open>Sixteen shift-and-add steps multiply two given elements; used to evaluate powers.\<close>

fun mul_steps :: "nat \<Rightarrow> u16 \<Rightarrow> u16 \<Rightarrow> u16 \<Rightarrow> u16" where
  "mul_steps 0 a b p = p"
| "mul_steps (Suc n) a b p =
     mul_steps n (gf_bits (xt (GF a))) (drop_bit 1 b) (if bit b 0 then p XOR a else p)"

lemma mul_steps_eq:
  "GF (mul_steps n a b p) = GF p + (\<Sum>k<n. term_at (GF a) (GF b) k)"
proof (induction n arbitrary: a b p)
  case (Suc n)
  have "term_at (GF a) (GF b) (Suc k) = term_at (xt (GF a)) (GF (drop_bit 1 b)) k" for k
    by (simp add: term_at_def bit_drop_bit_eq funpow_swap1)
  then have "(\<Sum>k<Suc n. term_at (GF a) (GF b) k) =
      term_at (GF a) (GF b) 0 + (\<Sum>k<n. term_at (xt (GF a)) (GF (drop_bit 1 b)) k)"
    by (simp only: sum.lessThan_Suc_shift)
  with Suc show ?case
    by (simp add: term_at_def[of _ _ 0] GF_xor add.assoc)
qed simp

lemma GF_mult_steps: "GF a * GF b = GF (mul_steps 16 a b 0)"
  by (simp add: mul_steps_eq times_gf_def)

lemma xt_GF: "gf_bits (xt (GF a)) = push_bit 1 a XOR (if bit a 15 then 0x100b else 0)"
  by (simp add: xt_def)

lemma mul_steps_numeral:
  "mul_steps (numeral k) a b p = mul_steps (pred_numeral k) (gf_bits (xt (GF a))) (drop_bit 1 b)
     (if bit b 0 then p XOR a else p)"
  by (simp add: numeral_eq_Suc)

lemmas gf_mult_eval = GF_mult_steps mul_steps_numeral xt_GF

lemma gf_power_even: "z ^ numeral (Num.Bit0 w) = (z * z) ^ numeral w" for z :: gf
  by (simp add: numeral_Bit0[of w] flip: power_add power2_eq_square power_mult)

lemma gf_power_odd: "z ^ numeral (Num.Bit1 w) = z * (z * z) ^ numeral w" for z :: gf
  by (simp only: eval_nat_numeral(3) power_Suc gf_power_even)

lemmas gf_power_eval = gf_power_even gf_power_odd gf_mult_eval

lemma gf_powers_of_3:
  "GF 3 ^ 65535 = 1" "GF 3 ^ 21845 \<noteq> 1" "GF 3 ^ 13107 \<noteq> 1" "GF 3 ^ 3855 \<noteq> 1" "GF 3 ^ 255 \<noteq> 1"
  by (simp_all add: gf_power_eval one_gf_def del: GF_1)

lemma gf_powers_of_2:
  "GF 2 ^ 65535 = 1" "GF 2 ^ 21845 \<noteq> 1" "GF 2 ^ 13107 \<noteq> 1" "GF 2 ^ 3855 \<noteq> 1" "GF 2 ^ 255 \<noteq> 1"
  by (simp_all add: gf_power_eval one_gf_def del: GF_1)

section \<open>Elements of order 65535\<close>

text \<open>65535 is 3 * 5 * 17 * 257: an exponent that is 1 there and not at the four quotients
  by a prime is the order.\<close>

lemma dvd_prime_cases:
  fixes d :: nat
  assumes "d dvd p" and "p \<in> {3, 5, 17, 257}"
  shows "d = 1 \<or> d = p"
proof -
  have small: "list_all (\<lambda>p. list_all (\<lambda>d. p mod d = 0 \<longrightarrow> d = 1 \<or> d = p) [1..<Suc p]) [3, 5, 17, 257 :: nat]"
    by code_simp
  from assms have "0 < p" by auto
  with assms(1) have "d \<in> set [1..<Suc p]" and "p mod d = 0"
    by (auto simp: dvd_imp_le dvd_imp_mod_0 Suc_le_eq dvd_pos_nat)
  with small assms(2) show ?thesis
    unfolding list_all_iff by fastforce
qed

lemma proper_dvd_65535:
  fixes e :: nat
  assumes "e dvd 65535" and "e \<noteq> 65535"
  shows "e dvd 21845 \<or> e dvd 13107 \<or> e dvd 3855 \<or> e dvd 255"
proof (rule ccontr)
  assume no: "\<not> ?thesis"
  from assms(1) obtain f where f: "65535 = e * f" by (elim dvdE)
  have co: "coprime f p" if "p \<in> {3, 5, 17, 257}" for p :: nat
  proof -
    have "gcd f p \<noteq> p"
    proof
      assume "gcd f p = p"
      then obtain h where "f = p * h" by (metis dvdE gcd_dvd1)
      with f have "65535 = (e * h) * p" by (simp only: ac_simps)
      then have "65535 div p = e * h" using that by (metis div_mult_self_is_m gr0I mult_0_right
            numeral_neq_zero)
      then have "e dvd 65535 div p" by simp
      with no that show False by auto
    qed
    with dvd_prime_cases[of "gcd f p" p] that show ?thesis
      by (simp add: coprime_iff_gcd_eq_1)
  qed
  have "coprime f (3 * 5 * 17 * 257)"
    using co by (simp only: coprime_mult_right_iff) auto
  then have "coprime f 65535" by simp
  moreover have "f dvd 65535" by (simp only: f dvd_triv_right)
  ultimately have "f = 1" using coprime_absorb_left[of f 65535] by simp
  with f assms(2) show False by simp
qed

lemma power_gcd_eq_1:
  fixes g :: "'a :: comm_monoid_mult"
  assumes "g ^ a = 1" and "g ^ b = 1"
  shows "g ^ gcd a b = 1"
proof (cases "a = 0")
  case False
  then obtain x y where "a * x = b * y + gcd a b" using bezout_nat by blast
  then have "g ^ (b * y + gcd a b) = g ^ (a * x)" by simp
  with assms show ?thesis by (simp add: power_add power_mult)
qed (use assms in simp)

definition primitive :: "gf \<Rightarrow> bool" where
  "primitive g \<longleftrightarrow> g ^ 65535 = 1 \<and> g ^ 21845 \<noteq> 1 \<and> g ^ 13107 \<noteq> 1 \<and> g ^ 3855 \<noteq> 1 \<and> g ^ 255 \<noteq> 1"

lemma primitive_3: "primitive (GF 3)" and primitive_2: "primitive (GF 2)"
  by (simp_all only: primitive_def gf_powers_of_3 gf_powers_of_2 simp_thms)

lemma primitive_order:
  assumes "primitive g"
  shows "g ^ k = 1 \<longleftrightarrow> 65535 dvd k"
proof
  assume k: "g ^ k = 1"
  define e where "e = gcd k 65535"
  have "g ^ e = 1"
    using power_gcd_eq_1[OF k] assms by (simp add: e_def primitive_def)
  then have ge: "g ^ m = 1" if "e dvd m" for m
    using that by (metis dvdE power_mult power_one)
  have "e = 65535"
  proof (rule ccontr)
    assume "e \<noteq> 65535"
    moreover have "e dvd 65535" by (simp add: e_def)
    ultimately show False
      using proper_dvd_65535[of e] ge assms by (auto simp: primitive_def)
  qed
  then show "65535 dvd k" by (metis e_def gcd_dvd1)
next
  assume "65535 dvd k"
  with assms show "g ^ k = 1" by (auto simp: primitive_def power_mult)
qed

lemma primitive_nonzero: "primitive g \<Longrightarrow> g \<noteq> 0"
  by (auto simp: primitive_def)

lemma primitive_power_mod:
  assumes "primitive g"
  shows "g ^ (k mod 65535) = g ^ k"
proof -
  have "g ^ k = g ^ (65535 * (k div 65535) + k mod 65535)" by simp
  also have "\<dots> = (g ^ 65535) ^ (k div 65535) * g ^ (k mod 65535)"
    by (simp only: power_add power_mult)
  finally show ?thesis using assms by (simp add: primitive_def)
qed

lemma primitive_cancel:
  assumes "primitive g" and "g ^ k * a = g ^ k * b"
  shows "a = b"
proof -
  have "g ^ (65535 * Suc k - k) * g ^ k = 1"
    using assms(1) by (simp add: primitive_order flip: power_add)
  with assms(2) show ?thesis by (metis mult.assoc mult_1)
qed

lemma primitive_power_eq_iff:
  assumes "primitive g"
  shows "g ^ i = g ^ j \<longleftrightarrow> i mod 65535 = j mod 65535"
proof -
  have le: "g ^ i = g ^ j \<longleftrightarrow> i mod 65535 = j mod 65535" if "i \<le> j" for i j
  proof -
    have "g ^ j = g ^ i * g ^ (j - i)" using that by (simp flip: power_add)
    then have "g ^ i = g ^ j \<longleftrightarrow> g ^ (j - i) = 1"
      using primitive_cancel[OF assms, of i 1 "g ^ (j - i)"] by auto
    also have "\<dots> \<longleftrightarrow> i mod 65535 = j mod 65535"
      by (metis primitive_order[OF assms] mod_eq_dvd_iff_nat[OF that])
    finally show ?thesis .
  qed
  show ?thesis using le[of i j] le[of j i] by (metis nat_le_linear)
qed

lemma primitive_power_nonzero: "primitive g \<Longrightarrow> g ^ k \<noteq> 0"
  by (metis mult_zero_left primitive_cancel mult_zero_right zero_neq_one)

lemma primitive_generates:
  assumes "primitive g" and "a \<noteq> 0"
  shows "\<exists>i<65535. a = g ^ i"
proof -
  have inj: "inj_on (\<lambda>i. g ^ i) {..<65535}"
    by (rule inj_onI) (simp add: primitive_power_eq_iff[OF assms(1)])
  have "card ((\<lambda>i. g ^ i) ` {..<65535}) = 65535"
    using card_image[OF inj] by simp
  moreover have "(\<lambda>i. g ^ i) ` {..<65535} \<subseteq> UNIV - {0}"
    using primitive_power_nonzero[OF assms(1)] by auto
  moreover have fin: "finite (UNIV :: gf set)" and card: "card (UNIV - {0 :: gf}) = 65535"
  proof -
    have U: "(UNIV :: gf set) = range GF" by (metis gf.exhaust rangeI surj_def)
    show "finite (UNIV :: gf set)" unfolding U by simp
    have "card (UNIV :: gf set) = CARD(u16)" unfolding U by (simp add: card_image inj_def)
    then show "card (UNIV - {0 :: gf}) = 65535" by (simp add: card_word)
  qed
  ultimately have "(\<lambda>i. g ^ i) ` {..<65535} = UNIV - {0}"
    by (metis card_subset_eq finite_Diff)
  with assms(2) show ?thesis by (auto simp: image_iff set_eq_iff)
qed

lemma gf_power_65535: "a \<noteq> 0 \<Longrightarrow> a ^ 65535 = (1 :: gf)"
  using primitive_generates[OF primitive_3] primitive_order[OF primitive_3]
  by (metis dvd_triv_right power_mult)

section \<open>The field\<close>

instantiation gf :: field
begin

definition inverse_gf :: "gf \<Rightarrow> gf" where
  "inverse_gf a = a ^ 65534"

definition divide_gf :: "gf \<Rightarrow> gf \<Rightarrow> gf" where
  "divide_gf a b = a * inverse b"

instance
proof
  fix a b :: gf
  show "a \<noteq> 0 \<Longrightarrow> inverse a * a = 1"
    using gf_power_65535[of a] power_Suc[of a 65534]
    by (simp add: inverse_gf_def mult.commute[of "a ^ _"])
  show "a div b = a * inverse b" by (rule divide_gf_def)
  show "inverse (0 :: gf) = 0" by (simp add: inverse_gf_def)
qed

end

end
