(* ===== verification/GF16.thy ===== *)
theory GF16
  imports GF16_Field
begin

text \<open>
  Package \<open>gf16\<close> (file \<open>src/gf16/gf16.go\<close>), the scalar part: the bootstrap multiplication, the
  logarithm and exponential tables that \<open>init\<close> fills, and the operations of type \<open>T\<close> that read
  them. \<open>T\<close> is a \<open>uint16\<close>; the package variables \<open>logTable\<close> and \<open>expTable\<close> are a record that the
  operations take, zero-filled before \<open>init\<close> and \<open>tables\<close> after it. The lemmas relate every
  operation to the field of theory \<open>GF16_Field\<close> through the constructor \<open>GF\<close>.
\<close>

type_synonym T = u16

record gf16_tables =
  logTable :: "u16 list"
  expTable :: "T list"

definition order :: nat where
  "order = 2 ^ 16"

text \<open>Package variables start zero-filled.\<close>

definition zero_tables :: gf16_tables where
  "zero_tables = \<lparr>logTable = replicate (order - 1) 0, expTable = replicate (order - 1) 0\<rparr>"

section \<open>Multiplication without tables\<close>

text \<open>The loop of \<open>timesPoly\<close>, over \<open>uint32\<close> variables \<open>a\<close> and \<open>b\<close>.\<close>

function timesPoly_loop :: "u32 \<Rightarrow> u32 \<Rightarrow> T \<Rightarrow> T" where
  "timesPoly_loop a b product =
     (if b > 0 then
        (let product' = (if b AND 1 \<noteq> 0 then product XOR ucast a else product);
             a1 = push_bit 1 a;
             a2 = (if a1 AND 0x10000 \<noteq> 0 then a1 XOR 0x1100b else a1)
         in timesPoly_loop a2 (drop_bit 1 b) product')
      else product)"
  by pat_completeness auto
termination
proof (relation "measure (\<lambda>(a, b, p). unat b)")
  fix b :: u32
  assume "b > 0"
  then have "unat b > 0" by (simp add: unat_gt_0 word_gt_0)
  then show "\<And>a p x xa xb. ((xb :: u32, drop_bit 1 b, x :: T), a :: u32, b, p :: T) \<in> measure (\<lambda>(a, b, p). unat b)"
    by (simp add: unat_div drop_bit_Suc)
qed simp

declare timesPoly_loop.simps [simp del]

definition timesPoly :: "T \<Rightarrow> T \<Rightarrow> T" where
  "timesPoly t u = timesPoly_loop (ucast t) (ucast u) 0"

text \<open>\<open>multByTwo\<close> doubles without a branch: the mask is the negated top bit, all ones or zero.\<close>

definition multByTwo :: "u16 \<Rightarrow> u16" where
  "multByTwo p = push_bit 1 p XOR (0x100b AND (- drop_bit 15 p))"

section \<open>Table construction\<close>

text \<open>The body of the loop of \<open>init\<close>: the three consistency panics, then the two stores. The
  state is the tables and \<open>x\<close>, the current power of the generator 3.\<close>

definition init_step :: "nat \<Rightarrow> gf16_tables \<times> T \<Rightarrow> (gf16_tables \<times> T) res" where
  "init_step p s =
     (let (tb, x) = s in
      if x = 1 \<and> p \<noteq> 0 then Panic ''repeated power (1)''
      else if x \<noteq> 1 \<and> logTable tb ! (unat x - 1) \<noteq> 0 then Panic ''repeated power''
      else if expTable tb ! p \<noteq> 0 then Panic ''repeated exponent''
      else Ret (tb\<lparr>logTable := (logTable tb)[unat x - 1 := of_nat p],
                   expTable := (expTable tb)[p := x]\<rparr>,
                timesPoly x 3))"

fun init_loop :: "nat list \<Rightarrow> gf16_tables \<times> T \<Rightarrow> (gf16_tables \<times> T) res" where
  "init_loop [] s = Ret s"
| "init_loop (p # ps) s = bindR (init_step p s) (init_loop ps)"

definition init_tables :: "gf16_tables res" where
  "init_tables = bindR (init_loop [0..<order - 1] (zero_tables, 1)) (\<lambda>(tb, x). Ret tb)"

text \<open>The package state every caller sees: what \<open>init\<close> leaves behind.\<close>

definition tables :: gf16_tables where
  "tables = (case init_tables of Ret tb \<Rightarrow> tb | _ \<Rightarrow> zero_tables)"

section \<open>Field operations by table\<close>

definition Times :: "gf16_tables \<Rightarrow> T \<Rightarrow> T \<Rightarrow> T" where
  "Times tb t u =
     (if t = 0 \<or> u = 0 then 0
      else if expTable tb ! 1 = 0 then timesPoly t u
      else let logT = unat (logTable tb ! (unat t - 1));
               logU = unat (logTable tb ! (unat u - 1))
           in expTable tb ! ((logT + logU) mod (order - 1)))"

definition Inverse :: "gf16_tables \<Rightarrow> T \<Rightarrow> T res" where
  "Inverse tb t =
     (if t = 0 then Panic ''zero has no inverse''
      else let logT = int (unat (logTable tb ! (unat t - 1)))
           in Ret (expTable tb ! nat ((- logT + int (order - 1)) mod int (order - 1))))"

definition Div :: "gf16_tables \<Rightarrow> T \<Rightarrow> T \<Rightarrow> T res" where
  "Div tb t u =
     (if u = 0 then Panic ''division by zero''
      else if t = 0 then Ret 0
      else let logT = int (unat (logTable tb ! (unat t - 1)));
               logU = int (unat (logTable tb ! (unat u - 1)))
           in Ret (expTable tb ! nat ((logT - logU + int (order - 1)) mod int (order - 1))))"

definition Pow :: "gf16_tables \<Rightarrow> T \<Rightarrow> u32 \<Rightarrow> T" where
  "Pow tb t p =
     (if t = 0 then (if p = 0 then 1 else 0)
      else let logT = ucast (logTable tb ! (unat t - 1)) :: u64
           in expTable tb ! unat ((logT * ucast p) mod of_nat (order - 1)))"


section \<open>Multiplication without tables is field multiplication\<close>

lemma bit_0x10000: "bit (0x10000 :: u32) k \<longleftrightarrow> k = 16"
  using bit_exp_iff[of 16 k, where 'a = u32] by auto

lemma shift_in_uint32:
  "push_bit 1 (ucast a :: u32) = ucast (push_bit 1 a) XOR (if bit a 15 then 0x10000 else 0)" for a :: u16
proof (rule word_bits_ext)
  fix k :: nat
  assume "k < LENGTH(32)"
  then have k: "k < 32" by simp
  then have "k - 1 < 32" by simp
  have hi: "16 < k \<Longrightarrow> \<not> bit a (k - 1)" by (auto dest: bit_imp_le_length)
  have top: "bit (if bit a 15 then 0x10000 else 0 :: u32) k \<longleftrightarrow> bit a 15 \<and> k = 16"
    using bit_0x10000[of k] by (cases "bit a 15") simp_all
  consider "k = 0" | "0 < k" "k < 16" | "k = 16" | "16 < k" by linarith
  then show "bit (push_bit 1 (ucast a :: u32)) k =
      bit (ucast (push_bit 1 a) XOR (if bit a 15 then 0x10000 else 0 :: u32)) k"
    unfolding bit_xor_iff top using k hi \<open>k - 1 < 32\<close>
    by cases (simp_all add: bit_push_bit_iff bit_unsigned_iff Suc_le_eq del: push_bit_Suc)
qed

lemma double_in_uint32:
  fixes a :: u16
  defines "a1 \<equiv> push_bit 1 (ucast a :: u32)"
  shows "(if a1 AND 0x10000 \<noteq> 0 then a1 XOR 0x1100b else a1) = ucast (gf_bits (xt (GF a)))"
proof -
  have "a1 AND 0x10000 \<noteq> 0 \<longleftrightarrow> bit a1 16"
    using and_exp_eq_0_iff_not_bit[of a1 16] by simp
  also have "\<dots> \<longleftrightarrow> bit a 15"
    by (simp add: a1_def bit_push_bit_iff bit_unsigned_iff del: push_bit_Suc)
  finally have top: "a1 AND 0x10000 \<noteq> 0 \<longleftrightarrow> bit a 15" .
  have "(0x1100b :: u32) = 0x10000 XOR ucast (0x100b :: u16)" by simp
  then show ?thesis
    unfolding top using shift_in_uint32[of a]
    by (simp add: a1_def xt_GF ucast_xor xor.assoc)
qed

lemma ucast_up_down: "ucast (ucast a :: u32) = (a :: u16)"
  by (rule word_bits_ext) (simp add: bit_unsigned_iff)

lemma timesPoly_loop_eq:
  "(\<And>k. n \<le> k \<Longrightarrow> \<not> bit b k) \<Longrightarrow> n \<le> 16 \<Longrightarrow>
     GF (timesPoly_loop (ucast a) b p) = GF p + (\<Sum>k<n. term_at (GF a) (GF (ucast b)) k)"
proof (induction n arbitrary: a b p)
  case 0
  then have "b = 0" by (auto intro: bit_word_eqI)
  then show ?case by (subst timesPoly_loop.simps) simp
next
  case (Suc n)
  let ?a = "gf_bits (xt (GF a))" and ?p = "if bit b 0 then p XOR a else p"
  have b: "\<not> bit (drop_bit 1 b) k" if "n \<le> k" for k
    using Suc.prems(1)[of "Suc k"] that by (simp add: bit_drop_bit_eq)
  have "timesPoly_loop (ucast a) b p = timesPoly_loop (ucast ?a) (drop_bit 1 b) ?p"
  proof (cases "b = 0")
    case False
    then show ?thesis
      using double_in_uint32[of a]
      by (subst timesPoly_loop.simps) (auto simp: Let_def word_gt_0 ucast_up_down simp del: push_bit_Suc)
  next
    case True
    then show ?thesis by (simp add: timesPoly_loop.simps)
  qed
  moreover have "term_at (GF a) (GF (ucast b)) (Suc k) = term_at (xt (GF a)) (GF (ucast (drop_bit 1 b))) k"
    for k
    using Suc.prems(1)[of "Suc k"] Suc.prems(2)
    by (auto simp: term_at_def bit_drop_bit_eq bit_unsigned_iff funpow_swap1)
  ultimately show ?case
    using Suc.IH[OF b, of ?a ?p] Suc.prems(2)
    by (simp only: sum.lessThan_Suc_shift) (simp add: term_at_def[of _ _ 0] GF_xor add.assoc bit_unsigned_iff)
qed

lemma GF_timesPoly [simp]: "GF (timesPoly t u) = GF t * GF u"
proof -
  have "\<not> bit (ucast u :: u32) k" if "16 \<le> k" for k
    using that bit_imp_le_length[of u k] by (auto simp: bit_unsigned_iff)
  from timesPoly_loop_eq[OF this, of 16 t 0] show ?thesis
    by (simp add: timesPoly_def times_gf_def ucast_up_down)
qed

lemma multByTwo_xt: "GF (multByTwo p) = xt (GF p)"
proof -
  have "drop_bit 15 p = (if bit p 15 then 1 else 0)"
  proof (rule word_bits_ext)
    show "bit (drop_bit 15 p) k = bit (if bit p 15 then 1 else 0 :: u16) k" for k
      using bit_imp_le_length[of p "15 + k"] by (cases k) (auto simp: bit_drop_bit_eq bit_1_iff)
  qed
  then show ?thesis by (simp add: multByTwo_def xt_def)
qed


section \<open>The tables\<close>

text \<open>\<open>pw i\<close> is the i-th power of the generator, \<open>log_slot i\<close> the slot of \<open>logTable\<close> that holds \<open>i\<close>.\<close>

definition pw :: "nat \<Rightarrow> u16" where
  "pw i = gf_bits (GF 3 ^ i)"

definition log_slot :: "nat \<Rightarrow> nat" where
  "log_slot i = unat (pw i) - 1"

lemma GF_pw [simp]: "GF (pw i) = GF 3 ^ i"
  by (simp add: pw_def)

lemma pw_nonzero [simp]: "pw i \<noteq> 0"
  by (simp add: pw_def primitive_power_nonzero primitive_3)

lemma pw_eq_iff: "pw i = pw j \<longleftrightarrow> i mod 65535 = j mod 65535"
  by (metis GF_pw gf.sel primitive_3 primitive_power_eq_iff)

lemma pw_mod [simp]: "pw (i mod 65535) = pw i"
  by (simp add: pw_eq_iff)

lemma pw_surj: "t \<noteq> 0 \<Longrightarrow> \<exists>i<65535. t = pw i"
  using primitive_generates[OF primitive_3, of "GF t"] by (metis GF_eq_0_iff gf.sel pw_def)

lemma unat_nonzero_pos: "t \<noteq> 0 \<Longrightarrow> 0 < unat (t :: u16)"
  by (simp add: unat_gt_0)

lemma unat_lt_2_16: "unat (t :: u16) < 65536"
  using unsigned_less[of t] by simp

lemma log_slot_less: "log_slot i < 65535"
  using unat_lt_2_16[of "pw i"] unat_nonzero_pos[of "pw i"] by (simp add: log_slot_def)

lemma log_slot_eq_iff: "i < 65535 \<Longrightarrow> j < 65535 \<Longrightarrow> log_slot i = log_slot j \<longleftrightarrow> i = j"
proof -
  assume "i < 65535" "j < 65535"
  have "log_slot i = log_slot j \<longleftrightarrow> pw i = pw j"
    using unat_nonzero_pos[OF pw_nonzero[of i]] unat_nonzero_pos[OF pw_nonzero[of j]]
    unfolding log_slot_def by (auto simp: eq_diff_iff intro: unsigned_word_eqI)
  then show ?thesis using \<open>i < 65535\<close> \<open>j < 65535\<close> by (simp add: pw_eq_iff)
qed

text \<open>The state of the loop of \<open>init\<close> before step \<open>p\<close>.\<close>

definition init_inv :: "nat \<Rightarrow> gf16_tables \<times> T \<Rightarrow> bool" where
  "init_inv p s \<longleftrightarrow> snd s = pw p \<and>
     length (logTable (fst s)) = 65535 \<and> length (expTable (fst s)) = 65535 \<and>
     (\<forall>i<65535. expTable (fst s) ! i = (if i < p then pw i else 0)) \<and>
     (\<forall>i<65535. logTable (fst s) ! log_slot i = (if i < p then of_nat i else 0))"

lemma init_inv_start: "init_inv 0 (zero_tables, 1)"
proof -
  have "pw 0 = 1" by (simp add: pw_def)
  then show ?thesis
    using log_slot_less by (simp add: init_inv_def zero_tables_def order_def)
qed

lemma init_step_inv:
  assumes inv: "init_inv p s" and p: "p < 65535"
  shows "\<exists>s'. init_step p s = Ret s' \<and> init_inv (Suc p) s'"
proof -
  obtain tb x where s: "s = (tb, x)" by (cases s)
  have x: "x = pw p" using inv by (simp add: init_inv_def s)
  have "pw 0 = 1" by (simp add: pw_def)
  then have one: "x = 1 \<longleftrightarrow> p = 0"
    using x p pw_eq_iff[of p 0] by simp
  have slot: "logTable tb ! (unat x - 1) = 0" "expTable tb ! p = 0"
    using inv p by (auto simp: init_inv_def s x log_slot_def)
  have "GF (timesPoly x 3) = GF (pw (Suc p))" by (simp add: x)
  then have next_x: "timesPoly x 3 = pw (Suc p)" by (simp only: gf.inject)
  let ?tb = "tb\<lparr>logTable := (logTable tb)[log_slot p := of_nat p], expTable := (expTable tb)[p := pw p]\<rparr>"
  have "init_step p s = Ret (?tb, pw (Suc p))"
    using one slot next_x by (auto simp: init_step_def s x log_slot_def)
  moreover have "init_inv (Suc p) (?tb, pw (Suc p))"
    using inv p unfolding init_inv_def s
    by (auto simp: nth_list_update less_Suc_eq log_slot_less log_slot_eq_iff)
  ultimately show ?thesis by blast
qed

lemma init_loop_inv:
  "init_inv p s \<Longrightarrow> p \<le> n \<Longrightarrow> n \<le> 65535 \<Longrightarrow> \<exists>s'. init_loop [p..<n] s = Ret s' \<and> init_inv n s'"
proof (induction "n - p" arbitrary: p s)
  case (Suc k)
  then have "p < 65535" by simp
  with Suc.prems(1) obtain s' where "init_step p s = Ret s'" "init_inv (Suc p) s'"
    using init_step_inv by blast
  with Suc show ?case by (simp add: upt_conv_Cons)
qed auto

lemma init_tables_inv: "\<exists>x. init_tables = Ret tables \<and> init_inv 65535 (tables, x)"
proof -
  obtain tb x where "init_loop [0..<65535] (zero_tables, 1) = Ret (tb, x)" "init_inv 65535 (tb, x)"
    using init_loop_inv[OF init_inv_start, of 65535] by auto
  then have "init_tables = Ret tb" by (simp add: init_tables_def order_def)
  moreover from this have "tables = tb" unfolding tables_def by (rule ssubst) simp
  ultimately show ?thesis using \<open>init_inv 65535 (tb, x)\<close> by auto
qed

lemma expTable_nth: "i < 65535 \<Longrightarrow> expTable tables ! i = pw i"
  using init_tables_inv by (auto simp: init_inv_def)

lemma logTable_nth: "i < 65535 \<Longrightarrow> logTable tables ! (unat (pw i) - Suc 0) = of_nat i"
  using init_tables_inv by (auto simp: init_inv_def log_slot_def)

lemma length_tables: "length (logTable tables) = 65535" "length (expTable tables) = 65535"
  using init_tables_inv by (auto simp: init_inv_def)

lemma logTable_unat: "i < 65535 \<Longrightarrow> unat (logTable tables ! (unat (pw i) - Suc 0)) = i"
  by (simp add: logTable_nth unat_of_nat)

section \<open>Table operations are field operations\<close>

lemma GF_Times [simp]: "GF (Times tables t u) = GF t * GF u"
proof (cases "t = 0 \<or> u = 0")
  case False
  then obtain i j where ij: "i < 65535" "j < 65535" "t = pw i" "u = pw j" using pw_surj by metis
  have "expTable tables ! 1 \<noteq> 0" by (simp add: expTable_nth)
  with False ij have "Times tables t u = pw (i + j)"
    by (simp add: Times_def logTable_unat expTable_nth order_def)
  with ij show ?thesis by (simp add: power_add)
qed (auto simp: Times_def)

lemma GF_Times_zero_tables: "GF (Times zero_tables t u) = GF t * GF u"
  by (auto simp: Times_def zero_tables_def order_def)

lemma Inverse_correct: "t \<noteq> 0 \<Longrightarrow> \<exists>r. Inverse tables t = Ret r \<and> GF r = inverse (GF t)"
proof -
  assume "t \<noteq> 0"
  then obtain i where i: "i < 65535" "t = pw i" using pw_surj by metis
  have "- int i + 65535 = int (65535 - i)" using i(1) by simp
  then have "nat ((- int i + 65535) mod 65535) = (65535 - i) mod 65535"
    by (metis nat_int of_nat_mod of_nat_numeral)
  with i have "Inverse tables t = Ret (pw (65535 - i))"
    by (simp add: Inverse_def logTable_unat expTable_nth order_def)
  moreover have "GF 3 ^ (65535 - i) * GF 3 ^ i = 1"
    using i(1) gf_powers_of_3(1) by (simp flip: power_add)
  then have "GF 3 ^ (65535 - i) = inverse (GF 3 ^ i)"
    by (metis inverse_unique mult.commute)
  ultimately show ?thesis using i by simp
qed

lemma Div_correct: "u \<noteq> 0 \<Longrightarrow> \<exists>r. Div tables t u = Ret r \<and> GF r = GF t / GF u"
proof (cases "t = 0")
  case False
  assume "u \<noteq> 0"
  with False obtain i j where ij: "i < 65535" "j < 65535" "t = pw i" "u = pw j" using pw_surj by metis
  have "int i - int j + 65535 = int (i + (65535 - j))" using ij(2) by simp
  then have "nat ((int i - int j + 65535) mod 65535) = (i + (65535 - j)) mod 65535"
    by (metis nat_int of_nat_mod of_nat_numeral)
  with ij have "Div tables t u = Ret (pw (i + (65535 - j)))"
    by (simp add: Div_def logTable_unat expTable_nth order_def)
  moreover have "GF 3 ^ (i + (65535 - j)) * GF 3 ^ j = GF 3 ^ i"
    using ij gf_powers_of_3(1) by (simp flip: power_add) (simp add: power_add)
  then have "GF 3 ^ (i + (65535 - j)) = GF 3 ^ i / GF 3 ^ j"
    by (metis eq_divide_eq primitive_power_nonzero primitive_3)
  ultimately show ?thesis using ij by simp
qed (simp add: Div_def)

lemma unat_mul_mod_u64:
  fixes l :: u16 and p :: u32
  shows "unat ((ucast l :: u64) * ucast p mod 65535) = unat l * unat p mod 65535"
proof -
  have up: "unat (ucast l :: u64) = unat l" "unat (ucast p :: u64) = unat p"
    by (auto simp: unsigned_ucast_eq intro!: take_bit_nat_eq_self less_le_trans[OF unsigned_less])
  have "unat l * unat p < 2 ^ 16 * 2 ^ 32"
    using unsigned_less[of l] unsigned_less[of p] by (intro mult_strict_mono) auto
  then show ?thesis by (simp add: unat_mod unat_word_ariths up)
qed

lemma GF_Pow [simp]: "GF (Pow tables t p) = GF t ^ unat p"
proof (cases "t = 0")
  case True
  then show ?thesis by (auto simp: Pow_def power_0_left unat_gt_0)
next
  case False
  then obtain i where i: "i < 65535" "t = pw i" using pw_surj by metis
  with False have "Pow tables t p = pw (i * unat p)"
    by (simp add: Pow_def logTable_unat unat_mul_mod_u64 expTable_nth order_def)
  with i show ?thesis by (simp add: power_mult)
qed

section \<open>Properties\<close>

text \<open>C27. The package initializer of \<open>gf16\<close> terminates without the panic of its cycle check and fills both
  tables: the entry of the exponential table at \<open>i\<close> is the \<open>i\<close>-th power of the primitive element, the
  entry of the logarithm table for that power is \<open>i\<close>, and every nonzero element is such a power.\<close>

theorem init_tables_correct:
  "init_tables = Ret tables \<and> length (expTable tables) = 65535 \<and> length (logTable tables) = 65535 \<and>
   (\<forall>i. i < 65535 \<longrightarrow> GF (expTable tables ! i) = GF 3 ^ i \<and>
      logTable tables ! (unat (expTable tables ! i) - 1) = of_nat i) \<and>
   (\<forall>t. t \<noteq> 0 \<longrightarrow> t \<in> set (expTable tables))"
proof -
  have "t \<in> set (expTable tables)" if t: "t \<noteq> 0" for t
  proof -
    obtain i where i: "i < 65535" "t = pw i" using pw_surj[OF t] by blast
    then have "expTable tables ! i = t" by (simp add: expTable_nth)
    then show ?thesis using i(1) length_tables(2) nth_mem by metis
  qed
  moreover have "\<exists>x. init_tables = Ret tables \<and> init_inv 65535 (tables, x)" by (rule init_tables_inv)
  ultimately show ?thesis by (auto simp: length_tables expTable_nth logTable_nth)
qed

theorem init_tables_correct_witness:
  "GF (expTable tables ! 7) = GF 3 ^ 7 \<and> logTable tables ! (unat (expTable tables ! 7) - 1) = 7 \<and>
   (5 :: T) \<in> set (expTable tables)"
proof -
  have "(7 :: nat) < 65535 \<longrightarrow> GF (expTable tables ! 7) = GF 3 ^ 7 \<and>
      logTable tables ! (unat (expTable tables ! 7) - 1) = of_nat 7"
    "(5 :: T) \<noteq> 0 \<longrightarrow> 5 \<in> set (expTable tables)"
    using init_tables_correct by blast+
  then show ?thesis by simp
qed

text \<open>C28. The table-driven operations are the operations of the field with \<open>2 ^ 16\<close> elements: \<open>Times\<close> (and
  its fallback, the shift-and-add product used before the tables are filled), \<open>Pow\<close>, and for a
  nonzero operand \<open>Inverse\<close> and \<open>Div\<close>, which return without a panic there and panic on zero.\<close>

theorem field_operations:
  "GF (Times tables t u) = GF t * GF u \<and> GF (Times zero_tables t u) = GF t * GF u \<and>
   GF (timesPoly t u) = GF t * GF u \<and> GF (Pow tables t p) = GF t ^ unat p \<and>
   (if u = 0 then Inverse tables u = Panic ''zero has no inverse'' \<and> Div tables t u = Panic ''division by zero''
    else (\<exists>r q. Inverse tables u = Ret r \<and> GF r = inverse (GF u) \<and>
                 Div tables t u = Ret q \<and> GF q = GF t / GF u))"
proof (cases "u = 0")
  case True
  then show ?thesis by (simp add: GF_Times_zero_tables Inverse_def Div_def)
next
  case False
  then show ?thesis
    using Inverse_correct[OF False] Div_correct[OF False, of t] by (auto simp: GF_Times_zero_tables)
qed

end
