(* ===== verification/Bytes.thy ===== *)
theory Bytes
  imports Prelude
begin

text \<open>
  Byte slices and Go's \<open>encoding/binary\<close> little-endian access to them: reading and writing a
  \<open>uint16\<close> at an index, the elements a slice holds, and reading a \<open>uint32\<close> or \<open>uint64\<close>. A call that
  takes an input and an output slice may be given two separate slices or the same slice twice
  (\<open>src\<close>); \<open>upd_range\<close> says that exactly the elements of an index range were replaced, each by a
  function of the input element and the old output element at its own index.
\<close>

type_synonym bytes = "u8 list"

section \<open>Little-endian words\<close>

fun le_word :: "bytes \<Rightarrow> 'a :: len word" where
  "le_word [] = 0"
| "le_word (b # bs) = ucast b OR push_bit 8 (le_word bs)"

definition le16 :: "u8 \<Rightarrow> u8 \<Rightarrow> u16" where
  "le16 lo hi = ucast lo OR push_bit 8 (ucast hi)"

text \<open>\<open>binary.LittleEndian.Uint16(bs[i:])\<close> and \<open>PutUint16(bs[i:], v)\<close>.\<close>

definition getU16 :: "bytes \<Rightarrow> nat \<Rightarrow> u16" where
  "getU16 bs i = le16 (bs ! i) (bs ! (i + 1))"

definition putU16 :: "bytes \<Rightarrow> nat \<Rightarrow> u16 \<Rightarrow> bytes" where
  "putU16 bs i v = bs[i := ucast v, i + 1 := ucast (drop_bit 8 v)]"

lemma bit_le16: "bit (le16 lo hi) k \<longleftrightarrow> (if k < 8 then bit lo k else bit hi (k - 8))"
proof -
  have "bit lo k \<Longrightarrow> k < 8" "bit hi (k - 8) \<Longrightarrow> k < 16"
    using bit_imp_le_length[of lo k] bit_imp_le_length[of hi "k - 8"] by auto
  then show ?thesis
    by (auto simp: le16_def bit_or_iff bit_push_bit_iff bit_unsigned_iff)
qed

lemma le16_split [simp]: "le16 (ucast v) (ucast (drop_bit 8 v)) = v"
  by (rule word_bits_ext) (auto simp: bit_le16 bit_unsigned_iff bit_drop_bit_eq)

lemma ucast_le16 [simp]: "ucast (le16 lo hi) = lo" "ucast (drop_bit 8 (le16 lo hi)) = hi"
  by (rule word_bits_ext; simp add: bit_le16 bit_unsigned_iff bit_drop_bit_eq)+

lemma le16_inject [simp]: "le16 a b = le16 c d \<longleftrightarrow> a = c \<and> b = d"
  by (metis ucast_le16)

lemma length_putU16 [simp]: "length (putU16 bs i v) = length bs"
  by (simp add: putU16_def)

lemma getU16_putU16_same: "i + 1 < length bs \<Longrightarrow> getU16 (putU16 bs i v) i = v"
  by (simp add: getU16_def putU16_def nth_list_update)

lemma getU16_putU16_other: "j + 1 < i \<or> i + 1 < j \<Longrightarrow> getU16 (putU16 bs i v) j = getU16 bs j"
  by (auto simp: getU16_def putU16_def nth_list_update)

section \<open>Slices as element lists\<close>

fun elems :: "bytes \<Rightarrow> u16 list" where
  "elems (lo # hi # bs) = le16 lo hi # elems bs"
| "elems _ = []"

fun of_elems :: "u16 list \<Rightarrow> bytes" where
  "of_elems [] = []"
| "of_elems (v # vs) = ucast v # ucast (drop_bit 8 v) # of_elems vs"

lemma length_elems [simp]: "length (elems bs) = length bs div 2"
  by (induction bs rule: elems.induct) auto

lemma length_of_elems [simp]: "length (of_elems vs) = 2 * length vs"
  by (induction vs) auto

lemma elems_of_elems [simp]: "elems (of_elems vs) = vs"
  by (induction vs) auto

lemma of_elems_elems [simp]: "even (length bs) \<Longrightarrow> of_elems (elems bs) = bs"
  by (induction bs rule: elems.induct) auto

lemma elems_inject:
  "even (length xs) \<Longrightarrow> length xs = length ys \<Longrightarrow> elems xs = elems ys \<longleftrightarrow> xs = ys"
  by (metis of_elems_elems)

lemma elems_nth: "2 * k + 1 < length bs \<Longrightarrow> elems bs ! k = getU16 bs (2 * k)"
proof (induction bs arbitrary: k rule: elems.induct)
  case (1 lo hi bs)
  then show ?case by (cases k) (auto simp: getU16_def)
qed auto

lemma elems_append: "even (length xs) \<Longrightarrow> elems (xs @ ys) = elems xs @ elems ys"
  by (induction xs rule: elems.induct) auto

lemma elems_take: "elems (take (2 * n) bs) = take n (elems bs)"
proof (induction bs arbitrary: n rule: elems.induct)
  case (1 lo hi bs)
  then show ?case by (cases n) auto
qed (auto simp: take_Cons')

lemma elems_drop: "elems (drop (2 * n) bs) = drop n (elems bs)"
proof (induction bs arbitrary: n rule: elems.induct)
  case (1 lo hi bs)
  then show ?case by (cases n) auto
qed (auto simp: drop_Cons')

lemma elems_replicate_0: "elems (replicate n 0) = replicate (n div 2) 0"
proof (induction n rule: induct_nat_012)
  case (ge2 n)
  then show ?case by (simp add: le16_def)
qed auto

section \<open>Input and output slices\<close>

datatype src = Other bytes | Same

fun view :: "src \<Rightarrow> bytes \<Rightarrow> bytes" where
  "view (Other xs) out = xs"
| "view Same out = out"

text \<open>Re-slicing both arguments of a call: \<open>in[k:]\<close> and \<open>in[:k]\<close>.\<close>

fun src_drop :: "nat \<Rightarrow> src \<Rightarrow> src" where
  "src_drop k (Other xs) = Other (drop k xs)"
| "src_drop k Same = Same"

fun src_take :: "nat \<Rightarrow> src \<Rightarrow> src" where
  "src_take k (Other xs) = Other (take k xs)"
| "src_take k Same = Same"

lemma view_src_drop [simp]: "view (src_drop k inp) (drop k out) = drop k (view inp out)"
  by (cases inp) auto

lemma view_src_take [simp]: "view (src_take k inp) (take k out) = take k (view inp out)"
  by (cases inp) auto

lemma length_view_putU16 [simp]: "length (view inp (putU16 out i v)) = length (view inp out)"
  by (cases inp) auto

definition upd_range :: "nat \<Rightarrow> nat \<Rightarrow> (u16 \<Rightarrow> u16 \<Rightarrow> u16) \<Rightarrow> src \<Rightarrow> bytes \<Rightarrow> bytes \<Rightarrow> bool" where
  "upd_range i j f inp out out' \<longleftrightarrow> length out' = length out \<and>
     (\<forall>k < length out div 2. elems out' ! k =
        (if i \<le> 2 * k \<and> 2 * k < j then f (elems (view inp out) ! k) (elems out ! k)
         else elems out ! k))"

lemma upd_range_empty: "j \<le> i \<Longrightarrow> upd_range i j f inp out out"
  by (auto simp: upd_range_def)

lemma upd_range_view:
  assumes "upd_range i j f inp out out'" and "k < length out div 2" and "\<not> (i \<le> 2 * k \<and> 2 * k < j)"
  shows "elems (view inp out') ! k = elems (view inp out) ! k"
  using assms by (cases inp) (auto simp: upd_range_def)

lemma upd_range_trans:
  assumes "upd_range i j f inp out out1" and "upd_range j l f inp out1 out2" and "i \<le> j" "j \<le> l"
  shows "upd_range i l f inp out out2"
proof -
  have len: "length out1 = length out" "length out2 = length out"
    using assms(1,2) by (auto simp: upd_range_def)
  have "elems out2 ! k = (if i \<le> 2 * k \<and> 2 * k < l then f (elems (view inp out) ! k) (elems out ! k)
      else elems out ! k)" if k: "k < length out div 2" for k
    using assms k len upd_range_view[OF assms(1) k] by (auto simp: upd_range_def)
  then show ?thesis by (simp add: upd_range_def len)
qed

lemma upd_range_putU16:
  assumes "even i" and "i + 1 < length out" and "length (view inp out) = length out"
  shows "upd_range i (i + 2) f inp out (putU16 out i (f (getU16 (view inp out) i) (getU16 out i)))"
proof -
  obtain m where m: "i = 2 * m" using assms(1) by (elim evenE)
  have "elems (putU16 out i v) ! k = (if k = m then v else elems out ! k)"
    if "k < length out div 2" for k v
  proof -
    have "k \<noteq> m \<Longrightarrow> 2 * k + 1 < i \<or> i + 1 < 2 * k" using m by presburger
    then show ?thesis
      using that assms(2) m getU16_putU16_other[of "2 * k" i out v]
      by (cases "k = m") (auto simp: elems_nth getU16_putU16_same)
  qed
  moreover have "getU16 (view inp out) i = elems (view inp out) ! m" "getU16 out i = elems out ! m"
    using m assms(2,3) by (simp_all add: elems_nth)
  moreover have "i \<le> 2 * k \<and> 2 * k < i + 2 \<longleftrightarrow> k = m" for k using m by auto
  ultimately show ?thesis by (simp add: upd_range_def)
qed

lemma upd_range_all:
  assumes "upd_range 0 n f inp out out'" and "length out \<le> n" and "length (view inp out) = length out"
  shows "elems out' = map2 f (elems (view inp out)) (elems out)"
  using assms by (auto simp: upd_range_def intro!: nth_equalityI)

lemma upd_range_cong:
  "upd_range i j f inp out out' \<Longrightarrow> (\<And>k. k < length out div 2 \<Longrightarrow>
     f (elems (view inp out) ! k) (elems out ! k) = g (elems (view inp out) ! k) (elems out ! k)) \<Longrightarrow>
   upd_range i j g inp out out'"
  by (simp add: upd_range_def)

end
