(* ===== verification/GF16_Scalar.thy ===== *)
theory GF16_Scalar
  imports GF16 Bytes
begin

text \<open>
  The portable slice kernels of \<open>src/gf16/gf16.go\<close>: the 1 KB product table of a coefficient
  (\<open>calcTable\<close>), and \<open>mulScalarByteSliceLE\<close> and \<open>mulAndAddScalarByteSliceLE\<close> with their two
  shapes, element by element through the logarithm tables up to \<open>smallSliceBytes\<close> and through the
  product table, four elements at a time, above it. The lemmas show that both shapes store
  the field product at every element, whether the two slices are separate or the same.
\<close>

record mulTable =
  s0 :: "T list"
  s8 :: "T list"

definition smallSliceBytes :: nat where
  "smallSliceBytes = 64"

definition zero_mulTable :: mulTable where
  "zero_mulTable = \<lparr>s0 = replicate 256 0, s8 = replicate 256 0\<rparr>"

section \<open>The product table\<close>

text \<open>The inner loop over \<open>k\<close> and the outer loop over \<open>j = 1, 2, 4, ..., 128\<close> of \<open>calcTable\<close>; the
  outer loop returns the coefficient too, which the second half of the table continues with.\<close>

function calcTable_inner :: "nat \<Rightarrow> nat \<Rightarrow> u16 \<Rightarrow> T list \<Rightarrow> T list" where
  "calcTable_inner k j coeff tab =
     (if k < j then calcTable_inner (Suc k) j coeff (tab[k + j := tab ! k XOR coeff]) else tab)"
  by pat_completeness auto
termination
  by (relation "measure (\<lambda>(k, j, c, t). j - k)") auto

function calcTable_outer :: "nat \<Rightarrow> u16 \<Rightarrow> T list \<Rightarrow> u16 \<times> T list" where
  "calcTable_outer j coeff tab =
     (if 0 < j \<and> j < 256
      then calcTable_outer (2 * j) (multByTwo coeff) (calcTable_inner 0 j coeff tab)
      else (coeff, tab))"
  by pat_completeness auto
termination
  by (relation "measure (\<lambda>(j, c, t). 256 - j)") auto

declare calcTable_inner.simps [simp del] calcTable_outer.simps [simp del]

definition calcTable :: "T \<Rightarrow> mulTable \<Rightarrow> mulTable" where
  "calcTable c table =
     (let (coeff, t0) = calcTable_outer 1 c ((s0 table)[0 := 0]);
          (coeff', t8) = calcTable_outer 1 coeff ((s8 table)[0 := 0])
      in table\<lparr>s0 := t0, s8 := t8\<rparr>)"

text \<open>The product of an element given by its two bytes: \<open>table.s0[lo] ^ table.s8[hi]\<close>.\<close>

definition mul_by_table :: "mulTable \<Rightarrow> u8 \<Rightarrow> u8 \<Rightarrow> T" where
  "mul_by_table table lo hi = s0 table ! unat lo XOR s8 table ! unat hi"

section \<open>The kernels\<close>

text \<open>The product read off the logarithm tables, with the logarithm of the coefficient hoisted.\<close>

definition mul_by_log :: "nat \<Rightarrow> T \<Rightarrow> T" where
  "mul_by_log logC v =
     (if v \<noteq> 0 then expTable tables ! ((logC + unat (logTable tables ! (unat v - 1))) mod (order - 1))
      else 0)"

function mulSmall_loop :: "nat \<Rightarrow> src \<Rightarrow> nat \<Rightarrow> bytes \<Rightarrow> bytes" where
  "mulSmall_loop logC inp i out =
     (if i < length (view inp out)
      then mulSmall_loop logC inp (i + 2) (putU16 out i (mul_by_log logC (getU16 (view inp out) i)))
      else out)"
  by pat_completeness auto
termination
  by (relation "measure (\<lambda>(logC, inp, i, out). length (view inp out) - i)") auto

function mulAndAddSmall_loop :: "nat \<Rightarrow> src \<Rightarrow> nat \<Rightarrow> bytes \<Rightarrow> bytes" where
  "mulAndAddSmall_loop logC inp i out =
     (if i < length (view inp out)
      then mulAndAddSmall_loop logC inp (i + 2)
             (putU16 out i (getU16 out i XOR mul_by_log logC (getU16 (view inp out) i)))
      else out)"
  by pat_completeness auto
termination
  by (relation "measure (\<lambda>(logC, inp, i, out). length (view inp out) - i)") auto

text \<open>The unrolled loops read eight input bytes (and four output elements) before they store.\<close>

function mulUnrolled_loop :: "mulTable \<Rightarrow> src \<Rightarrow> nat \<Rightarrow> bytes \<Rightarrow> nat \<times> bytes" where
  "mulUnrolled_loop table inp i out =
     (let xs = view inp out in
      if i + 8 \<le> length xs
      then let r0 = mul_by_table table (xs ! i) (xs ! (i + 1));
               r1 = mul_by_table table (xs ! (i + 2)) (xs ! (i + 3));
               r2 = mul_by_table table (xs ! (i + 4)) (xs ! (i + 5));
               r3 = mul_by_table table (xs ! (i + 6)) (xs ! (i + 7))
           in mulUnrolled_loop table inp (i + 8)
                (putU16 (putU16 (putU16 (putU16 out i r0) (i + 2) r1) (i + 4) r2) (i + 6) r3)
      else (i, out))"
  by pat_completeness auto
termination
  by (relation "measure (\<lambda>(table, inp, i, out). length (view inp out) - i)") (auto simp: Let_def)

function mulTail_loop :: "mulTable \<Rightarrow> src \<Rightarrow> nat \<Rightarrow> bytes \<Rightarrow> bytes" where
  "mulTail_loop table inp i out =
     (let xs = view inp out in
      if i < length xs
      then mulTail_loop table inp (i + 2) (putU16 out i (mul_by_table table (xs ! i) (xs ! (i + 1))))
      else out)"
  by pat_completeness auto
termination
  by (relation "measure (\<lambda>(table, inp, i, out). length (view inp out) - i)") (auto simp: Let_def)

function mulAndAddUnrolled_loop :: "mulTable \<Rightarrow> src \<Rightarrow> nat \<Rightarrow> bytes \<Rightarrow> nat \<times> bytes" where
  "mulAndAddUnrolled_loop table inp i out =
     (let xs = view inp out in
      if i + 8 \<le> length xs
      then let r0 = mul_by_table table (xs ! i) (xs ! (i + 1));
               r1 = mul_by_table table (xs ! (i + 2)) (xs ! (i + 3));
               r2 = mul_by_table table (xs ! (i + 4)) (xs ! (i + 5));
               r3 = mul_by_table table (xs ! (i + 6)) (xs ! (i + 7));
               d0 = getU16 out i XOR r0;
               d1 = getU16 out (i + 2) XOR r1;
               d2 = getU16 out (i + 4) XOR r2;
               d3 = getU16 out (i + 6) XOR r3
           in mulAndAddUnrolled_loop table inp (i + 8)
                (putU16 (putU16 (putU16 (putU16 out i d0) (i + 2) d1) (i + 4) d2) (i + 6) d3)
      else (i, out))"
  by pat_completeness auto
termination
  by (relation "measure (\<lambda>(table, inp, i, out). length (view inp out) - i)") (auto simp: Let_def)

function mulAndAddTail_loop :: "mulTable \<Rightarrow> src \<Rightarrow> nat \<Rightarrow> bytes \<Rightarrow> bytes" where
  "mulAndAddTail_loop table inp i out =
     (let xs = view inp out in
      if i < length xs
      then mulAndAddTail_loop table inp (i + 2)
             (putU16 out i (getU16 out i XOR mul_by_table table (xs ! i) (xs ! (i + 1))))
      else out)"
  by pat_completeness auto
termination
  by (relation "measure (\<lambda>(table, inp, i, out). length (view inp out) - i)") (auto simp: Let_def)

declare mulSmall_loop.simps [simp del] mulAndAddSmall_loop.simps [simp del]
  mulUnrolled_loop.simps [simp del] mulTail_loop.simps [simp del]
  mulAndAddUnrolled_loop.simps [simp del] mulAndAddTail_loop.simps [simp del]

text \<open>\<open>clear(out[:n])\<close>.\<close>

definition clear_prefix :: "nat \<Rightarrow> bytes \<Rightarrow> bytes" where
  "clear_prefix n out = replicate n 0 @ drop n out"

definition mulScalarByteSliceLE :: "T \<Rightarrow> src \<Rightarrow> bytes \<Rightarrow> bytes" where
  "mulScalarByteSliceLE c inp out =
     (if c = 0 then clear_prefix (length (view inp out)) out
      else if length (view inp out) \<le> smallSliceBytes
      then mulSmall_loop (unat (logTable tables ! (unat c - 1))) inp 0 out
      else let table = calcTable c zero_mulTable;
               (i, out1) = mulUnrolled_loop table inp 0 out
           in mulTail_loop table inp i out1)"

definition mulAndAddScalarByteSliceLE :: "T \<Rightarrow> src \<Rightarrow> bytes \<Rightarrow> bytes" where
  "mulAndAddScalarByteSliceLE c inp out =
     (if c = 0 then out
      else if length (view inp out) \<le> smallSliceBytes
      then mulAndAddSmall_loop (unat (logTable tables ! (unat c - 1))) inp 0 out
      else let table = calcTable c zero_mulTable;
               (i, out1) = mulAndAddUnrolled_loop table inp 0 out
           in mulAndAddTail_loop table inp i out1)"


section \<open>The product table holds products\<close>

definition gmul :: "u16 \<Rightarrow> u16 \<Rightarrow> u16" where
  "gmul c v = gf_bits (GF c * GF v)"

lemma GF_gmul [simp]: "GF (gmul c v) = GF c * GF v"
  by (simp add: gmul_def)

lemma gmul_0 [simp]: "gmul 0 v = 0" "gmul c 0 = 0"
  by (simp_all add: gmul_def)

lemma gmul_xor: "gmul c (a XOR b) = gmul c a XOR gmul c b"
  by (simp add: gmul_def GF_xor distrib_left)

lemma calcTable_inner_nth:
  "k \<le> j \<Longrightarrow> 2 * j \<le> length tab \<Longrightarrow>
     length (calcTable_inner k j c tab) = length tab \<and>
     (\<forall>i < length tab. calcTable_inner k j c tab ! i =
        (if j + k \<le> i \<and> i < 2 * j then tab ! (i - j) XOR c else tab ! i))"
proof (induction k j c tab rule: calcTable_inner.induct)
  case (1 k j c tab)
  show ?case
  proof (cases "k < j")
    case True
    with 1 show ?thesis
      by (subst (1 2) calcTable_inner.simps)
        (auto simp: nth_list_update Suc_le_eq not_less dest!: le_antisym)
  next
    case False
    with 1(2) show ?thesis
      by (subst (1 2) calcTable_inner.simps) auto
  qed
qed

lemma of_nat_add_exp:
  assumes "k < 2 ^ e" and "e < 16"
  shows "(of_nat (k + 2 ^ e) :: u16) = of_nat k XOR 2 ^ e"
proof -
  have "\<not> bit k e" using assms(1) by (metis bit_take_bit_iff less_irrefl take_bit_nat_eq_self)
  then have "(of_nat k :: u16) AND 2 ^ e = 0"
    by (auto intro!: bit_word_eqI simp: bit_and_iff bit_exp_iff bit_of_nat_iff)
  then show ?thesis by (simp add: disjunctive_add_eq_xor)
qed

lemma xt_GF_exp: "e < 15 \<Longrightarrow> xt (GF (2 ^ e)) = GF (2 ^ Suc e)"
  by (simp add: xt_def bit_exp_iff)

lemma calcTable_outer_nth:
  assumes "e \<le> 8" and "length tab = 256" and "GF coeff = C * GF (2 ^ e)"
    and "\<And>i. i < 2 ^ e \<Longrightarrow> GF (tab ! i) = C * GF (of_nat i)"
  shows "\<exists>coeff' tab'. calcTable_outer (2 ^ e) coeff tab = (coeff', tab') \<and> length tab' = 256 \<and>
     GF coeff' = C * GF 256 \<and> (\<forall>i<256. GF (tab' ! i) = C * GF (of_nat i))"
  using assms
proof (induction "8 - e" arbitrary: e coeff tab)
  case 0
  then have "e = 8" by simp
  with 0 show ?case by (subst calcTable_outer.simps) simp
next
  case (Suc n)
  then have e: "e < 8" by simp
  then have e2: "2 * 2 ^ e \<le> (256 :: nat)" using power_increasing[of "Suc e" 8 "2 :: nat"] by simp
  let ?t = "calcTable_inner 0 (2 ^ e) coeff tab"
  have inner: "length ?t = 256"
    "\<And>i. i < 256 \<Longrightarrow> ?t ! i = (if 2 ^ e \<le> i \<and> i < 2 * 2 ^ e then tab ! (i - 2 ^ e) XOR coeff else tab ! i)"
    using calcTable_inner_nth[of 0 "2 ^ e" tab coeff] e2 Suc.prems(2) by auto
  have "GF (?t ! i) = C * GF (of_nat i)" if "i < 2 ^ Suc e" for i
  proof (cases "i < 2 ^ e")
    case True
    with e2 inner(2)[of i] Suc.prems(4) show ?thesis by simp
  next
    case False
    with that have k: "i - 2 ^ e < 2 ^ e" "i = (i - 2 ^ e) + 2 ^ e" by auto
    have "GF (?t ! i) = C * GF (of_nat (i - 2 ^ e)) + C * GF (2 ^ e)"
      using False that e2 inner(2)[of i] Suc.prems(3) Suc.prems(4)[OF k(1)] by (simp add: GF_xor)
    also have "\<dots> = C * GF (of_nat ((i - 2 ^ e) + 2 ^ e))"
      using of_nat_add_exp[OF k(1)] e by (simp add: GF_xor distrib_left del: of_nat_add)
    finally show ?thesis using k(2) by simp
  qed
  moreover have "GF (multByTwo coeff) = C * GF (2 ^ Suc e)"
    using Suc.prems(3) e xt_GF_exp[of e] by (simp add: multByTwo_xt flip: xt_mult_right)
  moreover have "calcTable_outer (2 ^ e) coeff tab = calcTable_outer (2 ^ Suc e) (multByTwo coeff) ?t"
    using e power_strict_increasing[of e 8 "2 :: nat"] by (subst calcTable_outer.simps) simp
  ultimately show ?case
    using Suc.hyps(1)[of "Suc e" ?t "multByTwo coeff"] Suc.hyps(2) e inner(1) by simp
qed

lemma xt_pow_ucast: "k \<le> 8 \<Longrightarrow> (xt ^^ k) (GF (ucast b)) = GF (push_bit k (ucast (b :: u8)))"
proof (induction k)
  case (Suc k)
  have "\<not> bit (push_bit k (ucast b :: u16)) 15"
    using Suc.prems by (auto simp: bit_push_bit_iff bit_unsigned_iff dest: bit_imp_le_length)
  with Suc show ?case
    by (simp add: xt_def push_bit_push_bit del: push_bit_Suc)
qed simp

lemma GF_256_mult: "GF 256 * GF (ucast b) = GF (push_bit 8 (ucast (b :: u8)))"
proof -
  have "GF 256 = (xt ^^ 8) 1" using xt_pow_one[of 8] by simp
  then have "GF 256 * GF (ucast b) = (xt ^^ 8) (GF (ucast b))"
    by (metis mult.commute mult.right_neutral xt_pow_mult_right)
  then show ?thesis by (simp add: xt_pow_ucast)
qed

lemma le16_xor: "le16 lo hi = ucast lo XOR push_bit 8 (ucast hi)"
  by (rule word_bits_ext)
    (auto simp: bit_le16 bit_xor_iff bit_unsigned_iff bit_push_bit_iff dest: bit_imp_le_length)

lemma mul_by_table_calcTable: "mul_by_table (calcTable c zero_mulTable) lo hi = gmul c (le16 lo hi)"
proof -
  have nat8: "(of_nat (unat b) :: u16) = ucast b" "unat b < 256" for b :: u8
    using unsigned_less[of b] by simp_all
  obtain c0 t0 where 0: "calcTable_outer 1 c (replicate 256 0) = (c0, t0)"
    "GF c0 = GF c * GF 256" "\<And>i. i < 256 \<Longrightarrow> GF (t0 ! i) = GF c * GF (of_nat i)"
    using calcTable_outer_nth[of 0 "replicate 256 0" c "GF c"] by auto
  obtain c8 t8 where 8: "calcTable_outer 1 c0 (replicate 256 0) = (c8, t8)"
    "\<And>i. i < 256 \<Longrightarrow> GF (t8 ! i) = GF c0 * GF (of_nat i)"
    using calcTable_outer_nth[of 0 "replicate 256 0" c0 "GF c0"] by auto
  have "(replicate 256 (0 :: T))[0 := 0] = replicate 256 0" by (simp add: list_update_same_conv)
  with 0(1) 8(1) have "calcTable c zero_mulTable = \<lparr>s0 = t0, s8 = t8\<rparr>"
    by (simp add: calcTable_def zero_mulTable_def)
  then have "GF (mul_by_table (calcTable c zero_mulTable) lo hi) =
      GF c * GF (ucast lo) + GF c * (GF 256 * GF (ucast hi))"
    using 0(2,3) 8(2) nat8[of lo] nat8[of hi] by (simp add: mul_by_table_def GF_xor mult.assoc)
  also have "\<dots> = GF (gmul c (le16 lo hi))"
    by (simp add: GF_256_mult le16_xor GF_xor distrib_left)
  finally show ?thesis by (simp only: gf.inject)
qed

lemma mul_by_log_gmul: "c \<noteq> 0 \<Longrightarrow> mul_by_log (unat (logTable tables ! (unat c - 1))) v = gmul c v"
proof -
  assume "c \<noteq> 0"
  then have "mul_by_log (unat (logTable tables ! (unat c - 1))) v = Times tables c v"
    by (auto simp: mul_by_log_def Times_def expTable_nth)
  then show ?thesis by (metis GF_Times GF_gmul gf.inject)
qed


section \<open>The kernels store products\<close>

text \<open>What a kernel may assume, and the element functions of the two kernels.\<close>

definition slice_pair :: "src \<Rightarrow> bytes \<Rightarrow> bool" where
  "slice_pair inp out \<longleftrightarrow> even (length out) \<and> length (view inp out) = length out"

abbreviation mul_fn :: "T \<Rightarrow> u16 \<Rightarrow> u16 \<Rightarrow> u16" where
  "mul_fn c \<equiv> \<lambda>v o'. gmul c v"

abbreviation mul_add_fn :: "T \<Rightarrow> u16 \<Rightarrow> u16 \<Rightarrow> u16" where
  "mul_add_fn c \<equiv> \<lambda>v o'. o' XOR gmul c v"

lemma slice_pair_putU16 [simp]: "slice_pair inp (putU16 out i v) \<longleftrightarrow> slice_pair inp out"
  by (simp add: slice_pair_def)

lemma slice_pair_less: "slice_pair inp out \<Longrightarrow> even i \<Longrightarrow> i < length out \<Longrightarrow> i + 1 < length out"
  unfolding slice_pair_def by presburger

lemma upd_range_step:
  assumes "slice_pair inp out" and "even i" and "i < length out"
    and "upd_range (i + 2) (length out) f inp
           (putU16 out i (f (getU16 (view inp out) i) (getU16 out i))) out'"
  shows "upd_range i (length out) f inp out out'"
proof -
  have "i + 1 < length out" using assms(1-3) by (rule slice_pair_less)
  with assms show ?thesis
    by (intro upd_range_trans[OF upd_range_putU16 assms(4)]) (auto simp: slice_pair_def)
qed

lemma getU16_view_putU16:
  "j + 1 < i \<or> i + 1 < j \<Longrightarrow> getU16 (view inp (putU16 out i v)) j = getU16 (view inp out) j"
  by (cases inp) (simp_all add: getU16_putU16_other)

lemma upd_range_four:
  fixes i f inp out
  defines "F \<equiv> \<lambda>j. f (getU16 (view inp out) j) (getU16 out j)"
  assumes sp: "slice_pair inp out" and i: "even i" "i + 8 \<le> length out"
  shows "upd_range i (i + 8) f inp out
    (putU16 (putU16 (putU16 (putU16 out i (F i)) (i + 2) (F (i + 2))) (i + 4) (F (i + 4))) (i + 6) (F (i + 6)))"
    (is "upd_range _ _ _ _ _ ?o4")
proof -
  define o1 where "o1 = putU16 out i (F i)"
  define o2 where "o2 = putU16 o1 (i + 2) (F (i + 2))"
  define o3 where "o3 = putU16 o2 (i + 4) (F (i + 4))"
  have step: "upd_range j l f inp o' (putU16 o' j (F j))"
    if "slice_pair inp o'" "length o' = length out" "even j" "j + 2 \<le> i + 8"
      "getU16 (view inp o') j = getU16 (view inp out) j" "getU16 o' j = getU16 out j" "l = j + 2" for j l o'
  proof -
    have "upd_range j (j + 2) f inp o' (putU16 o' j (f (getU16 (view inp o') j) (getU16 o' j)))"
      using that i by (intro upd_range_putU16) (auto simp: slice_pair_def)
    with that(5-7) show ?thesis by (simp add: F_def)
  qed
  have 1: "upd_range i (i + 2) f inp out o1"
    using sp i unfolding o1_def by (intro step) auto
  have 2: "upd_range (i + 2) (i + 4) f inp o1 o2"
    using sp i step[of o1 "i + 2" "i + 4"] unfolding o2_def
    by (auto simp: o1_def getU16_view_putU16 getU16_putU16_other)
  have 3: "upd_range (i + 4) (i + 6) f inp o2 o3"
    using sp i step[of o2 "i + 4" "i + 6"] unfolding o3_def
    by (auto simp: o1_def o2_def getU16_view_putU16 getU16_putU16_other)
  have 4: "upd_range (i + 6) (i + 8) f inp o3 ?o4"
    using sp i step[of o3 "i + 6" "i + 8"]
    by (auto simp: o1_def o2_def o3_def getU16_view_putU16 getU16_putU16_other)
  have "upd_range i (i + 4) f inp out o2" by (rule upd_range_trans[OF 1 2]) auto
  from upd_range_trans[OF this 3] have "upd_range i (i + 6) f inp out o3" by auto
  from upd_range_trans[OF this 4] show ?thesis by auto
qed

text \<open>Index loops over the elements of a slice pair: one element, or four, per iteration.\<close>

lemma element_loop:
  assumes unfold: "\<And>i out. slice_pair inp out \<Longrightarrow> even i \<Longrightarrow> loop i out =
    (if i < length out then loop (i + 2) (putU16 out i (f (getU16 (view inp out) i) (getU16 out i)))
     else out)"
    and "slice_pair inp out" and "even i"
  shows "upd_range i (length out) f inp out (loop i out)"
  using assms(2,3)
proof (induction "length out - i" arbitrary: i out rule: less_induct)
  case less
  show ?case
  proof (cases "i < length out")
    case True
    then have "upd_range (i + 2) (length out) f inp
        (putU16 out i (f (getU16 (view inp out) i) (getU16 out i)))
        (loop (i + 2) (putU16 out i (f (getU16 (view inp out) i) (getU16 out i))))"
      using less.hyps[of "putU16 out i (f (getU16 (view inp out) i) (getU16 out i))" "i + 2"] less.prems
      by simp
    from upd_range_step[OF less.prems True this] True less.prems show ?thesis
      by (simp only: unfold if_True)
  qed (use less.prems unfold in \<open>simp add: upd_range_empty\<close>)
qed

lemma unrolled_loop:
  assumes unfold: "\<And>i out. slice_pair inp out \<Longrightarrow> even i \<Longrightarrow> loop i out =
    (if i + 8 \<le> length out
     then let F = (\<lambda>j. f (getU16 (view inp out) j) (getU16 out j))
          in loop (i + 8) (putU16 (putU16 (putU16 (putU16 out i (F i)) (i + 2) (F (i + 2)))
               (i + 4) (F (i + 4))) (i + 6) (F (i + 6)))
     else (i, out))"
    and "slice_pair inp out" and "even i"
  shows "\<exists>j out'. loop i out = (j, out') \<and> i \<le> j \<and> even j \<and> (i \<le> length out \<longrightarrow> j \<le> length out) \<and>
    slice_pair inp out' \<and> upd_range i j f inp out out'"
  using assms(2,3)
proof (induction "length out - i" arbitrary: i out rule: less_induct)
  case less
  show ?case
  proof (cases "i + 8 \<le> length out")
    case True
    let ?F = "\<lambda>j. f (getU16 (view inp out) j) (getU16 out j)"
    let ?out = "putU16 (putU16 (putU16 (putU16 out i (?F i)) (i + 2) (?F (i + 2)))
      (i + 4) (?F (i + 4))) (i + 6) (?F (i + 6))"
    have "length ?out = length out" "slice_pair inp ?out" "even (i + 8)"
      using less.prems by simp_all
    then obtain j out' where j: "loop (i + 8) ?out = (j, out')" "i + 8 \<le> j" "even j"
      "i + 8 \<le> length out \<longrightarrow> j \<le> length out" "slice_pair inp out'"
      "upd_range (i + 8) j f inp ?out out'"
      using less.hyps[of ?out "i + 8"] True by fastforce
    have "upd_range i (i + 8) f inp out ?out"
      using less.prems True by (intro upd_range_four) auto
    from upd_range_trans[OF this j(6)] j(2) have "upd_range i j f inp out out'" by simp
    moreover have "loop i out = (j, out')"
      using True j(1) less.prems by (simp only: unfold Let_def if_True)
    ultimately show ?thesis using j True by auto
  qed (use less.prems unfold in \<open>auto simp: upd_range_empty\<close>)
qed

lemma mul_by_table_getU16:
  "mul_by_table (calcTable c zero_mulTable) (xs ! i) (xs ! (i + 1)) = gmul c (getU16 xs i)"
  by (simp only: mul_by_table_calcTable getU16_def)

lemma mul_by_table_getU16_at:
  "mul_by_table (calcTable c zero_mulTable) (xs ! (i + 2)) (xs ! (i + 3)) = gmul c (getU16 xs (i + 2))"
  "mul_by_table (calcTable c zero_mulTable) (xs ! (i + 4)) (xs ! (i + 5)) = gmul c (getU16 xs (i + 4))"
  "mul_by_table (calcTable c zero_mulTable) (xs ! (i + 6)) (xs ! (i + 7)) = gmul c (getU16 xs (i + 6))"
  by (simp_all add: mul_by_table_calcTable getU16_def eval_nat_numeral)

lemmas mul_table_simps = mul_by_table_getU16 mul_by_table_getU16_at slice_pair_def Let_def

lemma mulTail_upd:
  "slice_pair inp out \<Longrightarrow> even i \<Longrightarrow> upd_range i (length out) (mul_fn c) inp out
     (mulTail_loop (calcTable c zero_mulTable) inp i out)"
  by (rule element_loop) (subst mulTail_loop.simps, simp only: mul_table_simps)

lemma mulAndAddTail_upd:
  "slice_pair inp out \<Longrightarrow> even i \<Longrightarrow> upd_range i (length out) (mul_add_fn c) inp out
     (mulAndAddTail_loop (calcTable c zero_mulTable) inp i out)"
  by (rule element_loop) (subst mulAndAddTail_loop.simps, simp only: mul_table_simps)

lemma mulUnrolled_upd:
  "slice_pair inp out \<Longrightarrow> even i \<Longrightarrow>
     \<exists>j out'. mulUnrolled_loop (calcTable c zero_mulTable) inp i out = (j, out') \<and> i \<le> j \<and> even j \<and>
       (i \<le> length out \<longrightarrow> j \<le> length out) \<and> slice_pair inp out' \<and> upd_range i j (mul_fn c) inp out out'"
  by (rule unrolled_loop) (subst mulUnrolled_loop.simps, simp only: mul_table_simps)

lemma mulAndAddUnrolled_upd:
  "slice_pair inp out \<Longrightarrow> even i \<Longrightarrow>
     \<exists>j out'. mulAndAddUnrolled_loop (calcTable c zero_mulTable) inp i out = (j, out') \<and> i \<le> j \<and> even j \<and>
       (i \<le> length out \<longrightarrow> j \<le> length out) \<and> slice_pair inp out' \<and> upd_range i j (mul_add_fn c) inp out out'"
  by (rule unrolled_loop) (subst mulAndAddUnrolled_loop.simps, simp only: mul_table_simps)

lemma mulSmall_upd:
  "c \<noteq> 0 \<Longrightarrow> slice_pair inp out \<Longrightarrow> even i \<Longrightarrow> upd_range i (length out) (mul_fn c) inp out
     (mulSmall_loop (unat (logTable tables ! (unat c - 1))) inp i out)"
  by (rule element_loop)
    (subst mulSmall_loop.simps, simp add: mul_by_log_gmul[simplified] slice_pair_def, assumption+)

lemma mulAndAddSmall_upd:
  "c \<noteq> 0 \<Longrightarrow> slice_pair inp out \<Longrightarrow> even i \<Longrightarrow> upd_range i (length out) (mul_add_fn c) inp out
     (mulAndAddSmall_loop (unat (logTable tables ! (unat c - 1))) inp i out)"
  by (rule element_loop)
    (subst mulAndAddSmall_loop.simps, simp add: mul_by_log_gmul[simplified] slice_pair_def, assumption+)

lemma upd_range_clear:
  assumes "slice_pair inp out"
  shows "upd_range 0 (length out) (mul_fn 0) inp out (clear_prefix (length (view inp out)) out)"
  using assms by (auto simp: upd_range_def slice_pair_def clear_prefix_def elems_replicate_0)

theorem mulScalar_upd:
  assumes "slice_pair inp out"
  shows "upd_range 0 (length out) (mul_fn c) inp out (mulScalarByteSliceLE c inp out)"
proof (cases "c = 0 \<or> length out \<le> smallSliceBytes")
  case True
  then show ?thesis
    using assms upd_range_clear mulSmall_upd[of c inp out 0]
    by (auto simp: mulScalarByteSliceLE_def slice_pair_def)
next
  case False
  obtain j out' where j: "mulUnrolled_loop (calcTable c zero_mulTable) inp 0 out = (j, out')" "even j"
    "j \<le> length out" "slice_pair inp out'" "upd_range 0 j (mul_fn c) inp out out'"
    using mulUnrolled_upd[OF assms, of 0 c] by auto
  then have "length out' = length out" by (simp add: upd_range_def)
  with j mulTail_upd[OF j(4,2), of c]
  have "upd_range 0 (length out) (mul_fn c) inp out (mulTail_loop (calcTable c zero_mulTable) inp j out')"
    by (intro upd_range_trans[OF j(5)]) auto
  with False assms j(1) show ?thesis
    by (simp add: mulScalarByteSliceLE_def slice_pair_def)
qed

theorem mulAndAddScalar_upd:
  assumes "slice_pair inp out"
  shows "upd_range 0 (length out) (mul_add_fn c) inp out (mulAndAddScalarByteSliceLE c inp out)"
proof (cases "c = 0 \<or> length out \<le> smallSliceBytes")
  case True
  then show ?thesis
    using assms mulAndAddSmall_upd[of c inp out 0]
    by (auto simp: mulAndAddScalarByteSliceLE_def slice_pair_def upd_range_def)
next
  case False
  obtain j out' where j: "mulAndAddUnrolled_loop (calcTable c zero_mulTable) inp 0 out = (j, out')" "even j"
    "j \<le> length out" "slice_pair inp out'" "upd_range 0 j (mul_add_fn c) inp out out'"
    using mulAndAddUnrolled_upd[OF assms, of 0 c] by auto
  then have "length out' = length out" by (simp add: upd_range_def)
  with j mulAndAddTail_upd[OF j(4,2), of c]
  have "upd_range 0 (length out) (mul_add_fn c) inp out (mulAndAddTail_loop (calcTable c zero_mulTable) inp j out')"
    by (intro upd_range_trans[OF j(5)]) auto
  with False assms j(1) show ?thesis
    by (simp add: mulAndAddScalarByteSliceLE_def slice_pair_def)
qed

end
