(* ===== verification/GF16_Vector.thy ===== *)
theory GF16_Vector
  imports GF16_Scalar
begin

text \<open>
  The vector kernels of package \<open>gf16\<close>: the nibble tables of \<open>src/gf16/gf16_amd64.go\<close>, the AVX2
  kernels that \<open>src/gf16/asm.go\<close> generates and the SSSE3 kernels of \<open>src/gf16/gf16_amd64.s\<close>, which
  are the same program over registers of two and of one 128-bit lane. A register is its list
  of lanes, a lane its 16 bytes; each instruction used is a function on lanes. The lemmas show that
  a kernel stores the field product at every element of the whole blocks it is given.
\<close>

section \<open>The instructions\<close>

type_synonym lane = bytes
type_synonym reg = "lane list"

definition pand :: "lane \<Rightarrow> lane \<Rightarrow> lane" where
  "pand a b = map2 (AND) a b"

definition pxor :: "lane \<Rightarrow> lane \<Rightarrow> lane" where
  "pxor a b = map2 (XOR) a b"

text \<open>Logical right shift of each 16-bit word.\<close>

definition psrlw :: "nat \<Rightarrow> lane \<Rightarrow> lane" where
  "psrlw n a = of_elems (map (drop_bit n) (elems a))"

text \<open>Packing words into bytes with unsigned saturation of the signed word.\<close>

definition sat_u8 :: "u16 \<Rightarrow> u8" where
  "sat_u8 w = (if bit w 15 then 0 else if 255 < w then 255 else ucast w)"

definition packuswb :: "lane \<Rightarrow> lane \<Rightarrow> lane" where
  "packuswb src dst = map sat_u8 (elems dst @ elems src)"

fun interleave :: "bytes \<Rightarrow> bytes \<Rightarrow> bytes" where
  "interleave (a # as) (b # bs) = a # b # interleave as bs"
| "interleave _ _ = []"

definition punpcklbw :: "lane \<Rightarrow> lane \<Rightarrow> lane" where
  "punpcklbw src dst = interleave (take 8 dst) (take 8 src)"

definition punpckhbw :: "lane \<Rightarrow> lane \<Rightarrow> lane" where
  "punpckhbw src dst = interleave (drop 8 dst) (drop 8 src)"

definition pshufb :: "lane \<Rightarrow> lane \<Rightarrow> lane" where
  "pshufb idx dst = map (\<lambda>m. if bit m 7 then 0 else dst ! unat (m AND 15)) idx"

text \<open>An instruction on registers works lane by lane.\<close>

definition lanes1 :: "(lane \<Rightarrow> lane) \<Rightarrow> reg \<Rightarrow> reg" where
  "lanes1 f a = map f a"

definition lanes2 :: "(lane \<Rightarrow> lane \<Rightarrow> lane) \<Rightarrow> reg \<Rightarrow> reg \<Rightarrow> reg" where
  "lanes2 f a b = map2 f a b"

fun load :: "nat \<Rightarrow> bytes \<Rightarrow> reg" where
  "load 0 bs = []"
| "load (Suc n) bs = take 16 bs # load n (drop 16 bs)"

section \<open>The kernel body\<close>

definition mulMask :: "nat \<Rightarrow> reg" where
  "mulMask n = replicate n (replicate 16 0x0f)"

definition convMask :: "nat \<Rightarrow> reg" where
  "convMask n = replicate n (of_elems (replicate 8 0x00ff))"

text \<open>Register pairs are returned as (low bytes, high bytes).\<close>

definition standardToAltMap :: "nat \<Rightarrow> reg \<Rightarrow> reg \<Rightarrow> reg \<times> reg" where
  "standardToAltMap n in0 in1 =
     (let outLow = in0;
          in0 = lanes1 (psrlw 8) in0;
          outLow = lanes2 pand (convMask n) outLow;
          tmp = in1;
          in1 = lanes1 (psrlw 8) in1;
          tmp = lanes2 pand (convMask n) tmp;
          in0 = lanes2 packuswb in1 in0;
          outLow = lanes2 packuswb tmp outLow
      in (outLow, in0))"

definition altToStandardMap :: "reg \<Rightarrow> reg \<Rightarrow> reg \<times> reg" where
  "altToStandardMap inLow inHigh =
     (let out1 = inLow;
          out1 = lanes2 punpckhbw inHigh out1;
          inLow = lanes2 punpcklbw inHigh inLow
      in (inLow, out1))"

definition mulAltMapByte :: "nat \<Rightarrow> reg \<Rightarrow> reg \<Rightarrow> reg \<Rightarrow> reg \<Rightarrow> reg \<Rightarrow> reg \<Rightarrow> reg" where
  "mulAltMapByte n t0 t4 t8 t12 inLow inHigh =
     (let tmp0 = lanes2 pand (mulMask n) inLow;
          out = lanes2 pshufb tmp0 t0;
          tmp0 = lanes1 (psrlw 4) inLow;
          tmp0 = lanes2 pand (mulMask n) tmp0;
          tmp1 = lanes2 pshufb tmp0 t4;
          out = lanes2 pxor tmp1 out;
          tmp0 = lanes2 pand (mulMask n) inHigh;
          tmp1 = lanes2 pshufb tmp0 t8;
          out = lanes2 pxor tmp1 out;
          tmp0 = lanes1 (psrlw 4) inHigh;
          tmp0 = lanes2 pand (mulMask n) tmp0;
          tmp1 = lanes2 pshufb tmp0 t12;
          out = lanes2 pxor tmp1 out
      in out)"

text \<open>The eight shuffle tables are the 16-byte fields of the 128-byte table, broadcast to each lane.\<close>

definition table_reg :: "nat \<Rightarrow> bytes \<Rightarrow> nat \<Rightarrow> reg" where
  "table_reg n tab off = replicate n (take 16 (drop off tab))"

definition mulAltMap :: "nat \<Rightarrow> bytes \<Rightarrow> reg \<Rightarrow> reg \<Rightarrow> reg \<times> reg" where
  "mulAltMap n tab inLow inHigh =
     (mulAltMapByte n (table_reg n tab 0) (table_reg n tab 16) (table_reg n tab 32) (table_reg n tab 48)
        inLow inHigh,
      mulAltMapByte n (table_reg n tab 64) (table_reg n tab 80) (table_reg n tab 96) (table_reg n tab 112)
        inLow inHigh)"

text \<open>One iteration: load two registers, multiply, and return the bytes to store (the two halves come
  out swapped).\<close>

definition mul_block :: "nat \<Rightarrow> bytes \<Rightarrow> bytes \<Rightarrow> bytes" where
  "mul_block n tab block =
     (let in1 = load n block;
          in0 = load n (drop (16 * n) block);
          (low, high) = standardToAltMap n in0 in1;
          (outLow, outHigh) = mulAltMap n tab low high;
          (r1, r0) = altToStandardMap outLow outHigh
      in concat r0 @ concat r1)"

section \<open>The kernels\<close>

definition store :: "nat \<Rightarrow> bytes \<Rightarrow> bytes \<Rightarrow> bytes" where
  "store i bs out = take i out @ bs @ drop (i + length bs) out"

text \<open>\<open>count\<close> iterations over blocks of \<open>32 * n\<close> bytes.\<close>

fun kernel_loop :: "(bytes \<Rightarrow> bytes \<Rightarrow> bytes) \<Rightarrow> nat \<Rightarrow> nat \<Rightarrow> src \<Rightarrow> nat \<Rightarrow> bytes \<Rightarrow> bytes" where
  "kernel_loop f bsz 0 inp i out = out"
| "kernel_loop f bsz (Suc count) inp i out =
     kernel_loop f bsz count inp (i + bsz)
       (store i (f (take bsz (drop i (view inp out))) (take bsz (drop i out))) out)"

definition MulByteSliceLE_AVX2 :: "bytes \<Rightarrow> src \<Rightarrow> bytes \<Rightarrow> bytes" where
  "MulByteSliceLE_AVX2 tab inp out =
     kernel_loop (\<lambda>block _. mul_block 2 tab block) 64 (length (view inp out) div 64) inp 0 out"

definition MulAndAddByteSliceLE_AVX2 :: "bytes \<Rightarrow> src \<Rightarrow> bytes \<Rightarrow> bytes" where
  "MulAndAddByteSliceLE_AVX2 tab inp out =
     kernel_loop (\<lambda>block old. map2 (XOR) old (mul_block 2 tab block)) 64
       (length (view inp out) div 64) inp 0 out"

definition mulSliceSSSE3 :: "bytes \<Rightarrow> src \<Rightarrow> bytes \<Rightarrow> bytes" where
  "mulSliceSSSE3 tab inp out =
     kernel_loop (\<lambda>block _. mul_block 1 tab block) 32 (length (view inp out) div 32) inp 0 out"

definition mulAndAddSliceSSSE3 :: "bytes \<Rightarrow> src \<Rightarrow> bytes \<Rightarrow> bytes" where
  "mulAndAddSliceSSSE3 tab inp out =
     kernel_loop (\<lambda>block old. map2 (XOR) old (mul_block 1 tab block)) 32
       (length (view inp out) div 32) inp 0 out"

section \<open>The nibble tables\<close>

record mulTable64Entry =
  s0Low :: bytes
  s4Low :: bytes
  s8Low :: bytes
  s12Low :: bytes
  s0High :: bytes
  s4High :: bytes
  s8High :: bytes
  s12High :: bytes

text \<open>The entry that \<open>init\<close> fills for coefficient \<open>c\<close>; \<open>byte(t)\<close> keeps the low byte.\<close>

definition entry_low :: "T \<Rightarrow> nat \<Rightarrow> bytes" where
  "entry_low c sh = map (\<lambda>j. ucast (Times tables c (push_bit sh (of_nat j)))) [0..<16]"

definition entry_high :: "T \<Rightarrow> nat \<Rightarrow> bytes" where
  "entry_high c sh = map (\<lambda>j. ucast (drop_bit 8 (Times tables c (push_bit sh (of_nat j))))) [0..<16]"

definition init_entry :: "T \<Rightarrow> mulTable64Entry" where
  "init_entry c =
     \<lparr>s0Low = entry_low c 0, s4Low = entry_low c 4, s8Low = entry_low c 8, s12Low = entry_low c 12,
      s0High = entry_high c 0, s4High = entry_high c 4, s8High = entry_high c 8, s12High = entry_high c 12\<rparr>"

definition mulTable64 :: "mulTable64Entry list" where
  "mulTable64 = map (\<lambda>i. init_entry (of_nat i)) [0..<65536]"

text \<open>An entry in memory, which the kernels read through a pointer.\<close>

definition entry_bytes :: "mulTable64Entry \<Rightarrow> bytes" where
  "entry_bytes e = s0Low e @ s4Low e @ s8Low e @ s12Low e @ s0High e @ s4High e @ s8High e @ s12High e"


section \<open>One lane\<close>

definition lo8 :: "u16 \<Rightarrow> u8" where
  "lo8 w = ucast w"

definition hi8 :: "u16 \<Rightarrow> u8" where
  "hi8 w = ucast (drop_bit 8 w)"

lemma mask_lits: "(0xff :: u16) = mask 8" "(0x0f :: u8) = mask 4" "(15 :: u8) = mask 4"
  by (simp_all add: mask_eq_exp_minus_1)

lemma sat_u8_low: "sat_u8 (0xff AND w) = lo8 w"
proof -
  have "0xff AND w \<le> (0xff :: u16)" by (rule word_and_le2)
  moreover have "\<not> bit (0xff AND w) 15" by (simp add: bit_and_iff)
  moreover have "(ucast (0xff AND w) :: u8) = ucast w"
    unfolding mask_lits by (rule word_bits_ext) (simp add: bit_unsigned_iff bit_and_iff bit_mask_iff)
  ultimately show ?thesis by (auto simp: sat_u8_def lo8_def dest: leD)
qed

lemma sat_u8_high: "sat_u8 (drop_bit 8 w) = hi8 w"
proof -
  have "drop_bit 8 w \<le> (0xff :: u16)"
    using unat_lt_2_16[of w] unfolding word_le_nat_alt unat_drop_bit_eq
    by (simp add: drop_bit_eq_div)
  moreover have "\<not> bit (drop_bit 8 w) 15" by (auto simp: bit_drop_bit_eq dest: bit_imp_le_length)
  ultimately show ?thesis by (auto simp: sat_u8_def hi8_def dest: leD)
qed

lemma elems_pand_conv:
  "length x = 2 * m \<Longrightarrow> elems (map2 (AND) (of_elems (replicate m 0x00ff)) x) = map ((AND) 0xff) (elems x)"
proof (induction x arbitrary: m rule: elems.induct)
  case (1 lo hi bs)
  then obtain m' where m: "m = Suc m'" by (cases m) auto
  have "(255 :: u8) = -1" by simp
  then have "255 AND lo = lo" by (simp only: and.left_neutral)
  moreover have "le16 lo 0 = 0xff AND le16 lo hi"
    unfolding mask_lits by (rule word_bits_ext) (simp add: bit_le16 bit_and_iff bit_mask_iff)
  ultimately show ?case using 1 m by simp
qed auto

lemma low_nibbles: "pand (replicate (length bs) 0x0f) bs = map (\<lambda>b. 0x0f AND b) bs"
  by (induction bs) (simp_all add: pand_def)

lemma high_nibbles:
  "even (length bs) \<Longrightarrow> pand (replicate (length bs) 0x0f) (psrlw 4 bs) = map (drop_bit 4) bs"
proof (induction bs rule: elems.induct)
  case (1 lo hi bs)
  have "0x0f AND (ucast (drop_bit 4 (le16 lo hi)) :: u8) = drop_bit 4 lo"
    unfolding mask_lits
    by (rule word_bits_ext) (auto simp: bit_le16 bit_and_iff bit_mask_iff bit_unsigned_iff bit_drop_bit_eq
        dest: bit_imp_le_length)
  moreover have "0x0f AND (ucast (drop_bit 8 (drop_bit 4 (le16 lo hi))) :: u8) = drop_bit 4 hi"
    unfolding mask_lits
    by (rule word_bits_ext) (auto simp: bit_le16 bit_and_iff bit_mask_iff bit_unsigned_iff bit_drop_bit_eq
        dest: bit_imp_le_length)
  ultimately show ?case using 1 by (simp add: pand_def psrlw_def)
qed (auto simp: pand_def psrlw_def)

lemma nibble_sum:
  "ucast (0x0f AND lo8 w) XOR push_bit 4 (ucast (drop_bit 4 (lo8 w))) XOR
     push_bit 8 (ucast (0x0f AND hi8 w)) XOR push_bit 12 (ucast (drop_bit 4 (hi8 w))) = w"
proof (rule word_bits_ext)
  fix k :: nat
  assume "k < LENGTH(16)"
  then have k: "k < 16" by simp
  have b: "bit (lo8 w) j \<longleftrightarrow> j < 8 \<and> bit w j" "bit (hi8 w) j \<longleftrightarrow> j < 8 \<and> bit w (8 + j)" for j
    by (simp_all add: lo8_def hi8_def bit_unsigned_iff bit_drop_bit_eq)
  have r: "k - 4 < 16" "k - 8 < 8" "k - 8 < 16" "k - 12 < 16" "k < 12 \<Longrightarrow> k - 8 < 4" "12 \<le> k \<Longrightarrow> \<not> k - 8 < 4"
    using k by auto
  consider "k < 4" | "4 \<le> k" "k < 8" | "8 \<le> k" "k < 12" | "12 \<le> k" by linarith
  then show "bit (ucast (0x0f AND lo8 w) XOR push_bit 4 (ucast (drop_bit 4 (lo8 w))) XOR
     push_bit 8 (ucast (0x0f AND hi8 w)) XOR push_bit 12 (ucast (drop_bit 4 (hi8 w))) :: u16) k = bit w k"
    unfolding mask_lits using k r
    by cases (simp_all add: b bit_xor_iff bit_push_bit_iff bit_unsigned_iff bit_and_iff bit_mask_iff bit_drop_bit_eq)
qed

text \<open>A shuffle with nibble indexes is a table lookup.\<close>

definition nibble :: "u8 \<Rightarrow> bool" where
  "nibble m \<longleftrightarrow> m AND 15 = m"

lemma nibble_low: "nibble (0x0f AND b)"
  unfolding nibble_def by (rule word_bits_ext) (auto simp: bit_and_iff)

lemma nibble_high: "nibble (drop_bit 4 b)"
  unfolding nibble_def mask_lits
  by (rule word_bits_ext) (auto simp: bit_and_iff bit_mask_iff bit_drop_bit_eq dest: bit_imp_le_length)

lemma nibble_less: "nibble m \<Longrightarrow> unat m < 16"
  using word_and_le1[of m 15] by (simp add: nibble_def word_le_nat_alt)

lemma pshufb_nibbles:
  assumes "\<And>m. m \<in> set ms \<Longrightarrow> nibble m"
  shows "pshufb ms t = map (\<lambda>m. t ! unat m) ms"
proof -
  have "\<not> bit m 7" if "m AND 15 = m" for m :: u8
  proof -
    have "\<not> bit (m AND mask 4) 7" by (simp add: bit_and_iff bit_mask_iff)
    with that show ?thesis unfolding mask_lits by simp
  qed
  with assms show ?thesis by (auto simp: pshufb_def nibble_def)
qed


definition lane_low :: "lane \<Rightarrow> lane \<Rightarrow> lane" where
  "lane_low x0 x1 = packuswb (pand (of_elems (replicate 8 0x00ff)) x1) (pand (of_elems (replicate 8 0x00ff)) x0)"

definition lane_high :: "lane \<Rightarrow> lane \<Rightarrow> lane" where
  "lane_high x0 x1 = packuswb (psrlw 8 x1) (psrlw 8 x0)"

definition lane_byte :: "lane \<Rightarrow> lane \<Rightarrow> lane \<Rightarrow> lane \<Rightarrow> lane \<Rightarrow> lane \<Rightarrow> lane" where
  "lane_byte t0 t4 t8 t12 low high =
     (let m = replicate 16 0x0f in
      pxor (pshufb (pand m (psrlw 4 high)) t12)
        (pxor (pshufb (pand m high) t8)
          (pxor (pshufb (pand m (psrlw 4 low)) t4) (pshufb (pand m low) t0))))"

lemma lane_low_eq:
  "length x0 = 16 \<Longrightarrow> length x1 = 16 \<Longrightarrow> lane_low x0 x1 = map lo8 (elems x0 @ elems x1)"
  using elems_pand_conv[of x0 8] elems_pand_conv[of x1 8]
  by (simp add: lane_low_def packuswb_def pand_def sat_u8_low)

lemma lane_high_eq: "lane_high x0 x1 = map hi8 (elems x0 @ elems x1)"
  by (simp add: lane_high_def packuswb_def psrlw_def sat_u8_high)

lemma lane_byte_eq:
  assumes "length ws = 16"
  shows "lane_byte t0 t4 t8 t12 (map lo8 ws) (map hi8 ws) =
    map (\<lambda>w. t12 ! unat (drop_bit 4 (hi8 w)) XOR (t8 ! unat (0x0f AND hi8 w) XOR
      (t4 ! unat (drop_bit 4 (lo8 w)) XOR t0 ! unat (0x0f AND lo8 w)))) ws"
proof -
  have low: "pand (replicate 16 0x0f) (map g ws) = map (\<lambda>w. 0x0f AND g w) ws" for g :: "u16 \<Rightarrow> u8"
    using low_nibbles[of "map g ws"] assms by simp
  have high: "pand (replicate 16 0x0f) (psrlw 4 (map g ws)) = map (\<lambda>w. drop_bit 4 (g w)) ws" for g :: "u16 \<Rightarrow> u8"
    using high_nibbles[of "map g ws"] assms by simp
  have shuf: "pshufb (map h ws) t = map (\<lambda>w. t ! unat (h w)) ws" if "\<And>w. nibble (h w)" for h t
    using that by (subst pshufb_nibbles) auto
  have px: "pxor (map p ws) (map q ws) = map (\<lambda>w. p w XOR q w) ws" for p q :: "u16 \<Rightarrow> u8"
    by (auto simp: pxor_def intro: nth_equalityI)
  show ?thesis
    by (simp add: lane_byte_def low high shuf px nibble_low nibble_high)
qed

text \<open>The product of an element from its four nibbles.\<close>

lemma gmul_nibbles:
  "gmul c (push_bit 12 (ucast (drop_bit 4 (hi8 w)))) XOR (gmul c (push_bit 8 (ucast (0x0f AND hi8 w))) XOR
     (gmul c (push_bit 4 (ucast (drop_bit 4 (lo8 w)))) XOR gmul c (ucast (0x0f AND lo8 w)))) = gmul c w"
  using arg_cong[OF nibble_sum[of w], of "gmul c"] by (simp only: gmul_xor ac_simps)

lemma Times_gmul: "Times tables c v = gmul c v"
  by (metis GF_Times GF_gmul gf.inject)

lemma entry_nth:
  "nibble m \<Longrightarrow> entry_low c sh ! unat m = lo8 (gmul c (push_bit sh (ucast m)))"
  "nibble m \<Longrightarrow> entry_high c sh ! unat m = hi8 (gmul c (push_bit sh (ucast m)))"
  by (auto dest!: nibble_less simp: entry_low_def entry_high_def lo8_def hi8_def Times_gmul)

lemma lo8_xor: "lo8 (a XOR b) = lo8 a XOR lo8 b" and hi8_xor: "hi8 (a XOR b) = hi8 a XOR hi8 b"
  by (simp_all add: lo8_def hi8_def ucast_xor drop_bit_xor)

lemma lane_byte_low:
  assumes "length ws = 16"
  shows "lane_byte (entry_low c 0) (entry_low c 4) (entry_low c 8) (entry_low c 12)
     (map lo8 ws) (map hi8 ws) = map (\<lambda>w. lo8 (gmul c w)) ws"
  unfolding lane_byte_eq[OF assms]
proof (rule map_cong[OF refl])
  fix w
  show "entry_low c 12 ! unat (drop_bit 4 (hi8 w)) XOR (entry_low c 8 ! unat (0x0f AND hi8 w) XOR
      (entry_low c 4 ! unat (drop_bit 4 (lo8 w)) XOR entry_low c 0 ! unat (0x0f AND lo8 w))) = lo8 (gmul c w)"
    using arg_cong[OF gmul_nibbles[of c w], of lo8]
    unfolding lo8_xor entry_nth(1)[OF nibble_low] entry_nth(1)[OF nibble_high] push_bit_0_id id_apply .
qed

lemma lane_byte_high:
  assumes "length ws = 16"
  shows "lane_byte (entry_high c 0) (entry_high c 4) (entry_high c 8) (entry_high c 12)
     (map lo8 ws) (map hi8 ws) = map (\<lambda>w. hi8 (gmul c w)) ws"
  unfolding lane_byte_eq[OF assms]
proof (rule map_cong[OF refl])
  fix w
  show "entry_high c 12 ! unat (drop_bit 4 (hi8 w)) XOR (entry_high c 8 ! unat (0x0f AND hi8 w) XOR
      (entry_high c 4 ! unat (drop_bit 4 (lo8 w)) XOR entry_high c 0 ! unat (0x0f AND lo8 w))) = hi8 (gmul c w)"
    using arg_cong[OF gmul_nibbles[of c w], of hi8]
    unfolding hi8_xor entry_nth(2)[OF nibble_low] entry_nth(2)[OF nibble_high] push_bit_0_id id_apply .
qed

lemma interleave_bytes: "interleave (map lo8 vs) (map hi8 vs) = of_elems vs"
  by (induction vs) (simp_all add: lo8_def hi8_def)

lemma punpck_bytes:
  "punpcklbw (map hi8 vs) (map lo8 vs) = of_elems (take 8 vs)"
  "punpckhbw (map hi8 vs) (map lo8 vs) = of_elems (drop 8 vs)"
  by (simp_all add: punpcklbw_def punpckhbw_def take_map drop_map interleave_bytes)

section \<open>Blocks\<close>

text \<open>One lane pair through the whole kernel body.\<close>

definition lane_pair :: "T \<Rightarrow> lane \<Rightarrow> lane \<Rightarrow> lane \<times> lane" where
  "lane_pair c x0 x1 =
     (let low = lane_low x0 x1; high = lane_high x0 x1;
          outLow = lane_byte (entry_low c 0) (entry_low c 4) (entry_low c 8) (entry_low c 12) low high;
          outHigh = lane_byte (entry_high c 0) (entry_high c 4) (entry_high c 8) (entry_high c 12) low high
      in (punpcklbw outHigh outLow, punpckhbw outHigh outLow))"

lemma lane_pair_eq:
  assumes "length x0 = 16" "length x1 = 16"
  shows "lane_pair c x0 x1 = (of_elems (map (gmul c) (elems x0)), of_elems (map (gmul c) (elems x1)))"
proof -
  let ?ws = "elems x0 @ elems x1"
  have len: "length ?ws = 16" using assms by simp
  have "map (\<lambda>w. h (gmul c w)) ws = map h (map (gmul c) ws)" for h :: "u16 \<Rightarrow> u8" and ws by simp
  then show ?thesis
    using assms
    by (simp only: lane_pair_def Let_def lane_low_eq lane_high_eq lane_byte_low[OF len] lane_byte_high[OF len]
        punpck_bytes) simp
qed

lemma length_entry [simp]: "length (entry_low c sh) = 16" "length (entry_high c sh) = 16"
  by (simp_all add: entry_low_def entry_high_def)

lemma table_reg_entry:
  fixes c :: T
  defines "tab \<equiv> entry_bytes (init_entry c)"
  shows "table_reg n tab 0 = replicate n (entry_low c 0)" "table_reg n tab 16 = replicate n (entry_low c 4)"
    "table_reg n tab 32 = replicate n (entry_low c 8)" "table_reg n tab 48 = replicate n (entry_low c 12)"
    "table_reg n tab 64 = replicate n (entry_high c 0)" "table_reg n tab 80 = replicate n (entry_high c 4)"
    "table_reg n tab 96 = replicate n (entry_high c 8)" "table_reg n tab 112 = replicate n (entry_high c 12)"
  by (simp_all add: tab_def table_reg_def entry_bytes_def init_entry_def)

lemma lane_ops [simp]:
  "lanes1 f [] = []" "lanes1 f (x # xs) = f x # lanes1 f xs"
  "lanes2 g [] ys = []" "lanes2 g (x # xs) (y # ys) = g x y # lanes2 g xs ys"
  by (simp_all add: lanes1_def lanes2_def)

lemma mul_block_1:
  "mul_block 1 (entry_bytes (init_entry c)) block =
     (let (r1, r0) = lane_pair c (take 16 (drop 16 block)) (take 16 block) in r0 @ r1)"
  by (simp add: mul_block_def lane_pair_def standardToAltMap_def mulAltMap_def mulAltMapByte_def
      altToStandardMap_def table_reg_entry lane_low_def lane_high_def lane_byte_def Let_def
      convMask_def mulMask_def)

lemma mul_block_2:
  "mul_block 2 (entry_bytes (init_entry c)) block =
     (let (r1, r0) = lane_pair c (take 16 (drop 32 block)) (take 16 block);
          (s1, s0) = lane_pair c (take 16 (drop 48 block)) (take 16 (drop 16 block))
      in (r0 @ s0) @ r1 @ s1)"
  by (simp add: mul_block_def lane_pair_def standardToAltMap_def mulAltMap_def mulAltMapByte_def
      altToStandardMap_def table_reg_entry lane_low_def lane_high_def lane_byte_def Let_def
      convMask_def mulMask_def numeral_2_eq_2)

lemma of_elems_append: "of_elems (xs @ ys) = of_elems xs @ of_elems ys"
  by (induction xs) auto

lemma elems_split16: "elems bs = elems (take 16 bs) @ elems (drop 16 bs)"
  using elems_take[of 8 bs] elems_drop[of 8 bs] by simp

lemma mul_block_correct:
  assumes "n = 1 \<or> n = 2" and "length block = 32 * n"
  shows "mul_block n (entry_bytes (init_entry c)) block = of_elems (map (gmul c) (elems block))"
proof (cases "n = 1")
  case True
  with assms show ?thesis
    unfolding True mul_block_1
    by (subst elems_split16[of block]) (simp add: lane_pair_eq of_elems_append)
next
  case False
  with assms have n: "n = 2" by simp
  show ?thesis
    using assms(2) unfolding n mul_block_2
    by (subst elems_split16[of block], subst elems_split16[of "drop 16 block"],
        subst elems_split16[of "drop 16 (drop 16 block)"])
      (simp add: lane_pair_eq of_elems_append)
qed

section \<open>Whole kernels\<close>

lemma length_store: "i + length bs \<le> length out \<Longrightarrow> length (store i bs out) = length out"
  by (simp add: store_def)

lemma upd_range_store:
  fixes inp out i bsz
  defines "xs \<equiv> take bsz (drop i (view inp out))" and "ys \<equiv> take bsz (drop i out)"
  assumes ev: "even i" "even bsz" and len: "i + bsz \<le> length out" "length (view inp out) = length out"
    and bs: "length bs = bsz" "elems bs = map2 f (elems xs) (elems ys)"
  shows "upd_range i (i + bsz) f inp out (store i bs out)"
proof -
  obtain m n where m: "i = 2 * m" and n: "bsz = 2 * n" using ev by (elim evenE)
  have el: "elems (store i bs out) = take m (elems out) @ elems bs @ drop (m + n) (elems out)"
    using m n bs(1) len elems_take[of m out] elems_drop[of "m + n" out]
    by (simp add: store_def elems_append)
  have xs: "elems xs = take n (drop m (elems (view inp out)))" "elems ys = take n (drop m (elems out))"
    by (simp_all add: xs_def ys_def m n elems_take elems_drop)
  have mn: "m + n \<le> length out div 2" "length (elems bs) = n" using m n len bs(1) by auto
  have "elems (store i bs out) ! k = (if i \<le> 2 * k \<and> 2 * k < i + bsz
      then f (elems (view inp out) ! k) (elems out ! k) else elems out ! k)" if "k < length out div 2" for k
  proof -
    consider "k < m" | "m \<le> k" "k < m + n" | "m + n \<le> k" by linarith
    then show ?thesis
    proof cases
      case 2
      then have "k - m < n" by simp
      with 2 that mn len show ?thesis unfolding el bs(2) xs by (simp add: nth_append m n)
    qed (use that mn in \<open>simp_all only: el, auto simp: nth_append m n\<close>)
  qed
  moreover have "length (store i bs out) = length out" using bs(1) len(1) by (simp add: length_store)
  ultimately show ?thesis by (simp add: upd_range_def)
qed

lemma length_view_store:
  "i + length bs \<le> length out \<Longrightarrow> length (view inp (store i bs out)) = length (view inp out)"
  by (cases inp) (simp_all add: length_store)

lemma kernel_loop_upd:
  assumes g: "\<And>xs ys. length xs = bsz \<Longrightarrow> length ys = bsz \<Longrightarrow>
      length (g xs ys) = bsz \<and> elems (g xs ys) = map2 f (elems xs) (elems ys)"
    and "even bsz" and "even i" and "length (view inp out) = length out" and "i + count * bsz \<le> length out"
  shows "upd_range i (i + count * bsz) f inp out (kernel_loop g bsz count inp i out)"
  using assms(3-5)
proof (induction count arbitrary: i out)
  case (Suc count)
  let ?bs = "g (take bsz (drop i (view inp out))) (take bsz (drop i out))"
  have bs: "length ?bs = bsz"
    "elems ?bs = map2 f (elems (take bsz (drop i (view inp out)))) (elems (take bsz (drop i out)))"
    using g Suc.prems(2,3) by simp_all
  have "upd_range i (i + bsz) f inp out (store i ?bs out)"
    using Suc.prems assms(2) bs by (intro upd_range_store) auto
  moreover have "upd_range (i + bsz) (i + bsz + count * bsz) f inp (store i ?bs out)
      (kernel_loop g bsz count inp (i + bsz) (store i ?bs out))"
    using Suc.prems assms(2) bs(1) by (intro Suc.IH) (auto simp: length_store length_view_store)
  ultimately show ?case
    by (simp only: kernel_loop.simps mult_Suc add.assoc[symmetric]) (erule (1) upd_range_trans, simp_all)
qed (simp add: upd_range_empty)

lemma map2_fst: "length xs = length ys \<Longrightarrow> map2 (\<lambda>x y. h x) xs ys = map h xs"
  by (rule nth_equalityI) auto

lemma mul_body:
  assumes "n = 1 \<or> n = 2" "length xs = 32 * n" "length ys = 32 * n"
  shows "length (mul_block n (entry_bytes (init_entry c)) xs) = 32 * n \<and>
    elems (mul_block n (entry_bytes (init_entry c)) xs) = map2 (mul_fn c) (elems xs) (elems ys)"
  using assms by (auto simp: mul_block_correct map2_fst)

lemma elems_map2_xor:
  "length xs = length ys \<Longrightarrow> elems (map2 (XOR) xs ys) = map2 (XOR) (elems xs) (elems ys)"
proof (induction xs arbitrary: ys rule: elems.induct)
  case (1 a b xs)
  then obtain c d zs where ys: "ys = c # d # zs" by (cases ys rule: elems.cases) auto
  have "le16 (a XOR c) (b XOR d) = le16 a b XOR le16 c d"
    by (rule word_bits_ext) (simp add: bit_le16 bit_xor_iff)
  with 1 ys show ?case by simp
qed (auto simp: Suc_length_conv)

lemma mulAndAdd_body:
  assumes "n = 1 \<or> n = 2" "length xs = 32 * n" "length ys = 32 * n"
  shows "length (map2 (XOR) ys (mul_block n (entry_bytes (init_entry c)) xs)) = 32 * n \<and>
    elems (map2 (XOR) ys (mul_block n (entry_bytes (init_entry c)) xs)) =
      map2 (mul_add_fn c) (elems xs) (elems ys)"
proof -
  let ?b = "mul_block n (entry_bytes (init_entry c)) xs"
  have b: "length ?b = 32 * n" "elems ?b = map (gmul c) (elems xs)"
    using mul_block_correct[OF assms(1,2)] assms by auto
  have "map2 (XOR) (elems ys) (map (gmul c) (elems xs)) = map2 (mul_add_fn c) (elems xs) (elems ys)"
    using assms(2,3) by (intro nth_equalityI) auto
  with b assms show ?thesis by (simp add: elems_map2_xor)
qed

lemma kernel_loop_whole:
  assumes "\<And>xs ys. length xs = bsz \<Longrightarrow> length ys = bsz \<Longrightarrow>
      length (g xs ys) = bsz \<and> elems (g xs ys) = map2 f (elems xs) (elems ys)"
    and "even bsz" and "slice_pair inp out" and "bsz dvd length out"
  shows "upd_range 0 (length out) f inp out
    (kernel_loop g bsz (length (view inp out) div bsz) inp 0 out)"
proof -
  let ?c = "length (view inp out) div bsz"
  have c: "length (view inp out) = length out" "?c * bsz = length out"
    using assms(3,4) by (simp_all add: slice_pair_def)
  then have "upd_range 0 (0 + ?c * bsz) f inp out (kernel_loop g bsz ?c inp 0 out)"
    by (intro kernel_loop_upd assms(1,2)) simp_all
  then show ?thesis by (simp only: c(2) add_0)
qed

lemma MulByteSliceLE_AVX2_upd:
  "slice_pair inp out \<Longrightarrow> 64 dvd length out \<Longrightarrow>
     upd_range 0 (length out) (mul_fn c) inp out (MulByteSliceLE_AVX2 (entry_bytes (init_entry c)) inp out)"
  unfolding MulByteSliceLE_AVX2_def
  by (rule kernel_loop_whole) (use mul_body[where n = 2 and c = c] in fastforce)+

lemma MulAndAddByteSliceLE_AVX2_upd:
  "slice_pair inp out \<Longrightarrow> 64 dvd length out \<Longrightarrow>
     upd_range 0 (length out) (mul_add_fn c) inp out
       (MulAndAddByteSliceLE_AVX2 (entry_bytes (init_entry c)) inp out)"
  unfolding MulAndAddByteSliceLE_AVX2_def
  by (rule kernel_loop_whole) (use mulAndAdd_body[where n = 2] in auto)

lemma mulSliceSSSE3_upd:
  "slice_pair inp out \<Longrightarrow> 32 dvd length out \<Longrightarrow>
     upd_range 0 (length out) (mul_fn c) inp out (mulSliceSSSE3 (entry_bytes (init_entry c)) inp out)"
  unfolding mulSliceSSSE3_def
  by (rule kernel_loop_whole) (use mul_body[where n = 1 and c = c] in fastforce)+

lemma mulAndAddSliceSSSE3_upd:
  "slice_pair inp out \<Longrightarrow> 32 dvd length out \<Longrightarrow>
     upd_range 0 (length out) (mul_add_fn c) inp out (mulAndAddSliceSSSE3 (entry_bytes (init_entry c)) inp out)"
  unfolding mulAndAddSliceSSSE3_def
  by (rule kernel_loop_whole) (use mulAndAdd_body[where n = 1] in auto)

lemma mulTable64_nth: "mulTable64 ! unat c = init_entry c"
  by (simp add: mulTable64_def unat_lt_2_16)

end
