(* ===== verification/GF16_Slices.thy ===== *)
theory GF16_Slices
  imports GF16_Vector
begin

text \<open>
  The slice operations of package \<open>gf16\<close> as its callers see them: \<open>validateSlicePair\<close>,
  \<open>MulByteSliceLE\<close> and \<open>MulAndAddByteSliceLE\<close> of \<open>src/gf16/gf16.go\<close>, over the two build-specific
  dispatchers of \<open>gf16_amd64.go\<close> and \<open>gf16_nonamd64.go\<close>. The build and what the processor supports are
  an argument of the definitions. The contract of a kernel is the locale \<open>slice_kernel\<close>; the scalar,
  SSSE3 and AVX2 kernels and the two dispatchers are instances of it.
\<close>

section \<open>The build\<close>

text \<open>An amd64 build with \<open>hasSSSE3\<close> and \<open>hasAVX2\<close> as the processor reports them, or another build.\<close>

datatype build = Amd64 (hasSSSE3: bool) (hasAVX2: bool) | NonAmd64

definition elementBytes :: nat where
  "elementBytes = 2"

definition avx2BlockBytes :: nat where
  "avx2BlockBytes = 64"

definition ssse3BlockBytes :: nat where
  "ssse3BlockBytes = 32"

fun blockBytes :: "build \<Rightarrow> nat" where
  "blockBytes (Amd64 ssse3 avx2) =
     (if avx2 then avx2BlockBytes else if ssse3 then ssse3BlockBytes else elementBytes)"
| "blockBytes NonAmd64 = elementBytes"

definition KernelBlockBytes :: "build \<Rightarrow> nat" where
  "KernelBlockBytes b = blockBytes b"

section \<open>The dispatchers\<close>

text \<open>Two calls on the halves of a slice pair: \<open>f(in[:k], out[:k]); g(in[k:], out[k:])\<close>. The halves do
  not overlap, so neither call sees what the other writes.\<close>

definition split_call :: "nat \<Rightarrow> (src \<Rightarrow> bytes \<Rightarrow> bytes) \<Rightarrow> (src \<Rightarrow> bytes \<Rightarrow> bytes) \<Rightarrow> src \<Rightarrow> bytes \<Rightarrow> bytes" where
  "split_call k f g inp out =
     f (src_take k inp) (take k out) @ g (src_drop k inp) (drop k out)"

lemma split_call_cong [fundef_cong]:
  "k = k' \<Longrightarrow> inp = inp' \<Longrightarrow> out = out' \<Longrightarrow>
   f (src_take k' inp') (take k' out') = f' (src_take k' inp') (take k' out') \<Longrightarrow>
   g (src_drop k' inp') (drop k' out') = g' (src_drop k' inp') (drop k' out') \<Longrightarrow>
   split_call k f g inp out = split_call k' f' g' inp' out'"
  by (simp add: split_call_def)

text \<open>The tests \<open>avx2Len > 0\<close> and \<open>avx2Len < n\<close> of the source decide which of the two calls are made.\<close>

function mulBulk_amd64 :: "bool \<Rightarrow> bool \<Rightarrow> T \<Rightarrow> src \<Rightarrow> bytes \<Rightarrow> bytes" where
  "mulBulk_amd64 ssse3 avx2 c inp out =
     (let n = length (view inp out);
          avx2Len = n - n mod avx2BlockBytes;
          ssse3Len = n - n mod ssse3BlockBytes;
          tab = entry_bytes (mulTable64 ! unat c)
      in if avx2 \<and> avx2Len > 0 then
           (if avx2Len < n then
              split_call avx2Len (MulByteSliceLE_AVX2 tab) (mulBulk_amd64 ssse3 avx2 c) inp out
            else split_call avx2Len (MulByteSliceLE_AVX2 tab) (\<lambda>_ out. out) inp out)
         else if ssse3 then
           (let vec = (if ssse3Len > 0 then mulSliceSSSE3 tab else (\<lambda>_ out. out));
                rest = (if ssse3Len < n then mulScalarByteSliceLE c else (\<lambda>_ out. out))
            in split_call ssse3Len vec rest inp out)
         else mulScalarByteSliceLE c inp out)"
  by pat_completeness auto
termination
  by (relation "measure (\<lambda>(s, a, c, inp, out). length (view inp out))") auto

function mulAndAddBulk_amd64 :: "bool \<Rightarrow> bool \<Rightarrow> T \<Rightarrow> src \<Rightarrow> bytes \<Rightarrow> bytes" where
  "mulAndAddBulk_amd64 ssse3 avx2 c inp out =
     (let n = length (view inp out);
          avx2Len = n - n mod avx2BlockBytes;
          ssse3Len = n - n mod ssse3BlockBytes;
          tab = entry_bytes (mulTable64 ! unat c)
      in if avx2 \<and> avx2Len > 0 then
           (if avx2Len < n then
              split_call avx2Len (MulAndAddByteSliceLE_AVX2 tab) (mulAndAddBulk_amd64 ssse3 avx2 c) inp out
            else split_call avx2Len (MulAndAddByteSliceLE_AVX2 tab) (\<lambda>_ out. out) inp out)
         else if ssse3 then
           (let vec = (if ssse3Len > 0 then mulAndAddSliceSSSE3 tab else (\<lambda>_ out. out));
                rest = (if ssse3Len < n then mulAndAddScalarByteSliceLE c else (\<lambda>_ out. out))
            in split_call ssse3Len vec rest inp out)
         else mulAndAddScalarByteSliceLE c inp out)"
  by pat_completeness auto
termination
  by (relation "measure (\<lambda>(s, a, c, inp, out). length (view inp out))") auto

declare mulBulk_amd64.simps [simp del] mulAndAddBulk_amd64.simps [simp del]

fun mulBulkByteSliceLE :: "build \<Rightarrow> T \<Rightarrow> src \<Rightarrow> bytes \<Rightarrow> bytes" where
  "mulBulkByteSliceLE (Amd64 ssse3 avx2) c inp out = mulBulk_amd64 ssse3 avx2 c inp out"
| "mulBulkByteSliceLE NonAmd64 c inp out = mulScalarByteSliceLE c inp out"

fun mulAndAddBulkByteSliceLE :: "build \<Rightarrow> T \<Rightarrow> src \<Rightarrow> bytes \<Rightarrow> bytes" where
  "mulAndAddBulkByteSliceLE (Amd64 ssse3 avx2) c inp out = mulAndAddBulk_amd64 ssse3 avx2 c inp out"
| "mulAndAddBulkByteSliceLE NonAmd64 c inp out = mulAndAddScalarByteSliceLE c inp out"

section \<open>The exported operations\<close>

definition validateSlicePair :: "src \<Rightarrow> bytes \<Rightarrow> unit res" where
  "validateSlicePair inp out =
     (if length out \<noteq> length (view inp out) then Panic ''size mismatch''
      else if length (view inp out) mod 2 \<noteq> 0 then Panic ''odd slice length''
      else Ret ())"

definition MulByteSliceLE :: "build \<Rightarrow> T \<Rightarrow> src \<Rightarrow> bytes \<Rightarrow> bytes res" where
  "MulByteSliceLE b c inp out =
     bindR (validateSlicePair inp out) (\<lambda>_.
       if length (view inp out) = 0 then Ret out
       else if c = 0 then Ret (clear_prefix (length out) out)
       else Ret (mulBulkByteSliceLE b c inp out))"

definition MulAndAddByteSliceLE :: "build \<Rightarrow> T \<Rightarrow> src \<Rightarrow> bytes \<Rightarrow> bytes res" where
  "MulAndAddByteSliceLE b c inp out =
     bindR (validateSlicePair inp out) (\<lambda>_.
       if length (view inp out) = 0 then Ret out
       else if c = 0 then Ret out
       else Ret (mulAndAddBulkByteSliceLE b c inp out))"

section \<open>The contract of a kernel\<close>

text \<open>\<open>slice_map f inp out\<close> is the output slice in which every element is the function of the input
  element and the old output element at its index.\<close>

definition slice_map :: "(u16 \<Rightarrow> u16 \<Rightarrow> u16) \<Rightarrow> src \<Rightarrow> bytes \<Rightarrow> bytes" where
  "slice_map f inp out = of_elems (map2 f (elems (view inp out)) (elems out))"

lemma length_slice_map [simp]: "slice_pair inp out \<Longrightarrow> length (slice_map f inp out) = length out"
  by (simp add: slice_map_def slice_pair_def)

lemma elems_slice_map [simp]: "elems (slice_map f inp out) = map2 f (elems (view inp out)) (elems out)"
  by (simp add: slice_map_def)

lemma slice_map_of_upd:
  assumes "upd_range 0 (length out) f inp out out'" and "slice_pair inp out"
  shows "out' = slice_map f inp out"
proof -
  have "elems out' = map2 f (elems (view inp out)) (elems out)" "even (length out')"
    using assms upd_range_all[OF assms(1)] by (auto simp: slice_pair_def upd_range_def)
  then show ?thesis unfolding slice_map_def by (metis of_elems_elems)
qed

lemma slice_pair_halves:
  assumes "slice_pair inp out" and "even k"
  shows "slice_pair (src_take k inp) (take k out)" "slice_pair (src_drop k inp) (drop k out)"
  using assms unfolding slice_pair_def view_src_take view_src_drop
  by (auto simp: min_def)

lemma slice_map_halves:
  assumes "slice_pair inp out" and "even k" and "k \<le> length out"
  shows "split_call k (slice_map f) (slice_map f) inp out = slice_map f inp out"
proof -
  obtain m where m: "k = 2 * m" using assms(2) by (elim evenE)
  show ?thesis
    unfolding split_call_def slice_map_def view_src_take view_src_drop of_elems_append[symmetric]
      m elems_take elems_drop
    by (simp add: take_map[symmetric] drop_map[symmetric] take_zip[symmetric] drop_zip[symmetric])
qed

lemma slice_map_empty: "slice_map f inp [] = []"
  by (cases inp) (simp_all add: slice_map_def)

locale slice_kernel =
  fixes kern :: "T \<Rightarrow> src \<Rightarrow> bytes \<Rightarrow> bytes" and f :: "T \<Rightarrow> u16 \<Rightarrow> u16 \<Rightarrow> u16" and blk :: nat
  assumes kern: "slice_pair inp out \<Longrightarrow> blk dvd length out \<Longrightarrow> kern c inp out = slice_map (f c) inp out"
    and blk_even: "even blk"
begin

text \<open>Whole blocks through the kernel and the remainder through anything that meets the contract
  on slices of its length, as every level of the dispatch does it.\<close>

lemma peel:
  assumes sp: "slice_pair inp out" and k: "k = length out - length out mod blk"
    and vec: "0 < k \<Longrightarrow> vec = kern c"
    and rest: "k < length out \<Longrightarrow> rest (src_drop k inp) (drop k out) = slice_map (f c) (src_drop k inp) (drop k out)"
    and whole: "k = length out \<Longrightarrow> rest = (\<lambda>_ out. out)" and none: "k = 0 \<Longrightarrow> vec = (\<lambda>_ out. out)"
  shows "split_call k vec rest inp out = slice_map (f c) inp out"
proof -
  have kd: "blk dvd k" "k \<le> length out"
    using k by (auto simp: minus_mod_eq_mult_div)
  then have "even k" using blk_even by (metis dvd_trans)
  note halves = slice_pair_halves[OF sp this]
  have "vec (src_take k inp) (take k out) = slice_map (f c) (src_take k inp) (take k out)"
    using kern[OF halves(1)] kd vec none by (cases "k = 0") (auto simp: slice_map_empty)
  moreover have "rest (src_drop k inp) (drop k out) = slice_map (f c) (src_drop k inp) (drop k out)"
    using rest whole kd(2) by (cases "k = length out") (auto simp: slice_map_empty)
  ultimately show ?thesis
    using slice_map_halves[OF sp \<open>even k\<close> kd(2), of "f c"] by (simp add: split_call_def)
qed

end

lemmas kernel_by_upd = slice_map_of_upd[rotated]

interpretation scalar_mul: slice_kernel mulScalarByteSliceLE mul_fn 2
  by unfold_locales (auto intro: kernel_by_upd mulScalar_upd)

interpretation scalar_mac: slice_kernel mulAndAddScalarByteSliceLE mul_add_fn 2
  by unfold_locales (auto intro: kernel_by_upd mulAndAddScalar_upd)

interpretation ssse3_mul: slice_kernel "\<lambda>c. mulSliceSSSE3 (entry_bytes (mulTable64 ! unat c))" mul_fn
    ssse3BlockBytes
  by unfold_locales (auto intro: kernel_by_upd mulSliceSSSE3_upd simp: ssse3BlockBytes_def mulTable64_nth)

interpretation ssse3_mac: slice_kernel "\<lambda>c. mulAndAddSliceSSSE3 (entry_bytes (mulTable64 ! unat c))"
    mul_add_fn ssse3BlockBytes
  by unfold_locales (auto intro: kernel_by_upd mulAndAddSliceSSSE3_upd simp: ssse3BlockBytes_def mulTable64_nth)

interpretation avx2_mul: slice_kernel "\<lambda>c. MulByteSliceLE_AVX2 (entry_bytes (mulTable64 ! unat c))" mul_fn
    avx2BlockBytes
  by unfold_locales (auto intro: kernel_by_upd MulByteSliceLE_AVX2_upd simp: avx2BlockBytes_def mulTable64_nth)

interpretation avx2_mac: slice_kernel "\<lambda>c. MulAndAddByteSliceLE_AVX2 (entry_bytes (mulTable64 ! unat c))"
    mul_add_fn avx2BlockBytes
  by unfold_locales (auto intro: kernel_by_upd MulAndAddByteSliceLE_AVX2_upd simp: avx2BlockBytes_def mulTable64_nth)

section \<open>The dispatchers are kernels\<close>

lemma slice_pair_even: "slice_pair inp out \<Longrightarrow> 2 dvd length out"
  by (simp add: slice_pair_def)

lemma mulBulk_amd64_slice_map:
  "slice_pair inp out \<Longrightarrow> mulBulk_amd64 ssse3 avx2 c inp out = slice_map (mul_fn c) inp out"
proof (induction ssse3 avx2 c inp out rule: mulBulk_amd64.induct)
  case (1 ssse3 avx2 c inp out)
  define n where "n = length out"
  define a where "a = n - n mod avx2BlockBytes"
  define s where "s = n - n mod ssse3BlockBytes"
  define tab where "tab = entry_bytes (mulTable64 ! unat c)"
  have n: "length (view inp out) = n" "length out = n" using "1.prems" by (simp_all add: slice_pair_def n_def)
  have ev: "even a" "even s" 
    by (auto simp: a_def s_def minus_mod_eq_mult_div avx2BlockBytes_def ssse3BlockBytes_def)
  show ?case
  proof (cases "avx2 \<and> 0 < a")
    case True
    have "mulBulk_amd64 ssse3 avx2 c (src_drop a inp) (drop a out) = slice_map (mul_fn c) (src_drop a inp) (drop a out)"
      if "a < n"
      using "1.IH"[OF refl refl refl refl] slice_pair_halves(2)[OF "1.prems" ev(1)] True that n
      by (simp add: a_def)
    then have "split_call a (MulByteSliceLE_AVX2 tab)
        (if a < n then mulBulk_amd64 ssse3 avx2 c else (\<lambda>_ out. out)) inp out = slice_map (mul_fn c) inp out"
      using True by (intro avx2_mul.peel[OF "1.prems"]) (auto simp: a_def tab_def n)
    with True show ?thesis
      by (subst mulBulk_amd64.simps)
        (simp only: Let_def n a_def[symmetric] tab_def[symmetric] simp_thms if_True, simp split: if_splits)
  next
    case False
    have scal: "mulScalarByteSliceLE c (src_drop s inp) (drop s out) = slice_map (mul_fn c) (src_drop s inp) (drop s out)"
      using scalar_mul.kern[OF slice_pair_halves(2)[OF "1.prems" ev(2)] slice_pair_even] 
        slice_pair_halves(2)[OF "1.prems" ev(2)] by blast
    have "split_call s (if 0 < s then mulSliceSSSE3 tab else (\<lambda>_ out. out))
        (if s < n then mulScalarByteSliceLE c else (\<lambda>_ out. out)) inp out = slice_map (mul_fn c) inp out"
      using scal by (intro ssse3_mul.peel[OF "1.prems"]) (auto simp: s_def tab_def n)
    with False scalar_mul.kern[OF "1.prems" slice_pair_even[OF "1.prems"], of c] show ?thesis
      by (subst mulBulk_amd64.simps) (simp only: Let_def n a_def[symmetric] s_def[symmetric] tab_def[symmetric] simp_thms if_False, simp)
  qed
qed

lemma mulAndAddBulk_amd64_slice_map:
  "slice_pair inp out \<Longrightarrow> mulAndAddBulk_amd64 ssse3 avx2 c inp out = slice_map (mul_add_fn c) inp out"
proof (induction ssse3 avx2 c inp out rule: mulAndAddBulk_amd64.induct)
  case (1 ssse3 avx2 c inp out)
  define n where "n = length out"
  define a where "a = n - n mod avx2BlockBytes"
  define s where "s = n - n mod ssse3BlockBytes"
  define tab where "tab = entry_bytes (mulTable64 ! unat c)"
  have n: "length (view inp out) = n" "length out = n" using "1.prems" by (simp_all add: slice_pair_def n_def)
  have ev: "even a" "even s" 
    by (auto simp: a_def s_def minus_mod_eq_mult_div avx2BlockBytes_def ssse3BlockBytes_def)
  show ?case
  proof (cases "avx2 \<and> 0 < a")
    case True
    have "mulAndAddBulk_amd64 ssse3 avx2 c (src_drop a inp) (drop a out) =
        slice_map (mul_add_fn c) (src_drop a inp) (drop a out)" if "a < n"
      using "1.IH"[OF refl refl refl refl] slice_pair_halves(2)[OF "1.prems" ev(1)] True that n
      by (simp add: a_def)
    then have "split_call a (MulAndAddByteSliceLE_AVX2 tab)
        (if a < n then mulAndAddBulk_amd64 ssse3 avx2 c else (\<lambda>_ out. out)) inp out = slice_map (mul_add_fn c) inp out"
      using True by (intro avx2_mac.peel[OF "1.prems"]) (auto simp: a_def tab_def n)
    with True show ?thesis
      by (subst mulAndAddBulk_amd64.simps)
        (simp only: Let_def n a_def[symmetric] tab_def[symmetric] simp_thms if_True, simp split: if_splits)
  next
    case False
    have scal: "mulAndAddScalarByteSliceLE c (src_drop s inp) (drop s out) =
        slice_map (mul_add_fn c) (src_drop s inp) (drop s out)"
      using scalar_mac.kern[OF slice_pair_halves(2)[OF "1.prems" ev(2)] slice_pair_even] 
        slice_pair_halves(2)[OF "1.prems" ev(2)] by blast
    have "split_call s (if 0 < s then mulAndAddSliceSSSE3 tab else (\<lambda>_ out. out))
        (if s < n then mulAndAddScalarByteSliceLE c else (\<lambda>_ out. out)) inp out = slice_map (mul_add_fn c) inp out"
      using scal by (intro ssse3_mac.peel[OF "1.prems"]) (auto simp: s_def tab_def n)
    with False scalar_mac.kern[OF "1.prems" slice_pair_even[OF "1.prems"], of c] show ?thesis
      by (subst mulAndAddBulk_amd64.simps) (simp only: Let_def n a_def[symmetric] s_def[symmetric] tab_def[symmetric] simp_thms if_False, simp)
  qed
qed

interpretation bulk_mul: slice_kernel "mulBulkByteSliceLE b" mul_fn 2 for b
  by unfold_locales (cases b; simp add: mulBulk_amd64_slice_map scalar_mul.kern)+

interpretation bulk_mac: slice_kernel "mulAndAddBulkByteSliceLE b" mul_add_fn 2 for b
  by unfold_locales (cases b; simp add: mulAndAddBulk_amd64_slice_map scalar_mac.kern)+

section \<open>The exported operations are element-wise field operations\<close>

lemma validateSlicePair_iff [res_iff]: "validateSlicePair inp out = Ret u \<longleftrightarrow> slice_pair inp out"
  by (auto simp: validateSlicePair_def slice_pair_def)

lemma slice_map_zero: "slice_pair inp out \<Longrightarrow> clear_prefix (length out) out = slice_map (mul_fn 0) inp out"
  using upd_range_clear[of inp out] by (intro slice_map_of_upd) (simp_all add: slice_pair_def)

lemma slice_map_add_zero: "slice_pair inp out \<Longrightarrow> slice_map (mul_add_fn 0) inp out = out"
  by (rule slice_map_of_upd[symmetric]) (auto simp: upd_range_def)

lemma MulByteSliceLE_Ret: "slice_pair inp out \<Longrightarrow> MulByteSliceLE b c inp out = Ret (slice_map (mul_fn c) inp out)"
  using bulk_mul.kern[of inp out b c]
  by (auto simp: MulByteSliceLE_def validateSlicePair_def slice_pair_def slice_map_empty
      slice_map_zero[unfolded slice_pair_def])

lemma MulAndAddByteSliceLE_Ret:
  "slice_pair inp out \<Longrightarrow> MulAndAddByteSliceLE b c inp out = Ret (slice_map (mul_add_fn c) inp out)"
  using bulk_mac.kern[of inp out b c] slice_map_add_zero[of inp out]
  by (cases "c = 0")
    (auto simp: MulAndAddByteSliceLE_def validateSlicePair_def slice_pair_def slice_map_empty)

section \<open>Properties\<close>

text \<open>C19. On every build (AVX2, SSSE3, scalar amd64, and the portable one), for slices of equal even length
  that are separate or the same, \<open>MulByteSliceLE\<close> returns the slice whose little-endian elements are the
  field products of the coefficient with the input elements.\<close>

theorem MulByteSliceLE_correct:
  assumes "even (length out)" "length (view inp out) = length out"
  shows "\<exists>r. MulByteSliceLE b c inp out = Ret r \<and> length r = length out \<and>
    map GF (elems r) = map (\<lambda>v. GF c * GF v) (elems (view inp out))"
proof -
  have sp: "slice_pair inp out" using assms by (simp add: slice_pair_def)
  have len: "length (elems (view inp out)) = length (elems out)" using assms(2) by (simp add: length_elems)
  have "map GF (map2 (mul_fn c) (elems (view inp out)) (elems out)) = map (\<lambda>v. GF c * GF v) (elems (view inp out))"
    using len by (intro nth_equalityI) simp_all
  then show ?thesis using MulByteSliceLE_Ret[OF sp, of b c] sp by simp
qed

theorem MulByteSliceLE_correct_witness:
  "\<exists>r. MulByteSliceLE (Amd64 True True) 2 (Other [1, 0, 2, 0]) [0, 0, 0, 0] = Ret r \<and>
    map GF (elems r) = [GF 2 * GF 1, GF 2 * GF 2]"
  using MulByteSliceLE_correct[of "[0, 0, 0, 0]" "Other [1, 0, 2, 0]" "Amd64 True True" 2]
  by (auto simp: le16_def)

text \<open>C20. Likewise \<open>MulAndAddByteSliceLE\<close> adds to every output element the product of the coefficient with the
  input element at its index, on every build and for separate or identical slices.\<close>

theorem MulAndAddByteSliceLE_correct:
  assumes "even (length out)" "length (view inp out) = length out"
  shows "\<exists>r. MulAndAddByteSliceLE b c inp out = Ret r \<and> length r = length out \<and>
    map GF (elems r) = map2 (\<lambda>v o'. GF o' + GF c * GF v) (elems (view inp out)) (elems out)"
proof -
  have sp: "slice_pair inp out" using assms by (simp add: slice_pair_def)
  have len: "length (elems (view inp out)) = length (elems out)" using assms(2) by (simp add: length_elems)
  have "map GF (map2 (mul_add_fn c) (elems (view inp out)) (elems out)) =
      map2 (\<lambda>v o'. GF o' + GF c * GF v) (elems (view inp out)) (elems out)"
    using len by (intro nth_equalityI) (simp_all add: GF_xor)
  then show ?thesis using MulAndAddByteSliceLE_Ret[OF sp, of b c] sp by simp
qed

theorem MulAndAddByteSliceLE_correct_witness:
  "\<exists>r. MulAndAddByteSliceLE (Amd64 True False) 3 Same [1, 0, 2, 0] = Ret r \<and>
    map GF (elems r) = [GF 1 + GF 3 * GF 1, GF 2 + GF 3 * GF 2]"
  using MulAndAddByteSliceLE_correct[of "[1, 0, 2, 0]" Same "Amd64 True False" 3]
  by (auto simp: le16_def)

text \<open>C15. The vector builds are the portable routine: for every pair of slices, also those the operations
  refuse with a panic, every build gives the result of the scalar build.\<close>

theorem builds_agree:
  "MulByteSliceLE b c inp out = MulByteSliceLE NonAmd64 c inp out \<and>
   MulAndAddByteSliceLE b c inp out = MulAndAddByteSliceLE NonAmd64 c inp out"
proof (cases "slice_pair inp out")
  case True
  then show ?thesis by (simp only: MulByteSliceLE_Ret MulAndAddByteSliceLE_Ret)
next
  case False
  then have "\<not> (\<exists>u. validateSlicePair inp out = Ret u)" by (simp add: validateSlicePair_iff)
  then show ?thesis
    by (cases "validateSlicePair inp out") (auto simp: MulByteSliceLE_def MulAndAddByteSliceLE_def)
qed

end
