(* ===== verification/RS_Matrix.thy ===== *)
theory RS_Matrix
  imports GF16_Slices
begin

text \<open>
  Matrices over GF(2^16) of \<open>src/rs/matrix.go\<close>: the row-major \<open>Matrix\<close>, its constructors and
  accessors, the row operations (which go through the byte-slice kernels of package \<open>gf16\<close>) and
  the Gaussian elimination behind \<open>Inverse\<close> and \<open>RowReduceForInverse\<close>. The methods mutate the element
  array in place; here they return the updated matrix. The lemmas show that elimination keeps the
  solutions of the linear system, that it never panics on matrices the constructors make, and that it
  fails exactly on matrices with a non-trivial kernel.
\<close>

record Matrix =
  rows :: nat
  cols :: nat
  elements :: "T list"

section \<open>Constructors and accessors\<close>

definition checkDims :: "int \<Rightarrow> int \<Rightarrow> unit res" where
  "checkDims r c = (if r \<le> 0 \<or> c \<le> 0 then Error ''invalid matrix dimensions'' else Ret ())"

definition NewMatrix :: "int \<Rightarrow> int \<Rightarrow> Matrix res" where
  "NewMatrix r c = bindR (checkDims r c) (\<lambda>_.
     Ret \<lparr>rows = nat r, cols = nat c, elements = replicate (nat r * nat c) 0\<rparr>)"

definition NewMatrixFromSlice :: "int \<Rightarrow> int \<Rightarrow> T list \<Rightarrow> Matrix res" where
  "NewMatrixFromSlice r c els = bindR (checkDims r c) (\<lambda>_.
     if int (length els) \<noteq> r * c then Error ''element count must match rows * cols''
     else Ret \<lparr>rows = nat r, cols = nat c, elements = els\<rparr>)"

definition NewIdentityMatrix :: "int \<Rightarrow> Matrix res" where
  "NewIdentityMatrix n = bindR (checkDims n n) (\<lambda>_.
     bindR (foldR (\<lambda>i els. goAssign els (int (i * nat n + i)) 1) [0..<nat n] (replicate (nat n * nat n) 0))
       (\<lambda>els. Ret \<lparr>rows = nat n, cols = nat n, elements = els\<rparr>))"

definition NewVandermondeMatrix :: "int \<Rightarrow> int \<Rightarrow> T list \<Rightarrow> Matrix res" where
  "NewVandermondeMatrix r c gens = bindR (checkDims r c) (\<lambda>_.
     if int (length gens) < c then Error ''too few generators for Vandermonde matrix''
     else bindR (foldR (\<lambda>i. foldR (\<lambda>j els.
              bindR (goIndex gens (int j)) (\<lambda>g. goAssign els (int (i * nat c + j)) (Pow tables g (of_nat i))))
              [0..<nat c]) [0..<nat r] (replicate (nat r * nat c) 0))
            (\<lambda>els. Ret \<lparr>rows = nat r, cols = nat c, elements = els\<rparr>))"

definition checkRow :: "Matrix \<Rightarrow> int \<Rightarrow> unit res" where
  "checkRow m i = (if i < 0 \<or> int (rows m) \<le> i then Panic ''row index out of bounds'' else Ret ())"

definition checkCol :: "Matrix \<Rightarrow> int \<Rightarrow> unit res" where
  "checkCol m j = (if j < 0 \<or> int (cols m) \<le> j then Panic ''column index out of bounds'' else Ret ())"

definition At :: "Matrix \<Rightarrow> int \<Rightarrow> int \<Rightarrow> T res" where
  "At m i j = bindR (checkRow m i) (\<lambda>_. bindR (checkCol m j) (\<lambda>_.
     goIndex (elements m) (i * int (cols m) + j)))"

definition Set :: "Matrix \<Rightarrow> int \<Rightarrow> int \<Rightarrow> T \<Rightarrow> Matrix res" where
  "Set m i j val = bindR (checkRow m i) (\<lambda>_. bindR (checkCol m j) (\<lambda>_.
     bindR (goAssign (elements m) (i * int (cols m) + j) val) (\<lambda>els. Ret (m\<lparr>elements := els\<rparr>))))"

definition Clone :: "Matrix \<Rightarrow> Matrix res" where
  "Clone m = NewMatrixFromSlice (int (rows m)) (int (cols m)) (elements m)"

definition row :: "Matrix \<Rightarrow> nat \<Rightarrow> T list res" where
  "row m i = bindR (checkRow m (int i)) (\<lambda>_. goSlice (elements m) (i * cols m) ((i + 1) * cols m))"

text \<open>Storing through the slice that \<open>row\<close> returns.\<close>

definition put_row :: "Matrix \<Rightarrow> nat \<Rightarrow> T list \<Rightarrow> Matrix" where
  "put_row m i r = m\<lparr>elements := take (i * cols m) (elements m) @ r @ drop ((i + 1) * cols m) (elements m)\<rparr>"

section \<open>Row operations\<close>

definition swapRows :: "Matrix \<Rightarrow> nat \<Rightarrow> nat \<Rightarrow> Matrix res" where
  "swapRows m i j =
     (if i = j then Ret m
      else bindR (row m i) (\<lambda>_. bindR (row m j) (\<lambda>_.
        Ret (m\<lparr>elements := fold (\<lambda>k els. els[i * cols m + k := els ! (j * cols m + k),
                                              j * cols m + k := els ! (i * cols m + k)])
                               [0..<cols m] (elements m)\<rparr>))))"

text \<open>The cast is of memory: on the little-endian hosts that \<open>init\<close> admits, a row is the bytes of
  its elements, low byte first.\<close>

definition castTToByteSlice :: "T list \<Rightarrow> bytes" where
  "castTToByteSlice ts = (if length ts = 0 then [] else of_elems ts)"

definition scaleRow :: "build \<Rightarrow> Matrix \<Rightarrow> nat \<Rightarrow> T \<Rightarrow> Matrix res" where
  "scaleRow b m i c = bindR (row m i) (\<lambda>r.
     bindR (MulByteSliceLE b c Same (castTToByteSlice r)) (\<lambda>bs. Ret (put_row m i (elems bs))))"

definition addScaledRow :: "build \<Rightarrow> Matrix \<Rightarrow> nat \<Rightarrow> nat \<Rightarrow> T \<Rightarrow> Matrix res" where
  "addScaledRow b m dest src c = bindR (row m src) (\<lambda>rowSrc. bindR (row m dest) (\<lambda>rowDest.
     bindR (MulAndAddByteSliceLE b c (if src = dest then Same else Other (castTToByteSlice rowSrc))
              (castTToByteSlice rowDest))
       (\<lambda>bs. Ret (put_row m dest (elems bs)))))"

section \<open>Gaussian elimination\<close>

text \<open>The inner search loop of \<open>convertToRowEchelonForm\<close> over \<open>j\<close>, which swaps and stops at the first
  non-zero element of column \<open>i\<close>, and returns the pivot (zero if there is none).\<close>

fun pivot_loop :: "nat list \<Rightarrow> nat \<Rightarrow> Matrix \<times> Matrix \<Rightarrow> (T \<times> Matrix \<times> Matrix) res" where
  "pivot_loop [] i (m, n) = Ret (0, m, n)"
| "pivot_loop (j # js) i (m, n) =
     bindR (At m (int j) (int i)) (\<lambda>v.
       if v \<noteq> 0 then
         bindR (swapRows m i j) (\<lambda>m. bindR (swapRows n i j) (\<lambda>n.
           bindR (At m (int i) (int i)) (\<lambda>pivot. Ret (pivot, m, n))))
       else pivot_loop js i (m, n))"

text \<open>One body of both clearing loops: clear element \<open>(j, i)\<close> with row \<open>i\<close>.\<close>

definition clear_entry :: "build \<Rightarrow> nat \<Rightarrow> nat \<Rightarrow> Matrix \<times> Matrix \<Rightarrow> (Matrix \<times> Matrix) res" where
  "clear_entry b i j = (\<lambda>(m, n).
     bindR (At m (int j) (int i)) (\<lambda>t.
       if t \<noteq> 0 then
         bindR (addScaledRow b m j i t) (\<lambda>m. bindR (addScaledRow b n j i t) (\<lambda>n. Ret (m, n)))
       else Ret (m, n)))"

definition echelon_step :: "build \<Rightarrow> nat \<Rightarrow> Matrix \<times> Matrix \<Rightarrow> (Matrix \<times> Matrix) res" where
  "echelon_step b i = (\<lambda>(m, n).
     bindR (pivot_loop [i..<rows m] i (m, n)) (\<lambda>(pivot, m, n).
       if pivot = 0 then Error ''singular matrix''
       else bindR (Inverse tables pivot) (\<lambda>pivotInv.
         bindR (scaleRow b m i pivotInv) (\<lambda>m. bindR (scaleRow b n i pivotInv) (\<lambda>n.
           foldR (clear_entry b i) [i + 1..<rows m] (m, n))))))"

definition convertToRowEchelonForm :: "build \<Rightarrow> Matrix \<Rightarrow> Matrix \<Rightarrow> (Matrix \<times> Matrix) res" where
  "convertToRowEchelonForm b m n = foldR (echelon_step b) [0..<rows m] (m, n)"

definition convertToReducedRowEchelonForm :: "build \<Rightarrow> Matrix \<Rightarrow> Matrix \<Rightarrow> (Matrix \<times> Matrix) res" where
  "convertToReducedRowEchelonForm b m n =
     foldR (\<lambda>i. foldR (clear_entry b i) [0..<i]) [0..<rows m] (m, n)"

definition rowReduceForInverse :: "build \<Rightarrow> Matrix \<Rightarrow> Matrix \<Rightarrow> (Matrix \<times> Matrix) res" where
  "rowReduceForInverse b m n =
     bindR (convertToRowEchelonForm b m n) (\<lambda>(m, n). convertToReducedRowEchelonForm b m n)"

definition Inverse_matrix :: "build \<Rightarrow> Matrix \<Rightarrow> Matrix res" where
  "Inverse_matrix b m =
     (if rows m \<noteq> cols m then Error ''cannot invert non-square matrix''
      else bindR (NewIdentityMatrix (int (cols m))) (\<lambda>n. bindR (Clone m) (\<lambda>mClone.
        bindR (rowReduceForInverse b mClone n) (\<lambda>(_, n). Ret n))))"

definition RowReduceForInverse :: "build \<Rightarrow> Matrix \<Rightarrow> Matrix \<Rightarrow> Matrix res" where
  "RowReduceForInverse b m n =
     (if rows m \<noteq> cols m then Error ''cannot row-reduce non-square matrix''
      else if rows n \<noteq> rows m then Error ''n must have the same number of rows as m''
      else bindR (Clone n) (\<lambda>nReduced. bindR (Clone m) (\<lambda>mClone.
        bindR (rowReduceForInverse b mClone nReduced) (\<lambda>(_, nReduced). Ret nReduced))))"

section \<open>Well-formed matrices and their entries\<close>

definition wf_matrix :: "Matrix \<Rightarrow> bool" where
  "wf_matrix m \<longleftrightarrow> 0 < rows m \<and> 0 < cols m \<and> length (elements m) = rows m * cols m"

text \<open>The entry of a matrix as a field element.\<close>

definition ent :: "Matrix \<Rightarrow> nat \<Rightarrow> nat \<Rightarrow> gf" where
  "ent m i j = GF (elements m ! (i * cols m + j))"

lemma index_less: "i < r \<Longrightarrow> j < c \<Longrightarrow> i * c + j < r * (c :: nat)"
  using mult_le_mono1[of "Suc i" r c] by simp

lemma index_eq_iff: "j < c \<Longrightarrow> j' < c \<Longrightarrow> i * c + j = i' * c + j' \<longleftrightarrow> i = i' \<and> j = (j' :: nat)"
  by (metis add.commute div_mult_self3 div_less gr_implies_not0 mod_mult_self3 mod_less add_0_right)

lemma At_Ret: "wf_matrix m \<Longrightarrow> i < rows m \<Longrightarrow> j < cols m \<Longrightarrow>
    At m (int i) (int j) = Ret (elements m ! (i * cols m + j))"
  using goIndex_Ret[of "i * cols m + j" "elements m"] index_less[of i "rows m" j "cols m"]
  by (simp add: At_def checkRow_def checkCol_def wf_matrix_def)

text \<open>The two matrices agree in shape.\<close>

definition same_dims :: "Matrix \<Rightarrow> Matrix \<Rightarrow> bool" where
  "same_dims m m' \<longleftrightarrow> wf_matrix m' \<and> rows m' = rows m \<and> cols m' = cols m"

lemma row_Ret: "wf_matrix m \<Longrightarrow> i < rows m \<Longrightarrow>
    row m i = Ret (map (\<lambda>k. elements m ! (i * cols m + k)) [0..<cols m])"
  using mult_le_mono1[of "Suc i" "rows m" "cols m"]
  by (auto simp: row_def checkRow_def wf_matrix_def intro!: nth_equalityI)

lemma put_row_ent:
  assumes "wf_matrix m" "i < rows m" "length r = cols m"
  shows "same_dims m (put_row m i r)"
    and "i' < rows m \<Longrightarrow> k < cols m \<Longrightarrow> ent (put_row m i r) i' k = (if i' = i then GF (r ! k) else ent m i' k)"
proof -
  have le: "i * cols m + cols m \<le> length (elements m)"
    using mult_le_mono1[of "Suc i" "rows m" "cols m"] assms by (simp add: wf_matrix_def)
  then show "same_dims m (put_row m i r)"
    using assms by (auto simp: put_row_def same_dims_def wf_matrix_def)
  assume k: "i' < rows m" "k < cols m"
  consider "i' = i" | "i' < i" | "i < i'" by linarith
  then show "ent (put_row m i r) i' k = (if i' = i then GF (r ! k) else ent m i' k)"
  proof cases
    case 2
    then have "i' * cols m + k < i * cols m" using k index_less by blast
    with 2 le show ?thesis by (simp add: ent_def put_row_def nth_append)
  next
    case 3
    then have "i * cols m + cols m \<le> i' * cols m"
      using mult_le_mono1[of "Suc i" i' "cols m"] by simp
    then have "\<not> i' * cols m + k - i * cols m < cols m" by linarith
    with 3 le assms show ?thesis by (simp add: ent_def put_row_def nth_append)
  qed (use k le assms in \<open>simp add: ent_def put_row_def nth_append\<close>)
qed

lemma castTToByteSlice_of_elems [simp]: "castTToByteSlice ts = of_elems ts"
  by (simp add: castTToByteSlice_def)

lemma scaleRow_ent:
  assumes "wf_matrix m" "i < rows m"
  shows "\<exists>m'. scaleRow b m i c = Ret m' \<and> same_dims m m' \<and>
    (\<forall>r<rows m. \<forall>k<cols m. ent m' r k = (if r = i then GF c * ent m i k else ent m r k))"
proof -
  let ?r = "map (\<lambda>k. elements m ! (i * cols m + k)) [0..<cols m]"
  have "slice_pair Same (of_elems ?r)" by (simp add: slice_pair_def)
  then have "scaleRow b m i c = Ret (put_row m i (map (gmul c) ?r))"
    using assms by (simp add: scaleRow_def row_Ret MulByteSliceLE_Ret wf_matrix_def
        map2_fst)
  with put_row_ent[OF assms, of "map (gmul c) ?r"] show ?thesis
    by (simp add: ent_def)
qed

lemma addScaledRow_ent:
  assumes "wf_matrix m" "i < rows m" "j < rows m" "i \<noteq> j"
  shows "\<exists>m'. addScaledRow b m i j c = Ret m' \<and> same_dims m m' \<and>
    (\<forall>r<rows m. \<forall>k<cols m. ent m' r k = (if r = i then ent m i k + GF c * ent m j k else ent m r k))"
proof -
  define r where "r i = map (\<lambda>k. elements m ! (i * cols m + k)) [0..<cols m]" for i
  let ?v = "map2 (mul_add_fn c) (r j) (r i)"
  have len: "length (r i) = cols m" "length (r j) = cols m" by (simp_all add: r_def)
  then have "slice_pair (Other (of_elems (r j))) (of_elems (r i))" by (simp add: slice_pair_def)
  then have "addScaledRow b m i j c = Ret (put_row m i ?v)"
    using assms len by (simp add: addScaledRow_def row_Ret MulAndAddByteSliceLE_Ret
        wf_matrix_def flip: r_def)
  moreover have "GF (?v ! k) = ent m i k + GF c * ent m j k" if "k < cols m" for k
    using that by (simp add: r_def ent_def GF_xor)
  ultimately show ?thesis
    using put_row_ent[OF assms(1,2), of ?v] len by simp
qed

lemma swap_fold:
  fixes els :: "T list"
  assumes "i \<noteq> j" "i < r" "j < r" "length els = r * c" "n \<le> c"
  defines "F \<equiv> fold (\<lambda>k els. els[i * c + k := els ! (j * c + k), j * c + k := els ! (i * c + k)]) [0..<n] els"
  shows "length F = r * c \<and> (\<forall>p<r. \<forall>k<c. F ! (p * c + k) =
    (if k < n \<and> p = i then els ! (j * c + k) else if k < n \<and> p = j then els ! (i * c + k)
     else els ! (p * c + k)))"
  using \<open>n \<le> c\<close> unfolding F_def
proof (induction n)
  case (Suc n)
  define G where "G = fold (\<lambda>k els. els[i * c + k := els ! (j * c + k), j * c + k := els ! (i * c + k)]) [0..<n] els"
  have G: "length G = r * c" "\<And>p k. p < r \<Longrightarrow> k < c \<Longrightarrow> G ! (p * c + k) =
      (if k < n \<and> p = i then els ! (j * c + k) else if k < n \<and> p = j then els ! (i * c + k)
       else els ! (p * c + k))"
    using Suc by (simp_all add: G_def)
  have n: "n < c" using Suc.prems by simp
  have bnd: "i * c + n < r * c" "j * c + n < r * c" using assms n index_less by blast+
  have "G[i * c + n := G ! (j * c + n), j * c + n := G ! (i * c + n)] ! (p * c + k) =
      (if k < Suc n \<and> p = i then els ! (j * c + k) else if k < Suc n \<and> p = j then els ! (i * c + k)
       else els ! (p * c + k))" if "p < r" "k < c" for p k
    using that n bnd G(1) assms(1-3) G(2)[OF that] G(2)[of i n] G(2)[of j n] index_eq_iff[of n c k i p] index_eq_iff[of n c k j p]
    by (auto simp: nth_list_update less_Suc_eq)
  with G show ?case by (simp flip: G_def)
qed (use assms in auto)

text \<open>The exchange of two row numbers.\<close>

definition tr :: "nat \<Rightarrow> nat \<Rightarrow> nat \<Rightarrow> nat" where
  "tr i j r = (if r = i then j else if r = j then i else r)"

lemma tr_less: "i < n \<Longrightarrow> j < n \<Longrightarrow> r < n \<Longrightarrow> tr i j r < n" and tr_tr: "tr i j (tr i j r) = r"
  by (auto simp: tr_def)

lemma swapRows_ent:
  assumes "wf_matrix m" "i < rows m" "j < rows m"
  shows "\<exists>m'. swapRows m i j = Ret m' \<and> same_dims m m' \<and>
    (\<forall>r<rows m. \<forall>k<cols m. ent m' r k = ent m (tr i j r) k)"
proof (cases "i = j")
  case True
  with assms show ?thesis by (simp add: swapRows_def same_dims_def tr_def)
next
  case False
  with assms swap_fold[OF False, of "rows m" "elements m" "cols m" "cols m"] show ?thesis
    by (simp add: swapRows_def row_Ret same_dims_def wf_matrix_def ent_def tr_def)
qed

section \<open>Row operations keep the solutions of the system\<close>

text \<open>The matrix-vector product, and the system \<open>m \<cdot> v = n \<cdot> w\<close> that elimination works on.\<close>

definition mv :: "Matrix \<Rightarrow> (nat \<Rightarrow> gf) \<Rightarrow> nat \<Rightarrow> gf" where
  "mv m v i = (\<Sum>j<cols m. ent m i j * v j)"

definition sys :: "Matrix \<Rightarrow> Matrix \<Rightarrow> (nat \<Rightarrow> gf) \<Rightarrow> (nat \<Rightarrow> gf) \<Rightarrow> bool" where
  "sys m n v w \<longleftrightarrow> (\<forall>i<rows m. mv m v i = mv n w i)"

text \<open>The pairs elimination works on, and what each of its steps keeps.\<close>

definition ready :: "Matrix \<times> Matrix \<Rightarrow> bool" where
  "ready p \<longleftrightarrow> wf_matrix (fst p) \<and> wf_matrix (snd p) \<and> rows (snd p) = rows (fst p) \<and>
     rows (fst p) = cols (fst p)"

definition sim :: "Matrix \<times> Matrix \<Rightarrow> Matrix \<times> Matrix \<Rightarrow> bool" where
  "sim p q \<longleftrightarrow> same_dims (fst p) (fst q) \<and> same_dims (snd p) (snd q) \<and>
     (\<forall>v w. sys (fst p) (snd p) v w \<longleftrightarrow> sys (fst q) (snd q) v w)"

lemma sim_refl: "ready p \<Longrightarrow> sim p p"
  by (simp add: sim_def same_dims_def ready_def)

lemma sim_trans: "sim p q \<Longrightarrow> sim q r \<Longrightarrow> sim p r"
  by (simp add: sim_def same_dims_def)

lemma sim_ready: "sim p q \<Longrightarrow> ready p \<Longrightarrow> ready q"
  by (simp add: sim_def same_dims_def ready_def)

lemma sim_dims: "sim p q \<Longrightarrow> rows (fst q) = rows (fst p) \<and> cols (fst q) = cols (fst p)"
  by (simp add: sim_def same_dims_def)

text \<open>How an operation on rows acts on products.\<close>

lemma mv_rows:
  assumes "same_dims m m'" and "r < rows m"
    and "\<And>k. k < cols m \<Longrightarrow> ent m' r k = c * ent m p k + d * ent m q k"
  shows "mv m' v r = c * mv m v p + d * mv m v q"
  using assms by (simp add: mv_def same_dims_def sum_distrib_left sum.distrib algebra_simps)

lemma scale_sim:
  assumes "ready (m, n)" "i < rows m" "c \<noteq> 0"
  shows "\<exists>m' n'. scaleRow b m i c = Ret m' \<and> scaleRow b n i c = Ret n' \<and> sim (m, n) (m', n') \<and>
    (\<forall>r<rows m. \<forall>k<cols m. ent m' r k = (if r = i then GF c * ent m i k else ent m r k))"
proof -
  obtain m' where m': "scaleRow b m i c = Ret m'" "same_dims m m'"
    "\<forall>r<rows m. \<forall>k<cols m. ent m' r k = (if r = i then GF c * ent m i k else ent m r k)"
    using scaleRow_ent[of m i b c] assms by (auto simp: ready_def)
  obtain n' where n': "scaleRow b n i c = Ret n'" "same_dims n n'"
    "\<forall>r<rows n. \<forall>k<cols n. ent n' r k = (if r = i then GF c * ent n i k else ent n r k)"
    using scaleRow_ent[of n i b c] assms by (auto simp: ready_def)
  have "mv m' v r = (if r = i then GF c else 1) * mv m v r" if "r < rows m" for v r
    using mv_rows[OF m'(2) that, of "if r = i then GF c else 1" r 0 r v] m'(3) that by auto
  moreover have "mv n' v r = (if r = i then GF c else 1) * mv n v r" if "r < rows m" for v r
    using mv_rows[OF n'(2), of r "if r = i then GF c else 1" r 0 r v] n'(3) that assms(1) by (auto simp: ready_def)
  ultimately have "sys m n v w \<longleftrightarrow> sys m' n' v w" for v w
    using m'(2) assms(3) by (auto simp: sys_def same_dims_def)
  with m' n' show ?thesis by (auto simp: sim_def)
qed

lemma add_sim:
  assumes "ready (m, n)" "i < rows m" "j < rows m" "i \<noteq> j"
  shows "\<exists>m' n'. addScaledRow b m i j c = Ret m' \<and> addScaledRow b n i j c = Ret n' \<and> sim (m, n) (m', n') \<and>
    (\<forall>r<rows m. \<forall>k<cols m. ent m' r k = (if r = i then ent m i k + GF c * ent m j k else ent m r k))"
proof -
  obtain m' where m': "addScaledRow b m i j c = Ret m'" "same_dims m m'"
    "\<forall>r<rows m. \<forall>k<cols m. ent m' r k = (if r = i then ent m i k + GF c * ent m j k else ent m r k)"
    using addScaledRow_ent[of m i j b c] assms by (auto simp: ready_def)
  obtain n' where n': "addScaledRow b n i j c = Ret n'" "same_dims n n'"
    "\<forall>r<rows n. \<forall>k<cols n. ent n' r k = (if r = i then ent n i k + GF c * ent n j k else ent n r k)"
    using addScaledRow_ent[of n i j b c] assms by (auto simp: ready_def)
  have "mv m' v r = 1 * mv m v r + (if r = i then GF c else 0) * mv m v j" if "r < rows m" for v r
    using m'(3) that by (intro mv_rows[OF m'(2)]) auto
  moreover have "mv n' v r = 1 * mv n v r + (if r = i then GF c else 0) * mv n v j" if "r < rows m" for v r
    using n'(3) that assms(1) by (intro mv_rows[OF n'(2)]) (auto simp: ready_def)
  ultimately have eqs: "mv m' v r = mv m v r + (if r = i then GF c else 0) * mv m v j"
    "mv n' w r = mv n w r + (if r = i then GF c else 0) * mv n w j" if "r < rows m" for v w r
    using that by simp_all
  have "sys m n v w \<longleftrightarrow> sys m' n' v w" for v w
  proof
    assume "sys m n v w"
    with eqs assms(3) m'(2) show "sys m' n' v w" by (simp add: sys_def same_dims_def)
  next
    assume "sys m' n' v w"
    then have sys': "mv m' v r = mv n' w r" if "r < rows m" for r
      using m'(2) that by (simp add: sys_def same_dims_def)
    then have "mv m v j = mv n w j"
      using sys'[OF assms(3)] eqs(1)[OF assms(3), of v] eqs(2)[OF assms(3), of w] assms(4) by simp
    with sys' eqs show "sys m n v w" by (simp add: sys_def)
  qed
  with m' n' show ?thesis by (auto simp: sim_def)
qed

lemma swap_sim:
  assumes "ready (m, n)" "i < rows m" "j < rows m"
  shows "\<exists>m' n'. swapRows m i j = Ret m' \<and> swapRows n i j = Ret n' \<and> sim (m, n) (m', n') \<and>
    (\<forall>r<rows m. \<forall>k<cols m. ent m' r k = ent m (tr i j r) k)"
proof -
  obtain m' where m': "swapRows m i j = Ret m'" "same_dims m m'"
    "\<forall>r<rows m. \<forall>k<cols m. ent m' r k = ent m (tr i j r) k"
    using swapRows_ent[of m i j] assms by (auto simp: ready_def)
  obtain n' where n': "swapRows n i j = Ret n'" "same_dims n n'"
    "\<forall>r<rows n. \<forall>k<cols n. ent n' r k = ent n (tr i j r) k"
    using swapRows_ent[of n i j] assms by (auto simp: ready_def)
  have "mv m' v r = 1 * mv m v (tr i j r) + 0 * mv m v r" if "r < rows m" for v r
    using m'(3) that by (intro mv_rows[OF m'(2)]) auto
  moreover have "mv n' v r = 1 * mv n v (tr i j r) + 0 * mv n v r" if "r < rows m" for v r
    using n'(3) that assms(1) by (intro mv_rows[OF n'(2)]) (auto simp: ready_def)
  ultimately have eqs: "mv m' v r = mv m v (tr i j r)" "mv n' w r = mv n w (tr i j r)" if "r < rows m" for v w r
    using that by simp_all
  have tr: "tr i j r < rows m" if "r < rows m" for r using assms(2,3) that by (rule tr_less)
  have "sys m n v w \<longleftrightarrow> sys m' n' v w" for v w
  proof
    assume "sys m n v w"
    with eqs tr m'(2) show "sys m' n' v w" by (simp add: sys_def same_dims_def)
  next
    assume s: "sys m' n' v w"
    have "mv m v r = mv n w r" if "r < rows m" for r
    proof -
      have "mv m' v (tr i j r) = mv n' w (tr i j r)"
        using s m'(2) tr[OF that] by (simp add: sys_def same_dims_def)
      then show ?thesis using eqs(1)[OF tr[OF that], of v] eqs(2)[OF tr[OF that], of w] by (simp add: tr_tr)
    qed
    then show "sys m n v w" by (simp add: sys_def)
  qed
  with m' n' show ?thesis by (auto simp: sim_def)
qed

section \<open>Elimination\<close>

lemma clear_entry_sim:
  assumes "ready (m, n)" "i < rows m" "j < rows m" "i \<noteq> j"
  shows "\<exists>m' n'. clear_entry b i j (m, n) = Ret (m', n') \<and> sim (m, n) (m', n') \<and>
    (\<forall>r<rows m. \<forall>k<cols m. ent m' r k = (if r = j then ent m j k + ent m j i * ent m i k else ent m r k))"
proof -
  let ?t = "elements m ! (j * cols m + i)"
  have at: "At m (int j) (int i) = Ret ?t" using assms by (simp add: At_Ret ready_def)
  have t: "ent m j i = GF ?t" by (simp add: ent_def)
  show ?thesis
  proof (cases "?t = 0")
    case True
    with at t assms(1) show ?thesis by (auto simp: clear_entry_def sim_refl)
  next
    case False
    with at t add_sim[OF assms(1,3,2), of b ?t] assms(4) show ?thesis
      by (fastforce simp: clear_entry_def)
  qed
qed

lemma clear_loop_sim:
  assumes "ready (m, n)" "i < rows m" "h \<le> rows m" "a \<le> h" "i < a \<or> h \<le> i"
  shows "\<exists>m' n'. foldR (clear_entry b i) [a..<h] (m, n) = Ret (m', n') \<and> sim (m, n) (m', n') \<and>
    (\<forall>r<rows m. \<forall>k<cols m. ent m' r k =
       (if a \<le> r \<and> r < h then ent m r k + ent m r i * ent m i k else ent m r k))"
proof -
  let ?I = "\<lambda>j (m', n'). sim (m, n) (m', n') \<and> (\<forall>r<rows m. \<forall>k<cols m. ent m' r k =
       (if a \<le> r \<and> r < j then ent m r k + ent m r i * ent m i k else ent m r k))"
  have "\<exists>s'. foldR (clear_entry b i) [a..<h] (m, n) = Ret s' \<and> ?I h s'"
  proof (rule foldR_upt_inv)
    show "?I a (m, n)" using assms(1) by (auto simp: sim_refl)
    fix j s assume j: "a \<le> j" "j < h" and I: "?I j s"
    obtain m1 n1 where s: "s = (m1, n1)" by (cases s)
    have dims: "rows m1 = rows m" "cols m1 = cols m" "cols m = rows m" and rd: "ready (m1, n1)"
      using I assms(1) sim_dims[of "(m, n)" "(m1, n1)"] sim_ready[of "(m, n)" "(m1, n1)"]
      by (auto simp: s ready_def)
    have ji: "i \<noteq> j" "j < rows m" using j assms(3,5) by auto
    obtain m2 n2 where m2: "clear_entry b i j (m1, n1) = Ret (m2, n2)" "sim (m1, n1) (m2, n2)"
      "\<forall>r<rows m. \<forall>k<cols m. ent m2 r k = (if r = j then ent m1 j k + ent m1 j i * ent m1 i k else ent m1 r k)"
      using clear_entry_sim[OF rd, of i j b] assms(2) ji dims by auto
    have "ent m1 j k = ent m j k" "ent m1 i k = ent m i k" if "k < cols m" for k
      using I that ji j assms(2,5) by (auto simp: s)
    then have "?I (Suc j) (m2, n2)"
      using I m2 assms(2) dims ji j by (auto simp: s less_Suc_eq intro: sim_trans)
    with m2(1) show "\<exists>s'. clear_entry b i j s = Ret s' \<and> ?I (Suc j) s'" by (auto simp: s)
  qed (use assms in auto)
  then show ?thesis by auto
qed

text \<open>Columns below \<open>i\<close> are those of a unit upper triangular matrix.\<close>

definition echelon :: "nat \<Rightarrow> Matrix \<Rightarrow> bool" where
  "echelon i m \<longleftrightarrow> (\<forall>c<i. \<forall>r<rows m. c \<le> r \<longrightarrow> ent m r c = (if r = c then 1 else 0))"

lemma echelon_0: "echelon 0 m"
  by (simp add: echelon_def)

lemma pivot_loop_cases:
  assumes "ready (m, n)" "i < rows m" "set js \<subseteq> {i..<rows m}"
  shows "(pivot_loop js i (m, n) = Ret (0, m, n) \<and> (\<forall>j\<in>set js. ent m j i = 0)) \<or>
    (\<exists>p m' n' j. pivot_loop js i (m, n) = Ret (p, m', n') \<and> p \<noteq> 0 \<and> j \<in> set js \<and> GF p = ent m' i i \<and>
       sim (m, n) (m', n') \<and>
       (\<forall>r<rows m. \<forall>k<cols m. ent m' r k = ent m (tr i j r) k))"
  using assms(3)
proof (induction js)
  case (Cons j js)
  let ?t = "elements m ! (j * cols m + i)"
  have j: "j < rows m" "i \<le> j" using Cons.prems by auto
  have at: "At m (int j) (int i) = Ret ?t" using assms j by (simp add: At_Ret ready_def)
  have t: "ent m j i = GF ?t" by (simp add: ent_def)
  show ?case
  proof (cases "?t = 0")
    case True
    then have "pivot_loop (j # js) i (m, n) = pivot_loop js i (m, n)" using at by simp
    with Cons True t show ?thesis by fastforce
  next
    case False
    obtain m' n' where m': "swapRows m i j = Ret m'" "swapRows n i j = Ret n'" "sim (m, n) (m', n')"
      "\<forall>r<rows m. \<forall>k<cols m. ent m' r k = ent m (tr i j r) k"
      using swap_sim[OF assms(1,2) j(1)] by blast
    have rd: "ready (m', n')" "rows m' = rows m" "cols m = rows m"
      using sim_ready[OF m'(3) assms(1)] sim_dims[OF m'(3)] assms(1) by (auto simp: ready_def)
    then have "At m' (int i) (int i) = Ret (elements m' ! (i * cols m' + i))"
      using assms(2) by (simp add: At_Ret ready_def)
    moreover have "ent m' i i = GF ?t" using m'(4) assms(2) rd(3) t by (simp add: tr_def)
    then have "elements m' ! (i * cols m' + i) = ?t" by (simp add: ent_def)
    ultimately have "pivot_loop (j # js) i (m, n) = Ret (?t, m', n')"
      using at False m'(1,2) by simp
    with m' False t \<open>ent m' i i = GF ?t\<close> show ?thesis by auto
  qed
qed simp

lemma echelon_step_cases:
  assumes rd: "ready (m, n)" and i: "i < rows m" and ech: "echelon i m"
  shows "(\<exists>m' n'. echelon_step b i (m, n) = Ret (m', n') \<and> sim (m, n) (m', n') \<and> echelon (Suc i) m') \<or>
    (echelon_step b i (m, n) = Error ''singular matrix'' \<and> (\<forall>r<rows m. i \<le> r \<longrightarrow> ent m r i = 0))"
  using pivot_loop_cases[OF rd i, of "[i..<rows m]", OF equalityD1[OF set_upt]]
proof (elim disjE exE conjE)
  assume "pivot_loop [i..<rows m] i (m, n) = Ret (0, m, n)" "\<forall>j\<in>set [i..<rows m]. ent m j i = 0"
  then show ?thesis by (simp add: echelon_step_def)
next
  fix p m1 n1 j
  assume piv: "pivot_loop [i..<rows m] i (m, n) = Ret (p, m1, n1)" "p \<noteq> 0" "GF p = ent m1 i i"
    and j: "j \<in> set [i..<rows m]" and sim1: "sim (m, n) (m1, n1)"
    and e1: "\<forall>r<rows m. \<forall>k<cols m. ent m1 r k = ent m (tr i j r) k"
  have d: "rows m1 = rows m" "cols m1 = cols m" "cols m = rows m" "ready (m1, n1)"
    using sim_dims[OF sim1] sim_ready[OF sim1 rd] rd by (auto simp: ready_def)
  obtain q where q: "Inverse tables p = Ret q" "GF q = inverse (GF p)"
    using Inverse_correct[OF piv(2)] by auto
  then have q0: "q \<noteq> 0" using piv(2) by (metis GF_eq_0_iff nonzero_imp_inverse_nonzero)
  obtain m2 n2 where m2: "scaleRow b m1 i q = Ret m2" "scaleRow b n1 i q = Ret n2" "sim (m1, n1) (m2, n2)"
    "\<forall>r<rows m. \<forall>k<cols m. ent m2 r k = (if r = i then GF q * ent m1 i k else ent m1 r k)"
    using scale_sim[OF d(4), of i q b] i q0 d by auto
  have d2: "rows m2 = rows m" "cols m2 = cols m" "ready (m2, n2)"
    using sim_dims[OF m2(3)] sim_ready[OF m2(3) d(4)] d by auto
  obtain m3 n3 where m3: "foldR (clear_entry b i) [i + 1..<rows m] (m2, n2) = Ret (m3, n3)"
    "sim (m2, n2) (m3, n3)"
    "\<forall>r<rows m. \<forall>k<cols m. ent m3 r k =
       (if i + 1 \<le> r \<and> r < rows m then ent m2 r k + ent m2 r i * ent m2 i k else ent m2 r k)"
    using clear_loop_sim[OF d2(3), of i "rows m" "i + 1" b] i d2 by auto
  have step: "echelon_step b i (m, n) = Ret (m3, n3)"
    using piv q(1) m2 m3(1) d2(1) by (simp add: echelon_step_def)
  have "sim (m, n) (m3, n3)" using sim1 m2(3) m3(2) by (blast intro: sim_trans)
  moreover have "echelon (Suc i) m3"
  proof -
    have low: "ent m1 r c = (if r = c then 1 else 0)" if "c < i" "r < rows m" "c \<le> r" for c r
      using that ech e1 j d(3) i by (auto simp: echelon_def tr_def)
    have one: "ent m2 i i = 1" using m2(4) piv(2,3) q(2) i d(3) by (simp flip: piv(3))
    have "ent m3 r c = (if r = c then 1 else 0)" if "c \<le> i" "r < rows m" "c \<le> r" for c r
    proof (cases "c = i")
      case True
      with one that m3(3) d(3) i show ?thesis by auto
    next
      case False
      with that low[of c r] low[of c i] m2(4) m3(3) d(3) i show ?thesis by auto
    qed
    moreover have "rows m3 = rows m" using sim_dims[OF m3(2)] d2 by simp
    ultimately show ?thesis by (simp add: echelon_def less_Suc_eq_le)
  qed
  ultimately show ?thesis using step by blast
qed

text \<open>Elimination down to column \<open>i\<close> either reaches echelon form or stops at a column with no pivot.\<close>

definition stuck :: "Matrix \<times> Matrix \<Rightarrow> bool" where
  "stuck p \<longleftrightarrow> (\<exists>q i. sim p q \<and> i < rows (fst p) \<and> echelon i (fst q) \<and>
     (\<forall>r<rows (fst p). i \<le> r \<longrightarrow> ent (fst q) r i = 0))"

lemma echelon_loop_cases:
  assumes "ready p" "sim p q" "echelon i (fst q)" "i \<le> rows (fst p)"
  shows "(\<exists>q'. foldR (echelon_step b) [i..<rows (fst p)] q = Ret q' \<and> sim p q' \<and> echelon (rows (fst p)) (fst q')) \<or>
    (foldR (echelon_step b) [i..<rows (fst p)] q = Error ''singular matrix'' \<and> stuck p)"
  using assms(2-4)
proof (induction "rows (fst p) - i" arbitrary: i q)
  case (Suc d)
  obtain m n where q: "q = (m, n)" by (cases q)
  have i: "i < rows (fst p)" "[i..<rows (fst p)] = i # [Suc i..<rows (fst p)]"
    using Suc.hyps(2) by (simp_all add: upt_conv_Cons)
  have m: "ready (m, n)" "rows m = rows (fst p)"
    using sim_ready[OF Suc.prems(1) assms(1)] sim_dims[OF Suc.prems(1)] q by auto
  have im: "i < rows m" and ech: "echelon i m" using i m Suc.prems(2) q by simp_all
  from echelon_step_cases[OF m(1) im ech, of b] show ?case
  proof (elim disjE exE conjE)
    fix m' n'
    assume s: "echelon_step b i (m, n) = Ret (m', n')" "sim (m, n) (m', n')" "echelon (Suc i) m'"
    have "d = rows (fst p) - Suc i" "sim p (m', n')" "echelon (Suc i) (fst (m', n'))" "Suc i \<le> rows (fst p)"
      using Suc.hyps(2) Suc.prems(1) s q i(1) by (auto intro: sim_trans)
    from Suc.hyps(1)[OF this] show ?thesis using s(1) by (simp add: i(2) q)
  next
    assume s: "echelon_step b i (m, n) = Error ''singular matrix''" "\<forall>r<rows m. i \<le> r \<longrightarrow> ent m r i = 0"
    then have "stuck p"
      using Suc.prems(1,2) i(1) m(2) q unfolding stuck_def by (intro exI[of _ q] exI[of _ i]) simp
    then show ?thesis using s(1) by (simp add: i(2) q)
  qed
qed simp

text \<open>A column with no pivot gives a non-zero vector in the kernel, by back substitution.\<close>

lemma mv_update:
  assumes "k < cols m" "v k = 0"
  shows "mv m (v(k := x)) r = mv m v r + ent m r k * x"
proof -
  have "mv m (v(k := x)) r = (\<Sum>j<cols m. ent m r j * v j + (if j = k then ent m r k * x else 0))"
    unfolding mv_def by (rule sum.cong) (auto simp: assms(2))
  then show ?thesis using assms(1) by (simp add: mv_def sum.distrib)
qed

lemma back_substitution:
  assumes "rows m = cols m" "i < rows m" "echelon i m" "\<forall>r<rows m. i \<le> r \<longrightarrow> ent m r i = 0"
  shows "d \<le> i \<Longrightarrow> \<exists>v. v i = 1 \<and> (\<forall>c<i - d. v c = 0) \<and> (\<forall>r<rows m. i - d \<le> r \<longrightarrow> mv m v r = 0)"
proof (induction d)
  case 0
  let ?v = "\<lambda>c. if c = i then 1 else 0 :: gf"
  have "mv m ?v r = ent m r i" for r
    using mv_update[of i m "\<lambda>_. 0" 1 r] assms(1,2) by (simp add: mv_def fun_upd_def)
  with assms(4) show ?case by (intro exI[of _ ?v]) auto
next
  case (Suc d)
  then obtain v where v: "v i = 1" "\<forall>c<i - d. v c = 0" "\<forall>r<rows m. i - d \<le> r \<longrightarrow> mv m v r = 0" by auto
  define k where "k = i - Suc d"
  have k: "k < i" "i - d = Suc k" using Suc.prems by (auto simp: k_def)
  then have vk: "v k = 0" "k < cols m" using v(2) assms(1,2) by auto
  let ?v = "v(k := mv m v k)"
  have e: "mv m ?v r = mv m v r + ent m r k * mv m v k" for r using vk by (simp only: mv_update)
  have "mv m ?v r = 0" if "r < rows m" "k \<le> r" for r
  proof (cases "r = k")
    case True
    then show ?thesis unfolding e using assms(3) k(1) that by (simp add: echelon_def gf_add_self)
  next
    case False
    with that v(3) k assms(3) show ?thesis unfolding e by (auto simp: echelon_def)
  qed
  moreover have "?v i = 1" "\<forall>c<k. ?v c = 0" using v k by auto
  ultimately show ?case unfolding k_def[symmetric] by blast
qed

definition singular :: "Matrix \<Rightarrow> bool" where
  "singular m \<longleftrightarrow> (\<exists>v. (\<exists>j<cols m. v j \<noteq> 0) \<and> (\<forall>i<rows m. mv m v i = 0))"

lemma mv_zero: "mv m (\<lambda>_. 0) i = 0"
  by (simp add: mv_def)

lemma stuck_singular:
  assumes "ready p" "stuck p"
  shows "singular (fst p)"
proof -
  obtain q i where q: "sim p q" "i < rows (fst p)" "echelon i (fst q)"
    "\<forall>r<rows (fst p). i \<le> r \<longrightarrow> ent (fst q) r i = 0"
    using assms(2) by (auto simp: stuck_def)
  have d: "rows (fst q) = rows (fst p)" "cols (fst q) = cols (fst p)" "rows (fst p) = cols (fst p)"
    using sim_dims[OF q(1)] assms(1) by (auto simp: ready_def)
  obtain v where v: "v i = 1" "\<forall>r<rows (fst p). mv (fst q) v r = 0"
    using back_substitution[of "fst q" i i] q d by auto
  then have "sys (fst q) (snd q) v (\<lambda>_. 0)" by (simp add: sys_def mv_zero d)
  then have "sys (fst p) (snd p) v (\<lambda>_. 0)" using q(1) by (simp add: sim_def)
  then show ?thesis
    using v(1) q(2) d(3) unfolding singular_def sys_def mv_zero by (metis zero_neq_one)
qed

text \<open>Columns below \<open>i\<close> are those of the identity.\<close>

definition reduced :: "nat \<Rightarrow> Matrix \<Rightarrow> bool" where
  "reduced i m \<longleftrightarrow> (\<forall>c<i. \<forall>r<rows m. ent m r c = (if r = c then 1 else 0))"

lemma reduce_loop:
  assumes "ready p" "sim p q" "echelon (rows (fst p)) (fst q)"
  shows "\<exists>q'. foldR (\<lambda>i. foldR (clear_entry b i) [0..<i]) [0..<rows (fst p)] q = Ret q' \<and>
    sim p q' \<and> reduced (rows (fst p)) (fst q')"
proof -
  let ?I = "\<lambda>i q. sim p q \<and> reduced i (fst q) \<and> echelon (rows (fst p)) (fst q)"
  have "\<exists>q'. foldR (\<lambda>i. foldR (clear_entry b i) [0..<i]) [0..<rows (fst p)] q = Ret q' \<and>
    ?I (rows (fst p)) q'"
  proof (rule foldR_upt_inv[where I = ?I])
    show "?I 0 q" using assms by (simp add: reduced_def)
    fix i s assume i: "i < rows (fst p)" and I: "?I i s"
    obtain m n where s: "s = (m, n)" by (cases s)
    have m: "ready (m, n)" "rows m = rows (fst p)" "cols m = rows m"
      using I assms(1) sim_ready[of p s] sim_dims[of p s] by (auto simp: s ready_def)
    obtain m' n' where m': "foldR (clear_entry b i) [0..<i] (m, n) = Ret (m', n')" "sim (m, n) (m', n')"
      "\<forall>r<rows m. \<forall>k<cols m. ent m' r k = (if 0 \<le> r \<and> r < i then ent m r k + ent m r i * ent m i k else ent m r k)"
      using clear_loop_sim[OF m(1), of i i 0 b] i m(2) by auto
    have one: "ent m i i = 1" and low: "c < i \<Longrightarrow> ent m i c = 0" for c
      using I i m(2) by (auto simp: s echelon_def)
    have d': "rows m' = rows m" using sim_dims[OF m'(2)] by simp
    have "reduced (Suc i) m'"
      using m'(3) I i m(2,3) one low d' by (auto simp: reduced_def echelon_def less_Suc_eq s gf_add_self)
    moreover have "echelon (rows (fst p)) m'"
      using m'(3) I i m(2,3) low d' by (auto simp: echelon_def s)
    ultimately show "\<exists>s'. foldR (clear_entry b i) [0..<i] s = Ret s' \<and> ?I (Suc i) s'"
      using m'(1,2) I by (auto simp: s intro: sim_trans)
  qed simp
  then show ?thesis by blast
qed

lemma reduced_mv:
  assumes "reduced (rows m) m" "rows m = cols m" "i < rows m"
  shows "mv m v i = v i"
proof -
  have "mv m v i = (\<Sum>j<cols m. if j = i then v i else 0)"
    unfolding mv_def using assms by (intro sum.cong) (auto simp: reduced_def)
  then show ?thesis using assms by simp
qed

lemma rowReduce_cases:
  assumes "ready (m, n)"
  shows "(\<exists>m' x. rowReduceForInverse b m n = Ret (m', x) \<and> same_dims n x \<and>
      (\<forall>v w. sys m n v w \<longleftrightarrow> (\<forall>i<rows m. v i = mv x w i))) \<or>
    (rowReduceForInverse b m n = Error ''singular matrix'' \<and> singular m)"
  using echelon_loop_cases[OF assms sim_refl[OF assms] echelon_0 le0, of b]
proof (elim disjE exE conjE)
  fix q assume q: "foldR (echelon_step b) [0..<rows (fst (m, n))] (m, n) = Ret q" "sim (m, n) q"
    "echelon (rows (fst (m, n))) (fst q)"
  then obtain m' x where x: "foldR (\<lambda>i. foldR (clear_entry b i) [0..<i]) [0..<rows m] q = Ret (m', x)"
    "sim (m, n) (m', x)" "reduced (rows m) m'"
    using reduce_loop[OF assms q(2,3), of b] by auto
  have d: "rows m' = rows m" "rows m' = cols m'" "same_dims n x" "rows (fst q) = rows m"
    using x(2) q(2) assms by (auto simp: sim_def same_dims_def ready_def)
  have "rowReduceForInverse b m n = Ret (m', x)"
    using q(1) x(1) d(4) by (cases q) (simp add: rowReduceForInverse_def convertToRowEchelonForm_def
        convertToReducedRowEchelonForm_def)
  moreover have "sys m n v w \<longleftrightarrow> (\<forall>i<rows m. v i = mv x w i)" for v w
    using x(2,3) d reduced_mv[of m' _ v] by (auto simp: sim_def sys_def)
  ultimately show ?thesis using d(3) by blast
next
  assume "foldR (echelon_step b) [0..<rows (fst (m, n))] (m, n) = Error ''singular matrix''" "stuck (m, n)"
  then show ?thesis
    using stuck_singular[OF assms] by (simp add: rowReduceForInverse_def convertToRowEchelonForm_def)
qed

lemma Clone_Ret: "wf_matrix m \<Longrightarrow> Clone m = Ret m"
  by (simp add: Clone_def NewMatrixFromSlice_def checkDims_def wf_matrix_def)

lemma RowReduceForInverse_cases:
  assumes "wf_matrix m" "wf_matrix n" "rows m = cols m" "rows n = rows m"
  shows "(\<exists>x. RowReduceForInverse b m n = Ret x \<and> same_dims n x \<and>
      (\<forall>v w. sys m n v w \<longleftrightarrow> (\<forall>i<rows m. v i = mv x w i))) \<or>
    (RowReduceForInverse b m n = Error ''singular matrix'' \<and> singular m)"
proof -
  have "ready (m, n)" using assms by (simp add: ready_def)
  from rowReduce_cases[OF this, of b] show ?thesis
    using assms by (auto simp: RowReduceForInverse_def Clone_Ret)
qed

text \<open>Success and singularity exclude each other.\<close>

lemma solved_not_singular:
  assumes "\<And>v w. sys m n v w \<longleftrightarrow> (\<forall>i<rows m. v i = mv x w i)" "rows m = cols m"
  shows "\<not> singular m"
proof
  assume "singular m"
  then obtain v where v: "\<exists>j<cols m. v j \<noteq> 0" "\<forall>i<rows m. mv m v i = 0" by (auto simp: singular_def)
  then have "sys m n v (\<lambda>_. 0)" by (simp add: sys_def mv_zero)
  then have "\<forall>i<rows m. v i = mv x (\<lambda>_. 0) i" using assms(1) by blast
  then show False using v(1) assms(2) by (auto simp: mv_zero)
qed

section \<open>What the constructors build\<close>

lemma checkDims_iff [res_iff]: "checkDims r c = Ret u \<longleftrightarrow> 0 < r \<and> 0 < c"
  by (auto simp: checkDims_def)

lemma NewMatrix_Ret:
  "0 < r \<Longrightarrow> 0 < c \<Longrightarrow> \<exists>m. NewMatrix (int r) (int c) = Ret m \<and> wf_matrix m \<and> rows m = r \<and> cols m = c"
  by (simp add: NewMatrix_def checkDims_def wf_matrix_def)

lemma Set_Ret:
  assumes "wf_matrix m" "i < rows m" "j < cols m"
  shows "\<exists>m'. Set m (int i) (int j) x = Ret m' \<and> same_dims m m' \<and>
    (\<forall>r<rows m. \<forall>k<cols m. ent m' r k = (if r = i \<and> k = j then GF x else ent m r k))"
proof -
  have "goAssign (elements m) (int (i * cols m + j)) x = Ret ((elements m)[i * cols m + j := x])"
    using assms index_less by (intro goAssign_Ret) (simp add: wf_matrix_def)
  with assms index_less[of i "rows m" j "cols m"] show ?thesis
    by (auto simp: Set_def checkRow_def checkCol_def same_dims_def wf_matrix_def ent_def nth_list_update index_eq_iff)
qed

text \<open>A loop that sets the elements \<open>a, ..., h - 1\<close> of row \<open>i\<close>, and the same loop on a bare element
  array.\<close>

lemma Set_row_loop:
  assumes "wf_matrix m" "i < rows m" "a \<le> h" "h \<le> cols m"
    and g: "\<And>j. a \<le> j \<Longrightarrow> j < h \<Longrightarrow> g j = Ret (x j)"
  shows "\<exists>m'. foldR (\<lambda>j m. bindR (g j) (Set m (int i) (int j))) [a..<h] m = Ret m' \<and> same_dims m m' \<and>
    (\<forall>r<rows m. \<forall>k<cols m. ent m' r k = (if r = i \<and> a \<le> k \<and> k < h then GF (x k) else ent m r k))"
proof (rule foldR_upt_inv[where I = "\<lambda>j s. same_dims m s \<and>
    (\<forall>r<rows m. \<forall>k<cols m. ent s r k = (if r = i \<and> a \<le> k \<and> k < j then GF (x k) else ent m r k))"])
  fix j s
  assume j: "a \<le> j" "j < h" and I: "same_dims m s \<and>
    (\<forall>r<rows m. \<forall>k<cols m. ent s r k = (if r = i \<and> a \<le> k \<and> k < j then GF (x k) else ent m r k))"
  then obtain s' where "Set s (int i) (int j) (x j) = Ret s'" "same_dims s s'"
    "\<forall>r<rows m. \<forall>k<cols m. ent s' r k = (if r = i \<and> k = j then GF (x j) else ent s r k)"
    using Set_Ret[of s i j "x j"] assms by (auto simp: same_dims_def)
  with I g[OF j] j show "\<exists>s'. bindR (g j) (Set s (int i) (int j)) = Ret s' \<and> same_dims m s' \<and>
    (\<forall>r<rows m. \<forall>k<cols m. ent s' r k = (if r = i \<and> a \<le> k \<and> k < Suc j then GF (x k) else ent m r k))"
    by (auto simp: same_dims_def less_Suc_eq)
qed (use assms in \<open>auto simp: same_dims_def\<close>)

lemma assign_row_loop:
  assumes "length els = r * c" "i < r"
    and g: "\<And>j. j < c \<Longrightarrow> g j = Ret (x j)"
  shows "\<exists>els'. foldR (\<lambda>j els. bindR (g j) (goAssign els (int (i * c + j)))) [0..<c] els = Ret els' \<and>
    length els' = r * c \<and>
    (\<forall>p<r. \<forall>k<c. els' ! (p * c + k) = (if p = i \<and> k < c then x k else els ! (p * c + k)))"
proof (rule foldR_upt_inv[where I = "\<lambda>j s. length s = r * c \<and>
    (\<forall>p<r. \<forall>k<c. s ! (p * c + k) = (if p = i \<and> k < j then x k else els ! (p * c + k)))"])
  fix j s
  assume j: "j < c" and I: "length s = r * c \<and>
    (\<forall>p<r. \<forall>k<c. s ! (p * c + k) = (if p = i \<and> k < j then x k else els ! (p * c + k)))"
  then have "goAssign s (int (i * c + j)) (x j) = Ret (s[i * c + j := x j])"
    using assms(2) index_less by (intro goAssign_Ret) simp
  with I g[OF j] j index_less[OF assms(2) j]
  show "\<exists>s'. bindR (g j) (goAssign s (int (i * c + j))) = Ret s' \<and> length s' = r * c \<and>
    (\<forall>p<r. \<forall>k<c. s' ! (p * c + k) = (if p = i \<and> k < Suc j then x k else els ! (p * c + k)))"
    by (auto simp: nth_list_update index_eq_iff less_Suc_eq)
qed (use assms in auto)

lemma NewVandermondeMatrix_Ret:
  assumes "0 < r" "0 < c" "c \<le> length gens" "r \<le> 2 ^ 32"
  shows "\<exists>m. NewVandermondeMatrix (int r) (int c) gens = Ret m \<and> wf_matrix m \<and> rows m = r \<and> cols m = c \<and>
    (\<forall>i<r. \<forall>j<c. ent m i j = GF (gens ! j) ^ i)"
proof -
  let ?h = "\<lambda>i j. Pow tables (gens ! j) (of_nat i)"
  have "\<exists>els. foldR (\<lambda>i. foldR (\<lambda>j els. bindR (bindR (goIndex gens (int j)) (\<lambda>g. Ret (Pow tables g (of_nat i))))
      (goAssign els (int (i * c + j)))) [0..<c]) [0..<r] (replicate (r * c) 0) = Ret els \<and>
      length els = r * c \<and> (\<forall>i<r. \<forall>k<c. i < r \<longrightarrow> els ! (i * c + k) = ?h i k)"
  proof (rule foldR_upt_inv[where I = "\<lambda>i els. length els = r * c \<and>
      (\<forall>p<r. \<forall>k<c. p < i \<longrightarrow> els ! (p * c + k) = ?h p k)"])
    fix i els
    assume i: "i < r" and I: "length els = r * c \<and> (\<forall>p<r. \<forall>k<c. p < i \<longrightarrow> els ! (p * c + k) = ?h p k)"
    have "bindR (goIndex gens (int j)) (\<lambda>g. Ret (Pow tables g (of_nat i))) = Ret (?h i j)" if "j < c" for j
      using that assms(3) by simp
    from assign_row_loop[OF conjunct1[OF I] i, of _ "?h i", OF this] I
    show "\<exists>els'. foldR (\<lambda>j els. bindR (bindR (goIndex gens (int j)) (\<lambda>g. Ret (Pow tables g (of_nat i))))
      (goAssign els (int (i * c + j)))) [0..<c] els = Ret els' \<and>
      length els' = r * c \<and> (\<forall>p<r. \<forall>k<c. p < Suc i \<longrightarrow> els' ! (p * c + k) = ?h p k)"
      by (fastforce simp: less_Suc_eq)
  qed simp_all
  then obtain els where els: "foldR (\<lambda>i. foldR (\<lambda>j els. bindR (bindR (goIndex gens (int j)) (\<lambda>g. Ret (Pow tables g (of_nat i))))
      (goAssign els (int (i * c + j)))) [0..<c]) [0..<r] (replicate (r * c) 0) = Ret els"
      "length els = r * c" "\<forall>i<r. \<forall>k<c. els ! (i * c + k) = ?h i k" by auto
  have "GF (?h i j) = GF (gens ! j) ^ i" if "i < r" for i j
    using that assms(4) by (simp add: unat_of_nat)
  moreover have "NewVandermondeMatrix (int r) (int c) gens = Ret \<lparr>rows = r, cols = c, elements = els\<rparr>"
    using els(1) assms by (simp add: NewVandermondeMatrix_def checkDims_def bindR_assoc)
  ultimately show ?thesis using assms els by (auto simp: wf_matrix_def ent_def)
qed

lemma NewIdentityMatrix_Ret:
  assumes "0 < n"
  shows "\<exists>m. NewIdentityMatrix (int n) = Ret m \<and> wf_matrix m \<and> rows m = n \<and> cols m = n \<and>
    (\<forall>i<n. \<forall>j<n. ent m i j = (if i = j then 1 else 0))"
proof -
  have "\<exists>els. foldR (\<lambda>i els. goAssign els (int (i * n + i)) 1) [0..<n] (replicate (n * n) (0 :: T)) = Ret els \<and>
    length els = n * n \<and> (\<forall>i<n. \<forall>j<n. els ! (i * n + j) = (if i = j \<and> i < n then 1 else 0))"
  proof (rule foldR_upt_inv[where I = "\<lambda>k els. length els = n * n \<and>
      (\<forall>i<n. \<forall>j<n. els ! (i * n + j) = (if i = j \<and> i < k then 1 else 0 :: T))"])
    fix k els
    assume k: "k < n" and I: "length els = n * n \<and>
      (\<forall>i<n. \<forall>j<n. els ! (i * n + j) = (if i = j \<and> i < k then 1 else 0 :: T))"
    then have "goAssign els (int (k * n + k)) 1 = Ret (els[k * n + k := 1])"
      using index_less by (intro goAssign_Ret) simp
    with I k index_less[OF k k] show "\<exists>els'. goAssign els (int (k * n + k)) 1 = Ret els' \<and> length els' = n * n \<and>
      (\<forall>i<n. \<forall>j<n. els' ! (i * n + j) = (if i = j \<and> i < Suc k then 1 else 0 :: T))"
      by (auto simp: nth_list_update index_eq_iff less_Suc_eq)
  qed (auto simp: index_less)
  then show ?thesis
    using assms by (auto simp: NewIdentityMatrix_def checkDims_def wf_matrix_def ent_def)
qed

lemma Inverse_matrix_cases:
  assumes "wf_matrix m" "rows m = cols m"
  shows "(\<exists>x. Inverse_matrix b m = Ret x \<and> same_dims m x \<and>
      (\<forall>v w. (\<forall>i<rows m. mv m v i = w i) \<longleftrightarrow> (\<forall>i<rows m. v i = mv x w i))) \<or>
    (Inverse_matrix b m = Error ''singular matrix'' \<and> singular m)"
proof -
  obtain n where n: "NewIdentityMatrix (int (cols m)) = Ret n" "wf_matrix n" "rows n = cols m" "cols n = cols m"
    "\<forall>i<cols m. \<forall>j<cols m. ent n i j = (if i = j then 1 else 0)"
    using NewIdentityMatrix_Ret[of "cols m"] assms by (auto simp: wf_matrix_def)
  have "reduced (rows n) n" using n by (simp add: reduced_def)
  then have "sys m n v w \<longleftrightarrow> (\<forall>i<rows m. mv m v i = w i)" for v w
    using n assms(2) by (auto simp: sys_def reduced_mv)
  moreover have "ready (m, n)" using assms n by (simp add: ready_def)
  ultimately show ?thesis
    using rowReduce_cases[of m n b] assms n by (auto simp: Inverse_matrix_def Clone_Ret same_dims_def)
qed

section \<open>The interface the coder relies on\<close>

text \<open>A solver for square systems: on success it returns the matrix of the solution map, and it only
  fails, with its one error, on a singular system.\<close>

locale system_solver =
  fixes solve :: "Matrix \<Rightarrow> Matrix \<Rightarrow> Matrix res"
  assumes solve_cases: "wf_matrix m \<Longrightarrow> wf_matrix n \<Longrightarrow> rows m = cols m \<Longrightarrow> rows n = rows m \<Longrightarrow>
      (\<exists>x. solve m n = Ret x \<and> same_dims n x \<and> (\<forall>v w. sys m n v w \<longleftrightarrow> (\<forall>i<rows m. v i = mv x w i))) \<or>
      (solve m n = Error ''singular matrix'' \<and> singular m)"
begin

lemma solve_sound:
  assumes "wf_matrix m" "wf_matrix n" "rows m = cols m" "rows n = rows m" "solve m n = Ret x"
  shows "same_dims n x" "sys m n v w \<longleftrightarrow> (\<forall>i<rows m. v i = mv x w i)"
  using solve_cases[OF assms(1-4)] assms(5) by auto

lemma solve_complete:
  assumes "wf_matrix m" "wf_matrix n" "rows m = cols m" "rows n = rows m" "\<not> singular m"
  shows "\<exists>x. solve m n = Ret x"
  using solve_cases[OF assms(1-4)] assms(5) by blast

lemma solve_fails:
  assumes "wf_matrix m" "wf_matrix n" "rows m = cols m" "rows n = rows m"
  shows "solve m n = Error ''singular matrix'' \<longleftrightarrow> singular m"
  using solve_cases[OF assms(1-4)]
proof (elim disjE exE conjE)
  fix x assume x: "solve m n = Ret x" "\<forall>v w. sys m n v w \<longleftrightarrow> (\<forall>i<rows m. v i = mv x w i)"
  then have "\<not> singular m" by (intro solved_not_singular[OF _ assms(3)]) blast
  with x(1) show ?thesis by simp
qed simp

end

interpretation gauss: system_solver "RowReduceForInverse b" for b
  by unfold_locales (rule RowReduceForInverse_cases)

section \<open>Properties\<close>

text \<open>C18. Row reduction on a square matrix \<open>m\<close> and a right-hand side \<open>n\<close> never panics. Either it returns the
  matrix \<open>x\<close> with \<open>x w\<close> the one solution \<open>v\<close> of \<open>m v = n w\<close> for every \<open>w\<close>, or it returns the error
  \<open>singular matrix\<close>, and it returns that error exactly when \<open>m\<close> has a non-trivial kernel.\<close>

theorem RowReduceForInverse_correct:
  assumes "wf_matrix m" "wf_matrix n" "rows m = cols m" "rows n = rows m"
  shows "if singular m then RowReduceForInverse b m n = Error ''singular matrix''
    else (\<exists>x. RowReduceForInverse b m n = Ret x \<and> same_dims n x \<and>
           (\<forall>v w. sys m n v w \<longleftrightarrow> (\<forall>i<rows m. v i = mv x w i)))"
  using gauss.solve_fails[OF assms, of b] gauss.solve_cases[OF assms, of b] by auto

theorem RowReduceForInverse_correct_witness:
  "RowReduceForInverse NonAmd64 \<lparr>rows = 1, cols = 1, elements = [0]\<rparr> \<lparr>rows = 1, cols = 1, elements = [5]\<rparr> =
     Error ''singular matrix''"
proof -
  let ?m = "\<lparr>rows = 1, cols = 1, elements = [0 :: T]\<rparr>" and ?n = "\<lparr>rows = 1, cols = 1, elements = [5 :: T]\<rparr>"
  have "singular ?m" unfolding singular_def by (intro exI[of _ "\<lambda>_. 1"]) (simp add: mv_def ent_def)
  then show ?thesis
    using RowReduceForInverse_correct[of ?m ?n NonAmd64] by (simp add: wf_matrix_def)
qed

text \<open>C31. \<open>Inverse\<close> of a square matrix never panics and returns its two-sided inverse as a map, or the error
  \<open>singular matrix\<close> on a matrix with a non-trivial kernel.\<close>

theorem Inverse_matrix_correct:
  assumes "wf_matrix m" "rows m = cols m"
  shows "(\<exists>x. Inverse_matrix b m = Ret x \<and> same_dims m x \<and> \<not> singular m \<and>
      (\<forall>v w. (\<forall>i<rows m. mv m v i = w i) \<longleftrightarrow> (\<forall>i<rows m. v i = mv x w i))) \<or>
    (Inverse_matrix b m = Error ''singular matrix'' \<and> singular m)"
  using Inverse_matrix_cases[OF assms, of b]
proof (elim disjE exE conjE)
  fix x assume x: "Inverse_matrix b m = Ret x" "same_dims m x"
    "\<forall>v w. (\<forall>i<rows m. mv m v i = w i) \<longleftrightarrow> (\<forall>i<rows m. v i = mv x w i)"
  have "\<not> singular m"
  proof
    assume "singular m"
    then obtain v where v: "\<exists>j<cols m. v j \<noteq> 0" "\<forall>i<rows m. mv m v i = 0" by (auto simp: singular_def)
    then have "\<forall>i<rows m. v i = mv x (\<lambda>_. 0) i" using x(3) by blast
    then show False using v(1) assms(2) by (auto simp: mv_zero)
  qed
  with x show ?thesis by blast
qed blast

theorem Inverse_matrix_correct_witness:
  "\<exists>x. Inverse_matrix (Amd64 True True) \<lparr>rows = 1, cols = 1, elements = [7]\<rparr> = Ret x \<and> GF 7 * ent x 0 0 = 1"
proof -
  let ?m = "\<lparr>rows = 1, cols = 1, elements = [7 :: T]\<rparr>"
  have ns: "\<not> singular ?m" by (auto simp: singular_def mv_def ent_def)
  obtain x where x: "Inverse_matrix (Amd64 True True) ?m = Ret x" "same_dims ?m x"
    "\<forall>v w. (\<forall>i<rows ?m. mv ?m v i = w i) \<longleftrightarrow> (\<forall>i<rows ?m. v i = mv x w i)"
    using Inverse_matrix_correct[of ?m "Amd64 True True"] ns by (auto simp: wf_matrix_def)
  have "(\<forall>i<rows ?m. mv ?m (\<lambda>_. ent x 0 0) i = (\<lambda>_. 1) i) \<longleftrightarrow> (\<forall>i<rows ?m. ent x 0 0 = mv x (\<lambda>_. 1) i)"
    using x(3)[THEN spec, of "\<lambda>_. ent x 0 0", THEN spec, of "\<lambda>_. 1"] .
  moreover have "cols x = 1" using x(2) by (simp add: same_dims_def)
  ultimately have "GF 7 * ent x 0 0 = 1" by (simp add: mv_def ent_def)
  with x(1) show ?thesis by blast
qed

end
