(* ===== verification/RS_Parallel.thy ===== *)
theory RS_Parallel
  imports RS_Matrix
begin

text \<open>
  The matrix-times-shards product of \<open>src/rs/rs.go\<close>: \<open>applyMatrixSlice\<close>, the split of a chunk into
  byte ranges and \<open>applyMatrixParallelData\<close>, which runs one goroutine per range. The goroutines are a
  step function over their positions, one step per kernel call, and a run is driven by an arbitrary
  schedule that interleaves them with the cancellation of the context. The lemmas show that every
  schedule that ends without a cancelled context has computed the whole product, and that every
  schedule that runs each goroutine often enough ends.
\<close>

section \<open>The environment and the split\<close>

text \<open>What the code asks of its surroundings: the build, \<open>runtime.GOMAXPROCS(0)\<close> and the number of
  physical cores that the \<open>cpuid\<close> package reports.\<close>

record env =
  env_build :: build
  gomaxprocs :: int
  physicalCores :: int

definition DefaultNumGoroutines :: "env \<Rightarrow> int" where
  "DefaultNumGoroutines e =
     (let logical = gomaxprocs e; physical = physicalCores e
      in if physical > 0 \<and> physical < logical then physical else logical)"

definition minSplitBytes :: nat where
  "minSplitBytes = 16"

definition splitForBlock :: "nat \<Rightarrow> nat \<Rightarrow> nat \<Rightarrow> nat" where
  "splitForBlock dataLength numGoroutines kernelBlock =
     (let block = max kernelBlock minSplitBytes;
          split = max ((dataLength + numGoroutines - 1) div numGoroutines) block;
          rem = split mod block
      in if rem \<noteq> 0 then split + (block - rem) else split)"

definition perGoroutineSplit :: "env \<Rightarrow> nat \<Rightarrow> nat \<Rightarrow> nat" where
  "perGoroutineSplit e dataLength numGoroutines =
     splitForBlock dataLength numGoroutines (KernelBlockBytes (env_build e))"

section \<open>One goroutine\<close>

text \<open>Where a goroutine is in \<open>applyMatrixSlice\<close>: before the kernel call of row \<open>i\<close> and input \<open>j\<close>, or
  returned. The context is looked at before the first call of a row only.\<close>

datatype pos = Pos nat nat | Done

fun applyMatrixSlice_step ::
    "build \<Rightarrow> Matrix \<Rightarrow> bytes list \<Rightarrow> bool \<Rightarrow> nat \<times> nat \<Rightarrow> pos \<Rightarrow> bytes list \<Rightarrow> (pos \<times> bytes list) res" where
  "applyMatrixSlice_step b m inp canc (dataStart, dataEnd) Done out = Ret (Done, out)"
| "applyMatrixSlice_step b m inp canc (dataStart, dataEnd) (Pos i j) out =
     (if rows m \<le> i then Ret (Done, out)
      else if j = 0 \<and> canc then Ret (Done, out)
      else bindR (goIndex out (int i)) (\<lambda>o'. bindR (goSlice o' dataStart dataEnd) (\<lambda>outSlice.
        bindR (At m (int i) (int j)) (\<lambda>c.
          bindR (goIndex inp (int j)) (\<lambda>x. bindR (goSlice x dataStart dataEnd) (\<lambda>inSlice.
            bindR (if j = 0 then MulByteSliceLE b c (Other inSlice) outSlice
                   else MulAndAddByteSliceLE b c (Other inSlice) outSlice) (\<lambda>r.
              Ret (if j + 1 < length inp then Pos i (j + 1) else Pos (i + 1) 0,
                   out[i := store dataStart r o']))))))))"

section \<open>All goroutines\<close>

text \<open>A scheduler action: the context is cancelled, or goroutine \<open>g\<close> makes a step.\<close>

datatype action = Cancel | Run nat

record apply_state =
  cancelled :: bool
  poss :: "pos list"
  outs :: "bytes list"

definition exec_action ::
    "build \<Rightarrow> Matrix \<Rightarrow> bytes list \<Rightarrow> (nat \<times> nat) list \<Rightarrow> action \<Rightarrow> apply_state \<Rightarrow> apply_state res" where
  "exec_action b m inp ranges a st =
     (case a of
        Cancel \<Rightarrow> Ret (st\<lparr>cancelled := True\<rparr>)
      | Run g \<Rightarrow>
          if g < length ranges then
            bindR (applyMatrixSlice_step b m inp (cancelled st) (ranges ! g) (poss st ! g) (outs st)) (\<lambda>(p, out).
              Ret (st\<lparr>poss := (poss st)[g := p], outs := out\<rparr>))
          else Ret st)"

text \<open>The byte range of each goroutine; a chunk for fewer than two is done in the caller.\<close>

definition goroutine_ranges :: "nat \<Rightarrow> nat \<Rightarrow> (nat \<times> nat) list" where
  "goroutine_ranges dataLength per =
     (let actual = (dataLength + per - 1) div per
      in if actual < 2 then [(0, dataLength)]
         else map (\<lambda>i. (i * per, min (i * per + per) dataLength)) [0..<actual])"

text \<open>\<open>None\<close> is a run that the schedule leaves waiting for a goroutine.\<close>

definition applyMatrixParallelData ::
    "env \<Rightarrow> action list \<Rightarrow> bool \<Rightarrow> Matrix \<Rightarrow> bytes list \<Rightarrow> bytes list \<Rightarrow> int \<Rightarrow> bytes list res option" where
  "applyMatrixParallelData e sched canc m inp out numGoroutines =
     (if length inp = 0 \<or> length out = 0 then Some (Ret out)
      else if length (inp ! 0) \<noteq> length (out ! 0) then Some (Error ''mismatched data slice lengths'')
      else
        let n = (if numGoroutines < 1 then DefaultNumGoroutines e else numGoroutines);
            dataLength = length (out ! 0);
            ranges = goroutine_ranges dataLength (perGoroutineSplit e dataLength (nat n));
            st = \<lparr>cancelled = canc, poss = replicate (length ranges) (Pos 0 0), outs = out\<rparr>
        in case foldR (exec_action (env_build e) m inp ranges) sched st of
             Ret st' \<Rightarrow> if list_all (\<lambda>p. p = Done) (poss st')
                        then Some (if cancelled st' then Error ''context canceled'' else Ret (outs st'))
                        else None
           | Error er \<Rightarrow> Some (Error er)
           | Panic p \<Rightarrow> Some (Panic p))"

section \<open>The split\<close>

lemma ceil_div:
  assumes "0 < (d :: nat)"
  shows "n \<le> (n + d - 1) div d * d"
  using div_mult_mod_eq[of "n + d - 1" d] mod_less_divisor[OF assms, of "n + d - 1"] by linarith

lemma splitForBlock_props:
  fixes kernelBlock :: nat
  assumes "0 < numGoroutines"
  defines "block \<equiv> max kernelBlock minSplitBytes"
  shows "block dvd splitForBlock dataLength numGoroutines kernelBlock"
    and "block \<le> splitForBlock dataLength numGoroutines kernelBlock"
    and "dataLength \<le> numGoroutines * splitForBlock dataLength numGoroutines kernelBlock"
proof -
  define s where "s = max ((dataLength + numGoroutines - 1) div numGoroutines) block"
  have f: "splitForBlock dataLength numGoroutines kernelBlock =
      (if s mod block \<noteq> 0 then s + (block - s mod block) else s)"
    by (simp add: splitForBlock_def s_def block_def Let_def)
  have b: "0 < block" by (simp add: block_def minSplitBytes_def)
  have le: "s \<le> splitForBlock dataLength numGoroutines kernelBlock" by (simp add: f)
  show "block \<le> splitForBlock dataLength numGoroutines kernelBlock" using le by (simp add: s_def)
  have "s + (block - s mod block) = (s div block + 1) * block"
    using mod_less_divisor[OF b, of s] div_mult_mod_eq[of s block] unfolding add_mult_distrib by linarith
  then show "block dvd splitForBlock dataLength numGoroutines kernelBlock" unfolding f by auto
  have "dataLength \<le> numGoroutines * ((dataLength + numGoroutines - 1) div numGoroutines)"
    using ceil_div[OF assms(1)] by (simp add: mult.commute)
  also have "\<dots> \<le> numGoroutines * splitForBlock dataLength numGoroutines kernelBlock"
    using le by (intro mult_le_mono2) (simp add: s_def)
  finally show "dataLength \<le> numGoroutines * splitForBlock dataLength numGoroutines kernelBlock" .
qed

lemma KernelBlockBytes_even: "even (KernelBlockBytes b)"
  by (cases b) (simp_all add: KernelBlockBytes_def avx2BlockBytes_def ssse3BlockBytes_def elementBytes_def)

lemma perGoroutineSplit_even:
  assumes "0 < n"
  shows "even (perGoroutineSplit e len n)" "0 < perGoroutineSplit e len n"
proof -
  have "even (max (KernelBlockBytes (env_build e)) minSplitBytes)" "0 < max (KernelBlockBytes (env_build e)) minSplitBytes"
    using KernelBlockBytes_even by (simp_all add: max_def minSplitBytes_def)
  then show "even (perGoroutineSplit e len n)" "0 < perGoroutineSplit e len n"
    using splitForBlock_props(1,2)[OF assms, of "KernelBlockBytes (env_build e)" len]
    unfolding perGoroutineSplit_def by (auto intro: dvd_trans)
qed

text \<open>The ranges are even, disjoint and cover the chunk.\<close>

definition good_ranges :: "nat \<Rightarrow> (nat \<times> nat) list \<Rightarrow> bool" where
  "good_ranges len ranges \<longleftrightarrow>
     (\<forall>(s, e) \<in> set ranges. even s \<and> even e \<and> s \<le> e \<and> e \<le> len) \<and>
     (\<forall>g < length ranges. \<forall>h < g. snd (ranges ! h) \<le> fst (ranges ! g)) \<and>
     (\<forall>k < len. \<exists>g < length ranges. fst (ranges ! g) \<le> k \<and> k < snd (ranges ! g))"

lemma goroutine_ranges_good:
  assumes "even len" "even per" "0 < per"
  shows "good_ranges len (goroutine_ranges len per)"
proof -
  define n where "n = (len + per - 1) div per"
  have n: "len \<le> n * per" "i < n \<Longrightarrow> i * per < len" for i
  proof -
    show "len \<le> n * per" using ceil_div[OF assms(3)] by (simp add: n_def)
    assume "i < n"
    then have "Suc i * per \<le> n * per" by (intro mult_le_mono1) simp
    moreover have "n * per \<le> len + per - 1" by (simp add: n_def)
    ultimately show "i * per < len" using assms(3) by simp
  qed
  show ?thesis
  proof (cases "n < 2")
    case True
    with assms show ?thesis by (auto simp: good_ranges_def goroutine_ranges_def n_def)
  next
    case False
    then have r: "goroutine_ranges len per = map (\<lambda>i. (i * per, min (i * per + per) len)) [0..<n]"
      by (simp add: goroutine_ranges_def n_def)
    have "k div per < n \<and> k div per * per \<le> k \<and> k < k div per * per + per" if "k < len" for k
      using that n(1) assms(3) dividend_less_div_times[OF assms(3), of k]
      by (auto simp: div_less_iff_less_mult add.commute)
    then have "\<exists>g<n. g * per \<le> k \<and> k < min (g * per + per) len" if "k < len" for k
      using that by (intro exI[of _ "k div per"]) auto
    moreover have "h * per + per \<le> g * per" if "h < g" for h g
      using mult_le_mono1[of "Suc h" g per] that by simp
    ultimately show ?thesis
      using n(2) assms by (fastforce simp: good_ranges_def r min_def)
  qed
qed

section \<open>Every interleaving computes the product\<close>

text \<open>The part of row \<open>i\<close> at element \<open>k\<close> that the first \<open>j\<close> inputs contribute.\<close>

definition part :: "Matrix \<Rightarrow> bytes list \<Rightarrow> nat \<Rightarrow> nat \<Rightarrow> nat \<Rightarrow> gf" where
  "part m inp i k j = (\<Sum>j'<j. ent m i j' * GF (elems (inp ! j') ! k))"

definition job :: "Matrix \<Rightarrow> bytes list \<Rightarrow> (nat \<times> nat) list \<Rightarrow> nat \<Rightarrow> bool" where
  "job m inp ranges len \<longleftrightarrow> wf_matrix m \<and> cols m = length inp \<and>
     (\<forall>x\<in>set inp. length x = len) \<and> even len \<and> good_ranges len ranges"

definition pos_ok :: "Matrix \<Rightarrow> bytes list \<Rightarrow> bool \<Rightarrow> (nat \<Rightarrow> nat \<Rightarrow> gf) \<Rightarrow> pos \<Rightarrow> nat \<Rightarrow> bool" where
  "pos_ok m inp canc out p k = (case p of
     Pos i0 j0 \<Rightarrow> (\<forall>i<rows m. (i < i0 \<longrightarrow> out i k = part m inp i k (length inp)) \<and>
        (i = i0 \<and> 0 < j0 \<longrightarrow> out i k = part m inp i k j0))
   | Done \<Rightarrow> canc \<or> (\<forall>i<rows m. out i k = part m inp i k (length inp)))"

fun pos_bound :: "Matrix \<Rightarrow> bytes list \<Rightarrow> pos \<Rightarrow> bool" where
  "pos_bound m inp (Pos i j) \<longleftrightarrow> i \<le> rows m \<and> j < length inp \<and> (i = rows m \<longrightarrow> j = 0)"
| "pos_bound m inp Done \<longleftrightarrow> True"

definition out_elem :: "bytes list \<Rightarrow> nat \<Rightarrow> nat \<Rightarrow> gf" where
  "out_elem out i k = GF (elems (out ! i) ! k)"

definition apply_inv :: "Matrix \<Rightarrow> bytes list \<Rightarrow> (nat \<times> nat) list \<Rightarrow> nat \<Rightarrow> apply_state \<Rightarrow> bool" where
  "apply_inv m inp ranges len st \<longleftrightarrow>
     length (poss st) = length ranges \<and> length (outs st) = rows m \<and> (\<forall>o'\<in>set (outs st). length o' = len) \<and>
     (\<forall>g<length ranges. pos_bound m inp (poss st ! g)) \<and>
     (\<forall>g<length ranges. \<forall>k. fst (ranges ! g) \<le> 2 * k \<longrightarrow> 2 * k < snd (ranges ! g) \<longrightarrow>
        pos_ok m inp (cancelled st) (out_elem (outs st)) (poss st ! g) k)"

text \<open>One kernel call of a goroutine.\<close>

lemma applyMatrixSlice_step_Ret:
  assumes job: "job m inp ranges len" and se: "even s" "even e" "s \<le> e" "e \<le> len"
    and out: "length out = rows m" "\<forall>o'\<in>set out. length o' = len"
    and ij: "i < rows m" "j < length inp" "\<not> (j = 0 \<and> canc)"
  shows "\<exists>o'. applyMatrixSlice_step b m inp canc (s, e) (Pos i j) out =
      Ret (if j + 1 < length inp then Pos i (j + 1) else Pos (i + 1) 0, out[i := o']) \<and> length o' = len \<and>
      (\<forall>k < len div 2. GF (elems o' ! k) = (if s \<le> 2 * k \<and> 2 * k < e
         then (if j = 0 then 0 else out_elem out i k) + ent m i j * GF (elems (inp ! j) ! k)
         else out_elem out i k))"
proof -
  define c where "c = elements m ! (i * cols m + j)"
  define f where "f = (if j = 0 then mul_fn c else mul_add_fn c)"
  let ?x = "inp ! j" and ?o = "out ! i"
  let ?xs = "take (e - s) (drop s ?x)" and ?os = "take (e - s) (drop s ?o)"
  have len: "length ?x = len" "length ?o = len" "even len"
    using job out ij by (auto simp: job_def)
  have sp: "slice_pair (Other ?xs) ?os" using len se by (auto simp: slice_pair_def)
  let ?r = "slice_map f (Other ?xs) ?os"
  have at: "At m (int i) (int j) = Ret c" using job ij by (simp add: At_Ret job_def c_def)
  have step: "applyMatrixSlice_step b m inp canc (s, e) (Pos i j) out =
      Ret (if j + 1 < length inp then Pos i (j + 1) else Pos (i + 1) 0, out[i := store s ?r ?o])"
    using ij out(1) len se at MulByteSliceLE_Ret[OF sp] MulAndAddByteSliceLE_Ret[OF sp]
      goIndex_Ret[of 0 inp]
    by (cases "j = 0") (simp_all add: f_def)
  have "upd_range s (s + (e - s)) f (Other ?x) ?o (store s ?r ?o)"
    using se len sp by (intro upd_range_store) (auto simp: slice_pair_def)
  then have u: "upd_range s e f (Other ?x) ?o (store s ?r ?o)" using se(3) by simp
  have "GF (f v w) = (if j = 0 then 0 else GF w) + ent m i j * GF v" for v w
    by (simp add: f_def c_def ent_def GF_xor)
  with u len have "\<forall>k < len div 2. GF (elems (store s ?r ?o) ! k) = (if s \<le> 2 * k \<and> 2 * k < e
         then (if j = 0 then 0 else out_elem out i k) + ent m i j * GF (elems ?x ! k) else out_elem out i k)"
    by (simp add: upd_range_def out_elem_def)
  moreover have "length (store s ?r ?o) = len" using u len by (simp add: upd_range_def)
  ultimately show ?thesis using step by blast
qed

lemma part_Suc: "part m inp i k (Suc j) = part m inp i k j + ent m i j * GF (elems (inp ! j) ! k)"
  by (simp add: part_def)

lemma pos_ok_step:
  assumes "pos_ok m inp canc out (Pos i j) k" "i < rows m" "j < length inp"
    and "\<And>i'. i' \<noteq> i \<Longrightarrow> out' i' k = out i' k"
    and "out' i k = (if j = 0 then 0 else out i k) + ent m i j * GF (elems (inp ! j) ! k)"
  shows "pos_ok m inp canc out' (if j + 1 < length inp then Pos i (j + 1) else Pos (i + 1) 0) k"
proof -
  have "out' i k = part m inp i k (Suc j)"
    using assms by (auto simp: pos_ok_def part_def part_Suc)
  moreover have "Suc j = length inp" if "\<not> j + 1 < length inp" using that assms(3) by simp
  ultimately show ?thesis
    using assms(1,4) by (auto simp: pos_ok_def less_Suc_eq)
qed

lemma pos_ok_cong:
  "(\<And>i. i < rows m \<Longrightarrow> out' i k = out i k) \<Longrightarrow> pos_ok m inp canc out' p k = pos_ok m inp canc out p k"
  by (auto simp: pos_ok_def split: pos.splits)

lemma ranges_disjoint:
  assumes "good_ranges len ranges" "g < length ranges" "h < length ranges" "g \<noteq> h"
    and "fst (ranges ! h) \<le> k" "k < snd (ranges ! h)"
  shows "\<not> (fst (ranges ! g) \<le> k \<and> k < snd (ranges ! g))"
  using assms unfolding good_ranges_def by (metis leD le_trans less_le_trans linorder_neqE_nat)

lemma range_less: "good_ranges len ranges \<Longrightarrow> h < length ranges \<Longrightarrow> snd (ranges ! h) \<le> len"
  by (auto simp: good_ranges_def split_beta dest: nth_mem)

text \<open>A kernel call by goroutine \<open>g\<close> advances its own range and leaves the others as they are.\<close>

lemma kernel_call_inv:
  fixes m inp i j
  defines "p \<equiv> if j + 1 < length inp then Pos i (j + 1) else Pos (i + 1) 0"
  assumes job: "job m inp ranges len" and inv: "apply_inv m inp ranges len st"
    and g: "g < length ranges" "poss st ! g = Pos i j" and ij: "i < rows m" "j < length inp"
    and o': "length o' = len"
      "\<forall>k < len div 2. GF (elems o' ! k) = (if fst (ranges ! g) \<le> 2 * k \<and> 2 * k < snd (ranges ! g)
        then (if j = 0 then 0 else out_elem (outs st) i k) + ent m i j * GF (elems (inp ! j) ! k)
        else out_elem (outs st) i k)"
  shows "apply_inv m inp ranges len (st\<lparr>poss := (poss st)[g := p], outs := (outs st)[i := o']\<rparr>)"
proof -
  have gr: "good_ranges len ranges" using job by (simp add: job_def)
  have sh: "length (poss st) = length ranges" "length (outs st) = rows m" "\<forall>o'\<in>set (outs st). length o' = len"
    "\<forall>h<length ranges. pos_bound m inp (poss st ! h)" using inv by (auto simp: apply_inv_def)
  have elem: "out_elem ((outs st)[i := o']) i' k = (if i' = i then GF (elems o' ! k) else out_elem (outs st) i' k)"
    for i' k using sh ij by (simp add: out_elem_def)
  have "pos_ok m inp (cancelled st) (out_elem ((outs st)[i := o'])) ((poss st)[g := p] ! h) k"
    if h: "h < length ranges" "fst (ranges ! h) \<le> 2 * k" "2 * k < snd (ranges ! h)" for h k
  proof -
    have k: "k < len div 2" using h(3) range_less[OF gr h(1)] job by (auto simp: job_def)
    have old: "pos_ok m inp (cancelled st) (out_elem (outs st)) (poss st ! h) k"
      using inv h by (auto simp: apply_inv_def)
    show ?thesis
    proof (cases "h = g")
      case True
      with old g h o'(2) k elem sh ij show ?thesis
        unfolding p_def by (simp only: nth_list_update_eq) (rule pos_ok_step, auto)
    next
      case False
      with ranges_disjoint[OF gr g(1) h(1) _ h(2,3)] o'(2) k
      have "GF (elems o' ! k) = out_elem (outs st) i k" by auto
      then have "pos_ok m inp (cancelled st) (out_elem ((outs st)[i := o'])) (poss st ! h) k"
        using old pos_ok_cong[of m "out_elem ((outs st)[i := o'])" k "out_elem (outs st)"] elem by simp
      with False show ?thesis by simp
    qed
  qed
  moreover have "pos_bound m inp p" using ij by (auto simp: p_def)
  ultimately show ?thesis
    using sh o'(1) ij g(1) by (auto simp: apply_inv_def nth_list_update dest!: set_update_subset_insert[THEN subsetD])
qed

text \<open>A goroutine that has finished its rows, or that sees the cancellation, stops.\<close>

lemma worker_stops_inv:
  assumes inv: "apply_inv m inp ranges len st" and g: "g < length ranges" "poss st ! g = Pos i j"
    and stop: "\<not> (i < rows m \<and> \<not> (j = 0 \<and> cancelled st))"
  shows "exec_action b m inp ranges (Run g) st = Ret (st\<lparr>poss := (poss st)[g := Done]\<rparr>)"
    "apply_inv m inp ranges len (st\<lparr>poss := (poss st)[g := Done]\<rparr>)"
proof -
  show "exec_action b m inp ranges (Run g) st = Ret (st\<lparr>poss := (poss st)[g := Done]\<rparr>)"
    using stop g by (cases "ranges ! g") (auto simp: exec_action_def)
  have "pos_ok m inp (cancelled st) (out_elem (outs st)) Done k"
    if "fst (ranges ! g) \<le> 2 * k" "2 * k < snd (ranges ! g)" for k
  proof -
    have "pos_ok m inp (cancelled st) (out_elem (outs st)) (Pos i j) k" using inv g that by (auto simp: apply_inv_def)
    with stop show ?thesis by (auto simp: pos_ok_def)
  qed
  then show "apply_inv m inp ranges len (st\<lparr>poss := (poss st)[g := Done]\<rparr>)"
    using inv g(1) by (auto simp: apply_inv_def nth_list_update)
qed

text \<open>Otherwise it makes one kernel call.\<close>

lemma worker_calls_inv:
  assumes job: "job m inp ranges len" and inv: "apply_inv m inp ranges len st" and g: "g < length ranges" "poss st ! g = Pos i j"
    and go: "i < rows m" "\<not> (j = 0 \<and> cancelled st)"
  shows "\<exists>st'. exec_action b m inp ranges (Run g) st = Ret st' \<and> apply_inv m inp ranges len st'"
proof -
  obtain s e where se: "ranges ! g = (s, e)" by (cases "ranges ! g")
  have r: "even s" "even e" "s \<le> e" "e \<le> len"
    using job g se nth_mem[OF g(1)] by (auto simp: job_def good_ranges_def)
  have ij: "i < rows m" "j < length inp" "\<not> (j = 0 \<and> cancelled st)"
    using inv g go unfolding apply_inv_def by (metis, metis pos_bound.simps(1), metis)
  have out: "length (outs st) = rows m" "\<forall>o'\<in>set (outs st). length o' = len"
    using inv by (auto simp: apply_inv_def)
  let ?p = "if j + 1 < length inp then Pos i (j + 1) else Pos (i + 1) 0"
  obtain o' where o': "applyMatrixSlice_step b m inp (cancelled st) (s, e) (Pos i j) (outs st) = Ret (?p, (outs st)[i := o'])"
      "length o' = len"
      "\<forall>k < len div 2. GF (elems o' ! k) = (if s \<le> 2 * k \<and> 2 * k < e
        then (if j = 0 then 0 else out_elem (outs st) i k) + ent m i j * GF (elems (inp ! j) ! k)
        else out_elem (outs st) i k)"
    using applyMatrixSlice_step_Ret[OF job r out ij] by blast
  let ?st = "st\<lparr>poss := (poss st)[g := ?p], outs := (outs st)[i := o']\<rparr>"
  have "exec_action b m inp ranges (Run g) st = Ret ?st"
    using g se o'(1) by (simp add: exec_action_def)
  moreover have "apply_inv m inp ranges len ?st"
    using kernel_call_inv[OF job inv g ij(1,2) o'(2)] o'(3) by (simp add: se)
  ultimately show ?thesis by blast
qed

lemma exec_action_inv:
  assumes job: "job m inp ranges len" and inv: "apply_inv m inp ranges len st"
  shows "\<exists>st'. exec_action b m inp ranges a st = Ret st' \<and> apply_inv m inp ranges len st'"
proof (cases a)
  case Cancel
  then show ?thesis using inv by (auto simp: exec_action_def apply_inv_def pos_ok_def split: pos.splits)
next
  case (Run g)
  consider (outside) "\<not> g < length ranges" | (finished) "g < length ranges" "poss st ! g = Done"
    | (at) i j where "g < length ranges" "poss st ! g = Pos i j" by (cases "poss st ! g") auto
  then show ?thesis
  proof cases
    case outside
    then show ?thesis using inv by (simp add: exec_action_def Run)
  next
    case finished
    then show ?thesis
      using inv Run by (cases "ranges ! g") (auto simp: exec_action_def list_update_same_conv[THEN iffD2] apply_inv_def)
  next
    case at
    then show ?thesis
      using worker_stops_inv[OF inv at] worker_calls_inv[OF job inv at] unfolding Run by blast
  qed
qed

section \<open>Complete runs\<close>

lemma run_inv:
  assumes "job m inp ranges len" "apply_inv m inp ranges len st"
  shows "\<exists>st'. foldR (exec_action b m inp ranges) sched st = Ret st' \<and> apply_inv m inp ranges len st'"
  using assms(2)
proof (induction sched arbitrary: st)
  case (Cons a sched)
  then show ?case using exec_action_inv[OF assms(1), of st b a] by fastforce
qed simp

lemma part_mv: "cols m = length inp \<Longrightarrow> part m inp i k (length inp) = mv m (\<lambda>j. GF (elems (inp ! j) ! k)) i"
  by (simp add: part_def mv_def)

text \<open>When all goroutines have returned and the context is live, every element is the product.\<close>

lemma all_done_product:
  assumes job: "job m inp ranges len" and inv: "apply_inv m inp ranges len st"
    and all: "list_all (\<lambda>p. p = Done) (poss st)" and live: "\<not> cancelled st"
    and i: "i < rows m" and k: "k < len div 2"
  shows "GF (elems (outs st ! i) ! k) = mv m (\<lambda>j. GF (elems (inp ! j) ! k)) i"
proof -
  have "2 * k < len" using k by simp
  then obtain g where g: "g < length ranges" "fst (ranges ! g) \<le> 2 * k" "2 * k < snd (ranges ! g)"
    using job by (auto simp: job_def good_ranges_def)
  moreover have "poss st ! g = Done" using all g(1) inv by (simp add: list_all_length apply_inv_def)
  ultimately have "pos_ok m inp (cancelled st) (out_elem (outs st)) Done k"
    using inv by (metis apply_inv_def)
  with live i job show ?thesis by (simp add: pos_ok_def out_elem_def part_mv job_def)
qed

text \<open>How many steps a goroutine still needs; a step of another goroutine does not change it.\<close>

fun steps_left :: "Matrix \<Rightarrow> bytes list \<Rightarrow> pos \<Rightarrow> nat" where
  "steps_left m inp (Pos i j) = (rows m - i) * length inp - j + 1"
| "steps_left m inp Done = 0"

lemma steps_left_0: "steps_left m inp p = 0 \<longleftrightarrow> p = Done"
  by (cases p) simp_all

lemma step_decreases:
  assumes "applyMatrixSlice_step b m inp canc r p out = Ret (p', out')" "pos_bound m inp p"
  shows "steps_left m inp p' \<le> steps_left m inp p - 1"
proof (cases p)
  case (Pos i j)
  show ?thesis
  proof (cases "i < rows m")
    case True
    then have "(rows m - i) * length inp = length inp + (rows m - Suc i) * length inp"
      by (metis Suc_diff_Suc mult_Suc)
    moreover from assms Pos True have "p' = (if j + 1 < length inp then Pos i (j + 1) else Pos (i + 1) 0) \<or> p' = Done"
      by (cases r) (auto simp: res_iff split: if_splits)
    ultimately show ?thesis using assms(2) Pos by (fastforce split: if_splits)
  qed (use assms Pos in \<open>cases r; auto\<close>)
qed (use assms in \<open>cases r; auto\<close>)

lemma exec_action_steps:
  assumes "exec_action b m inp ranges a st = Ret st'" "apply_inv m inp ranges len st" "g < length ranges"
  shows "steps_left m inp (poss st' ! g) \<le> steps_left m inp (poss st ! g) - (if a = Run g then 1 else 0)"
proof (cases a)
  case (Run h)
  show ?thesis
  proof (cases "h = g")
    case True
    with assms Run obtain p out where
      s: "applyMatrixSlice_step b m inp (cancelled st) (ranges ! g) (poss st ! g) (outs st) = Ret (p, out)"
        "st' = st\<lparr>poss := (poss st)[g := p], outs := out\<rparr>"
      by (auto simp: exec_action_def res_iff)
    have "pos_bound m inp (poss st ! g)" "g < length (poss st)" using assms by (auto simp: apply_inv_def)
    with step_decreases[OF s(1)] s(2) Run True show ?thesis by simp
  qed (use assms Run in \<open>auto simp: exec_action_def res_iff split: if_splits\<close>)
qed (use assms in \<open>auto simp: exec_action_def\<close>)

lemma run_steps:
  assumes "job m inp ranges len" "apply_inv m inp ranges len st"
    "foldR (exec_action b m inp ranges) sched st = Ret st'" "g < length ranges"
  shows "steps_left m inp (poss st' ! g) \<le> steps_left m inp (poss st ! g) - count_list sched (Run g)"
  using assms(2,3)
proof (induction sched arbitrary: st)
  case (Cons a sched)
  then obtain st1 where s: "exec_action b m inp ranges a st = Ret st1" "apply_inv m inp ranges len st1"
    "foldR (exec_action b m inp ranges) sched st1 = Ret st'"
    using exec_action_inv[OF assms(1) Cons.prems(1), of b a] by (auto simp: res_iff)
  with exec_action_steps[OF s(1) Cons.prems(1) assms(4)] Cons.IH[OF s(2,3)] show ?case
    by (auto split: if_splits)
qed simp

definition fair :: "nat \<Rightarrow> nat \<Rightarrow> action list \<Rightarrow> bool" where
  "fair n bound sched \<longleftrightarrow> (\<forall>g<n. bound \<le> count_list sched (Run g))"

section \<open>The whole operation\<close>

definition uniform :: "nat \<Rightarrow> bytes list \<Rightarrow> bool" where
  "uniform len xs \<longleftrightarrow> (\<forall>x\<in>set xs. length x = len)"

definition num_goroutines :: "env \<Rightarrow> int \<Rightarrow> int" where
  "num_goroutines e n = (if n < 1 then DefaultNumGoroutines e else n)"

text \<open>\<open>GOMAXPROCS\<close> is at least one.\<close>

definition env_ok :: "env \<Rightarrow> bool" where
  "env_ok e \<longleftrightarrow> 1 \<le> gomaxprocs e"

lemma num_goroutines_pos: "env_ok e \<Longrightarrow> 1 \<le> num_goroutines e n"
  by (auto simp: num_goroutines_def DefaultNumGoroutines_def env_ok_def Let_def)

abbreviation chunk_ranges :: "env \<Rightarrow> nat \<Rightarrow> int \<Rightarrow> (nat \<times> nat) list" where
  "chunk_ranges e len n \<equiv> goroutine_ranges len (perGoroutineSplit e len (nat (num_goroutines e n)))"

lemma job_chunk:
  assumes "env_ok e" "wf_matrix m" "cols m = length inp" "uniform len inp" "even len"
  shows "job m inp (chunk_ranges e len n) len"
  using assms num_goroutines_pos[OF assms(1), of n]
  by (auto simp: job_def uniform_def intro!: goroutine_ranges_good perGoroutineSplit_even)

lemma apply_inv_start:
  assumes "wf_matrix m" "cols m = length inp" "uniform len out" "length out = rows m"
  shows "apply_inv m inp ranges len \<lparr>cancelled = c, poss = replicate (length ranges) (Pos 0 0), outs = out\<rparr>"
  using assms by (auto simp: apply_inv_def uniform_def wf_matrix_def pos_ok_def)

lemma apply_unfold:
  assumes "wf_matrix m" "cols m = length inp" "uniform len inp" "uniform len out" "length out = rows m"
  shows "applyMatrixParallelData e sched canc m inp out n =
    (case foldR (exec_action (env_build e) m inp (chunk_ranges e len n)) sched
       \<lparr>cancelled = canc, poss = replicate (length (chunk_ranges e len n)) (Pos 0 0), outs = out\<rparr> of
       Ret st' \<Rightarrow> if list_all (\<lambda>p. p = Done) (poss st')
                  then Some (if cancelled st' then Error ''context canceled'' else Ret (outs st')) else None
     | Error er \<Rightarrow> Some (Error er) | Panic p \<Rightarrow> Some (Panic p))"
proof -
  have "length inp \<noteq> 0" "length out \<noteq> 0" using assms(1,2,5) by (auto simp: wf_matrix_def)
  moreover from this have "length (inp ! 0) = len" "length (out ! 0) = len"
    using assms(3,4) by (auto simp: uniform_def)
  ultimately show ?thesis
    by (simp add: applyMatrixParallelData_def num_goroutines_def Let_def)
qed

lemma apply_outcome:
  assumes "env_ok e" "wf_matrix m" "cols m = length inp" "uniform len inp" "even len"
    "uniform len out" "length out = rows m"
  shows "applyMatrixParallelData e sched canc m inp out n \<in> {None, Some (Error ''context canceled'')} \<or>
    (\<exists>out'. applyMatrixParallelData e sched canc m inp out n = Some (Ret out') \<and> length out' = rows m \<and>
       uniform len out' \<and>
       (\<forall>i<rows m. \<forall>k<len div 2. GF (elems (out' ! i) ! k) = mv m (\<lambda>j. GF (elems (inp ! j) ! k)) i))"
proof -
  note job = job_chunk[OF assms(1-5), of n] and inv = apply_inv_start[OF assms(2,3,6,7)]
  let ?st = "\<lparr>cancelled = canc, poss = replicate (length (chunk_ranges e len n)) (Pos 0 0), outs = out\<rparr>"
  obtain st' where st': "foldR (exec_action (env_build e) m inp (chunk_ranges e len n)) sched ?st = Ret st'"
    "apply_inv m inp (chunk_ranges e len n) len st'"
    using run_inv[OF job inv, of "env_build e" sched] by blast
  have "length (outs st') = rows m" "uniform len (outs st')"
    using st'(2) by (auto simp: apply_inv_def uniform_def)
  with st' all_done_product[OF job st'(2)] show ?thesis
    by (auto simp: apply_unfold[OF assms(2,3,4,6,7)])
qed

lemma apply_ends:
  assumes "env_ok e" "wf_matrix m" "cols m = length inp" "uniform len inp" "even len"
    "uniform len out" "length out = rows m"
    and fair: "fair (length (chunk_ranges e len n)) (rows m * length inp + 1) sched"
  shows "applyMatrixParallelData e sched canc m inp out n \<noteq> None"
proof -
  note job = job_chunk[OF assms(1-5), of n] and inv = apply_inv_start[OF assms(2,3,6,7)]
  let ?st = "\<lparr>cancelled = canc, poss = replicate (length (chunk_ranges e len n)) (Pos 0 0), outs = out\<rparr>"
  obtain st' where st': "foldR (exec_action (env_build e) m inp (chunk_ranges e len n)) sched ?st = Ret st'"
    "apply_inv m inp (chunk_ranges e len n) len st'"
    using run_inv[OF job inv, of "env_build e" sched] by blast
  have "poss st' ! g = Done" if g: "g < length (chunk_ranges e len n)" for g
    using run_steps[OF job inv st'(1) g] fair g steps_left_0 by (fastforce simp: fair_def)
  then have "list_all (\<lambda>p. p = Done) (poss st')"
    using st'(2) by (simp add: list_all_length apply_inv_def)
  with st'(1) show ?thesis by (simp add: apply_unfold[OF assms(2,3,4,6,7)])
qed

lemma cancelled_only_by_Cancel:
  assumes "foldR (exec_action b m inp ranges) sched st = Ret st'" "Cancel \<notin> set sched"
  shows "cancelled st' = cancelled st"
  using assms
proof (induction sched arbitrary: st)
  case (Cons a sched)
  from Cons.prems obtain st1 where "exec_action b m inp ranges a st = Ret st1"
    "foldR (exec_action b m inp ranges) sched st1 = Ret st'"
    by (auto simp: res_iff)
  moreover from this Cons.prems(2) have "cancelled st1 = cancelled st"
    by (auto simp: res_iff exec_action_def split: action.splits if_splits)
  ultimately show ?case using Cons.IH[of st1] Cons.prems(2) by simp
qed simp

lemma apply_live:
  assumes "env_ok e" "wf_matrix m" "cols m = length inp" "uniform len inp" "even len"
    "uniform len out" "length out = rows m" and "Cancel \<notin> set sched"
  shows "applyMatrixParallelData e sched False m inp out n \<noteq> Some (Error ''context canceled'')"
proof -
  note job = job_chunk[OF assms(1-5), of n] and inv = apply_inv_start[OF assms(2,3,6,7)]
  obtain st' where st': "foldR (exec_action (env_build e) m inp (chunk_ranges e len n)) sched
      \<lparr>cancelled = False, poss = replicate (length (chunk_ranges e len n)) (Pos 0 0), outs = out\<rparr> = Ret st'"
    using run_inv[OF job inv, of "env_build e" sched] by blast
  then have "\<not> cancelled st'" using cancelled_only_by_Cancel[OF st' assms(8)] by simp
  with st' show ?thesis by (simp add: apply_unfold[OF assms(2,3,4,6,7)])
qed

section \<open>Properties\<close>

text \<open>C32. The byte ranges handed to the goroutines of one chunk are aligned to whole elements, do not overlap, lie
  within the chunk and cover it, and there are at most as many as goroutines were asked for.\<close>

theorem goroutines_partition_chunk:
  assumes "even len" "0 < n"
  shows "good_ranges len (goroutine_ranges len (perGoroutineSplit e len n)) \<and>
    length (goroutine_ranges len (perGoroutineSplit e len n)) \<le> n"
proof
  define per where "per = perGoroutineSplit e len n"
  have per: "even per" "0 < per" "len \<le> n * per"
    using perGoroutineSplit_even[OF assms(2)] splitForBlock_props(3)[OF assms(2)]
    by (simp_all add: per_def perGoroutineSplit_def)
  show "good_ranges len (goroutine_ranges len (perGoroutineSplit e len n))"
    using goroutine_ranges_good[OF assms(1) per(1,2)] by (simp add: per_def)
  have "len + per - 1 < (n + 1) * per" using per(2,3) by (simp add: algebra_simps)
  then have "(len + per - 1) div per < n + 1" using per(2) by (simp add: div_less_iff_less_mult)
  then show "length (goroutine_ranges len (perGoroutineSplit e len n)) \<le> n"
    using assms(2) by (simp add: goroutine_ranges_def Let_def per_def)
qed

theorem goroutines_partition_chunk_witness:
  "good_ranges 100 (goroutine_ranges 100 (perGoroutineSplit
      \<lparr>env_build = Amd64 True True, gomaxprocs = 4, physicalCores = 2\<rparr> 100 4))"
  using goroutines_partition_chunk[of 100 4 "\<lparr>env_build = Amd64 True True, gomaxprocs = 4, physicalCores = 2\<rparr>"]
  by simp

text \<open>C16. Whatever the interleaving of the goroutines and whenever the context is cancelled, applying a matrix to
  a chunk never panics and never stores a wrong result: a run is still waiting, ends with
  \<open>context canceled\<close>, or returns the product of the matrix with the input shards at every element.\<close>

theorem every_interleaving_computes_product:
  assumes "env_ok e" "wf_matrix m" "cols m = length inp" "uniform len inp" "even len"
    "uniform len out" "length out = rows m"
  shows "applyMatrixParallelData e sched canc m inp out n \<in> {None, Some (Error ''context canceled'')} \<or>
    (\<exists>out'. applyMatrixParallelData e sched canc m inp out n = Some (Ret out') \<and> length out' = rows m \<and>
       uniform len out' \<and>
       (\<forall>i<rows m. \<forall>k<len div 2. GF (elems (out' ! i) ! k) = mv m (\<lambda>j. GF (elems (inp ! j) ! k)) i))"
  using apply_outcome[OF assms] .

theorem every_interleaving_computes_product_witness:
  "applyMatrixParallelData \<lparr>env_build = NonAmd64, gomaxprocs = 2, physicalCores = 0\<rparr> [Run 0, Run 0] False
     \<lparr>rows = 1, cols = 1, elements = [3]\<rparr> [[5, 0]] [[0, 0]] 1 \<in> {None, Some (Error ''context canceled'')} \<or>
   (\<exists>out'. applyMatrixParallelData \<lparr>env_build = NonAmd64, gomaxprocs = 2, physicalCores = 0\<rparr> [Run 0, Run 0] False
     \<lparr>rows = 1, cols = 1, elements = [3]\<rparr> [[5, 0]] [[0, 0]] 1 = Some (Ret out') \<and>
     GF (elems (out' ! 0) ! 0) = GF 3 * GF 5)"
  using every_interleaving_computes_product
    [of "\<lparr>env_build = NonAmd64, gomaxprocs = 2, physicalCores = 0\<rparr>" "\<lparr>rows = 1, cols = 1, elements = [3]\<rparr>"
      "[[5, 0]]" 2 "[[0, 0]]" "[Run 0, Run 0]" False 1]
  by (auto simp: env_ok_def wf_matrix_def uniform_def mv_def ent_def le16_def)

text \<open>C17. Applying a matrix returns under every fair schedule, and a call whose context is never cancelled
  returns the product: once every goroutine has been given as many steps as its kernel calls and one
  more, no result is awaited any longer.\<close>

theorem fair_schedules_finish:
  assumes "env_ok e" "wf_matrix m" "cols m = length inp" "uniform len inp" "even len"
    "uniform len out" "length out = rows m"
    and "fair (length (chunk_ranges e len n)) (rows m * length inp + 1) sched" "Cancel \<notin> set sched"
  shows "\<exists>out'. applyMatrixParallelData e sched False m inp out n = Some (Ret out')"
  using apply_ends[OF assms(1-8), of False] apply_outcome[OF assms(1-7), of sched False n] apply_live[OF assms(1-7,9), of n]
  by auto

theorem fair_schedules_finish_witness:
  "\<exists>out'. applyMatrixParallelData \<lparr>env_build = NonAmd64, gomaxprocs = 2, physicalCores = 0\<rparr> [Run 0, Run 0] False
     \<lparr>rows = 1, cols = 1, elements = [3]\<rparr> [[5, 0]] [[0, 0]] 1 = Some (Ret out')"
proof -
  let ?e = "\<lparr>env_build = NonAmd64, gomaxprocs = 2, physicalCores = 0\<rparr>"
  have "chunk_ranges ?e 2 1 = [(0, 2)]"
    by (simp add: num_goroutines_def goroutine_ranges_def perGoroutineSplit_def splitForBlock_def
        KernelBlockBytes_def elementBytes_def minSplitBytes_def Let_def)
  then show ?thesis
    using fair_schedules_finish[of ?e "\<lparr>rows = 1, cols = 1, elements = [3]\<rparr>" "[[5, 0]]" 2 "[[0, 0]]" 1 "[Run 0, Run 0]"]
    by (simp add: env_ok_def wf_matrix_def uniform_def fair_def)
qed

end
