(* ===== verification/RS_Coder.thy ===== *)
theory RS_Coder
  imports RS_Parallel
begin

text \<open>
  The Reed-Solomon coder of \<open>src/rs/rs.go\<close>: the PAR2 generators, \<open>NewCoderPAR2Vandermonde\<close>, the
  analysis of the shards at hand, the reconstruction matrix, \<open>Reconstruct\<close> and \<open>GenerateParity\<close>. A
  shard is \<open>None\<close> where the code has \<open>nil\<close>. The lemmas show that a reconstruction that returns no
  error has restored the original data, whatever the interleaving of its goroutines, and that it
  succeeds when there are enough parity shards and the ones it uses are consecutive.
\<close>

section \<open>Generators and coders\<close>

text \<open>What \<open>initGenerators\<close> leaves in the package variable, once.\<close>

definition initGenerators :: "T list \<Rightarrow> T list" where
  "initGenerators gens = fold (\<lambda>i gens.
     if i mod 3 = 0 \<or> i mod 5 = 0 \<or> i mod 17 = 0 \<or> i mod 257 = 0 then gens
     else gens @ [Pow tables 2 (of_nat i)]) [0..<2 ^ 16] gens"

definition generators :: "T list" where
  "generators = initGenerators []"

record Coder =
  dataShards :: nat
  parityShards :: nat
  parityMatrix :: Matrix

definition NewCoderPAR2Vandermonde :: "int \<Rightarrow> int \<Rightarrow> Coder res" where
  "NewCoderPAR2Vandermonde ds ps =
     (if ds \<le> 0 \<or> ps \<le> 0 then Error ''invalid shard counts''
      else if int (length generators) < ds then Error ''too many data shards for generator limit''
      else if 2 ^ 16 - 1 < ps then Error ''too many parity shards for GF(2^16)''
      else bindR (NewVandermondeMatrix ps ds generators) (\<lambda>m.
        Ret \<lparr>dataShards = nat ds, parityShards = nat ps, parityMatrix = m\<rparr>))"

section \<open>The shards at hand\<close>

type_synonym shard = "bytes option"

definition checkShard :: "shard \<Rightarrow> int \<Rightarrow> int res" where
  "checkShard s sliceLen =
     (case s of
        None \<Rightarrow> Ret sliceLen
      | Some bs \<Rightarrow> if sliceLen = -1 then Ret (int (length bs))
                   else if int (length bs) \<noteq> sliceLen then Error ''mismatched shard lengths''
                   else Ret sliceLen)"

definition validateShardLengths :: "shard list \<Rightarrow> shard list \<Rightarrow> int res" where
  "validateShardLengths data parity =
     bindR (foldR checkShard data (-1)) (foldR checkShard parity)"

definition validateReconstructInputs :: "Coder \<Rightarrow> shard list \<Rightarrow> shard list \<Rightarrow> int res" where
  "validateReconstructInputs c data parity =
     (if length data \<noteq> dataShards c then Error ''invalid data shard count''
      else if parityShards c < length parity then Error ''invalid parity shard count''
      else validateShardLengths data parity)"

text \<open>The two loops of \<open>analyzeShards\<close>, over the data shards and over the parity shards while inputs
  are missing.\<close>

fun data_loop :: "nat \<Rightarrow> shard list \<Rightarrow> nat list \<times> nat list \<times> bytes list \<Rightarrow> nat list \<times> nat list \<times> bytes list" where
  "data_loop i [] acc = acc"
| "data_loop i (Some s # ds) (availableRows, missingRows, input) =
     data_loop (i + 1) ds (availableRows @ [i], missingRows, input @ [s])"
| "data_loop i (None # ds) (availableRows, missingRows, input) =
     data_loop (i + 1) ds (availableRows, missingRows @ [i], input)"

fun parity_loop :: "nat \<Rightarrow> nat \<Rightarrow> shard list \<Rightarrow> nat list \<times> bytes list \<Rightarrow> nat list \<times> bytes list" where
  "parity_loop n i [] acc = acc"
| "parity_loop n i (p # ps) (usedParityRows, input) =
     (if length input < n then
        (case p of
           Some s \<Rightarrow> parity_loop n (i + 1) ps (usedParityRows @ [i], input @ [s])
         | None \<Rightarrow> parity_loop n (i + 1) ps (usedParityRows, input))
      else (usedParityRows, input))"

definition analyzeShards ::
    "Coder \<Rightarrow> shard list \<Rightarrow> shard list \<Rightarrow> (nat list \<times> nat list \<times> nat list \<times> bytes list) res" where
  "analyzeShards c data parity =
     (let (availableRows, missingRows, input) = data_loop 0 data ([], [], [])
      in if missingRows = [] then Ret ([], [], [], [])
         else let (usedParityRows, input) = parity_loop (dataShards c) 0 parity ([], input)
              in if length input < dataShards c
                 then Error ''not enough parity shards to perform reconstruction''
                 else Ret (availableRows, missingRows, usedParityRows, input))"

section \<open>Reconstruction\<close>

definition fill_m :: "nat list \<Rightarrow> nat list \<Rightarrow> Matrix \<Rightarrow> Matrix \<Rightarrow> Matrix res" where
  "fill_m missingRows usedParityRows parityM m =
     foldR (\<lambda>i m. bindR (goIndex usedParityRows (int i)) (\<lambda>k.
       foldR (\<lambda>j m. bindR (bindR (goIndex missingRows (int j)) (\<lambda>l. At parityM (int k) (int l)))
                     (Set m (int i) (int j)))
         [0..<length usedParityRows] m))
       [0..<length usedParityRows] m"

definition fill_n :: "nat \<Rightarrow> nat list \<Rightarrow> nat list \<Rightarrow> Matrix \<Rightarrow> Matrix \<Rightarrow> Matrix res" where
  "fill_n ds availableRows usedParityRows parityM n =
     foldR (\<lambda>i n. bindR (goIndex usedParityRows (int i)) (\<lambda>k.
       bindR (foldR (\<lambda>j n. bindR (bindR (goIndex availableRows (int j)) (\<lambda>l. At parityM (int k) (int l)))
                           (Set n (int i) (int j)))
               [0..<length availableRows] n) (\<lambda>n.
         foldR (\<lambda>j n. bindR (Ret (if i = j - length availableRows then 1 else 0)) (Set n (int i) (int j)))
           [length availableRows..<ds] n)))
       [0..<length usedParityRows] n"

definition makeReconstructionMatrix ::
    "build \<Rightarrow> nat \<Rightarrow> nat list \<Rightarrow> nat list \<Rightarrow> nat list \<Rightarrow> Matrix \<Rightarrow> Matrix res" where
  "makeReconstructionMatrix b ds availableRows missingRows usedParityRows parityM =
     bindR (NewMatrix (int (length usedParityRows)) (int (length usedParityRows))) (\<lambda>m.
       bindR (fill_m missingRows usedParityRows parityM m) (\<lambda>m.
         bindR (NewMatrix (int (length usedParityRows)) (int ds)) (\<lambda>n.
           bindR (fill_n ds availableRows usedParityRows parityM n) (\<lambda>n.
             RowReduceForInverse b m n))))"

text \<open>Sequencing before the parallel part, whose result may still be awaited.\<close>

fun bindO :: "'a res \<Rightarrow> ('a \<Rightarrow> 'b res option) \<Rightarrow> 'b res option" where
  "bindO (Ret x) f = f x"
| "bindO (Error e) f = Some (Error e)"
| "bindO (Panic p) f = Some (Panic p)"

text \<open>\<open>make([]byte, n)\<close>.\<close>

definition goMake :: "int \<Rightarrow> bytes res" where
  "goMake n = (if n < 0 then Panic ''makeslice: len out of range'' else Ret (replicate (nat n) 0))"

definition Reconstruct ::
    "env \<Rightarrow> action list \<Rightarrow> bool \<Rightarrow> Coder \<Rightarrow> shard list \<Rightarrow> shard list \<Rightarrow> int \<Rightarrow> shard list res option" where
  "Reconstruct e sched canc c data parity numGoroutines =
     (if canc then Some (Error ''context canceled'')
      else
        bindO (validateReconstructInputs c data parity) (\<lambda>sliceLen.
          bindO (analyzeShards c data parity) (\<lambda>(availableRows, missingRows, usedParityRows, input).
            if length missingRows = 0 then Some (Ret data)
            else
              bindO (makeReconstructionMatrix (env_build e) (dataShards c) availableRows missingRows
                       usedParityRows (parityMatrix c)) (\<lambda>reconstructionMatrix.
                bindO (goMake sliceLen) (\<lambda>zero.
                  case applyMatrixParallelData e sched canc reconstructionMatrix input
                         (replicate (length missingRows) zero) numGoroutines of
                    None \<Rightarrow> None
                  | Some r \<Rightarrow> Some (bindR r (\<lambda>reconstructedData.
                      foldR (\<lambda>i data. bindR (goIndex reconstructedData (int i)) (\<lambda>s.
                               bindR (goIndex missingRows (int i)) (\<lambda>r. goAssign data (int r) (Some s))))
                        [0..<length missingRows] data)))))))"

text \<open>A \<open>nil\<close> shard read as a slice is empty.\<close>

definition shard_bytes :: "shard \<Rightarrow> bytes" where
  "shard_bytes s = (case s of None \<Rightarrow> [] | Some bs \<Rightarrow> bs)"

definition GenerateParity :: "env \<Rightarrow> action list \<Rightarrow> bool \<Rightarrow> Coder \<Rightarrow> shard list \<Rightarrow> int \<Rightarrow> bytes list res option" where
  "GenerateParity e sched canc c data numGoroutines =
     (if canc then Some (Error ''context canceled'')
      else if length data \<noteq> dataShards c then Some (Error ''invalid data shard count'')
      else
        bindO (validateShardLengths data []) (\<lambda>sliceLen.
          let sliceLen = (if sliceLen = -1 then 0 else sliceLen) in
          bindO (goMake sliceLen) (\<lambda>zero.
            applyMatrixParallelData e sched canc (parityMatrix c) (map shard_bytes data)
              (replicate (parityShards c) zero) numGoroutines)))"

section \<open>The generators\<close>

definition gen_exponents :: "nat list" where
  "gen_exponents = filter (\<lambda>i. i mod 3 \<noteq> 0 \<and> i mod 5 \<noteq> 0 \<and> i mod 17 \<noteq> 0 \<and> i mod 257 \<noteq> 0) [0..<65536]"

lemma generators_eq: "generators = map (\<lambda>i. Pow tables 2 (of_nat i)) gen_exponents"
proof -
  have "fold (\<lambda>i gens. if i mod 3 = 0 \<or> i mod 5 = 0 \<or> i mod 17 = 0 \<or> i mod 257 = 0 then gens
      else gens @ [f i]) xs gens = gens @ map f (filter (\<lambda>i. i mod 3 \<noteq> 0 \<and> i mod 5 \<noteq> 0 \<and> i mod 17 \<noteq> 0 \<and> i mod 257 \<noteq> 0) xs)"
    for f :: "nat \<Rightarrow> T" and xs :: "nat list" and gens
    by (induction xs arbitrary: gens) auto
  then show ?thesis by (simp add: generators_def initGenerators_def gen_exponents_def)
qed

lemma gen_exponents_less: "i \<in> set gen_exponents \<Longrightarrow> i < 65535"
  by (cases "i = 65535") (auto simp: gen_exponents_def)

lemma GF_generators: "j < length generators \<Longrightarrow> GF (generators ! j) = GF 2 ^ (gen_exponents ! j)"
  using gen_exponents_less[of "gen_exponents ! j"] by (auto simp: generators_eq unat_of_nat)

lemma generators_distinct: "distinct generators"
proof -
  have "inj_on (\<lambda>i. Pow tables 2 (of_nat i)) (set gen_exponents)"
  proof (rule inj_onI)
    fix i j assume ij: "i \<in> set gen_exponents" "j \<in> set gen_exponents"
      and eq: "Pow tables 2 (of_nat i) = Pow tables 2 (of_nat j)"
    then have "i < 65535" "j < 65535" by (auto dest: gen_exponents_less)
    moreover from this have "GF 2 ^ i = GF 2 ^ j" using arg_cong[OF eq, of GF] by (simp add: unat_of_nat)
    ultimately show "i = j" using primitive_power_eq_iff[OF primitive_2] by simp
  qed
  then show ?thesis by (simp add: generators_eq distinct_map gen_exponents_def)
qed

lemma generators_nonzero: "j < length generators \<Longrightarrow> GF (generators ! j) \<noteq> 0"
  by (simp add: GF_generators primitive_power_nonzero primitive_2)

text \<open>There are 32768 of them: the residues prime to 65535, counted factor by factor.\<close>

lemma card_periodic:
  fixes p m :: nat
  assumes "0 < m"
  shows "card {i. i < p * m \<and> Q (i mod m)} = p * card {i. i < m \<and> Q i}"
proof -
  have "bij_betw (\<lambda>(a, b). a * m + b) ({..<p} \<times> {i. i < m \<and> Q i}) {i. i < p * m \<and> Q (i mod m)}"
  proof (rule bij_betw_byWitness[where f' = "\<lambda>i. (i div m, i mod m)"])
    show "(\<lambda>i. (i div m, i mod m)) ` {i. i < p * m \<and> Q (i mod m)} \<subseteq> {..<p} \<times> {i. i < m \<and> Q i}"
      using assms by (auto simp: div_less_iff_less_mult)
  qed (use index_less in auto)
  then show ?thesis by (simp add: bij_betw_same_card[symmetric])
qed

lemma card_multiples:
  fixes p m :: nat
  assumes "coprime p m" "0 < p" "0 < m"
  shows "card {i. i < p * m \<and> Q (i mod m) \<and> p dvd i} = card {i. i < m \<and> Q i}"
proof -
  define f where "f = (\<lambda>j. p * j mod m)"
  define S where "S = {j. j < m \<and> Q (f j)}"
  have ne: "f x \<noteq> f y" if xy: "x < y" "y < m" for x y
  proof
    assume "f x = f y"
    then have "m dvd p * y - p * x"
      using mod_eq_dvd_iff_nat[of "p * x" "p * y" m] mult_le_mono2[OF less_imp_le[OF xy(1)]] unfolding f_def by metis
    then have "m dvd p * (y - x)" by (simp only: diff_mult_distrib2)
    then have "m dvd y - x" using assms(1) by (simp add: coprime_dvd_mult_right_iff coprime_commute)
    then show False using xy by (auto dest: dvd_imp_le)
  qed
  have inj: "inj_on f {..<m}"
    by (rule inj_onI) (metis lessThan_iff linorder_neqE_nat ne)
  have lt: "f j < m" for j using assms(3) by (simp add: f_def)
  then have surj: "f ` {..<m} = {..<m}" using inj by (intro endo_inj_surj) auto
  have "f ` S = {i. i < m \<and> Q i}"
  proof
    show "{i. i < m \<and> Q i} \<subseteq> f ` S"
    proof
      fix i assume i: "i \<in> {i. i < m \<and> Q i}"
      then obtain j where "j < m" "i = f j" using surj by (metis (no_types, lifting) imageE lessThan_iff mem_Collect_eq)
      with i show "i \<in> f ` S" by (auto simp: S_def)
    qed
  qed (use lt in \<open>auto simp: S_def\<close>)
  moreover have "inj_on f S" using inj by (rule inj_on_subset) (auto simp: S_def)
  moreover have "{i. i < p * m \<and> Q (i mod m) \<and> p dvd i} = (\<lambda>j. p * j) ` S"
    using assms(2) by (auto simp: S_def f_def elim!: dvdE)
  moreover have "inj_on (\<lambda>j. p * j) S" using assms(2) by (simp add: inj_on_def)
  ultimately show ?thesis using card_image[of f S] card_image[of "\<lambda>j. p * j" S] by simp
qed

lemma card_residues:
  fixes p m :: nat
  assumes "coprime p m" "0 < p" "0 < m"
  shows "card {i. i < p * m \<and> Q (i mod m) \<and> \<not> p dvd i} = (p - 1) * card {i. i < m \<and> Q i}"
proof -
  have "{i. i < p * m \<and> Q (i mod m) \<and> \<not> p dvd i} =
      {i. i < p * m \<and> Q (i mod m)} - {i. i < p * m \<and> Q (i mod m) \<and> p dvd i}" by auto
  moreover have "card ({i. i < p * m \<and> Q (i mod m)} - {i. i < p * m \<and> Q (i mod m) \<and> p dvd i}) =
      card {i. i < p * m \<and> Q (i mod m)} - card {i. i < p * m \<and> Q (i mod m) \<and> p dvd i}"
    by (rule card_Diff_subset) auto
  ultimately show ?thesis
    using card_periodic[OF assms(3), of p Q] card_multiples[OF assms, of Q]
    by (simp add: diff_mult_distrib)
qed

lemma length_generators: "length generators = 32768"
proof -
  let ?q2 = "\<lambda>i. i mod 17 \<noteq> 0 \<and> i mod 257 \<noteq> (0 :: nat)" and ?q1 = "\<lambda>i. i mod 257 \<noteq> (0 :: nat)"
  have "{i. i < 257 \<and> ?q1 i} = {1..256}" by auto
  then have "card {i. i < 4369 \<and> ?q1 (i mod 257) \<and> \<not> 17 dvd i} = 16 * 256"
    using card_residues[of 17 257 ?q1] by (simp add: coprime_iff_gcd_eq_1 gcd_non_0_nat)
  then have "card {i. i < 4369 \<and> ?q2 i} = 4096"
    by (simp add: dvd_eq_mod_eq_0 conj_commute)
  then have "card {i. i < 21845 \<and> ?q2 (i mod 4369) \<and> \<not> 5 dvd i} = 4 * 4096"
    using card_residues[of 5 4369 ?q2] by (simp add: coprime_iff_gcd_eq_1 gcd_non_0_nat)
  then have "card {i. i < 21845 \<and> (i mod 5 \<noteq> 0 \<and> ?q2 i)} = 16384"
    by (simp add: dvd_eq_mod_eq_0 conj_commute mod_mod_cancel)
  then have "card {i. i < 65535 \<and> (i mod 21845 mod 5 \<noteq> 0 \<and> ?q2 (i mod 21845)) \<and> \<not> 3 dvd i} = 2 * 16384"
    using card_residues[of 3 21845 "\<lambda>i. i mod 5 \<noteq> 0 \<and> ?q2 i"] by (simp add: coprime_iff_gcd_eq_1 gcd_non_0_nat)
  then have "card {i. i < 65535 \<and> i mod 3 \<noteq> 0 \<and> i mod 5 \<noteq> 0 \<and> ?q2 i} = 32768"
    by (simp add: dvd_eq_mod_eq_0 conj_commute mod_mod_cancel conj_left_commute)
  moreover have "set gen_exponents = {i. i < 65535 \<and> i mod 3 \<noteq> 0 \<and> i mod 5 \<noteq> 0 \<and> ?q2 i}"
    using gen_exponents_less by (auto simp: gen_exponents_def)
  moreover have "distinct gen_exponents" by (simp add: gen_exponents_def)
  ultimately have "length gen_exponents = 32768" using distinct_card by metis
  then show ?thesis by (simp add: generators_eq)
qed

section \<open>Vandermonde systems have only the trivial solution\<close>

lemma vandermonde_kernel:
  fixes x u :: "nat \<Rightarrow> gf"
  assumes "inj_on x {..<n}" "\<And>i. i < n \<Longrightarrow> (\<Sum>j<n. x j ^ i * u j) = 0" "j < n"
  shows "u j = 0"
  using assms
proof (induction n arbitrary: u j)
  case (Suc n)
  define w where "w j = (x j - x n) * u j" for j
  have "(\<Sum>j<n. x j ^ i * w j) = 0" if "i < n" for i
  proof -
    have "(\<Sum>j<Suc n. x j ^ i * w j) = (\<Sum>j<Suc n. x j ^ Suc i * u j) - x n * (\<Sum>j<Suc n. x j ^ i * u j)"
      by (simp only: w_def sum_distrib_left flip: sum_subtractf) (simp add: algebra_simps)
    also have "\<dots> = 0" using Suc.prems(2)[of i] Suc.prems(2)[of "Suc i"] that by (simp del: sum.lessThan_Suc)
    finally show ?thesis by (simp add: w_def)
  qed
  moreover have "inj_on x {..<n}" using Suc.prems(1) by (rule inj_on_subset) auto
  ultimately have "w j = 0" if "j < n" for j using Suc.IH[of w j] that by blast
  moreover have "x j \<noteq> x n" if "j < n" for j
    using Suc.prems(1) that by (auto simp: inj_on_def)
  ultimately have low: "u j = 0" if "j < n" for j using that by (simp add: w_def)
  moreover have "u n = 0" using Suc.prems(2)[of 0] low by simp
  ultimately show ?case using Suc.prems(3) by (cases "j = n") auto
qed simp

section \<open>The coder's matrix\<close>

definition coder_ok :: "Coder \<Rightarrow> bool" where
  "coder_ok c \<longleftrightarrow> 0 < dataShards c \<and> 0 < parityShards c \<and> dataShards c \<le> 32768 \<and> parityShards c \<le> 65535 \<and>
     wf_matrix (parityMatrix c) \<and> rows (parityMatrix c) = parityShards c \<and> cols (parityMatrix c) = dataShards c \<and>
     (\<forall>i<parityShards c. \<forall>j<dataShards c. ent (parityMatrix c) i j = GF (generators ! j) ^ i)"

lemma NewCoder_Ret:
  assumes "0 < ds" "ds \<le> 32768" "0 < ps" "ps \<le> 65535"
  shows "\<exists>c. NewCoderPAR2Vandermonde (int ds) (int ps) = Ret c \<and> coder_ok c \<and>
    dataShards c = ds \<and> parityShards c = ps"
  using assms NewVandermondeMatrix_Ret[of ps ds generators]
  by (auto simp: NewCoderPAR2Vandermonde_def length_generators coder_ok_def)

lemma NewCoder_ok: "NewCoderPAR2Vandermonde ds ps = Ret c \<Longrightarrow> coder_ok c \<and> int (dataShards c) = ds \<and> int (parityShards c) = ps"
  using NewCoder_Ret[of "nat ds" "nat ps"]
  by (auto simp: NewCoderPAR2Vandermonde_def length_generators split: if_splits)

section \<open>What the analysis of the shards returns\<close>

text \<open>The rows \<open>analyzeShards\<close> names, in increasing order.\<close>

definition present :: "shard list \<Rightarrow> nat list" where
  "present xs = filter (\<lambda>i. xs ! i \<noteq> None) [0..<length xs]"

definition absent :: "shard list \<Rightarrow> nat list" where
  "absent xs = filter (\<lambda>i. xs ! i = None) [0..<length xs]"

lemma filter_nth_snoc:
  "filter (\<lambda>i. P ((xs @ [d]) ! i)) [0..<length (xs @ [d])] =
     filter (\<lambda>i. P (xs ! i)) [0..<length xs] @ (if P d then [length xs] else [])"
proof -
  have "filter (\<lambda>i. P ((xs @ [d]) ! i)) [0..<length xs] = filter (\<lambda>i. P (xs ! i)) [0..<length xs]"
    by (rule filter_cong) (auto simp: nth_append)
  then show ?thesis by simp
qed

lemma present_snoc: "present (xs @ [d]) = present xs @ (if d \<noteq> None then [length xs] else [])"
  unfolding present_def by (rule filter_nth_snoc)

lemma absent_snoc: "absent (xs @ [d]) = absent xs @ (if d = None then [length xs] else [])"
  unfolding absent_def by (rule filter_nth_snoc)

lemma map_the_snoc:
  assumes "set is \<subseteq> set (present xs)"
  shows "map (\<lambda>i. the ((xs @ [d]) ! i)) is = map (\<lambda>i. the (xs ! i)) is"
  using assms by (intro map_cong) (auto simp: present_def nth_append)

lemma data_loop_append: "data_loop i (xs @ ys) acc = data_loop (i + length xs) ys (data_loop i xs acc)"
proof (induction xs arbitrary: i acc)
  case (Cons x xs)
  then show ?case by (cases acc; cases x) simp_all
qed simp

lemma data_loop_0:
  "data_loop 0 data ([], [], []) = (present data, absent data, map (\<lambda>i. the (data ! i)) (present data))"
proof (induction data rule: rev_induct)
  case (snoc d ds)
  then show ?case
    by (cases d) (simp_all add: data_loop_append present_snoc absent_snoc map_the_snoc[OF subset_refl])
qed (simp add: present_def absent_def)

lemma parity_loop_append:
  "parity_loop n i (ps @ [p]) (u, x) = (case parity_loop n i ps (u, x) of (u, x) \<Rightarrow>
     if length x < n then (case p of Some s \<Rightarrow> (u @ [i + length ps], x @ [s]) | None \<Rightarrow> (u, x)) else (u, x))"
  by (induction ps arbitrary: i u x) (auto split: option.splits prod.splits)

lemma parity_loop_0:
  assumes "length x \<le> n"
  shows "parity_loop n 0 ps ([], x) =
     (take (n - length x) (present ps), x @ map (\<lambda>i. the (ps ! i)) (take (n - length x) (present ps)))"
proof (induction ps rule: rev_induct)
  case (snoc p ps)
  let ?k = "n - length x"
  have m: "map (\<lambda>i. the ((ps @ [p]) ! i)) (take ?k (present ps)) = map (\<lambda>i. the (ps ! i)) (take ?k (present ps))"
    by (rule map_the_snoc) (rule set_take_subset)
  show ?case
    using assms m
    by (cases "length (present ps) < ?k") (auto simp: parity_loop_append snoc.IH present_snoc split: option.splits)
qed (simp add: present_def)

lemma length_present_absent: "length (present xs) + length (absent xs) = length xs"
  using sum_length_filter_compl[of "\<lambda>i. xs ! i \<noteq> None" "[0..<length xs]"]
  by (simp add: present_def absent_def)

definition used_rows :: "shard list \<Rightarrow> shard list \<Rightarrow> nat list" where
  "used_rows data parity = take (length (absent data)) (present parity)"

lemma analyzeShards_eq:
  assumes "length data = dataShards c"
  shows "analyzeShards c data parity =
    (if absent data = [] then Ret ([], [], [], [])
     else if length (present parity) < length (absent data)
     then Error ''not enough parity shards to perform reconstruction''
     else Ret (present data, absent data, used_rows data parity,
       map (\<lambda>i. the (data ! i)) (present data) @ map (\<lambda>i. the (parity ! i)) (used_rows data parity)))"
proof -
  have n: "dataShards c - length (present data) = length (absent data)" "length (present data) \<le> dataShards c"
    using length_present_absent[of data] assms by simp_all
  have "parity_loop (dataShards c) 0 parity ([], map (\<lambda>i. the (data ! i)) (present data)) =
      (used_rows data parity, map (\<lambda>i. the (data ! i)) (present data) @ map (\<lambda>i. the (parity ! i)) (used_rows data parity))"
    using parity_loop_0[of "map (\<lambda>i. the (data ! i)) (present data)" "dataShards c" parity] n
    by (simp add: used_rows_def)
  then show ?thesis
    using length_present_absent[of data] assms
    by (auto simp: analyzeShards_def data_loop_0 used_rows_def)
qed

section \<open>The reconstruction matrix\<close>

text \<open>The shape under which the loops that fill the two matrices stay in range.\<close>

definition rows_ok :: "Matrix \<Rightarrow> nat list \<Rightarrow> nat list \<Rightarrow> nat list \<Rightarrow> bool" where
  "rows_ok pm avail missing used \<longleftrightarrow> wf_matrix pm \<and> 0 < length used \<and> length used = length missing \<and>
     length avail + length missing = cols pm \<and> (\<forall>k\<in>set used. k < rows pm) \<and>
     (\<forall>l\<in>set avail. l < cols pm) \<and> (\<forall>l\<in>set missing. l < cols pm)"

lemma fill_m_Ret:
  assumes ok: "rows_ok pm avail missing used"
    and m: "wf_matrix m" "rows m = length used" "cols m = length used"
  shows "\<exists>m'. fill_m missing used pm m = Ret m' \<and> same_dims m m' \<and>
    (\<forall>i<length used. \<forall>j<length used. i < length used \<longrightarrow> ent m' i j = ent pm (used ! i) (missing ! j))"
  unfolding fill_m_def
proof (rule foldR_upt_inv[where I = "\<lambda>h s. same_dims m s \<and>
    (\<forall>i<length used. \<forall>j<length used. i < h \<longrightarrow> ent s i j = ent pm (used ! i) (missing ! j))"])
  fix i s
  assume i: "i < length used" and I: "same_dims m s \<and>
    (\<forall>p<length used. \<forall>j<length used. p < i \<longrightarrow> ent s p j = ent pm (used ! p) (missing ! j))"
  let ?x = "\<lambda>j. elements pm ! (used ! i * cols pm + missing ! j)"
  let ?g = "\<lambda>j. bindR (goIndex missing (int j)) (\<lambda>l. At pm (int (used ! i)) (int l))"
  have g: "?g j = Ret (?x j)"
    if "j < length used" for j
    using that ok i by (simp add: rows_ok_def At_Ret)
  have s: "wf_matrix s" "i < rows s" "length used \<le> cols s" "rows s = length used" "cols s = length used"
    using I m i by (auto simp: same_dims_def)
  obtain s' where "foldR (\<lambda>j m. bindR (bindR (goIndex missing (int j)) (\<lambda>l. At pm (int (used ! i)) (int l)))
      (Set m (int i) (int j))) [0..<length used] s = Ret s'" "same_dims s s'"
    "\<forall>r<rows s. \<forall>k<cols s. ent s' r k = (if r = i \<and> 0 \<le> k \<and> k < length used then GF (?x k) else ent s r k)"
    using Set_row_loop[OF s(1,2) le0 s(3), of ?g ?x, OF g] by blast
  with I s i show "\<exists>s'. bindR (goIndex used (int i)) (\<lambda>k. foldR (\<lambda>j m. bindR (bindR (goIndex missing (int j))
      (\<lambda>l. At pm (int k) (int l))) (Set m (int i) (int j))) [0..<length used] s) = Ret s' \<and> same_dims m s' \<and>
    (\<forall>p<length used. \<forall>j<length used. p < Suc i \<longrightarrow> ent s' p j = ent pm (used ! p) (missing ! j))"
    by (auto simp: same_dims_def less_Suc_eq ent_def[of pm])
qed (use m in \<open>auto simp: same_dims_def\<close>)

text \<open>The entries of the right-hand side.\<close>

definition rhs_ent :: "Matrix \<Rightarrow> nat list \<Rightarrow> nat list \<Rightarrow> nat \<Rightarrow> nat \<Rightarrow> gf" where
  "rhs_ent pm avail used i j = (if j < length avail then ent pm (used ! i) (avail ! j)
     else if i = j - length avail then 1 else 0)"

lemma fill_n_Ret:
  assumes ok: "rows_ok pm avail missing used"
    and n: "wf_matrix n" "rows n = length used" "cols n = cols pm"
  shows "\<exists>n'. fill_n (cols pm) avail used pm n = Ret n' \<and> same_dims n n' \<and>
    (\<forall>i<length used. \<forall>j<cols pm. i < length used \<longrightarrow> ent n' i j = rhs_ent pm avail used i j)"
  unfolding fill_n_def
proof (rule foldR_upt_inv[where I = "\<lambda>h s. same_dims n s \<and>
    (\<forall>i<length used. \<forall>j<cols pm. i < h \<longrightarrow> ent s i j = rhs_ent pm avail used i j)"])
  fix i s
  assume i: "i < length used" and I: "same_dims n s \<and>
    (\<forall>p<length used. \<forall>j<cols pm. p < i \<longrightarrow> ent s p j = rhs_ent pm avail used p j)"
  let ?x = "\<lambda>j. elements pm ! (used ! i * cols pm + avail ! j)"
  let ?y = "\<lambda>j. if i = j - length avail then 1 else 0 :: T"
  let ?F = "foldR (\<lambda>j n. bindR (bindR (goIndex avail (int j)) (\<lambda>l. At pm (int (used ! i)) (int l)))
      (Set n (int i) (int j))) [0..<length avail]"
  let ?G = "foldR (\<lambda>j n. bindR (Ret (?y j)) (Set n (int i) (int j))) [length avail..<cols pm]"
  let ?g = "\<lambda>j. bindR (goIndex avail (int j)) (\<lambda>l. At pm (int (used ! i)) (int l))"
  have g: "?g j = Ret (?x j)"
    if "j < length avail" for j
    using that ok i by (simp add: rows_ok_def At_Ret)
  have la: "length avail \<le> cols pm" using ok by (simp add: rows_ok_def)
  have s: "wf_matrix s" "i < rows s" "rows s = length used" "cols s = cols pm"
    using I n i by (auto simp: same_dims_def)
  obtain s1 where s1: "?F s = Ret s1" "same_dims s s1"
    "\<forall>r<rows s. \<forall>k<cols s. ent s1 r k = (if r = i \<and> 0 \<le> k \<and> k < length avail then GF (?x k) else ent s r k)"
    using Set_row_loop[OF s(1,2) le0 la[folded s(4)], of ?g ?x, OF g] by blast
  obtain s2 where s2: "?G s1 = Ret s2" "same_dims s1 s2"
    "\<forall>r<rows s. \<forall>k<cols s. ent s2 r k = (if r = i \<and> length avail \<le> k \<and> k < cols pm then GF (?y k) else ent s1 r k)"
    using Set_row_loop[of s1 i "length avail" "cols pm" "\<lambda>j. Ret (?y j)" ?y] s1(2) s la
    by (auto simp: same_dims_def simp del: bindR.simps)
  have "bindR (goIndex used (int i)) (\<lambda>k. bindR (foldR (\<lambda>j n. bindR (bindR (goIndex avail (int j))
      (\<lambda>l. At pm (int k) (int l))) (Set n (int i) (int j))) [0..<length avail] s) ?G) = Ret s2"
    using i s1(1) s2(1) by (simp del: upt_Suc)
  moreover have "ent s2 i j = rhs_ent pm avail used i j" if "j < cols pm" for j
    using that s2(3) s1(3) s(3,4) i by (auto simp: rhs_ent_def ent_def[of pm])
  ultimately show "\<exists>s'. bindR (goIndex used (int i)) (\<lambda>k. bindR (foldR (\<lambda>j n. bindR (bindR (goIndex avail (int j))
      (\<lambda>l. At pm (int k) (int l))) (Set n (int i) (int j))) [0..<length avail] s) ?G) = Ret s' \<and> same_dims n s' \<and>
    (\<forall>p<length used. \<forall>j<cols pm. p < Suc i \<longrightarrow> ent s' p j = rhs_ent pm avail used p j)"
    using I s1(2,3) s2(2,3) s by (auto simp: same_dims_def less_Suc_eq)
qed (use n in \<open>auto simp: same_dims_def\<close>)

text \<open>The square submatrix that has to be inverted.\<close>

definition sub_singular :: "Matrix \<Rightarrow> nat list \<Rightarrow> nat list \<Rightarrow> bool" where
  "sub_singular pm missing used \<longleftrightarrow> (\<exists>v. (\<exists>j<length missing. v j \<noteq> 0) \<and>
     (\<forall>i<length used. (\<Sum>j<length missing. ent pm (used ! i) (missing ! j) * v j) = 0))"

lemma makeReconstructionMatrix_cases:
  assumes ok: "rows_ok pm avail missing used"
  shows "(\<exists>x. makeReconstructionMatrix b (cols pm) avail missing used pm = Ret x \<and> wf_matrix x \<and>
      rows x = length missing \<and> cols x = cols pm \<and>
      (\<forall>v w. (\<forall>i<length used. (\<Sum>j<length missing. ent pm (used ! i) (missing ! j) * v j) =
            (\<Sum>j<cols pm. rhs_ent pm avail used i j * w j)) \<longleftrightarrow>
          (\<forall>i<length missing. v i = mv x w i)) \<and> \<not> sub_singular pm missing used) \<or>
    (makeReconstructionMatrix b (cols pm) avail missing used pm = Error ''singular matrix'' \<and>
      sub_singular pm missing used)"
proof -
  have len: "length used = length missing" "0 < length used" "0 < cols pm" "wf_matrix pm"
    using ok by (auto simp: rows_ok_def wf_matrix_def)
  obtain m0 where m0: "NewMatrix (int (length used)) (int (length used)) = Ret m0" "wf_matrix m0"
    "rows m0 = length used" "cols m0 = length used" using NewMatrix_Ret len by blast
  obtain m where m: "fill_m missing used pm m0 = Ret m" "same_dims m0 m"
    "\<forall>i<length used. \<forall>j<length used. ent m i j = ent pm (used ! i) (missing ! j)"
    using fill_m_Ret[OF ok m0(2-4)] by blast
  obtain n0 where n0: "NewMatrix (int (length used)) (int (cols pm)) = Ret n0" "wf_matrix n0"
    "rows n0 = length used" "cols n0 = cols pm" using NewMatrix_Ret len by blast
  obtain n where n: "fill_n (cols pm) avail used pm n0 = Ret n" "same_dims n0 n"
    "\<forall>i<length used. \<forall>j<cols pm. ent n i j = rhs_ent pm avail used i j"
    using fill_n_Ret[OF ok n0(2-4)] by blast
  have sh: "wf_matrix m" "wf_matrix n" "rows m = cols m" "rows n = rows m" "rows m = length missing" "cols n = cols pm"
    using m(2) n(2) m0 n0 len by (auto simp: same_dims_def)
  have mm: "mv m v i = (\<Sum>j<length missing. ent pm (used ! i) (missing ! j) * v j)" if "i < length missing" for v i
    using that m(3) sh len by (simp add: mv_def)
  have nn: "mv n w i = (\<Sum>j<cols pm. rhs_ent pm avail used i j * w j)" if "i < length missing" for w i
    using that n(3) sh len by (simp add: mv_def)
  have eq: "makeReconstructionMatrix b (cols pm) avail missing used pm = RowReduceForInverse b m n"
    using m0(1) m(1) n0(1) n(1) by (simp add: makeReconstructionMatrix_def)
  have sing: "singular m \<longleftrightarrow> sub_singular pm missing used"
    using mm sh(3,5) len by (simp add: singular_def sub_singular_def)
  show ?thesis
  proof (cases "singular m")
    case True
    then show ?thesis using gauss.solve_fails[OF sh(1-4), of b] eq sing by simp
  next
    case False
    then obtain x where x: "RowReduceForInverse b m n = Ret x" using gauss.solve_complete[OF sh(1-4)] by blast
    note sound = gauss.solve_sound[OF sh(1-4) x]
    have "(\<forall>i<length used. (\<Sum>j<length missing. ent pm (used ! i) (missing ! j) * v j) =
        (\<Sum>j<cols pm. rhs_ent pm avail used i j * w j)) \<longleftrightarrow> (\<forall>i<length missing. v i = mv x w i)" for v w
      using sound(2)[of v w] mm nn sh len by (simp add: sys_def)
    then show ?thesis using x eq sound(1) sh False sing by (auto simp: same_dims_def)
  qed
qed

section \<open>Erased codewords\<close>

text \<open>Data shards and the parity shards that belong to them.\<close>

definition codeword :: "Coder \<Rightarrow> nat \<Rightarrow> bytes list \<Rightarrow> bytes list \<Rightarrow> bool" where
  "codeword c len D P \<longleftrightarrow> length D = dataShards c \<and> length P = parityShards c \<and> even len \<and>
     uniform len D \<and> uniform len P \<and>
     (\<forall>i<parityShards c. \<forall>k<len div 2.
        GF (elems (P ! i) ! k) = mv (parityMatrix c) (\<lambda>l. GF (elems (D ! l) ! k)) i)"

text \<open>Shards that are either missing or the original.\<close>

definition erased :: "shard list \<Rightarrow> bytes list \<Rightarrow> bool" where
  "erased xs X \<longleftrightarrow> length xs \<le> length X \<and> (\<forall>i<length xs. xs ! i = None \<or> xs ! i = Some (X ! i))"

lemma erased_present: "erased xs X \<Longrightarrow> i \<in> set (present xs) \<Longrightarrow> xs ! i = Some (X ! i) \<and> i < length xs"
  by (auto simp: erased_def present_def)

lemma erased_lengths:
  assumes "erased xs X" "uniform len X" "Some bs \<in> set xs"
  shows "length bs = len"
proof -
  obtain i where "i < length xs" "xs ! i = Some bs" using assms(3) by (auto simp: in_set_conv_nth)
  with assms(1,2) show ?thesis by (force simp: erased_def uniform_def)
qed

lemma checkShard_fold:
  assumes "\<And>bs. Some bs \<in> set xs \<Longrightarrow> length bs = len" "acc = -1 \<or> acc = int len"
  shows "foldR checkShard xs acc = Ret (if acc = -1 \<and> present xs = [] then -1 else int len)"
proof -
  have "foldR checkShard xs acc = Ret (if acc = -1 \<and> (\<forall>x\<in>set xs. x = None) then -1 else int len)"
    using assms
  proof (induction xs arbitrary: acc)
    case (Cons x xs)
    then show ?case by (cases x) (auto simp: checkShard_def)
  qed auto
  moreover have "present xs = [] \<longleftrightarrow> (\<forall>x\<in>set xs. x = None)"
    by (auto simp: present_def filter_empty_conv all_set_conv_all_nth)
  ultimately show ?thesis by simp
qed

lemma validateShardLengths_erased:
  assumes "erased data D" "erased parity P" "uniform len D" "uniform len P"
  shows "validateShardLengths data parity =
    Ret (if present data = [] \<and> present parity = [] then -1 else int len)"
proof -
  have "foldR checkShard data (-1) = Ret (if present data = [] then -1 else int len)"
    using checkShard_fold[of data len "-1"] erased_lengths[OF assms(1,3)] by simp
  moreover have "foldR checkShard parity acc = Ret (if acc = -1 \<and> present parity = [] then -1 else int len)"
    if "acc = -1 \<or> acc = int len" for acc
    using checkShard_fold[OF _ that] erased_lengths[OF assms(2,4)] by blast
  ultimately show ?thesis by (simp add: validateShardLengths_def)
qed

lemma sum_nth_set:
  "distinct xs \<Longrightarrow> (\<Sum>j<length xs. f (xs ! j)) = (\<Sum>x\<in>set xs. f x)"
  by (rule sum.reindex_bij_betw) (rule bij_betw_nth, simp_all)

lemma sum_split_rows:
  fixes f :: "nat \<Rightarrow> gf"
  shows "(\<Sum>l<length xs. f l) = (\<Sum>j<length (present xs). f (present xs ! j)) + (\<Sum>j<length (absent xs). f (absent xs ! j))"
proof -
  have "{..<length xs} = set (present xs) \<union> set (absent xs)" "set (present xs) \<inter> set (absent xs) = {}"
    by (auto simp: present_def absent_def)
  moreover have "distinct (present xs)" "distinct (absent xs)" by (simp_all add: present_def absent_def)
  ultimately show ?thesis by (simp add: sum_nth_set sum.union_disjoint)
qed

lemma sum_lessThan_add:
  fixes a b :: nat
  shows "(\<Sum>j<a + b. g j) = (\<Sum>j<a. g j) + (\<Sum>j<b. g (a + j) :: gf)"
  by (induction b) (simp_all add: add.assoc)

text \<open>The original missing shards solve the system, at every element.\<close>

lemma missing_solve:
  assumes c: "coder_ok c" and cw: "codeword c len D P" and er: "erased data D" "length data = dataShards c"
    and i: "i < length used" "used ! i < parityShards c" and len: "length used = length (absent data)"
    and k: "k < len div 2"
  defines "w \<equiv> \<lambda>j. if j < length (present data) then GF (elems (D ! (present data ! j)) ! k)
                   else GF (elems (P ! (used ! (j - length (present data)))) ! k)"
  shows "(\<Sum>j<length (absent data). ent (parityMatrix c) (used ! i) (absent data ! j) * GF (elems (D ! (absent data ! j)) ! k)) =
     (\<Sum>j<dataShards c. rhs_ent (parityMatrix c) (present data) used i j * w j)"
proof -
  let ?pm = "parityMatrix c" and ?a = "length (present data)" and ?u = "used ! i"
  let ?f = "\<lambda>l. ent ?pm ?u l * GF (elems (D ! l) ! k)"
  have n: "dataShards c = ?a + length (absent data)" using length_present_absent[of data] er by simp
  have "GF (elems (P ! ?u) ! k) = (\<Sum>l<length data. ?f l)"
    using cw i(2) k c er(2) by (simp add: codeword_def mv_def coder_ok_def)
  also have "\<dots> = (\<Sum>j<?a. ?f (present data ! j)) + (\<Sum>j<length (absent data). ?f (absent data ! j))"
    by (rule sum_split_rows)
  finally have p: "(\<Sum>j<length (absent data). ?f (absent data ! j)) = (\<Sum>j<?a. ?f (present data ! j)) + GF (elems (P ! ?u) ! k)"
    by (simp add: gf_add_self flip: add.assoc)
  have "(\<Sum>j<dataShards c. rhs_ent ?pm (present data) used i j * w j) =
      (\<Sum>j<?a. rhs_ent ?pm (present data) used i j * w j) + (\<Sum>j<length (absent data). rhs_ent ?pm (present data) used i (?a + j) * w (?a + j))"
    unfolding n by (rule sum_lessThan_add)
  also have "(\<Sum>j<?a. rhs_ent ?pm (present data) used i j * w j) = (\<Sum>j<?a. ?f (present data ! j))"
    by (rule sum.cong) (simp_all add: rhs_ent_def w_def)
  also have "(\<Sum>j<length (absent data). rhs_ent ?pm (present data) used i (?a + j) * w (?a + j)) =
      (\<Sum>j<length (absent data). if j = i then GF (elems (P ! ?u) ! k) else 0)"
    by (rule sum.cong) (auto simp: rhs_ent_def w_def)
  also have "\<dots> = GF (elems (P ! ?u) ! k)" using i(1) len by simp
  finally show ?thesis using p by simp
qed

section \<open>Reconstruction restores the data\<close>

text \<open>The assignment loop at the end of \<open>Reconstruct\<close>.\<close>

lemma restore_loop:
  assumes er: "erased data D" "length data = length D" and len: "length R = length (absent data)"
    and R: "\<And>i. i < length (absent data) \<Longrightarrow> R ! i = D ! (absent data ! i)" and that: "ms = absent data"
  shows "foldR (\<lambda>i data. bindR (goIndex R (int i)) (\<lambda>s. bindR (goIndex ms (int i)) (\<lambda>r. goAssign data (int r) (Some s))))
      [0..<length (absent data)] data = Ret (map Some D)"
proof -
  let ?ms = "absent data"
  have ms: "\<forall>i<length ?ms. ?ms ! i < length data" using nth_mem by (fastforce simp: absent_def)
  have "\<exists>s'. foldR (\<lambda>i data. bindR (goIndex R (int i)) (\<lambda>s. bindR (goIndex ms (int i)) (\<lambda>r. goAssign data (int r) (Some s))))
      [0..<length ?ms] data = Ret s' \<and> (length s' = length data \<and>
      (\<forall>r<length data. s' ! r = (if r \<in> set (take (length ?ms) ?ms) then Some (D ! r) else data ! r)))"
  proof (rule foldR_upt_inv[where I = "\<lambda>i s'. length s' = length data \<and>
      (\<forall>r<length data. s' ! r = (if r \<in> set (take i ?ms) then Some (D ! r) else data ! r))"])
    fix i s assume i: "i < length ?ms" and I: "length s = length data \<and>
      (\<forall>r<length data. s ! r = (if r \<in> set (take i ?ms) then Some (D ! r) else data ! r))"
    then show "\<exists>s'. bindR (goIndex R (int i)) (\<lambda>x. bindR (goIndex ms (int i)) (\<lambda>r. goAssign s (int r) (Some x))) = Ret s' \<and>
      length s' = length data \<and>
      (\<forall>r<length data. s' ! r = (if r \<in> set (take (Suc i) ?ms) then Some (D ! r) else data ! r))"
      using ms R[OF i] len that by (auto simp: take_Suc_conv_app_nth nth_list_update)
  qed simp_all
  then obtain s' where s': "foldR (\<lambda>i data. bindR (goIndex R (int i)) (\<lambda>s. bindR (goIndex ms (int i)) (\<lambda>r. goAssign data (int r) (Some s))))
      [0..<length ?ms] data = Ret s'" "length s' = length data"
      "\<forall>r<length data. s' ! r = (if r \<in> set ?ms then Some (D ! r) else data ! r)" by auto
  have "s' ! r = Some (D ! r)" if "r < length data" for r
    using that s'(3) er by (auto simp: erased_def absent_def)
  then have "s' = map Some D" using s'(2) er(2) by (intro nth_equalityI) auto
  with s'(1) show ?thesis by simp
qed

lemma present_less: "i \<in> set (present xs) \<Longrightarrow> i < length xs" and absent_less: "i \<in> set (absent xs) \<Longrightarrow> i < length xs"
  by (auto simp: present_def absent_def)

lemma rows_ok_shards:
  assumes "coder_ok c" "length data = dataShards c" "length parity \<le> parityShards c"
    and "absent data \<noteq> []" "length (absent data) \<le> length (present parity)"
  shows "rows_ok (parityMatrix c) (present data) (absent data) (used_rows data parity)"
proof -
  have "set (used_rows data parity) \<subseteq> set (present parity)" by (simp add: used_rows_def set_take_subset)
  then have "\<forall>k\<in>set (used_rows data parity). k < length parity" using present_less by blast
  moreover have "length (used_rows data parity) = length (absent data)" using assms(5) by (simp add: used_rows_def)
  ultimately show ?thesis
    using assms length_present_absent[of data] present_less[of _ data] absent_less[of _ data]
    by (auto simp: rows_ok_def coder_ok_def)
qed

text \<open>The shards handed to the product, and what they are.\<close>

definition inputs :: "shard list \<Rightarrow> shard list \<Rightarrow> bytes list" where
  "inputs data parity = map (\<lambda>i. the (data ! i)) (present data) @ map (\<lambda>i. the (parity ! i)) (used_rows data parity)"

lemma inputs_nth:
  assumes "erased data D" "erased parity P" "j < length (inputs data parity)"
  shows "inputs data parity ! j = (if j < length (present data) then D ! (present data ! j)
     else P ! (used_rows data parity ! (j - length (present data))))"
proof -
  have "used_rows data parity ! i \<in> set (present parity)" if "i < length (used_rows data parity)" for i
    using that by (simp add: used_rows_def)
  with assms show ?thesis
    using erased_present[OF assms(1)] erased_present[OF assms(2)]
    by (auto simp: inputs_def nth_append)
qed

lemma Reconstruct_unfold:
  assumes "length data = dataShards c" "length parity \<le> parityShards c"
    and "erased data D" "erased parity P" "codeword c len D P"
    and "absent data \<noteq> []" "length (absent data) \<le> length (present parity)" and that: "data' = data"
  shows "Reconstruct e sched False c data parity n =
    bindO (makeReconstructionMatrix (env_build e) (dataShards c) (present data) (absent data)
       (used_rows data parity) (parityMatrix c)) (\<lambda>x.
      case applyMatrixParallelData e sched False x (inputs data parity)
             (replicate (length (absent data)) (replicate len 0)) n of
        None \<Rightarrow> None
      | Some r \<Rightarrow> Some (bindR r (\<lambda>R. foldR (\<lambda>i data. bindR (goIndex R (int i)) (\<lambda>s.
            bindR (goIndex (absent data') (int i)) (\<lambda>r. goAssign data (int r) (Some s))))
          [0..<length (absent data)] data)))"
proof -
  have "present parity \<noteq> []" using assms(6,7) by auto
  then have "validateReconstructInputs c data parity = Ret (int len)"
    using validateShardLengths_erased[OF assms(3,4), of len] assms(1,2,5)
    by (simp add: validateReconstructInputs_def codeword_def)
  then show ?thesis
    using assms(6,7) unfolding that by (simp add: Reconstruct_def analyzeShards_eq[OF assms(1)] goMake_def inputs_def)
qed

lemma uniform_nth: "uniform len xs \<Longrightarrow> i < length xs \<Longrightarrow> length (xs ! i) = len"
  by (simp add: uniform_def)

lemma uniform_replicate [simp]: "uniform len (replicate n (replicate len x))"
  by (simp add: uniform_def)

lemma inputs_uniform:
  assumes "erased data D" "erased parity P" "uniform len D" "uniform len P"
  shows "uniform len (inputs data parity)"
proof -
  have "length (the (data ! i)) = len" if "i \<in> set (present data)" for i
    using erased_present[OF assms(1) that] assms(1) uniform_nth[OF assms(3)] by (simp add: erased_def)
  moreover have "length (the (parity ! i)) = len" if "i \<in> set (present parity)" for i
    using erased_present[OF assms(2) that] assms(2) uniform_nth[OF assms(4)] by (simp add: erased_def)
  ultimately show ?thesis
    by (auto simp: uniform_def inputs_def used_rows_def dest: in_set_takeD)
qed

lemma mv_cong: "(\<And>j. j < cols m \<Longrightarrow> v j = w j) \<Longrightarrow> mv m v i = mv m w i"
  by (simp add: mv_def)

lemma bytes_by_elems:
  assumes "length a = len" "length b = len" "even len"
    and "\<And>k. k < len div 2 \<Longrightarrow> GF (elems a ! k) = GF (elems b ! k)"
  shows "a = b"
proof -
  have "elems a = elems b" using assms by (intro nth_equalityI) auto
  with assms show ?thesis by (metis of_elems_elems)
qed

text \<open>The product with the reconstruction matrix is the missing data.\<close>

lemma product_is_missing:
  assumes c: "coder_ok c" and cw: "codeword c len D P"
    and er: "erased data D" "erased parity P" "length data = dataShards c" "length parity \<le> parityShards c"
    and miss: "length (absent data) \<le> length (present parity)"
    and x: "cols x = dataShards c"
      "\<And>v w. (\<forall>i<length (used_rows data parity). (\<Sum>j<length (absent data).
            ent (parityMatrix c) (used_rows data parity ! i) (absent data ! j) * v j) =
            (\<Sum>j<dataShards c. rhs_ent (parityMatrix c) (present data) (used_rows data parity) i j * w j)) \<longleftrightarrow>
          (\<forall>i<length (absent data). v i = mv x w i)"
    and i: "i < length (absent data)" and k: "k < len div 2"
  shows "mv x (\<lambda>j. GF (elems (inputs data parity ! j) ! k)) i = GF (elems (D ! (absent data ! i)) ! k)"
proof -
  let ?u = "used_rows data parity"
  define w where "w j = (if j < length (present data) then GF (elems (D ! (present data ! j)) ! k)
                   else GF (elems (P ! (?u ! (j - length (present data)))) ! k))" for j
  have len: "length ?u = length (absent data)" using miss by (simp add: used_rows_def)
  have "?u ! i < parityShards c" if "i < length ?u" for i
    using that er(4) present_less[of "?u ! i" parity] by (simp add: used_rows_def)
  then have "\<forall>i<length (absent data). GF (elems (D ! (absent data ! i)) ! k) = mv x w i"
    unfolding x(2)[symmetric] using missing_solve[OF c cw er(1,3) _ _ len k] by (simp add: w_def)
  moreover have "length (inputs data parity) = dataShards c"
    using length_present_absent[of data] er(3) len by (simp add: inputs_def)
  then have "mv x (\<lambda>j. GF (elems (inputs data parity ! j) ! k)) i = mv x w i"
    using inputs_nth[OF er(1,2)] x(1) by (intro mv_cong) (simp add: w_def)
  ultimately show ?thesis using i by simp
qed

text \<open>What \<open>Reconstruct\<close> can do with enough parity: wait, report the cancelled context, report a singular
  submatrix, or return the original data.\<close>

text \<open>With a reconstruction matrix in hand, the parallel product and the loop that puts its rows in the missing
  places give back the data.\<close>

lemma Reconstruct_regular:
  fixes sched n
  assumes env: "env_ok e" and c: "coder_ok c" and cw: "codeword c len D P"
    and er: "erased data D" "erased parity P" "length data = dataShards c" "length parity \<le> parityShards c"
    and miss: "absent data \<noteq> []" "length (absent data) \<le> length (present parity)"
    and x: "makeReconstructionMatrix (env_build e) (dataShards c) (present data) (absent data) (used_rows data parity) (parityMatrix c) = Ret x"
      "wf_matrix x" "rows x = length (absent data)" "cols x = dataShards c"
      "\<And>v w. (\<forall>i<length (used_rows data parity). (\<Sum>j<length (absent data). ent (parityMatrix c) (used_rows data parity ! i) (absent data ! j) * v j) =
            (\<Sum>j<dataShards c. rhs_ent (parityMatrix c) (present data) (used_rows data parity) i j * w j)) \<longleftrightarrow>
          (\<forall>i<length (absent data). v i = mv x w i)"
  defines "A \<equiv> applyMatrixParallelData e sched False x (inputs data parity) (replicate (length (absent data)) (replicate len 0)) n"
  shows "Reconstruct e sched False c data parity n = (case A of None \<Rightarrow> None | Some (Ret _) \<Rightarrow> Some (Ret (map Some D)) |
      Some (Error err) \<Rightarrow> Some (Error err) | Some (Panic q) \<Rightarrow> Some (Panic q))"
    and "(\<exists>out'. A = Some (Ret out')) \<or> A \<in> {None, Some (Error ''context canceled'')}"
    and "fair (length (chunk_ranges e len n)) (length (absent data) * dataShards c + 1) sched \<Longrightarrow> A \<noteq> None"
    and "Cancel \<notin> set sched \<Longrightarrow> A \<noteq> Some (Error ''context canceled'')"
proof -
  let ?inp = "inputs data parity" and ?out = "replicate (length (absent data)) (replicate len (0 :: u8))"
  have cwd: "even len" "length D = dataShards c" "uniform len D" "uniform len P"
    using cw unfolding codeword_def by blast+
  have d: "even len" "uniform len ?inp" "uniform len ?out" "length ?out = rows x" "cols x = length ?inp"
    using inputs_uniform[OF er(1,2) cwd(3,4)] cwd er(3) x(3,4) miss(2) length_present_absent[of data]
    by (simp_all add: uniform_replicate) (simp add: inputs_def used_rows_def)
  note ap = env x(2) d(5,2,1,3,4)
  define G where "G = (\<lambda>R. foldR (\<lambda>i data'. bindR (goIndex R (int i)) (\<lambda>s.
          bindR (goIndex (absent data) (int i)) (\<lambda>r. goAssign data' (int r) (Some s))))
        [0..<length (absent data)] data)"
  have restore: "G out' = Ret (map Some D)" if out': "length out' = rows x" "uniform len out'"
      "\<forall>i<rows x. \<forall>k<len div 2. GF (elems (out' ! i) ! k) = mv x (\<lambda>j. GF (elems (?inp ! j) ! k)) i" for out'
    unfolding G_def
  proof (rule restore_loop)
    fix i assume i: "i < length (absent data)"
    have "absent data ! i < length D" using i er(3) cwd(2) absent_less[of "absent data ! i" data] by simp
    then show "out' ! i = D ! (absent data ! i)"
      using out' i x(3) product_is_missing[OF c cw er miss(2) x(4,5) i]
      by (intro bytes_by_elems[of _ len] uniform_nth[OF cwd(3)] d(1)) (simp_all add: uniform_nth)
  qed (use er cwd d out' x(3) in simp_all)
  have A: "A \<in> {None, Some (Error ''context canceled'')} \<or> (\<exists>out'. A = Some (Ret out') \<and> G out' = Ret (map Some D))"
    using apply_outcome[OF ap, of sched False n] restore unfolding A_def by blast
  then show "(\<exists>out'. A = Some (Ret out')) \<or> A \<in> {None, Some (Error ''context canceled'')}" by blast
  have "Reconstruct e sched False c data parity n = (case A of None \<Rightarrow> None | Some r \<Rightarrow> Some (bindR r G))"
    unfolding G_def A_def using Reconstruct_unfold[OF er(3,4,1,2) cw miss refl, of e sched n] x(1) by simp
  then show "Reconstruct e sched False c data parity n = (case A of None \<Rightarrow> None | Some (Ret _) \<Rightarrow> Some (Ret (map Some D)) |
      Some (Error err) \<Rightarrow> Some (Error err) | Some (Panic q) \<Rightarrow> Some (Panic q))"
    using A by auto
  show "fair (length (chunk_ranges e len n)) (length (absent data) * dataShards c + 1) sched \<Longrightarrow> A \<noteq> None"
    unfolding A_def using x(3,4) d(5) by (intro apply_ends[OF ap]) simp
  show "Cancel \<notin> set sched \<Longrightarrow> A \<noteq> Some (Error ''context canceled'')" unfolding A_def by (rule apply_live[OF ap])
qed

lemma Reconstruct_enough:
  assumes env: "env_ok e" and c: "coder_ok c" and cw: "codeword c len D P"
    and er: "erased data D" "erased parity P" "length data = dataShards c" "length parity \<le> parityShards c"
    and miss: "absent data \<noteq> []" "length (absent data) \<le> length (present parity)"
  shows "(Reconstruct e sched False c data parity n = Some (Error ''singular matrix'') \<and>
       sub_singular (parityMatrix c) (absent data) (used_rows data parity)) \<or>
    (\<not> sub_singular (parityMatrix c) (absent data) (used_rows data parity) \<and>
     Reconstruct e sched False c data parity n \<in> {None, Some (Error ''context canceled''), Some (Ret (map Some D))} \<and>
     (fair (length (chunk_ranges e len n)) (length (absent data) * dataShards c + 1) sched \<longrightarrow>
        Reconstruct e sched False c data parity n \<noteq> None) \<and>
     (Cancel \<notin> set sched \<longrightarrow> Reconstruct e sched False c data parity n \<noteq> Some (Error ''context canceled'')))"
proof -
  let ?u = "used_rows data parity" and ?pm = "parityMatrix c"
  let ?mk = "makeReconstructionMatrix (env_build e) (dataShards c) (present data) (absent data) ?u ?pm"
  have pm: "cols ?pm = dataShards c" using c by (simp add: coder_ok_def)
  consider (sing) "?mk = Error ''singular matrix''" "sub_singular ?pm (absent data) ?u"
    | (ok) x where "?mk = Ret x" "wf_matrix x" "rows x = length (absent data)" "cols x = dataShards c"
      "\<not> sub_singular ?pm (absent data) ?u"
      "\<And>v w. (\<forall>i<length ?u. (\<Sum>j<length (absent data). ent ?pm (?u ! i) (absent data ! j) * v j) =
            (\<Sum>j<dataShards c. rhs_ent ?pm (present data) ?u i j * w j)) \<longleftrightarrow>
          (\<forall>i<length (absent data). v i = mv x w i)"
    using makeReconstructionMatrix_cases[OF rows_ok_shards[OF c er(3,4) miss], of "env_build e"]
    unfolding pm by (elim disjE exE conjE) simp_all
  then show ?thesis
  proof cases
    case sing
    then show ?thesis using Reconstruct_unfold[OF er(3,4,1,2) cw miss refl, of e sched n] by simp
  next
    case (ok x)
    note reg = Reconstruct_regular[OF env c cw er miss ok(1-4,6), where sched = sched and n = n]
    show ?thesis unfolding reg(1) using reg(2-4) ok(5) by (auto split: option.splits res.splits)
  qed
qed

lemma absent_empty: "absent xs = [] \<Longrightarrow> erased xs X \<Longrightarrow> length xs = length X \<Longrightarrow> xs = map Some X"
proof (rule nth_equalityI)
  fix i assume a: "absent xs = []" "erased xs X" "length xs = length X" "i < length xs"
  then have "xs ! i \<noteq> None" by (simp add: absent_def filter_empty_conv)
  with a show "xs ! i = map Some X ! i" by (auto simp: erased_def)
qed simp

lemma Reconstruct_none_missing:
  assumes "codeword c len D P" "erased data D" "erased parity P" "length data = dataShards c"
    "length parity \<le> parityShards c" "absent data = []"
  shows "Reconstruct e sched False c data parity n = Some (Ret (map Some D))"
proof -
  have "uniform len D" "uniform len P" "length D = dataShards c" using assms(1) unfolding codeword_def by blast+
  then show ?thesis
    using assms(4-6) validateShardLengths_erased[OF assms(2,3), of len] absent_empty[OF assms(6,2)]
    by (simp add: Reconstruct_def validateReconstructInputs_def analyzeShards_eq)
qed

lemma Reconstruct_too_few:
  assumes "codeword c len D P" "erased data D" "erased parity P" "length data = dataShards c"
    "length parity \<le> parityShards c" "length (present parity) < length (absent data)"
  shows "Reconstruct e sched False c data parity n =
    Some (Error ''not enough parity shards to perform reconstruction'')"
proof -
  have "uniform len D" "uniform len P" using assms(1) unfolding codeword_def by blast+
  moreover have "absent data \<noteq> []" using assms(6) by auto
  ultimately show ?thesis
    using assms(4-6) validateShardLengths_erased[OF assms(2,3), of len]
    by (simp add: Reconstruct_def validateReconstructInputs_def analyzeShards_eq)
qed

text \<open>Consecutive parity rows never give a singular system.\<close>

definition consecutive :: "nat list \<Rightarrow> bool" where
  "consecutive us \<longleftrightarrow> (\<forall>i<length us. us ! i = us ! 0 + i)"

lemma consecutive_not_singular:
  assumes c: "coder_ok c" and missing: "distinct missing" "\<forall>l\<in>set missing. l < dataShards c"
    and used: "\<forall>u\<in>set used. u < parityShards c" "length used = length missing" "consecutive used"
  shows "\<not> sub_singular (parityMatrix c) missing used"
proof
  assume "sub_singular (parityMatrix c) missing used"
  then obtain v j where v: "j < length missing" "v j \<noteq> 0"
    "\<forall>i<length used. (\<Sum>j<length missing. ent (parityMatrix c) (used ! i) (missing ! j) * v j) = 0"
    by (auto simp: sub_singular_def)
  define g where "g j = GF (generators ! (missing ! j))" for j
  let ?a = "used ! 0" and ?n = "length missing"
  have lt: "missing ! j < length generators" if "j < ?n" for j
  proof -
    have "missing ! j < dataShards c" using that missing(2) by simp
    then show ?thesis using c unfolding coder_ok_def length_generators by linarith
  qed
  have "inj_on g {..<?n}"
    using lt generators_distinct missing(1) by (auto simp: inj_on_def g_def nth_eq_iff_index_eq)
  moreover have "(\<Sum>j<?n. g j ^ i * (g j ^ ?a * v j)) = 0" if "i < ?n" for i
  proof -
    have u: "used ! i = ?a + i" using that used(2,3) by (simp add: consecutive_def)
    have "used ! i < parityShards c" using that used(1,2) by simp
    note u = u this
    have "ent (parityMatrix c) (used ! i) (missing ! j) = g j ^ (?a + i)" if "j < ?n" for j
      using that u c missing(2) by (simp add: coder_ok_def g_def)
    then have "(\<Sum>j<?n. ent (parityMatrix c) (used ! i) (missing ! j) * v j) = (\<Sum>j<?n. g j ^ i * (g j ^ ?a * v j))"
      by (intro sum.cong) (simp_all add: power_add mult_ac)
    then show ?thesis using v(3) that used(2) by simp
  qed
  ultimately have "g j ^ ?a * v j = 0" using v(1) by (rule vandermonde_kernel)
  moreover have "g j \<noteq> 0" using generators_nonzero lt v(1) by (simp add: g_def)
  ultimately show False using v(2) by simp
qed

lemma used_consecutive_not_singular:
  assumes "coder_ok c" "length data = dataShards c" "length parity \<le> parityShards c"
    "length (absent data) \<le> length (present parity)" "consecutive (used_rows data parity)"
  shows "\<not> sub_singular (parityMatrix c) (absent data) (used_rows data parity)"
proof (rule consecutive_not_singular[OF assms(1)])
  show "\<forall>u\<in>set (used_rows data parity). u < parityShards c"
    using assms(3) present_less by (fastforce simp: used_rows_def dest: in_set_takeD)
qed (use assms absent_less[of _ data] in \<open>auto simp: used_rows_def absent_def\<close>)

section \<open>Parity generation makes codewords\<close>

lemma GenerateParity_codeword:
  assumes "env_ok e" "coder_ok c" "length D = dataShards c" "uniform len D" "even len"
    and "GenerateParity e sched False c (map Some D) n = Some (Ret P)"
  shows "codeword c len D P"
proof -
  have er: "erased (map Some D) D" by (simp add: erased_def)
  have D: "present (map Some D) \<noteq> []" using assms(2,3) by (auto simp: present_def coder_ok_def filter_empty_conv)
  have "validateShardLengths (map Some D) [] = Ret (int len)"
    using validateShardLengths_erased[OF er, of "[]" "[]" len] assms(4) D
    by (simp add: erased_def uniform_def)
  moreover have "map shard_bytes (map Some D) = D" by (simp add: shard_bytes_def comp_def)
  ultimately have ap: "applyMatrixParallelData e sched False (parityMatrix c) D
      (replicate (parityShards c) (replicate len 0)) n = Some (Ret P)"
    using assms(3,6) by (simp add: GenerateParity_def goMake_def)
  have m: "wf_matrix (parityMatrix c)" "cols (parityMatrix c) = length D" "rows (parityMatrix c) = parityShards c"
    using assms(2,3) unfolding coder_ok_def by auto
  have "length P = rows (parityMatrix c) \<and> uniform len P \<and> (\<forall>i<rows (parityMatrix c). \<forall>k<len div 2.
      GF (elems (P ! i) ! k) = mv (parityMatrix c) (\<lambda>j. GF (elems (D ! j) ! k)) i)"
    using apply_outcome[OF assms(1) m(1,2) assms(4,5) uniform_replicate, of "parityShards c" 0 sched False n] m(3) ap
    by auto
  then show ?thesis using assms(3-5) m(3) by (simp add: codeword_def)
qed

section \<open>Properties\<close>

text \<open>A run of one goroutine over a chunk of two bytes, for the witnesses below.\<close>

definition small_env :: env where
  "small_env = \<lparr>env_build = NonAmd64, gomaxprocs = 1, physicalCores = 0\<rparr>"

lemma small_env_ok: "env_ok small_env" "chunk_ranges small_env 2 1 = [(0, 2)]"
  by (simp_all add: small_env_def env_ok_def num_goroutines_def goroutine_ranges_def perGoroutineSplit_def
      splitForBlock_def KernelBlockBytes_def elementBytes_def minSplitBytes_def Let_def)

text \<open>C3. Encode, lose shards, decode: the parity that \<open>GenerateParity\<close> made for data shards of one even length
  restores them. With at most as many data shards missing as parity shards at hand, the used parity
  shards consecutive, a fair schedule and no cancellation, \<open>Reconstruct\<close> returns every data shard as it was.\<close>

theorem Reconstruct_restores_data:
  assumes "env_ok e" "NewCoderPAR2Vandermonde ds ps = Ret c"
    and "length D = nat ds" "uniform len D" "even len"
    and "GenerateParity e sched0 False c (map Some D) n0 = Some (Ret P)"
    and "erased data D" "erased parity P" "length data = nat ds" "length parity \<le> nat ps"
    and "length (absent data) \<le> length (present parity)" "consecutive (used_rows data parity)"
    and "fair (length (chunk_ranges e len n)) (length (absent data) * nat ds + 1) sched" "Cancel \<notin> set sched"
  shows "Reconstruct e sched False c data parity n = Some (Ret (map Some D))"
proof -
  have c: "coder_ok c" "dataShards c = nat ds" "parityShards c = nat ps"
    using NewCoder_ok[OF assms(2)] by auto
  have cw: "codeword c len D P" using GenerateParity_codeword[OF assms(1) c(1)] assms(3-6) c(2) by simp
  show ?thesis
  proof (cases "absent data = []")
    case True
    then show ?thesis using Reconstruct_none_missing[OF cw assms(7,8)] assms(9,10) c by simp
  next
    case False
    have "\<not> sub_singular (parityMatrix c) (absent data) (used_rows data parity)"
      using used_consecutive_not_singular[OF c(1)] assms(9-12) c by simp
    then show ?thesis
      using Reconstruct_enough[OF assms(1) c(1) cw assms(7,8) _ _ False assms(11), of sched n] assms(9,10,13,14) c by auto
  qed
qed

theorem Reconstruct_restores_data_witness:
  "\<exists>c P. NewCoderPAR2Vandermonde 1 1 = Ret c \<and>
     GenerateParity small_env [Run 0, Run 0] False c [Some [9, 4]] 1 = Some (Ret P) \<and>
     Reconstruct small_env [Run 0, Run 0] False c [None] [Some (P ! 0)] 1 = Some (Ret [Some [9, 4]])"
proof -
  obtain c where c: "NewCoderPAR2Vandermonde 1 1 = Ret c" "coder_ok c" "dataShards c = 1" "parityShards c = 1"
    using NewCoder_Ret[of 1 1] by auto
  have m: "wf_matrix (parityMatrix c)" "cols (parityMatrix c) = length [[9, 4 :: u8]]" "rows (parityMatrix c) = 1"
    using c unfolding coder_ok_def by simp_all
  have u: "uniform 2 [[9, 4 :: u8]]" "uniform 2 [[0, 0 :: u8]]" by (simp_all add: uniform_def)
  note ap = small_env_ok(1) m(1,2) u(1) _ u(2)
  have gp: "GenerateParity small_env [Run 0, Run 0] False c [Some [9, 4]] 1 =
      applyMatrixParallelData small_env [Run 0, Run 0] False (parityMatrix c) [[9, 4]] [[0, 0]] 1"
    using c by (simp add: GenerateParity_def validateShardLengths_def checkShard_def goMake_def shard_bytes_def
        numeral_2_eq_2)
  have "applyMatrixParallelData small_env [Run 0, Run 0] False (parityMatrix c) [[9, 4]] [[0, 0]] 1 \<noteq> None"
    using apply_ends[OF ap, of 1 "[Run 0, Run 0]" False] m small_env_ok(2) by (simp add: fair_def)
  then obtain P where P: "GenerateParity small_env [Run 0, Run 0] False c [Some [9, 4]] 1 = Some (Ret P)" "length P = 1"
    using apply_outcome[OF ap, of "[Run 0, Run 0]" False 1] apply_live[OF ap, of "[Run 0, Run 0]" 1] m gp by auto
  have "erased [None] [[9, 4 :: u8]]" "erased [Some (P ! 0)] P" using P(2) by (auto simp: erased_def)
  moreover have "absent [None :: shard] = [0]" "present [Some (P ! 0)] = [0]"
    by (simp_all add: absent_def present_def)
  moreover from this have "consecutive (used_rows [None] [Some (P ! 0)])"
    by (simp add: used_rows_def consecutive_def)
  ultimately have "Reconstruct small_env [Run 0, Run 0] False c [None] [Some (P ! 0)] 1 = Some (Ret (map Some [[9, 4]]))"
    using Reconstruct_restores_data[of small_env 1 1 c "[[9, 4]]" 2 "[Run 0, Run 0]" 1 P "[None]" "[Some (P ! 0)]" 1
        "[Run 0, Run 0]"] small_env_ok c(1) P(1) u(1)
    by (simp add: fair_def)
  with c(1) P(1) show ?thesis by auto
qed

text \<open>C4. Reconstruction is safe on every schedule: with enough parity shards at hand it returns \<open>singular matrix\<close>
  exactly when the used parity rows do not determine the missing data; otherwise it ends with
  \<open>context canceled\<close>, is still running, or returns the original data, never a panic and never other data.\<close>

theorem Reconstruct_never_wrong:
  assumes "env_ok e" "coder_ok c" "codeword c len D P" "erased data D" "erased parity P"
    "length data = dataShards c" "length parity \<le> parityShards c"
    and "absent data \<noteq> []" "length (absent data) \<le> length (present parity)"
  shows "if sub_singular (parityMatrix c) (absent data) (used_rows data parity)
    then Reconstruct e sched False c data parity n = Some (Error ''singular matrix'')
    else Reconstruct e sched False c data parity n \<in>
           {None, Some (Error ''context canceled''), Some (Ret (map Some D))}"
  using Reconstruct_enough[OF assms, of sched n] by auto

theorem Reconstruct_never_wrong_witness:
  "\<exists>c P. NewCoderPAR2Vandermonde 1 1 = Ret c \<and> codeword c 0 [[]] P \<and>
     (if sub_singular (parityMatrix c) [0] [0]
      then Reconstruct small_env [] False c [None] [Some (P ! 0)] 1 = Some (Error ''singular matrix'')
      else Reconstruct small_env [] False c [None] [Some (P ! 0)] 1 \<in>
        {None, Some (Error ''context canceled''), Some (Ret [Some []])})"
proof -
  obtain c where c: "NewCoderPAR2Vandermonde 1 1 = Ret c" "coder_ok c" "dataShards c = 1" "parityShards c = 1"
    using NewCoder_Ret[of 1 1] by auto
  have "codeword c 0 [[]] [[]]" using c by (simp add: codeword_def uniform_def)
  moreover have "erased [None] [[] :: bytes]" "erased [Some []] [[] :: bytes]" by (auto simp: erased_def)
  moreover have ab: "absent [None :: shard] = [0]" "present [Some [] :: shard] = [0]"
    by (simp_all add: absent_def present_def)
  moreover from this have "used_rows [None] [Some []] = [0]" by (simp add: used_rows_def)
  ultimately have "if sub_singular (parityMatrix c) [0] [0]
      then Reconstruct small_env [] False c [None] [Some []] 1 = Some (Error ''singular matrix'')
      else Reconstruct small_env [] False c [None] [Some []] 1 \<in>
        {None, Some (Error ''context canceled''), Some (Ret (map Some [[]]))}"
    using Reconstruct_never_wrong[OF small_env_ok(1) c(2), of 0 "[[]]" "[[]]" "[None]" "[Some []]" "[]" 1] c by simp
  with c(1) \<open>codeword c 0 [[]] [[]]\<close> show ?thesis by (intro exI[of _ c] exI[of _ "[[]]"]) (auto split: if_splits)
qed

text \<open>C29. With fewer parity shards than missing data shards \<open>Reconstruct\<close> reports that and nothing else, and with
  no missing data shard it returns the data unchanged.\<close>

theorem Reconstruct_too_few_or_none:
  assumes "codeword c len D P" "erased data D" "erased parity P" "length data = dataShards c"
    "length parity \<le> parityShards c"
  shows "(length (present parity) < length (absent data) \<longrightarrow>
      Reconstruct e sched False c data parity n =
        Some (Error ''not enough parity shards to perform reconstruction'')) \<and>
    (absent data = [] \<longrightarrow> Reconstruct e sched False c data parity n = Some (Ret (map Some D)))"
  using Reconstruct_too_few[OF assms, of e sched n] Reconstruct_none_missing[OF assms, of e sched n] by blast

theorem Reconstruct_too_few_or_none_witness:
  "\<exists>c. NewCoderPAR2Vandermonde 1 1 = Ret c \<and> Reconstruct small_env [] False c [None] [None] 1 =
     Some (Error ''not enough parity shards to perform reconstruction'')"
proof -
  obtain c where c: "NewCoderPAR2Vandermonde 1 1 = Ret c" "coder_ok c" "dataShards c = 1" "parityShards c = 1"
    using NewCoder_Ret[of 1 1] by auto
  have "codeword c 0 [[]] [[]]" using c by (simp add: codeword_def uniform_def)
  moreover have "erased [None] [[] :: bytes]" by (simp add: erased_def)
  moreover have "length (present [None :: shard]) < length (absent [None :: shard])"
    by (simp add: present_def absent_def)
  ultimately show ?thesis
    using Reconstruct_too_few_or_none[of c 0 "[[]]" "[[]]" "[None]" "[None]" small_env "[]" 1] c by auto
qed

text \<open>C30. The PAR2 generators are 32768 distinct nonzero elements, and \<open>NewCoderPAR2Vandermonde\<close> accepts
  exactly 1 to 32768 data shards and 1 to 65535 parity shards; an accepted coder has the Vandermonde matrix of
  the generators. It never panics.\<close>

theorem NewCoder_accepts:
  "length generators = 32768 \<and> distinct generators \<and> 0 \<notin> set generators \<and>
   (if 0 < ds \<and> ds \<le> 32768 \<and> 0 < ps \<and> ps \<le> 65535
    then \<exists>c. NewCoderPAR2Vandermonde ds ps = Ret c \<and> coder_ok c \<and> int (dataShards c) = ds \<and> int (parityShards c) = ps
    else \<exists>er. NewCoderPAR2Vandermonde ds ps = Error er)"
proof -
  have "0 \<notin> set generators" using generators_nonzero by (force simp: in_set_conv_nth)
  moreover have "\<exists>c. NewCoderPAR2Vandermonde ds ps = Ret c \<and> coder_ok c \<and> int (dataShards c) = ds \<and> int (parityShards c) = ps"
    if "0 < ds \<and> ds \<le> 32768 \<and> 0 < ps \<and> ps \<le> 65535"
    using NewCoder_Ret[of "nat ds" "nat ps"] that by (auto simp: nat_le_iff)
  moreover have "\<exists>er. NewCoderPAR2Vandermonde ds ps = Error er" if "\<not> (0 < ds \<and> ds \<le> 32768 \<and> 0 < ps \<and> ps \<le> 65535)"
    using that unfolding NewCoderPAR2Vandermonde_def length_generators by auto
  ultimately show ?thesis using generators_distinct length_generators by simp
qed

end
