(* ===== verification/Packet.thy ===== *)
theory Packet
  imports MD5
begin

text \<open>
  The packets of \<open>src/par2/packet.go\<close>: reading a header, the packet hash, the parsers of the four packet
  bodies, the order on file identifiers, and the decoding and sanitizing of file names with the
  \<open>path\<close>, \<open>strings\<close> and \<open>filepath\<close> functions they call. Strings are byte lists; fixed-size arrays are
  byte lists of that size. The lemmas show that the order is the order of the little-endian
  numbers, that the parsers accept exactly the well-formed bodies and return their content, and that a
  sanitized name stays inside the directory.
\<close>

type_synonym FileID = bytes

text \<open>The bytes of an ASCII literal.\<close>

definition ascii :: "string \<Rightarrow> bytes" where
  "ascii s = map of_char s"

definition pad16 :: "bytes \<Rightarrow> bytes" where
  "pad16 bs = bs @ replicate (16 - length bs) 0"

definition expectedMagic :: bytes where
  "expectedMagic = ascii ''PAR2'' @ [0] @ ascii ''PKT''"

definition MainPacketType :: bytes where
  "MainPacketType = pad16 (ascii ''PAR 2.0'' @ [0] @ ascii ''Main'')"

definition FileDescPacketType :: bytes where
  "FileDescPacketType = pad16 (ascii ''PAR 2.0'' @ [0] @ ascii ''FileDesc'')"

definition IFSCPacketType :: bytes where
  "IFSCPacketType = pad16 (ascii ''PAR 2.0'' @ [0] @ ascii ''IFSC'')"

definition RecoveryPacketType :: bytes where
  "RecoveryPacketType = pad16 (ascii ''PAR 2.0'' @ [0] @ ascii ''RecvSlic'')"

record Header =
  Magic :: bytes
  Length :: u64
  Hash :: bytes
  RecoverySetID :: bytes
  Type :: bytes

record mainPacket =
  SliceByteCount :: nat
  RecoverySet :: "FileID list"
  NonRecoverySet :: "FileID list"

record FileDescPacket =
  fd_FileID :: FileID
  fd_Hash :: bytes
  SixteenKHash :: bytes
  ByteCount :: nat
  Filename :: bytes

record ChecksumPair =
  MD5 :: bytes
  CRC32 :: bytes

record IFSCPacket =
  ifsc_FileID :: FileID
  ChecksumPairs :: "ChecksumPair list"

record recoveryPacket =
  Exponent :: u16
  Data :: bytes

section \<open>Identifiers\<close>

text \<open>The loop of \<open>FileIDLess\<close> runs down from the last index; \<open>n\<close> is the index plus one.\<close>

fun FileIDLess_loop :: "nat \<Rightarrow> FileID \<Rightarrow> FileID \<Rightarrow> bool" where
  "FileIDLess_loop 0 id1 id2 = False"
| "FileIDLess_loop (Suc i) id1 id2 =
     (if id1 ! i < id2 ! i then True
      else if id1 ! i > id2 ! i then False
      else FileIDLess_loop i id1 id2)"

definition FileIDLess :: "FileID \<Rightarrow> FileID \<Rightarrow> bool" where
  "FileIDLess id1 id2 = FileIDLess_loop (length id1) id1 id2"

definition fileID_cmp :: "FileID \<Rightarrow> FileID \<Rightarrow> int" where
  "fileID_cmp a b = (if FileIDLess a b then -1 else if FileIDLess b a then 1 else 0)"

text \<open>\<open>slices.IsSortedFunc\<close> compares each element with the one before it, from the end.\<close>

definition IsSortedFunc :: "('a \<Rightarrow> 'a \<Rightarrow> int) \<Rightarrow> 'a list \<Rightarrow> bool" where
  "IsSortedFunc cmp xs = list_all (\<lambda>i. \<not> cmp (xs ! i) (xs ! (i - 1)) < 0) (rev [1..<length xs])"

definition validateFileIDSorted :: "FileID list \<Rightarrow> unit res" where
  "validateFileIDSorted fileIDs =
     (if \<not> IsSortedFunc fileID_cmp fileIDs
      then Error ''recovery set file IDs are not sorted alphabetically'' else Ret ())"

section \<open>Header and hashes\<close>

text \<open>\<open>binary.Read\<close> of a \<open>Header\<close> from the bytes left in the reader.\<close>

definition ReadHeader :: "bytes \<Rightarrow> (Header \<times> bytes) res" where
  "ReadHeader r =
     (if r = [] then Error ''EOF''
      else if length r < 64 then Error ''unexpected EOF''
      else let h = \<lparr>Magic = take 8 r, Length = le_word (take 8 (drop 8 r)), Hash = take 16 (drop 16 r),
                    RecoverySetID = take 16 (drop 32 r), Type = take 16 (drop 48 r)\<rparr>
           in if Magic h \<noteq> expectedMagic then Error ''malformed PAR2 packet header: invalid magic''
              else if Length h < 64 \<or> Length h mod 4 \<noteq> 0 then Error ''invalid PAR2 packet length''
              else Ret (h, drop 64 r))"

definition ComputePacketHash :: "bytes \<Rightarrow> bytes \<Rightarrow> bytes \<Rightarrow> bytes" where
  "ComputePacketHash setID pType body = md5 (setID @ pType @ body)"

definition computeFileID :: "bytes \<Rightarrow> u64 \<Rightarrow> bytes \<Rightarrow> FileID" where
  "computeFileID sixteenKHash byteCount filenameBytes =
     md5 (sixteenKHash @ le_bytes 8 byteCount @ filenameBytes)"

section \<open>File names\<close>

fun NullTerminate :: "bytes \<Rightarrow> bytes" where
  "NullTerminate [] = []"
| "NullTerminate (b # bs) = (if b = 0 then [] else b # NullTerminate bs)"

text \<open>Bytes above \<open>unicode.MaxASCII\<close> become U+FFFD in UTF-8.\<close>

definition DecodeNullPaddedASCIIString :: "bytes \<Rightarrow> bytes" where
  "DecodeNullPaddedASCIIString bs =
     concat (map (\<lambda>b. if b \<le> 0x7f then [b] else [0xef, 0xbf, 0xbd]) (NullTerminate bs))"

definition slash :: u8 where "slash = 0x2f"
definition dot :: u8 where "dot = 0x2e"

text \<open>\<open>path.Clean\<close>: the elements between slashes, with empty and \<open>.\<close> elements dropped and each \<open>..\<close>
  taking back the element before it.\<close>

fun split_slash :: "bytes \<Rightarrow> bytes list" where
  "split_slash [] = [[]]"
| "split_slash (b # bs) =
     (if b = slash then [] # split_slash bs
      else (case split_slash bs of [] \<Rightarrow> [[b]] | e # es \<Rightarrow> (b # e) # es))"

definition clean_step :: "bool \<Rightarrow> bytes \<Rightarrow> bytes list \<Rightarrow> bytes list" where
  "clean_step rooted e out =
     (if e = [] \<or> e = [dot] then out
      else if e = [dot, dot] then
        (if out \<noteq> [] \<and> last out \<noteq> [dot, dot] then butlast out
         else if rooted then out
         else out @ [[dot, dot]])
      else out @ [e])"

fun join_slash :: "bytes list \<Rightarrow> bytes" where
  "join_slash [] = []"
| "join_slash [e] = e"
| "join_slash (e # es) = e @ slash # join_slash es"

definition clean_elems :: "bytes \<Rightarrow> bytes list" where
  "clean_elems p = fold (clean_step (p \<noteq> [] \<and> hd p = slash)) (split_slash p) []"

definition Clean :: "bytes \<Rightarrow> bytes" where
  "Clean p =
     (if p = [] then [dot]
      else let r = (if hd p = slash then [slash] else []) @ join_slash (clean_elems p)
           in if r = [] then [dot] else r)"

definition IsAbs :: "bytes \<Rightarrow> bool" where
  "IsAbs p \<longleftrightarrow> p \<noteq> [] \<and> hd p = slash"

definition HasPrefix :: "bytes \<Rightarrow> bytes \<Rightarrow> bool" where
  "HasPrefix s pre \<longleftrightarrow> length pre \<le> length s \<and> take (length pre) s = pre"

text \<open>\<open>filepath.FromSlash\<close> with the separator of the host.\<close>

definition FromSlash :: "u8 \<Rightarrow> bytes \<Rightarrow> bytes" where
  "FromSlash sep p = (if sep = slash then p else map (\<lambda>b. if b = slash then sep else b) p)"

definition DefangPath :: "u8 \<Rightarrow> bytes \<Rightarrow> bytes res" where
  "DefangPath sep filename =
     (let normalized = map (\<lambda>b. if b = 0x5c then slash else b) filename;
          cleaned = Clean normalized
      in if IsAbs cleaned then Error ''absolute path traversal attempt detected''
         else if length cleaned > 1 \<and> cleaned ! 1 = 0x3a
         then Error ''windows drive absolute path traversal attempt detected''
         else if HasPrefix cleaned [dot, dot] then Error ''relative directory traversal attempt detected''
         else Ret (FromSlash sep cleaned))"

section \<open>Packet bodies\<close>

text \<open>\<open>binary.Read\<close> into a slice of 16-byte arrays, and into a slice of \<open>ChecksumPair\<close>.\<close>

fun chunks :: "nat \<Rightarrow> nat \<Rightarrow> bytes \<Rightarrow> bytes list" where
  "chunks sz 0 bs = []"
| "chunks sz (Suc n) bs = take sz bs # chunks sz n (drop sz bs)"

definition maxInt :: u64 where
  "maxInt = 2 ^ 63 - 1"

definition ParseMainPacket :: "bytes \<Rightarrow> mainPacket res" where
  "ParseMainPacket body =
     (if length body < 12 then Error ''main packet too short''
      else
        let sliceSize = le_word (take 8 body) :: u64;
            setCount = le_word (take 4 (drop 8 body)) :: u32;
            buf = drop 12 body
        in if sliceSize = 0 \<or> sliceSize mod 4 \<noteq> 0 \<or> sliceSize > maxInt
           then Error ''invalid slice size in main packet''
           else if length buf mod 16 \<noteq> 0 then Error ''invalid file ID list length''
           else
             let fileIDs = chunks 16 (length buf div 16) buf
             in if (of_nat (length fileIDs) :: u32) < setCount
                then Error ''insufficient file IDs for recovery set count''
                else
                  let recoverySet = take (unat setCount) fileIDs;
                      nonRecoverySet = drop (unat setCount) fileIDs
                  in bindR (validateFileIDSorted recoverySet) (\<lambda>_.
                       Ret \<lparr>SliceByteCount = unat sliceSize, RecoverySet = recoverySet,
                            NonRecoverySet = nonRecoverySet\<rparr>))"

text \<open>\<open>Ret None\<close> is the \<open>nil, nil\<close> result for an empty file.\<close>

definition ParseFileDescPacket :: "u8 \<Rightarrow> bytes \<Rightarrow> FileDescPacket option res" where
  "ParseFileDescPacket sep body =
     (if length body < 56 then Error ''file description packet too short''
      else
        let fID = take 16 body;
            hash = take 16 (drop 16 body);
            hash16k = take 16 (drop 32 body);
            byteCount = le_word (take 8 (drop 48 body)) :: u64;
            filenameBytes = drop 56 body;
            computed = computeFileID hash16k byteCount (NullTerminate filenameBytes)
        in if computed \<noteq> fID then Error ''file description ID mismatch''
           else if byteCount = 0 then Ret None
           else bindR (DefangPath sep (DecodeNullPaddedASCIIString filenameBytes)) (\<lambda>defanged.
             if byteCount > maxInt then Error ''file byte count exceeds memory boundaries''
             else Ret (Some \<lparr>fd_FileID = fID, fd_Hash = hash, SixteenKHash = hash16k,
                             ByteCount = unat byteCount, Filename = defanged\<rparr>)))"

definition ParseIFSCPacket :: "bytes \<Rightarrow> IFSCPacket res" where
  "ParseIFSCPacket body =
     (if length body < 16 then Error ''IFSC packet too short''
      else
        let fID = take 16 body;
            buf = drop 16 body
        in if length buf = 0 \<or> length buf mod 20 \<noteq> 0 then Error ''invalid checksum pair array length''
           else Ret \<lparr>ifsc_FileID = fID,
                     ChecksumPairs = map (\<lambda>p. \<lparr>MD5 = take 16 p, CRC32 = drop 16 p\<rparr>)
                       (chunks 20 (length buf div 20) buf)\<rparr>)"

definition ParseRecoveryPacket :: "bytes \<Rightarrow> recoveryPacket res" where
  "ParseRecoveryPacket body =
     (if length body < 4 \<or> length body mod 4 \<noteq> 0 then Error ''invalid recovery packet body alignment''
      else
        let exp = le_word (take 4 body) :: u32
        in if exp > 32767 then Error ''recovery exponent exceeds safe engine limit (32767)''
           else Ret \<lparr>Exponent = ucast exp, Data = drop 4 body\<rparr>)"

section \<open>The order on identifiers\<close>

definition le_nat :: "bytes \<Rightarrow> nat" where
  "le_nat bs = foldr (\<lambda>b n. unat b + 256 * n) bs 0"

lemma le_nat_Nil [simp]: "le_nat [] = 0" and le_nat_Cons [simp]: "le_nat (b # bs) = unat b + 256 * le_nat bs"
  by (simp_all add: le_nat_def)

lemma unat_u8_less: "unat (b :: u8) < 256"
  using unsigned_less[of b] by simp

lemma le_nat_snoc: "le_nat (bs @ [b]) = le_nat bs + 256 ^ length bs * unat b"
  by (induction bs) (simp_all add: algebra_simps)

lemma le_nat_less: "le_nat bs < 256 ^ length bs"
proof (induction bs)
  case (Cons b bs)
  then have "256 * (le_nat bs + 1) \<le> 256 * 256 ^ length bs" by (intro mult_le_mono2) simp
  then show ?case using unat_u8_less[of b] by simp
qed simp

lemma le_nat_snoc_less:
  assumes "length as = length bs"
  shows "le_nat (as @ [a]) < le_nat (bs @ [b]) \<longleftrightarrow> a < b \<or> a = b \<and> le_nat as < le_nat bs"
proof -
  have *: "le_nat xs + 256 ^ length xs * unat x < le_nat ys + 256 ^ length ys * unat y"
    if "length xs = length ys" "x < y" for xs ys x y
  proof -
    have "256 ^ length ys * (unat x + 1) \<le> 256 ^ length ys * unat y"
      using that(2) by (intro mult_le_mono2) (simp add: word_less_nat_alt)
    then show ?thesis using le_nat_less[of xs] that(1) by simp
  qed
  consider "a < b" | "a = b" | "b < a" by (rule linorder_cases)
  then show ?thesis
    using *[OF assms, of a b] *[OF assms[symmetric], of b a] assms by cases (auto simp: le_nat_snoc)
qed

lemma FileIDLess_loop_take:
  "n \<le> length a \<Longrightarrow> n \<le> length b \<Longrightarrow> FileIDLess_loop n a b \<longleftrightarrow> le_nat (take n a) < le_nat (take n b)"
proof (induction n)
  case (Suc n)
  then have "le_nat (take (Suc n) a) < le_nat (take (Suc n) b) \<longleftrightarrow>
      a ! n < b ! n \<or> a ! n = b ! n \<and> le_nat (take n a) < le_nat (take n b)"
    by (simp add: take_Suc_conv_app_nth le_nat_snoc_less)
  with Suc show ?case by auto
qed simp

lemma FileIDLess_iff: "length a = length b \<Longrightarrow> FileIDLess a b \<longleftrightarrow> le_nat a < le_nat b"
  using FileIDLess_loop_take[of "length a" a b] by (simp add: FileIDLess_def)

lemma le_nat_inject: "length a = length b \<Longrightarrow> le_nat a = le_nat b \<Longrightarrow> a = b"
proof (induction a b rule: list_induct2)
  case (Cons x xs y ys)
  have "(unat x + 256 * le_nat xs) mod 256 = (unat y + 256 * le_nat ys) mod 256"
    using Cons.prems by simp
  then have "unat x = unat y" using unat_u8_less[of x] unat_u8_less[of y] by simp
  moreover from this have "le_nat xs = le_nat ys" using Cons.prems by simp
  ultimately show ?case using Cons.IH by (simp add: word_unat_eq_iff)
qed simp

lemma IsSortedFunc_fileIDs:
  assumes "\<forall>x\<in>set ids. length x = 16"
  shows "IsSortedFunc fileID_cmp ids \<longleftrightarrow> sorted (map le_nat ids)"
proof -
  have "\<not> fileID_cmp (ids ! i) (ids ! (i - 1)) < 0 \<longleftrightarrow> le_nat (ids ! (i - 1)) \<le> le_nat (ids ! i)"
    if "1 \<le> i" "i < length ids" for i
    using that assms FileIDLess_iff[of "ids ! i" "ids ! (i - 1)"] by (auto simp: fileID_cmp_def)
  then have "IsSortedFunc fileID_cmp ids \<longleftrightarrow> (\<forall>i. 1 \<le> i \<and> i < length ids \<longrightarrow> le_nat (ids ! (i - 1)) \<le> le_nat (ids ! i))"
    by (auto simp: IsSortedFunc_def list_all_iff)
  also have "\<dots> \<longleftrightarrow> (\<forall>i. Suc i < length ids \<longrightarrow> le_nat (ids ! i) \<le> le_nat (ids ! Suc i))"
    by (metis One_nat_def Suc_le_eq Suc_pred diff_Suc_1 le_simps(3) zero_less_Suc)
  also have "\<dots> \<longleftrightarrow> sorted (map le_nat ids)" by (auto simp: sorted_iff_nth_Suc)
  finally show ?thesis .
qed

lemma validateFileIDSorted_iff [res_iff]:
  "\<forall>x\<in>set ids. length x = 16 \<Longrightarrow> validateFileIDSorted ids = Ret u \<longleftrightarrow> sorted (map le_nat ids)"
  by (simp add: validateFileIDSorted_def IsSortedFunc_fileIDs)

section \<open>Bodies and their content\<close>

lemma chunks_concat: "(\<forall>x\<in>set xs. length x = sz) \<Longrightarrow> chunks sz (length xs) (concat xs) = xs"
  by (induction xs) simp_all

lemma concat_chunks: "length bs = sz * n \<Longrightarrow> concat (chunks sz n bs) = bs"
  by (induction n arbitrary: bs) simp_all

lemma length_chunks [simp]: "length (chunks sz n bs) = n"
  by (induction n arbitrary: bs) simp_all

lemma chunks_lengths: "length bs = sz * n \<Longrightarrow> x \<in> set (chunks sz n bs) \<Longrightarrow> length x = sz"
proof (induction n arbitrary: bs)
  case (Suc n)
  then show ?case using Suc.IH[of "drop sz bs"] by auto
qed simp

lemma le_bytes_le_word:
  assumes "length bs = n" "LENGTH('a :: len) = 8 * n"
  shows "le_bytes n (le_word bs :: 'a word) = bs"
proof (rule nth_equalityI)
  fix i assume "i < length (le_bytes n (le_word bs :: 'a word))"
  then have i: "i < n" by simp
  show "le_bytes n (le_word bs :: 'a word) ! i = bs ! i"
  proof (rule word_bits_ext)
    fix k :: nat assume "k < LENGTH(8)"
    then have k: "k < 8" by simp
    have "8 * i + k < LENGTH('a)" using i k assms(2) by simp
    then show "bit (le_bytes n (le_word bs :: 'a word) ! i) k = bit (bs ! i) k"
      using i k assms(1) by (simp add: bit_le_bytes bit_le_word)
  qed
qed (simp add: assms)

text \<open>The body of a main packet, and when it is one the decoder accepts.\<close>

definition main_body :: "mainPacket \<Rightarrow> bytes" where
  "main_body p = le_bytes 8 (of_nat (SliceByteCount p) :: u64) @
     le_bytes 4 (of_nat (length (RecoverySet p)) :: u32) @ concat (RecoverySet p) @ concat (NonRecoverySet p)"

definition main_ok :: "mainPacket \<Rightarrow> bool" where
  "main_ok p \<longleftrightarrow> 0 < SliceByteCount p \<and> SliceByteCount p mod 4 = 0 \<and> SliceByteCount p < 2 ^ 63 \<and>
     length (RecoverySet p) + length (NonRecoverySet p) < 2 ^ 32 \<and>
     (\<forall>x\<in>set (RecoverySet p) \<union> set (NonRecoverySet p). length x = 16) \<and> sorted (map le_nat (RecoverySet p))"

lemma unat_mod_4: "unat (w :: u64) mod 4 = 0 \<longleftrightarrow> w mod 4 = 0"
  using unat_eq_0[of "w mod 4"] by (simp add: unat_mod)

lemma unat_of_nat_u64: "n < 2 ^ 63 \<Longrightarrow> unat (of_nat n :: u64) = n"
  by (simp add: unat_of_nat)

lemma unat_of_nat_u32: "n < 2 ^ 32 \<Longrightarrow> unat (of_nat n :: u32) = n"
  by (simp add: unat_of_nat)

lemma split_body: "body = take a body @ take b (drop a body) @ drop (a + b) body"
  by (metis append_take_drop_id drop_drop add.commute)

lemma length_concat_uniform: "\<forall>x\<in>set xs. length x = n \<Longrightarrow> length (concat xs) = n * length xs"
  by (induction xs) simp_all

lemma ParseMainPacket_body:
  assumes "main_ok p"
  shows "ParseMainPacket (main_body p) = Ret p"
proof -
  let ?ids = "RecoverySet p @ NonRecoverySet p" and ?s = "of_nat (SliceByteCount p) :: u64"
  let ?c = "of_nat (length (RecoverySet p)) :: u32"
  have ok: "0 < SliceByteCount p" "SliceByteCount p mod 4 = 0" "SliceByteCount p < 2 ^ 63"
    "length ?ids < 2 ^ 32" "\<forall>x\<in>set ?ids. length x = 16" "sorted (map le_nat (RecoverySet p))"
    using assms by (auto simp: main_ok_def)
  have body: "main_body p = le_bytes 8 ?s @ le_bytes 4 ?c @ concat ?ids" by (simp add: main_body_def)
  have s: "unat ?s = SliceByteCount p" using ok(3) by (rule unat_of_nat_u64)
  have c: "unat ?c = length (RecoverySet p)" "unat (of_nat (length ?ids) :: u32) = length ?ids"
    using ok(4) unat_of_nat_u32[of "length (RecoverySet p)"] unat_of_nat_u32[OF ok(4)] by simp_all
  have len: "length (concat ?ids) = 16 * length ?ids" using ok(5) by (rule length_concat_uniform)
  have "?s \<noteq> 0" "?s mod 4 = 0" "\<not> ?s > maxInt"
    using ok(1,2) s unat_mod_4[of ?s] ok(3) by (auto simp: maxInt_def word_less_nat_alt unat_eq_0[symmetric])
  moreover have "chunks 16 (length (concat ?ids) div 16) (concat ?ids) = ?ids"
    using len ok(5) chunks_concat[of ?ids 16] by simp
  moreover have "le_word (le_bytes 8 ?s) = ?s" "le_word (le_bytes 4 ?c) = ?c" by (simp_all add: le_word_le_bytes)
  moreover have "\<not> (of_nat (length ?ids) :: u32) < ?c" using c by (simp add: word_less_nat_alt)
  moreover have "validateFileIDSorted (RecoverySet p) = Ret ()" using ok(5,6) validateFileIDSorted_iff by simp
  ultimately show ?thesis
    unfolding ParseMainPacket_def body using s c len by (simp add: Let_def del: concat_append)
qed

lemma ParseMainPacket_inv:
  assumes "ParseMainPacket body = Ret p" "length body < 2 ^ 32"
  shows "main_ok p \<and> body = main_body p"
proof -
  define s :: u64 where "s = le_word (take 8 body)"
  define c :: u32 where "c = le_word (take 4 (drop 8 body))"
  define buf where "buf = drop 12 body"
  define ids where "ids = chunks 16 (length buf div 16) buf"
  note fold_defs = s_def[symmetric] c_def[symmetric] buf_def[symmetric] ids_def[symmetric]
  have g: "\<not> length body < 12" "\<not> (s = 0 \<or> s mod 4 \<noteq> 0 \<or> s > maxInt)" "\<not> length buf mod 16 \<noteq> 0"
    "\<not> (of_nat (length ids) :: u32) < c" "\<exists>u. validateFileIDSorted (take (unat c) ids) = Ret u"
    "\<lparr>SliceByteCount = unat s, RecoverySet = take (unat c) ids, NonRecoverySet = drop (unat c) ids\<rparr> = p"
    using assms(1) unfolding ParseMainPacket_def Let_def fold_defs bindR_Ret_iff if_Ret_iff res.inject
    by blast+
  have buf: "length buf = 16 * (length buf div 16)" using g(3) by presburger
  have ids: "\<forall>x\<in>set ids. length x = 16" unfolding ids_def using chunks_lengths[OF buf] by blast
  have "length ids < 2 ^ 32" using assms(2) by (simp add: ids_def buf_def)
  note len = this unat_of_nat_u32[OF this]
  have c: "unat c \<le> length ids" using g(4) unfolding word_less_nat_alt len(2) by simp
  have "unat s mod 4 = 0" using g(2) unat_mod_4[of s] by simp
  moreover have "unat s \<noteq> 0" using g(2) by (simp add: unat_eq_0)
  moreover have "unat s < 2 ^ 63" using g(2) by (simp add: maxInt_def word_less_nat_alt)
  moreover have "sorted (map le_nat (take (unat c) ids))"
    using g(5) validateFileIDSorted_iff[of "take (unat c) ids"] ids by (auto dest: in_set_takeD)
  ultimately have "main_ok p"
    unfolding main_ok_def g(6)[symmetric] using c len(1) ids by (auto dest: in_set_takeD in_set_dropD)
  moreover have "body = take 8 body @ take 4 (drop 8 body) @ buf" using split_body[of body 8 4] by (simp add: buf_def)
  moreover have "le_bytes 8 s = take 8 body" "le_bytes 4 c = take 4 (drop 8 body)"
    unfolding s_def c_def using g(1) by (auto intro: le_bytes_le_word)
  moreover have "concat (take (unat c) ids) @ concat (drop (unat c) ids) = buf"
    unfolding concat_append[symmetric] append_take_drop_id using concat_chunks[OF buf] by (simp add: ids_def)
  moreover have "min (length ids) (unat c) = unat c" using c by simp
  ultimately show ?thesis unfolding main_body_def g(6)[symmetric] by simp
qed

definition pair_bytes :: "ChecksumPair \<Rightarrow> bytes" where
  "pair_bytes q = MD5 q @ CRC32 q"

definition ifsc_body :: "IFSCPacket \<Rightarrow> bytes" where
  "ifsc_body p = ifsc_FileID p @ concat (map pair_bytes (ChecksumPairs p))"

definition ifsc_ok :: "IFSCPacket \<Rightarrow> bool" where
  "ifsc_ok p \<longleftrightarrow> length (ifsc_FileID p) = 16 \<and> ChecksumPairs p \<noteq> [] \<and>
     (\<forall>q\<in>set (ChecksumPairs p). length (MD5 q) = 16 \<and> length (CRC32 q) = 4)"

lemma ParseIFSCPacket_body:
  assumes "ifsc_ok p"
  shows "ParseIFSCPacket (ifsc_body p) = Ret p"
proof -
  let ?ps = "map pair_bytes (ChecksumPairs p)"
  have ok: "length (ifsc_FileID p) = 16" "ChecksumPairs p \<noteq> []"
    "\<forall>q\<in>set (ChecksumPairs p). length (MD5 q) = 16 \<and> length (CRC32 q) = 4"
    using assms unfolding ifsc_ok_def by blast+
  have ps: "\<forall>x\<in>set ?ps. length x = 20" using ok(3) by (auto simp: pair_bytes_def)
  have len: "length (concat ?ps) = 20 * length (ChecksumPairs p)"
    using length_concat_uniform[OF ps] by simp
  then have "chunks 20 (length (concat ?ps) div 20) (concat ?ps) = ?ps"
    using chunks_concat[OF ps] by simp
  moreover have "map (\<lambda>p. \<lparr>MD5 = take 16 p, CRC32 = drop 16 p\<rparr>) ?ps = ChecksumPairs p"
    using ok(3) by (intro nth_equalityI) (auto simp: pair_bytes_def)
  ultimately show ?thesis
    using ok(1,2) len unfolding ParseIFSCPacket_def ifsc_body_def Let_def by simp
qed

lemma ParseIFSCPacket_inv:
  assumes "ParseIFSCPacket body = Ret p"
  shows "ifsc_ok p \<and> body = ifsc_body p"
proof -
  define buf where "buf = drop 16 body"
  define cs where "cs = chunks 20 (length buf div 20) buf"
  note fold_defs = buf_def[symmetric] cs_def[symmetric]
  have g: "\<not> length body < 16" "\<not> (length buf = 0 \<or> length buf mod 20 \<noteq> 0)"
    "\<lparr>ifsc_FileID = take 16 body, ChecksumPairs = map (\<lambda>p. \<lparr>MD5 = take 16 p, CRC32 = drop 16 p\<rparr>) cs\<rparr> = p"
    using assms unfolding ParseIFSCPacket_def Let_def fold_defs if_Ret_iff res.inject by blast+
  have "length buf mod 20 = 0" "0 < length buf" using g(2) by auto
  then have buf: "length buf = 20 * (length buf div 20)" using mult_div_mod_eq[of 20 "length buf"] by linarith
  with \<open>0 < length buf\<close> have pos: "0 < length buf div 20" by linarith
  have cs: "\<forall>x\<in>set cs. length x = 20" "concat cs = buf" "length cs = length buf div 20"
    unfolding cs_def by (use chunks_lengths[OF buf] in blast, rule concat_chunks[OF buf], rule length_chunks)
  have "ifsc_ok p" unfolding ifsc_ok_def g(3)[symmetric]
    using g(1) pos cs(1,3) by (simp add: image_iff) auto
  moreover have "map pair_bytes (map (\<lambda>p. \<lparr>MD5 = take 16 p, CRC32 = drop 16 p\<rparr>) cs) = cs"
    by (simp add: pair_bytes_def comp_def)
  then have "ifsc_body p = body"
    unfolding ifsc_body_def g(3)[symmetric] IFSCPacket.simps by (simp only: cs(2) buf_def append_take_drop_id)
  ultimately show ?thesis by simp
qed

definition recovery_body :: "recoveryPacket \<Rightarrow> bytes" where
  "recovery_body p = le_bytes 4 (ucast (Exponent p) :: u32) @ Data p"

definition recovery_ok :: "recoveryPacket \<Rightarrow> bool" where
  "recovery_ok p \<longleftrightarrow> Exponent p \<le> 32767 \<and> length (Data p) mod 4 = 0"

lemma unat_ucast_u16: "unat (ucast (w :: u16) :: u32) = unat w"
  by (simp add: unsigned_ucast_eq take_bit_nat_eq_self less_le_trans[OF unsigned_less])

lemma ucast_up_down16: "ucast (ucast (w :: u16) :: u32) = w"
  by (rule word_bits_ext) (simp add: bit_unsigned_iff)

lemma ParseRecoveryPacket_body:
  assumes "recovery_ok p"
  shows "ParseRecoveryPacket (recovery_body p) = Ret p"
proof -
  have "\<not> (ucast (Exponent p) :: u32) > 32767"
    using assms unat_ucast_u16[of "Exponent p"] by (simp add: recovery_ok_def word_less_nat_alt word_le_nat_alt)
  moreover have "le_word (le_bytes 4 (ucast (Exponent p) :: u32)) = (ucast (Exponent p) :: u32)"
    by (simp add: le_word_le_bytes)
  moreover have "(4 + length (Data p)) mod 4 = 0" using assms by (simp add: recovery_ok_def)
  ultimately show ?thesis
    unfolding ParseRecoveryPacket_def recovery_body_def Let_def by (simp add: ucast_up_down16)
qed

lemma ParseRecoveryPacket_inv:
  assumes "ParseRecoveryPacket body = Ret p"
  shows "recovery_ok p \<and> body = recovery_body p"
proof -
  define e :: u32 where "e = le_word (take 4 body)"
  have g: "\<not> (length body < 4 \<or> length body mod 4 \<noteq> 0)" "\<not> e > 32767"
    "\<lparr>Exponent = ucast e, Data = drop 4 body\<rparr> = p"
    using assms unfolding ParseRecoveryPacket_def Let_def e_def[symmetric] if_Ret_iff res.inject by blast+
  have e: "unat e \<le> 32767" using g(2) by (simp add: word_less_nat_alt)
  then have u: "unat (ucast e :: u16) = unat e" by (simp add: unsigned_ucast_eq take_bit_nat_eq_self)
  then have "(ucast (ucast e :: u16) :: u32) = e"
    by (simp only: word_unat_eq_iff unat_ucast_u16)
  moreover have "le_bytes 4 e = take 4 body" unfolding e_def using g(1) by (auto intro: le_bytes_le_word)
  ultimately have "body = recovery_body p" unfolding recovery_body_def g(3)[symmetric] by simp
  moreover have "(length body - 4) mod 4 = 0" using g(1) by presburger
  then have "recovery_ok p"
    unfolding recovery_ok_def g(3)[symmetric] using e u by (simp add: word_le_nat_alt)
  ultimately show ?thesis by blast
qed

section \<open>Sanitized names stay inside the directory\<close>

definition dotdot :: bytes where
  "dotdot = [dot, dot]"

text \<open>The elements \<open>path.Clean\<close> keeps: no empty one, no slash inside, and \<open>..\<close> only in front.\<close>

definition clean_inv :: "bytes list \<Rightarrow> bool" where
  "clean_inv out \<longleftrightarrow> (\<forall>e\<in>set out. e \<noteq> [] \<and> e \<noteq> [dot] \<and> slash \<notin> set e) \<and>
     (\<exists>n es. out = replicate n dotdot @ es \<and> dotdot \<notin> set es)"

lemma split_slash_no_slash: "e \<in> set (split_slash p) \<Longrightarrow> slash \<notin> set e"
  by (induction p arbitrary: e) (auto split: list.splits if_splits)

lemma clean_step_inv:
  assumes "clean_inv out" "slash \<notin> set e"
  shows "clean_inv (clean_step rooted e out)"
proof -
  obtain n es where out: "out = replicate n dotdot @ es" "dotdot \<notin> set es" and
    el: "\<forall>e\<in>set out. e \<noteq> [] \<and> e \<noteq> [dot] \<and> slash \<notin> set e" using assms(1) by (auto simp: clean_inv_def)
  consider "e = [] \<or> e = [dot]" | "e = dotdot" | "e \<noteq> []" "e \<noteq> [dot]" "e \<noteq> dotdot" by blast
  then show ?thesis
  proof cases
    case 1
    then show ?thesis using assms(1) by (auto simp: clean_step_def)
  next
    case 2
    show ?thesis
    proof (cases "out \<noteq> [] \<and> last out \<noteq> dotdot")
      case True
      then have "es \<noteq> []" using out last_replicate[of n dotdot] by auto
      then have "butlast out = replicate n dotdot @ butlast es" "dotdot \<notin> set (butlast es)"
        using out by (auto simp: butlast_append dest: in_set_butlastD)
      moreover have "\<forall>e\<in>set (butlast out). e \<noteq> [] \<and> e \<noteq> [dot] \<and> slash \<notin> set e"
        using el by (auto dest: in_set_butlastD)
      ultimately have "clean_inv (butlast out)" unfolding clean_inv_def by blast
      then show ?thesis using True 2 by (simp add: clean_step_def dotdot_def)
    next
      case False
      then have "es = []" using out by (cases es rule: rev_cases) auto
      then have "out @ [dotdot] = replicate (Suc n) dotdot @ []"
        using out(1) by (simp add: replicate_append_same)
      moreover have "\<forall>x\<in>set (out @ [dotdot]). x \<noteq> [] \<and> x \<noteq> [dot] \<and> slash \<notin> set x"
        using el by (auto simp: dotdot_def dot_def slash_def)
      ultimately have "clean_inv (out @ [dotdot])" unfolding clean_inv_def by (metis empty_iff list.set(1))
      then show ?thesis using False 2 assms(1) by (auto simp: clean_step_def dotdot_def)
    qed
  next
    case 3
    have "out @ [e] = replicate n dotdot @ (es @ [e])" "dotdot \<notin> set (es @ [e])" using out 3 by auto
    moreover have "\<forall>x\<in>set (out @ [e]). x \<noteq> [] \<and> x \<noteq> [dot] \<and> slash \<notin> set x" using el 3 assms(2) by auto
    ultimately have "clean_inv (out @ [e])" unfolding clean_inv_def by blast
    then show ?thesis using 3 by (simp add: clean_step_def dotdot_def)
  qed
qed

lemma clean_fold_inv:
  "\<forall>e\<in>set xs. slash \<notin> set e \<Longrightarrow> clean_inv out \<Longrightarrow> clean_inv (fold (clean_step r) xs out)"
  by (induction xs arbitrary: out) (simp_all add: clean_step_inv)

lemma clean_elems_inv: "clean_inv (clean_elems p)"
  unfolding clean_elems_def
  by (rule clean_fold_inv) (use split_slash_no_slash in \<open>auto simp: clean_inv_def\<close>)

lemma split_no_slash: "slash \<notin> set e \<Longrightarrow> split_slash e = [e]"
  by (induction e) auto

lemma split_append: "slash \<notin> set e \<Longrightarrow> split_slash (e @ slash # p) = e # split_slash p"
  by (induction e) auto

lemma split_join: "es \<noteq> [] \<Longrightarrow> \<forall>e\<in>set es. slash \<notin> set e \<Longrightarrow> split_slash (join_slash es) = es"
  by (induction es rule: join_slash.induct) (simp_all add: split_no_slash split_append)

lemma join_hd: "join_slash (e # es) = e @ (if es = [] then [] else slash # join_slash es)"
  by (cases es) simp_all

lemma DefangPath_safe:
  assumes "DefangPath sep filename = Ret p"
  shows "\<exists>q. p = FromSlash sep q \<and> \<not> IsAbs q \<and> q \<noteq> [] \<and> \<not> (1 < length q \<and> q ! 1 = 0x3a) \<and>
    dotdot \<notin> set (split_slash q) \<and> [] \<notin> set (split_slash q)"
proof -
  define norm where "norm = map (\<lambda>b. if b = 0x5c then slash else b) filename"
  define q where "q = Clean norm"
  have g: "\<not> IsAbs q" "\<not> (1 < length q \<and> q ! 1 = 0x3a)" "\<not> HasPrefix q dotdot" "FromSlash sep q = p"
    using assms unfolding DefangPath_def Let_def norm_def[symmetric] q_def[symmetric] if_Ret_iff res.inject dotdot_def
    by blast+
  have rel: "norm = [] \<or> hd norm \<noteq> slash"
    using g(1) by (auto simp: q_def Clean_def IsAbs_def Let_def split: if_splits)
  show ?thesis
  proof (cases "norm = [] \<or> clean_elems norm = []")
    case True
    then have "q = [dot]" using rel by (auto simp: q_def Clean_def)
    then show ?thesis using g by (auto simp: dotdot_def dot_def slash_def)
  next
    case False
    have inv: "clean_inv (clean_elems norm)" by (rule clean_elems_inv)
    then have el: "\<forall>e\<in>set (clean_elems norm). e \<noteq> [] \<and> slash \<notin> set e" by (auto simp: clean_inv_def)
    obtain e es where ce: "clean_elems norm = e # es" using False by (cases "clean_elems norm") auto
    have j: "join_slash (clean_elems norm) \<noteq> []" using el unfolding ce join_hd by auto
    have q: "q = join_slash (clean_elems norm)" using False rel j by (simp add: q_def Clean_def)
    have split: "split_slash q = clean_elems norm" unfolding q using False el by (intro split_join) auto
    have "e \<noteq> dotdot"
    proof
      assume "e = dotdot"
      then have "HasPrefix q dotdot" unfolding q ce join_hd by (simp add: HasPrefix_def)
      then show False using g(3) by simp
    qed
    moreover obtain n fs where "clean_elems norm = replicate n dotdot @ fs" "dotdot \<notin> set fs"
      using inv by (auto simp: clean_inv_def)
    ultimately have "dotdot \<notin> set (clean_elems norm)" using ce by (cases n) auto
    moreover have "[] \<notin> set (clean_elems norm)" using el by blast
    ultimately show ?thesis
      using g j split unfolding q[symmetric] by (intro exI[of _ q]) simp
  qed
qed

section \<open>Headers and file descriptions\<close>

definition header_bytes :: "Header \<Rightarrow> bytes" where
  "header_bytes h = Magic h @ le_bytes 8 (Length h) @ Hash h @ RecoverySetID h @ Type h"

definition header_ok :: "Header \<Rightarrow> bool" where
  "header_ok h \<longleftrightarrow> Magic h = expectedMagic \<and> length (Hash h) = 16 \<and> length (RecoverySetID h) = 16 \<and>
     length (Type h) = 16 \<and> 64 \<le> Length h \<and> Length h mod 4 = 0"

lemma length_expectedMagic: "length expectedMagic = 8"
  by (simp add: expectedMagic_def ascii_def)

lemma ReadHeader_bytes:
  assumes "header_ok h"
  shows "ReadHeader (header_bytes h @ rest) = Ret (h, rest)"
proof -
  have ok: "Magic h = expectedMagic" "length (Magic h) = 8" "length (Hash h) = 16" "length (RecoverySetID h) = 16"
    "length (Type h) = 16" "\<not> Length h < 64" "Length h mod 4 = 0"
    using assms length_expectedMagic unfolding header_ok_def by auto
  have "le_word (le_bytes 8 (Length h)) = Length h" by (simp add: le_word_le_bytes)
  then show ?thesis
    using ok unfolding ReadHeader_def header_bytes_def Let_def by auto
qed

lemma ReadHeader_inv:
  assumes "ReadHeader r = Ret (h, rest)"
  shows "header_ok h \<and> r = header_bytes h @ rest"
proof -
  define len :: u64 where "len = le_word (take 8 (drop 8 r))"
  define h' where "h' = \<lparr>Magic = take 8 r, Length = len, Hash = take 16 (drop 16 r),
      RecoverySetID = take 16 (drop 32 r), Type = take 16 (drop 48 r)\<rparr>"
  note fold_defs = len_def[symmetric] h'_def[symmetric]
  have g: "\<not> length r < 64" "\<not> Magic h' \<noteq> expectedMagic" "\<not> (Length h' < 64 \<or> Length h' mod 4 \<noteq> 0)" "(h', drop 64 r) = (h, rest)"
    using assms unfolding ReadHeader_def Let_def fold_defs if_Ret_iff res.inject by blast+
  have h: "h = h'" "rest = drop 64 r" using g(4) by simp_all
  have "header_ok h" unfolding h(1) header_ok_def using g(1-3) by (simp add: h'_def not_less)
  moreover have "le_bytes 8 len = take 8 (drop 8 r)" unfolding len_def using g(1) by (intro le_bytes_le_word) auto
  then have "header_bytes h' @ drop 64 r = take 8 r @ take 8 (drop 8 r) @ take 16 (drop 16 r) @ take 16 (drop 32 r) @ take 16 (drop 48 r) @ drop 64 r"
    by (simp add: header_bytes_def h'_def)
  moreover have "drop 48 r = take 16 (drop 48 r) @ drop 64 r" "drop 32 r = take 16 (drop 32 r) @ drop 48 r"
    "drop 16 r = take 16 (drop 16 r) @ drop 32 r" "drop 8 r = take 8 (drop 8 r) @ drop 16 r" "r = take 8 r @ drop 8 r"
    using append_take_drop_id[of 16 "drop 48 r"] append_take_drop_id[of 16 "drop 32 r"]
      append_take_drop_id[of 16 "drop 16 r"] append_take_drop_id[of 8 "drop 8 r"] append_take_drop_id[of 8 r]
    by (simp_all only: drop_drop) simp_all
  ultimately show ?thesis unfolding h by metis
qed

lemma ParseFileDescPacket_inv:
  assumes "ParseFileDescPacket sep body = Ret (Some p)"
  shows "56 \<le> length body \<and> fd_FileID p = take 16 body \<and> fd_Hash p = take 16 (drop 16 body) \<and>
    SixteenKHash p = take 16 (drop 32 body) \<and>
    of_nat (ByteCount p) = (le_word (take 8 (drop 48 body)) :: u64) \<and> 0 < ByteCount p \<and> ByteCount p < 2 ^ 63 \<and>
    fd_FileID p = computeFileID (SixteenKHash p) (of_nat (ByteCount p)) (NullTerminate (drop 56 body)) \<and>
    DefangPath sep (DecodeNullPaddedASCIIString (drop 56 body)) = Ret (Filename p)"
proof -
  define n :: u64 where "n = le_word (take 8 (drop 48 body))"
  have g: "\<not> length body < 56" "\<not> computeFileID (take 16 (drop 32 body)) n (NullTerminate (drop 56 body)) \<noteq> take 16 body"
    "n \<noteq> 0" "\<exists>d. DefangPath sep (DecodeNullPaddedASCIIString (drop 56 body)) = Ret d \<and> \<not> n > maxInt \<and>
      p = \<lparr>fd_FileID = take 16 body, fd_Hash = take 16 (drop 16 body), SixteenKHash = take 16 (drop 32 body),
        ByteCount = unat n, Filename = d\<rparr>"
    using assms unfolding ParseFileDescPacket_def Let_def n_def[symmetric]
    by (auto simp: bindR_Ret_iff split: if_splits)
  then obtain d where d: "DefangPath sep (DecodeNullPaddedASCIIString (drop 56 body)) = Ret d" "\<not> n > maxInt"
    "p = \<lparr>fd_FileID = take 16 body, fd_Hash = take 16 (drop 16 body), SixteenKHash = take 16 (drop 32 body),
        ByteCount = unat n, Filename = d\<rparr>" by blast
  have "0 < unat n" "unat n < 2 ^ 63"
    using g(3) d(2) by (simp_all add: unat_gt_0 maxInt_def word_less_nat_alt)
  with g(1,2) d show ?thesis unfolding n_def[symmetric] by simp
qed

section \<open>Properties\<close>

text \<open>C23. \<open>ParseMainPacket\<close> inverts the encoding of main packets: a body (of less than \<open>2 ^ 32\<close> bytes) is accepted
  with result \<open>p\<close> exactly when \<open>p\<close> has a positive slice size divisible by four that fits an \<open>int\<close>, a sorted
  recovery set of 16-byte identifiers, and the body is the encoding of \<open>p\<close>.\<close>

theorem ParseMainPacket_iff:
  assumes "length body < 2 ^ 32"
  shows "ParseMainPacket body = Ret p \<longleftrightarrow> main_ok p \<and> body = main_body p"
  using ParseMainPacket_inv[OF _ assms] ParseMainPacket_body by blast

theorem ParseMainPacket_iff_witness:
  "ParseMainPacket ([8, 0, 0, 0, 0, 0, 0, 0] @ [1, 0, 0, 0] @ replicate 16 3 @ replicate 16 2) =
     Ret \<lparr>SliceByteCount = 8, RecoverySet = [replicate 16 3], NonRecoverySet = [replicate 16 2]\<rparr>"
proof -
  let ?p = "\<lparr>SliceByteCount = 8, RecoverySet = [replicate 16 3], NonRecoverySet = [replicate 16 2 :: bytes]\<rparr>"
  have "main_body ?p = [8, 0, 0, 0, 0, 0, 0, 0] @ [1, 0, 0, 0] @ replicate 16 3 @ replicate 16 2"
    by (simp add: main_body_def) code_simp
  moreover have "main_ok ?p" by (simp add: main_ok_def)
  ultimately show ?thesis using ParseMainPacket_iff[of "main_body ?p" ?p] by simp
qed

text \<open>C24. \<open>ParseIFSCPacket\<close> and \<open>ParseRecoveryPacket\<close> invert the encodings of their packets: a body is accepted
  with result \<open>p\<close> exactly when it is the encoding of \<open>p\<close> and \<open>p\<close> is well formed (a 16-byte identifier and at least
  one checksum pair; an exponent of at most 32767 and a multiple of four bytes of recovery data).\<close>

theorem ParseIFSC_Recovery_iff:
  "(ParseIFSCPacket body = Ret p \<longleftrightarrow> ifsc_ok p \<and> body = ifsc_body p) \<and>
   (ParseRecoveryPacket body = Ret r \<longleftrightarrow> recovery_ok r \<and> body = recovery_body r)"
  using ParseIFSCPacket_inv ParseIFSCPacket_body ParseRecoveryPacket_inv ParseRecoveryPacket_body by blast

text \<open>C25. Reading a header consumes exactly the 64 bytes of its encoding and accepts exactly the headers with the
  PAR2 magic and a length of at least 64 that is a multiple of four.\<close>

theorem ReadHeader_iff:
  "ReadHeader r = Ret (h, rest) \<longleftrightarrow> header_ok h \<and> r = header_bytes h @ rest"
  using ReadHeader_inv ReadHeader_bytes by blast

text \<open>C26. A file description is accepted only when its identifier is the MD5 of its 16k hash, length and name, its
  length fits an \<open>int\<close> and is positive, and its name is sanitized: relative, without a drive letter and without
  a \<open>..\<close> element, so the file lies below the directory of the set.\<close>

theorem accepted_file_description_is_safe:
  assumes "ParseFileDescPacket sep body = Ret (Some p)"
  shows "fd_FileID p = computeFileID (SixteenKHash p) (of_nat (ByteCount p)) (NullTerminate (drop 56 body)) \<and>
    0 < ByteCount p \<and> ByteCount p < 2 ^ 63 \<and>
    (\<exists>q. Filename p = FromSlash sep q \<and> \<not> IsAbs q \<and> q \<noteq> [] \<and> \<not> (1 < length q \<and> q ! 1 = 0x3a) \<and>
      dotdot \<notin> set (split_slash q) \<and> [] \<notin> set (split_slash q))"
proof -
  note inv = ParseFileDescPacket_inv[OF assms]
  then have "DefangPath sep (DecodeNullPaddedASCIIString (drop 56 body)) = Ret (Filename p)" by blast
  from DefangPath_safe[OF this] inv show ?thesis by blast
qed

theorem accepted_file_description_is_safe_witness:
  "\<exists>p. ParseFileDescPacket slash (computeFileID (replicate 16 7) 5 [0x61] @ replicate 16 9 @ replicate 16 7 @
       le_bytes 8 (5 :: u64) @ [0x61, 0, 0, 0]) = Ret (Some p) \<and> ByteCount p < 2 ^ 63"
proof -
  let ?body = "computeFileID (replicate 16 7) 5 [0x61] @ replicate 16 9 @ replicate 16 7 @
       le_bytes 8 (5 :: u64) @ [0x61, 0, 0, 0]"
  have "le_word (le_bytes 8 (5 :: u64)) = (5 :: u64)" by (simp add: le_word_le_bytes)
  moreover have "length (computeFileID (replicate 16 7) 5 [0x61]) = 16" by (simp add: computeFileID_def)
  moreover have "DefangPath slash (DecodeNullPaddedASCIIString [0x61, 0, 0, 0]) = Ret [0x61]" by code_simp
  ultimately obtain p where p: "ParseFileDescPacket slash ?body = Ret (Some p)"
    by (simp add: ParseFileDescPacket_def maxInt_def Let_def)
  with accepted_file_description_is_safe[OF p] show ?thesis by blast
qed

text \<open>C33. \<open>FileIDLess\<close> is the order of the identifiers as little-endian numbers, so it is a strict linear order on
  the 16-byte identifiers: irreflexive, transitive, and any two different identifiers are comparable.\<close>

theorem FileIDLess_linear:
  assumes "length a = 16" "length b = 16" "length c = 16"
  shows "(FileIDLess a b \<longleftrightarrow> le_nat a < le_nat b) \<and> \<not> FileIDLess a a \<and>
    (FileIDLess a b \<and> FileIDLess b c \<longrightarrow> FileIDLess a c) \<and> (FileIDLess a b \<or> a = b \<or> FileIDLess b a)"
proof -
  have "FileIDLess a b \<longleftrightarrow> le_nat a < le_nat b" "FileIDLess a a \<longleftrightarrow> le_nat a < le_nat a"
    "FileIDLess b c \<longleftrightarrow> le_nat b < le_nat c" "FileIDLess a c \<longleftrightarrow> le_nat a < le_nat c"
    "FileIDLess b a \<longleftrightarrow> le_nat b < le_nat a"
    by (simp_all add: FileIDLess_iff assms)
  then show ?thesis using le_nat_inject[of a b] assms(1,2) by auto
qed

theorem FileIDLess_linear_witness:
  "FileIDLess (replicate 16 0) (replicate 15 0 @ [2]) \<and> \<not> FileIDLess (replicate 15 0 @ [2]) (replicate 16 0)"
proof -
  have "le_nat (replicate n 0) = 0" for n by (induction n) simp_all
  then have "le_nat (replicate 16 0) < le_nat (replicate 15 0 @ [2])" by (simp add: le_nat_snoc)
  then show ?thesis
    using FileIDLess_linear[of "replicate 16 0" "replicate 15 0 @ [2]" "replicate 16 0"]
      FileIDLess_linear[of "replicate 15 0 @ [2]" "replicate 16 0" "replicate 16 0"] by simp
qed

end
