(* ===== verification/Go_IO.thy ===== *)
theory Go_IO
  imports Packet
begin

text \<open>
  The ground of package \<open>par2\<close>: computations that change a state and may fail, and the sandbox directory
  \<open>os.Root\<close> with the file operations the program calls. A file is an inode with its bytes; a directory
  entry names an inode, so a handle keeps its file across a rename; random text is a function of the tick. Every call counts one tick; the
  record of faults says which calls fail, with what error and after how many bytes of a transfer, and the
  context is cancelled from some tick on. All three are arbitrary, so a theorem that holds for every
  world holds for every sequence of I/O errors and every moment of cancellation.
\<close>

section \<open>Computations on a state\<close>

text \<open>An error or a panic keeps the changes made before it.\<close>

type_synonym ('s, 'a) go = "'s \<Rightarrow> 'a res \<times> 's"

definition retG :: "'a \<Rightarrow> ('s, 'a) go" where
  "retG x s = (Ret x, s)"

definition errG :: "string \<Rightarrow> ('s, 'a) go" where
  "errG e s = (Error e, s)"

definition bindG :: "('s, 'a) go \<Rightarrow> ('a \<Rightarrow> ('s, 'b) go) \<Rightarrow> ('s, 'b) go" where
  "bindG m f s = (case m s of
       (Ret x, s') \<Rightarrow> f x s'
     | (Error e, s') \<Rightarrow> (Error e, s')
     | (Panic p, s') \<Rightarrow> (Panic p, s'))"

text \<open>\<open>if err != nil\<close> with a handler of its own; a panic is not caught.\<close>

definition tryG :: "('s, 'a) go \<Rightarrow> ('a \<Rightarrow> ('s, 'b) go) \<Rightarrow> (string \<Rightarrow> ('s, 'b) go) \<Rightarrow> ('s, 'b) go" where
  "tryG m f h s = (case m s of
       (Ret x, s') \<Rightarrow> f x s'
     | (Error e, s') \<Rightarrow> h e s'
     | (Panic p, s') \<Rightarrow> (Panic p, s'))"

definition liftR :: "'a res \<Rightarrow> ('s, 'a) go" where
  "liftR r s = (r, s)"

definition getG :: "('s \<Rightarrow> 'a) \<Rightarrow> ('s, 'a) go" where
  "getG f s = (Ret (f s), s)"

definition modG :: "('s \<Rightarrow> 's) \<Rightarrow> ('s, unit) go" where
  "modG f s = (Ret (), f s)"

text \<open>A \<open>for ... range\<close> loop.\<close>

fun forG :: "('x \<Rightarrow> ('s, unit) go) \<Rightarrow> 'x list \<Rightarrow> ('s, unit) go" where
  "forG body [] s = (Ret (), s)"
| "forG body (x # xs) s = bindG (body x) (\<lambda>_. forG body xs) s"

text \<open>A loop that carries a variable.\<close>

fun foldG :: "('x \<Rightarrow> 'a \<Rightarrow> ('s, 'a) go) \<Rightarrow> 'x list \<Rightarrow> 'a \<Rightarrow> ('s, 'a) go" where
  "foldG body [] a s = (Ret a, s)"
| "foldG body (x # xs) a s = bindG (body x a) (foldG body xs) s"

named_theorems go_defs

lemmas go_basic [go_defs] = retG_def errG_def bindG_def tryG_def liftR_def getG_def modG_def

section \<open>What every computation keeps\<close>

text \<open>\<open>keeps I m\<close>: from a state in \<open>I\<close>, \<open>m\<close> ends in a state in \<open>I\<close>, whatever it returns. The rules below carry
  an invariant through the sequencing operators.\<close>

definition keeps :: "('s \<Rightarrow> bool) \<Rightarrow> ('s, 'a) go \<Rightarrow> bool" where
  "keeps I m \<longleftrightarrow> (\<forall>s. I s \<longrightarrow> I (snd (m s)))"

named_theorems keeps

lemma keeps_D: "keeps I m \<Longrightarrow> I s \<Longrightarrow> m s = (r, s') \<Longrightarrow> I s'"
  unfolding keeps_def by (metis snd_conv)

lemma keeps_simple [keeps]: "keeps I (retG x)" "keeps I (errG e)" "keeps I (liftR r)" "keeps I (getG f)"
  by (simp_all add: keeps_def go_defs)

lemma keeps_mod [keeps]: "(\<And>s. I s \<Longrightarrow> I (f s)) \<Longrightarrow> keeps I (modG f)"
  by (simp add: keeps_def go_defs)

lemma keeps_bind [keeps]:
  assumes "keeps I m" "\<And>x. keeps I (f x)"
  shows "keeps I (bindG m f)"
  unfolding keeps_def
proof (intro allI impI)
  fix s assume "I s"
  then have "I (snd (m s))" using assms(1) by (simp add: keeps_def)
  then show "I (snd (bindG m f s))"
    using assms(2) by (cases "m s"; cases "fst (m s)") (auto simp: bindG_def keeps_def)
qed

lemma keeps_try [keeps]:
  assumes "keeps I m" "\<And>x. keeps I (f x)" "\<And>e. keeps I (h e)"
  shows "keeps I (tryG m f h)"
  unfolding keeps_def
proof (intro allI impI)
  fix s assume "I s"
  then have "I (snd (m s))" using assms(1) by (simp add: keeps_def)
  then show "I (snd (tryG m f h s))"
    using assms(2,3) by (cases "m s"; cases "fst (m s)") (auto simp: tryG_def keeps_def)
qed

lemma keeps_for [keeps]:
  assumes "\<And>x. x \<in> set xs \<Longrightarrow> keeps I (body x)"
  shows "keeps I (forG body xs)"
  using assms
proof (induction xs)
  case (Cons x xs)
  then have "keeps I (bindG (body x) (\<lambda>_. forG body xs))" by (intro keeps_bind) simp_all
  then show ?case by (simp add: keeps_def)
qed (simp add: keeps_def)

lemma keeps_fold [keeps]:
  assumes "\<And>x a. x \<in> set xs \<Longrightarrow> keeps I (body x a)"
  shows "keeps I (foldG body xs a)"
  using assms
proof (induction xs arbitrary: a)
  case (Cons x xs)
  then have "keeps I (bindG (body x a) (foldG body xs))" by (intro keeps_bind) simp_all
  then show ?case by (simp add: keeps_def)
qed (simp add: keeps_def)

lemma keeps_if [keeps]: "(b \<Longrightarrow> keeps I m) \<Longrightarrow> (\<not> b \<Longrightarrow> keeps I m') \<Longrightarrow> keeps I (if b then m else m')"
  by simp

lemma keeps_option [keeps]:
  "(x = None \<Longrightarrow> keeps I m) \<Longrightarrow> (\<And>y. x = Some y \<Longrightarrow> keeps I (f y)) \<Longrightarrow> keeps I (case x of None \<Rightarrow> m | Some y \<Rightarrow> f y)"
  by (cases x) simp_all

section \<open>Results under an invariant\<close>

text \<open>\<open>gives I m R\<close>: from a state in \<open>I\<close>, \<open>m\<close> stays in \<open>I\<close> and what it returns satisfies \<open>R\<close>.\<close>

definition gives :: "('s \<Rightarrow> bool) \<Rightarrow> ('s, 'a) go \<Rightarrow> ('a \<Rightarrow> bool) \<Rightarrow> bool" where
  "gives I m R \<longleftrightarrow> keeps I m \<and> (\<forall>s x s'. I s \<longrightarrow> m s = (Ret x, s') \<longrightarrow> R x)"

lemma keeps_bind_gives:
  assumes "gives I m R" "\<And>x. R x \<Longrightarrow> keeps I (f x)"
  shows "keeps I (bindG m f)"
  unfolding keeps_def
proof (intro allI impI)
  fix s assume s: "I s"
  obtain r s' where m: "m s = (r, s')" by (cases "m s")
  then have "I s'" using assms(1) s unfolding gives_def keeps_def by (metis snd_conv)
  then show "I (snd (bindG m f s))"
    using m assms s unfolding gives_def keeps_def by (cases r) (auto simp: bindG_def)
qed

lemma keeps_try_gives:
  assumes "gives I m R" "\<And>x. R x \<Longrightarrow> keeps I (f x)" "\<And>e. keeps I (h e)"
  shows "keeps I (tryG m f h)"
  unfolding keeps_def
proof (intro allI impI)
  fix s assume s: "I s"
  obtain r s' where m: "m s = (r, s')" by (cases "m s")
  then have "I s'" using assms(1) s unfolding gives_def keeps_def by (metis snd_conv)
  then show "I (snd (tryG m f h s))"
    using m assms s unfolding gives_def keeps_def by (cases r) (auto simp: tryG_def)
qed

lemma gives_bind:
  assumes "gives I m R" "\<And>x. R x \<Longrightarrow> gives I (f x) R'"
  shows "gives I (bindG m f) R'"
proof -
  have "keeps I (bindG m f)" by (rule keeps_bind_gives[OF assms(1)]) (use assms(2) in \<open>simp add: gives_def\<close>)
  moreover have "R' y" if hyps: "I s" "bindG m f s = (Ret y, s2)" for s y s2
  proof -
    obtain x s1 where x: "m s = (Ret x, s1)" "f x s1 = (Ret y, s2)"
      using hyps(2) by (auto simp: bindG_def split: prod.splits res.splits)
    have "R x" "I s1" using assms(1) hyps(1) x(1) keeps_D[of I m s "Ret x" s1] by (auto simp: gives_def)
    then show ?thesis using assms(2)[of x] x(2) unfolding gives_def by blast
  qed
  ultimately show ?thesis by (simp add: gives_def)
qed

lemma gives_try:
  assumes "gives I m R" "\<And>x. R x \<Longrightarrow> gives I (f x) R'" "\<And>e. gives I (h e) R'"
  shows "gives I (tryG m f h) R'"
proof -
  have "keeps I (tryG m f h)" by (rule keeps_try_gives[OF assms(1)]) (use assms(2,3) in \<open>simp_all add: gives_def\<close>)
  moreover have "R' y" if hyps: "I s" "tryG m f h s = (Ret y, s2)" for s y s2
  proof -
    obtain r s1 where r: "m s = (r, s1)" by (cases "m s")
    have s1: "I s1" using assms(1) hyps(1) r keeps_D[of I m s r s1] by (simp add: gives_def)
    show ?thesis
    proof (cases r)
      case (Ret x)
      then have "R x" "f x s1 = (Ret y, s2)" using hyps r assms(1) by (auto simp: gives_def tryG_def)
      then show ?thesis using assms(2)[of x] s1 unfolding gives_def by blast
    next
      case (Error e)
      then have "h e s1 = (Ret y, s2)" using hyps(2) r by (simp add: tryG_def)
      then show ?thesis using assms(3)[of e] s1 unfolding gives_def by blast
    qed (use hyps(2) r in \<open>simp add: tryG_def\<close>)
  qed
  ultimately show ?thesis by (simp add: gives_def)
qed

lemma gives_ret: "R x \<Longrightarrow> gives I (retG x) R" and gives_err: "gives I (errG e) R"
  by (auto simp: gives_def keeps go_defs)

lemma gives_keeps: "keeps I m \<Longrightarrow> gives I m (\<lambda>_. True)"
  by (simp add: gives_def)

lemma gives_if: "(b \<Longrightarrow> gives I m R) \<Longrightarrow> (\<not> b \<Longrightarrow> gives I m' R) \<Longrightarrow> gives I (if b then m else m') R"
  by simp

text \<open>\<open>ends I m Q\<close>: from a state in \<open>I\<close>, when \<open>m\<close> returns normally its result and the state it leaves satisfy \<open>Q\<close>.\<close>

definition ends :: "('s \<Rightarrow> bool) \<Rightarrow> ('s, 'a) go \<Rightarrow> ('a \<Rightarrow> 's \<Rightarrow> bool) \<Rightarrow> bool" where
  "ends I m Q \<longleftrightarrow> (\<forall>s x s'. I s \<longrightarrow> m s = (Ret x, s') \<longrightarrow> Q x s')"

lemma ends_bind:
  assumes "ends I m R" "\<And>x. ends (R x) (f x) Q"
  shows "ends I (bindG m f) Q"
  using assms by (fastforce simp: ends_def bindG_def split: prod.splits res.splits)

lemma ends_bind_gives:
  assumes "gives I m R" "\<And>x. R x \<Longrightarrow> ends I (f x) Q"
  shows "ends I (bindG m f) Q"
proof (rule ends_bind[where R = "\<lambda>x s. R x \<and> I s"])
  show "ends I m (\<lambda>x s. R x \<and> I s)"
    unfolding ends_def using assms(1) keeps_D[of I m] unfolding gives_def by blast
  show "ends (\<lambda>s. R x \<and> I s) (f x) Q" for x using assms(2)[of x] by (auto simp: ends_def)
qed

lemma ends_bind_keeps: "keeps I m \<Longrightarrow> (\<And>x. ends I (f x) Q) \<Longrightarrow> ends I (bindG m f) Q"
  by (rule ends_bind_gives[OF gives_keeps])

lemma ends_simple: "(\<And>s. I s \<Longrightarrow> Q x s) \<Longrightarrow> ends I (retG x) Q" "ends I (errG e) Q"
  by (simp_all add: ends_def go_defs)

lemma ends_if: "(b \<Longrightarrow> ends I m Q) \<Longrightarrow> (\<not> b \<Longrightarrow> ends I m' Q) \<Longrightarrow> ends I (if b then m else m') Q"
  by simp

lemma gives_liftR: "gives I (liftR r) (\<lambda>x. r = Ret x)"
  by (simp add: gives_def keeps go_defs)

lemma bindG_RetD: "bindG m f s = (Ret y, s') \<Longrightarrow> \<exists>x s1. m s = (Ret x, s1) \<and> f x s1 = (Ret y, s')"
  by (auto simp: bindG_def split: prod.splits res.splits)

section \<open>Weakest preconditions\<close>

text \<open>\<open>wp m Q E s\<close>: started in \<open>s\<close>, \<open>m\<close> does not panic, what it returns satisfies \<open>Q\<close> in the state it leaves, and
  the error it fails with satisfies \<open>E\<close>. The equations push the calculation through the sequencing operators.\<close>

definition wp :: "('s, 'a) go \<Rightarrow> ('a \<Rightarrow> 's \<Rightarrow> bool) \<Rightarrow> (string \<Rightarrow> 's \<Rightarrow> bool) \<Rightarrow> 's \<Rightarrow> bool" where
  "wp m Q E s = (case m s of (Ret x, s') \<Rightarrow> Q x s' | (Error e, s') \<Rightarrow> E e s' | (Panic _, _) \<Rightarrow> False)"

named_theorems wp

lemma wp_basic [wp]:
  "wp (retG x) Q E s = Q x s" "wp (errG e) Q E s = E e s" "wp (getG f) Q E s = Q (f s) s" "wp (modG g) Q' E s = Q' () (g s)"
  by (simp_all add: wp_def go_defs)

lemma wp_bind [wp]: "wp (bindG m f) Q E s = wp m (\<lambda>x. wp (f x) Q E) E s"
  by (auto simp: wp_def bindG_def split: prod.splits res.splits)

lemma wp_try [wp]: "wp (tryG m f h) Q E s = wp m (\<lambda>x. wp (f x) Q E) (\<lambda>e. wp (h e) Q E) s"
  by (auto simp: wp_def tryG_def split: prod.splits res.splits)

lemma wp_if [wp]: "wp (if b then m else m') Q E s = (if b then wp m Q E s else wp m' Q E s)"
  by simp

lemma wp_liftR: "wp (liftR r) Q E s = (case r of Ret x \<Rightarrow> Q x s | Error e \<Rightarrow> E e s | Panic _ \<Rightarrow> False)"
  by (simp add: wp_def liftR_def)

lemma wp_mono:
  "wp m Q E s \<Longrightarrow> (\<And>x s'. Q x s' \<Longrightarrow> Q' x s') \<Longrightarrow> (\<And>e s'. E e s' \<Longrightarrow> E' e s') \<Longrightarrow> wp m Q' E' s"
  by (auto simp: wp_def split: prod.splits res.splits)

lemma wp_D: "wp m Q E s \<Longrightarrow> m s = (Ret x, s') \<Longrightarrow> Q x s'" "wp m Q E s \<Longrightarrow> m s = (Error e, s') \<Longrightarrow> E e s'"
    "wp m Q E s \<Longrightarrow> m s \<noteq> (Panic p, s')"
  by (auto simp: wp_def)

lemma wp_total: "wp m Q (\<lambda>_ _. False) s \<Longrightarrow> \<exists>x s'. m s = (Ret x, s') \<and> Q x s'"
  by (auto simp: wp_def split: prod.splits res.splits)

lemma wp_keeps: "wp m Q E s \<Longrightarrow> keeps I m \<Longrightarrow> I s \<Longrightarrow> wp m (\<lambda>x s'. Q x s' \<and> I s') E s"
  by (auto simp: wp_def keeps_def split: prod.splits res.splits)

lemma wp_for:
  assumes "I [] s"
    and "\<And>done x rest s. xs = done @ x # rest \<Longrightarrow> I done s \<Longrightarrow> wp (body x) (\<lambda>_. I (done @ [x])) E s"
  shows "wp (forG body xs) (\<lambda>_. I xs) E s"
proof -
  have "wp (forG body rest) (\<lambda>_. I xs) E s" if "xs = pre @ rest" "I pre s" for pre rest s
    using that
  proof (induction rest arbitrary: pre s)
    case Nil
    then show ?case by (simp add: wp_def)
  next
    case (Cons x rest)
    have "wp (body x) (\<lambda>_. wp (forG body rest) (\<lambda>_. I xs) E) E s"
      by (rule wp_mono[OF assms(2)[OF Cons.prems]]) (use Cons in auto)
    then show ?case by (simp flip: wp_bind add: wp_def)
  qed
  then show ?thesis using assms(1) by fastforce
qed

lemma wp_fold:
  assumes "I [] a s"
    and "\<And>done x rest a s. xs = done @ x # rest \<Longrightarrow> I done a s \<Longrightarrow> wp (body x a) (I (done @ [x])) E s"
  shows "wp (foldG body xs a) (I xs) E s"
proof -
  have "wp (foldG body rest a) (I xs) E s" if "xs = pre @ rest" "I pre a s" for pre rest a s
    using that
  proof (induction rest arbitrary: pre a s)
    case Nil
    then show ?case by (simp add: wp_def)
  next
    case (Cons x rest)
    have "wp (body x a) (\<lambda>b. wp (foldG body rest b) (I xs) E) E s"
      by (rule wp_mono[OF assms(2)[OF Cons.prems]]) (use Cons in auto)
    then show ?case by (simp flip: wp_bind add: wp_def)
  qed
  then show ?thesis using assms(1) by fastforce
qed

lemma wp_fun [wp]: "wp (retG x) Q E = Q x" "wp (bindG m f) Q' E = wp m (\<lambda>x. wp (f x) Q' E) E"
  by (rule ext, simp add: wp)+

lemma wp_if_fun: "wp (if b then m else m') Q E = (if b then wp m Q E else wp m' Q E)"
  by simp

lemma wp_ifI: "(b \<Longrightarrow> wp m Q E s) \<Longrightarrow> (\<not> b \<Longrightarrow> wp m' Q E s) \<Longrightarrow> wp (if b then m else m') Q E s"
  by simp

lemma wp_then: "wp m (\<lambda>_. P) E s \<Longrightarrow> (\<And>x s'. P s' \<Longrightarrow> wp (f x) Q E s') \<Longrightarrow> wp (bindG m f) Q E s"
  unfolding wp_bind by (erule wp_mono) auto

lemma wp_try_known:
  "wp m (\<lambda>x s'. x = a \<and> R s') (\<lambda>_ _. False) s \<Longrightarrow> (\<And>s'. R s' \<Longrightarrow> wp (f a) Q E s') \<Longrightarrow> wp (tryG m f h) Q E s"
  unfolding wp_try by (erule wp_mono) auto

lemma gives_mono: "gives I m R \<Longrightarrow> (\<And>x. R x \<Longrightarrow> R' x) \<Longrightarrow> gives I m R'"
  by (auto simp: gives_def)

section \<open>Computations that do not panic\<close>

text \<open>\<open>safe I b m\<close>: from a state in \<open>I\<close>, \<open>m\<close> does not panic and stays in \<open>I\<close>; if \<open>b\<close>, it does not fail either.\<close>

definition safe :: "('s \<Rightarrow> bool) \<Rightarrow> bool \<Rightarrow> ('s, 'a) go \<Rightarrow> bool" where
  "safe I b m \<longleftrightarrow> (\<forall>s. I s \<longrightarrow> wp m (\<lambda>_. I) (\<lambda>_ s'. \<not> b \<and> I s') s)"

named_theorems safe

lemma safe_ret [safe]: "safe I b (retG x)" "safe I b (getG f)" "\<not> b \<Longrightarrow> safe I b (errG e)"
  by (simp_all add: safe_def wp)

lemma safe_keeps: "safe I b m \<Longrightarrow> keeps I m"
  unfolding safe_def keeps_def wp_def by (intro allI impI) (drule spec, drule mp, assumption, auto split: prod.splits res.splits)

lemma safe_bind_gives:
  assumes "gives I m R" "safe I b m" "\<And>x. R x \<Longrightarrow> safe I b (f x)"
  shows "safe I b (bindG m f)"
  unfolding safe_def wp_bind
proof (intro allI impI)
  fix s assume s: "I s"
  then have "wp m (\<lambda>_. I) (\<lambda>_ s'. \<not> b \<and> I s') s" using assms(2) by (simp add: safe_def)
  then have "wp m (\<lambda>x s'. I s' \<and> R x) (\<lambda>_ s'. \<not> b \<and> I s') s"
    using assms(1) s unfolding wp_def gives_def by (auto split: prod.splits res.splits)
  then show "wp m (\<lambda>x. wp (f x) (\<lambda>_. I) (\<lambda>_ s'. \<not> b \<and> I s')) (\<lambda>_ s'. \<not> b \<and> I s') s"
    by (rule wp_mono) (use assms(3) in \<open>auto simp: safe_def\<close>)
qed

lemma safe_try_gives:
  assumes "gives I m R" "safe I False m" "\<And>x. R x \<Longrightarrow> safe I b (f x)" "\<And>e. safe I b (h e)"
  shows "safe I b (tryG m f h)"
  unfolding safe_def wp_try
proof (intro allI impI)
  fix s assume s: "I s"
  then have "wp m (\<lambda>_. I) (\<lambda>_ s'. I s') s" using assms(2) by (simp add: safe_def)
  then have "wp m (\<lambda>x s'. I s' \<and> R x) (\<lambda>_ s'. I s') s"
    using assms(1) s unfolding wp_def gives_def by (auto split: prod.splits res.splits)
  then show "wp m (\<lambda>x. wp (f x) (\<lambda>_. I) (\<lambda>_ s'. \<not> b \<and> I s')) (\<lambda>e. wp (h e) (\<lambda>_. I) (\<lambda>_ s'. \<not> b \<and> I s')) s"
    by (rule wp_mono) (use assms(3,4) in \<open>auto simp: safe_def\<close>)
qed

lemma safe_bind [safe]: "safe I b m \<Longrightarrow> (\<And>x. safe I b (f x)) \<Longrightarrow> safe I b (bindG m f)"
  by (rule safe_bind_gives[OF gives_keeps[OF safe_keeps]])

lemma safe_try [safe]: "safe I False m \<Longrightarrow> (\<And>x. safe I b (f x)) \<Longrightarrow> (\<And>e. safe I b (h e)) \<Longrightarrow> safe I b (tryG m f h)"
  by (rule safe_try_gives[OF gives_keeps[OF safe_keeps]])

lemma safe_if [safe]: "(c \<Longrightarrow> safe I b m) \<Longrightarrow> (\<not> c \<Longrightarrow> safe I b m') \<Longrightarrow> safe I b (if c then m else m')"
  by simp

lemma safe_option [safe]:
  "(x = None \<Longrightarrow> safe I b m) \<Longrightarrow> (\<And>y. x = Some y \<Longrightarrow> safe I b (f y)) \<Longrightarrow> safe I b (case x of None \<Rightarrow> m | Some y \<Rightarrow> f y)"
  by (cases x) simp_all

lemma safe_for [safe]: "(\<And>x. x \<in> set xs \<Longrightarrow> safe I b (body x)) \<Longrightarrow> safe I b (forG body xs)"
  unfolding safe_def by (auto intro!: wp_for[where I = "\<lambda>_. I"])

lemma safe_fold [safe]: "(\<And>x a. x \<in> set xs \<Longrightarrow> safe I b (body x a)) \<Longrightarrow> safe I b (foldG body xs a)"
  unfolding safe_def by (auto intro!: wp_fold[where I = "\<lambda>_ _. I"])

lemma safe_weaken: "safe I True m \<Longrightarrow> safe I b m"
  unfolding safe_def by (auto elim!: wp_mono)

lemma wp_safe_keeps:
  assumes "safe I c m" "I s" "keeps J m" "J s"
  shows "wp m (\<lambda>_. J) (\<lambda>_ _. \<not> c) s"
proof -
  have "wp m (\<lambda>_. I) (\<lambda>_ s'. \<not> c \<and> I s') s" using assms(1,2) by (simp add: safe_def)
  from wp_keeps[OF this assms(3,4)] show ?thesis by (rule wp_mono) auto
qed

section \<open>The sandbox\<close>

type_synonym name = bytes
type_synonym handle = nat

record world =
  dir :: "name \<rightharpoonup> handle"
  inodes :: "handle \<Rightarrow> bytes"
  nextInode :: handle
  listing :: "name list"
  separator :: u8
  randText :: "nat \<Rightarrow> bytes"
  ticks :: nat
  faults :: "nat \<Rightarrow> (string \<times> nat) option"
  cancelAt :: "nat option"

definition tick :: "world \<Rightarrow> world" where
  "tick w = w\<lparr>ticks := ticks w + 1\<rparr>"

definition errNotExist :: string where
  "errNotExist = ''file does not exist''"

text \<open>A call that only reads, and one that changes the world, also partly when it fails.\<close>

definition sysRead :: "(world \<Rightarrow> 'a res) \<Rightarrow> (world, 'a) go" where
  "sysRead f w = (case faults w (ticks w) of Some (e, _) \<Rightarrow> (Error e, tick w) | None \<Rightarrow> (f w, tick w))"

definition sysWrite :: "(world \<Rightarrow> 'a res \<times> world) \<Rightarrow> (nat \<Rightarrow> world \<Rightarrow> world) \<Rightarrow> (world, 'a) go" where
  "sysWrite f part w = (case faults w (ticks w) of
       Some (e, n) \<Rightarrow> (Error e, part n (tick w))
     | None \<Rightarrow> f (tick w))"

definition ctxErr :: "(world, bool) go" where
  "ctxErr w = (Ret (case cancelAt w of None \<Rightarrow> False | Some n \<Rightarrow> n \<le> ticks w), tick w)"

definition open_file :: "name \<Rightarrow> (world, handle) go" where
  "open_file n = sysRead (\<lambda>w. case dir w n of None \<Rightarrow> Error errNotExist | Some i \<Rightarrow> Ret i)"

definition stat_size :: "handle \<Rightarrow> (world, nat) go" where
  "stat_size i = sysRead (\<lambda>w. Ret (length (inodes w i)))"

text \<open>\<open>ReadAt\<close>, with \<open>io.EOF\<close> on a short read as the shorter result, and reading a whole file.\<close>

definition readAt :: "handle \<Rightarrow> nat \<Rightarrow> nat \<Rightarrow> (world, bytes) go" where
  "readAt i n off = sysRead (\<lambda>w. Ret (take n (drop off (inodes w i))))"

definition readAll :: "handle \<Rightarrow> (world, bytes) go" where
  "readAll i = sysRead (\<lambda>w. Ret (inodes w i))"

definition write_bytes :: "bytes \<Rightarrow> nat \<Rightarrow> bytes \<Rightarrow> bytes" where
  "write_bytes bs off old =
     (if bs = [] then old
      else take off old @ replicate (off - length old) 0 @ bs @ drop (off + length bs) old)"

definition set_inode :: "handle \<Rightarrow> (bytes \<Rightarrow> bytes) \<Rightarrow> world \<Rightarrow> world" where
  "set_inode i f w = w\<lparr>inodes := (inodes w)(i := f (inodes w i))\<rparr>"

definition writeAt :: "handle \<Rightarrow> bytes \<Rightarrow> nat \<Rightarrow> (world, unit) go" where
  "writeAt i bs off = sysWrite (\<lambda>w. (Ret (), set_inode i (write_bytes bs off) w))
     (\<lambda>n. set_inode i (write_bytes (take n bs) off))"

definition truncate_file :: "handle \<Rightarrow> nat \<Rightarrow> (world, unit) go" where
  "truncate_file i n = sysWrite
     (\<lambda>w. (Ret (), set_inode i (\<lambda>bs. take n bs @ replicate (n - length bs) 0) w)) (\<lambda>_. id)"

definition create_excl :: "name \<Rightarrow> (world, handle) go" where
  "create_excl n = sysWrite (\<lambda>w. case dir w n of
       Some _ \<Rightarrow> (Error ''file exists'', w)
     | None \<Rightarrow> (Ret (nextInode w), w\<lparr>dir := (dir w)(n \<mapsto> nextInode w),
                  inodes := (inodes w)(nextInode w := []), nextInode := nextInode w + 1\<rparr>)) (\<lambda>_. id)"

definition rename_file :: "name \<Rightarrow> name \<Rightarrow> (world, unit) go" where
  "rename_file a b = sysWrite (\<lambda>w. case dir w a of
       None \<Rightarrow> (Error errNotExist, w)
     | Some i \<Rightarrow> (Ret (), w\<lparr>dir := ((dir w)(a := None))(b \<mapsto> i)\<rparr>)) (\<lambda>_. id)"

definition remove_file :: "name \<Rightarrow> (world, unit) go" where
  "remove_file n = sysWrite (\<lambda>w. case dir w n of
       None \<Rightarrow> (Error errNotExist, w)
     | Some _ \<Rightarrow> (Ret (), w\<lparr>dir := (dir w)(n := None)\<rparr>)) (\<lambda>_. id)"

text \<open>Calls whose only effect in this model is that they may fail: \<open>Sync\<close>, \<open>Close\<close>, \<open>Chmod\<close>, \<open>MkdirAll\<close> and
  opening the sandbox itself.\<close>

definition sysCall :: "(world, unit) go" where
  "sysCall = sysRead (\<lambda>_. Ret ())"

definition stat_name :: "name \<Rightarrow> (world, unit) go" where
  "stat_name n = sysRead (\<lambda>w. case dir w n of None \<Rightarrow> Error errNotExist | Some _ \<Rightarrow> Ret ())"

definition readDir :: "(world, name list) go" where
  "readDir = sysRead (\<lambda>w. Ret (listing w))"

lemmas world_ops [go_defs] = sysRead_def sysWrite_def tick_def ctxErr_def open_file_def stat_size_def readAt_def
  readAll_def writeAt_def truncate_file_def create_excl_def rename_file_def remove_file_def sysCall_def
  stat_name_def readDir_def

text \<open>What a computation on the world may change: a computation that only reads leaves every file alone.\<close>

definition same_files :: "world \<Rightarrow> world \<Rightarrow> bool" where
  "same_files w w' \<longleftrightarrow> dir w' = dir w \<and> inodes w' = inodes w \<and> nextInode w' = nextInode w \<and>
     separator w' = separator w \<and> listing w' = listing w \<and> randText w' = randText w"

lemma same_files_refl [simp]: "same_files w w"
  by (simp add: same_files_def)

lemma same_files_trans: "same_files u v \<Longrightarrow> same_files v w \<Longrightarrow> same_files u w"
  by (simp add: same_files_def)

lemma sysRead_same: "same_files w (snd (sysRead f w))"
  by (auto simp: same_files_def sysRead_def tick_def split: option.splits)

lemma wp_sysRead:
  assumes "\<And>x w'. same_files w w' \<Longrightarrow> f w = Ret x \<Longrightarrow> Q x w'" "\<And>e w'. same_files w w' \<Longrightarrow> E e w'" "\<And>p. f w \<noteq> Panic p"
  shows "wp (sysRead f) Q E w"
proof -
  have "same_files w (tick w)" by (simp add: same_files_def tick_def)
  then show ?thesis
    using assms(1,2) assms(3)[of "case f w of Panic p \<Rightarrow> p"] by (cases "f w") (auto simp: wp_def sysRead_def split: option.splits)
qed

lemma wp_reading:
  "(\<And>i w'. same_files w w' \<Longrightarrow> dir w n = Some i \<Longrightarrow> Q i w') \<Longrightarrow> (\<And>e w'. same_files w w' \<Longrightarrow> E e w') \<Longrightarrow> wp (open_file n) Q E w"
  "(\<And>bs w'. same_files w w' \<Longrightarrow> bs = inodes w h \<Longrightarrow> Q' bs w') \<Longrightarrow> (\<And>e w'. same_files w w' \<Longrightarrow> E e w') \<Longrightarrow> wp (readAll h) Q' E w"
  unfolding open_file_def readAll_def by (auto intro!: wp_sysRead split: option.splits)

lemma keeps_sysRead [keeps]: "(\<And>w. I w \<Longrightarrow> I (tick w)) \<Longrightarrow> keeps I (sysRead f)"
  by (auto simp: keeps_def sysRead_def split: option.splits)

lemma length_write_bytes: "bs \<noteq> [] \<Longrightarrow> length (write_bytes bs off old) = max (off + length bs) (length old)"
  by (auto simp: write_bytes_def)

end
