(* ===== verification/Decoder.thy ===== *)
theory Decoder
  imports Go_IO RS_Coder "HOL-Library.AList"
begin

text \<open>
  The decoder of \<open>src/par2/decoder.go\<close> with the state it shares with \<open>scan.go\<close> and \<open>repair.go\<close>: streaming
  the packets of a PAR2 file, dispatching them, loading the index file and the recovery volumes,
  registering candidate files, and counting shards. A Go map that the code iterates over is an
  association list with distinct keys, in the order of the iteration; a \<open>nil\<close> map is empty.
\<close>

section \<open>State\<close>

record ShardCounts =
  UsableDataShardCount :: nat
  UnusableDataShardCount :: nat
  UsableParityShardCount :: nat
  UnusableParityShardCount :: nat
  RenamesNeeded :: nat
  FilesNeedingRebuild :: nat

definition RepairNeeded :: "ShardCounts \<Rightarrow> bool" where
  "RepairNeeded sc \<longleftrightarrow> UnusableDataShardCount sc > 0 \<or> RenamesNeeded sc > 0 \<or> FilesNeedingRebuild sc > 0"

definition RepairPossible :: "ShardCounts \<Rightarrow> bool" where
  "RepairPossible sc \<longleftrightarrow> UsableParityShardCount sc \<ge> UnusableDataShardCount sc"

definition BlocksNeeded :: "ShardCounts \<Rightarrow> int" where
  "BlocksNeeded sc =
     (let deficit = int (UnusableDataShardCount sc) - int (UsableParityShardCount sc)
      in if deficit < 0 then 0 else deficit)"

record shardLocation =
  loc_FileID :: FileID
  Offset :: int

datatype fileDamage = damageUnchecked | damageNone | damageMissing | damageWrongSize | damageWrongHash

record fileIntegrityState =
  fis_FileID :: FileID
  fis_Filename :: bytes
  Damage :: fileDamage
  RenameSource :: bytes
  ShardLocations :: "shardLocation list"

definition needsRebuild :: "fileIntegrityState \<Rightarrow> bool" where
  "needsRebuild s = (case Damage s of
       damageMissing \<Rightarrow> True | damageWrongSize \<Rightarrow> True | damageWrongHash \<Rightarrow> True | _ \<Rightarrow> False)"

definition skipsBlockScan :: "fileIntegrityState \<Rightarrow> bool" where
  "skipsBlockScan s \<longleftrightarrow> Damage s = damageMissing \<or> Damage s = damageNone"

record Decoder =
  numGoroutines :: int
  memoryLimit :: int
  maxFileSize :: int
  maxPacketSize :: int
  root :: world
  sliceByteCount :: nat
  recoverySetID :: bytes
  protectedFiles :: "FileDescPacket list"
  fileChecksums :: "(FileID \<times> IFSCPacket) list"
  parityShards :: "(u16 \<times> bytes) list"
  fileIntegrity :: "(FileID \<times> fileIntegrityState) list"
  candidateFiles :: "(bytes \<times> FileID) list"
  candidateByID :: "(FileID \<times> bytes) list"
  parityFileBlocks :: "(bytes \<times> nat) list"

record DecoderOptions =
  NumGoroutines :: int
  MemoryLimit :: int
  MaxFileSize :: int
  MaxPacketSize :: int

type_synonym 'a dec = "(Decoder, 'a) go"

text \<open>A call on the sandbox.\<close>

definition onRoot :: "(world, 'a) go \<Rightarrow> 'a dec" where
  "onRoot m d = (case m (root d) of (r, w) \<Rightarrow> (r, d\<lparr>root := w\<rparr>))"

section \<open>Packets\<close>

definition count_of :: "(bytes \<times> nat) list \<Rightarrow> bytes \<Rightarrow> nat" where
  "count_of m k = (case map_of m k of None \<Rightarrow> 0 | Some n \<Rightarrow> n)"

text \<open>A recovery packet is kept unless its exponent is already there.\<close>

definition storeRecovery :: "recoveryPacket \<Rightarrow> bytes \<Rightarrow> Decoder \<Rightarrow> Decoder" where
  "storeRecovery p filename d =
     (if map_of (parityShards d) (Exponent p) \<noteq> None then d
      else d\<lparr>parityShards := AList.update (Exponent p) (Data p) (parityShards d),
             parityFileBlocks := AList.update filename (count_of (parityFileBlocks d) filename + 1)
               (parityFileBlocks d)\<rparr>)"

definition handlePacket :: "bytes \<Rightarrow> Header \<Rightarrow> bytes \<Rightarrow> unit dec" where
  "handlePacket filename h body =
     (if Type h = MainPacketType then
        bindG (liftR (ParseMainPacket body)) (\<lambda>p. modG (\<lambda>d. d\<lparr>sliceByteCount := SliceByteCount p\<rparr>))
      else if Type h = FileDescPacketType then
        bindG (getG (\<lambda>d. separator (root d))) (\<lambda>sep.
          bindG (liftR (ParseFileDescPacket sep body)) (\<lambda>r.
            case r of
              None \<Rightarrow> retG ()
            | Some p \<Rightarrow> modG (\<lambda>d.
                if list_ex (\<lambda>f. fd_FileID f = fd_FileID p) (protectedFiles d) then d
                else d\<lparr>protectedFiles := protectedFiles d @ [p]\<rparr>)))
      else if Type h = IFSCPacketType then
        bindG (liftR (ParseIFSCPacket body)) (\<lambda>p.
          modG (\<lambda>d. d\<lparr>fileChecksums := AList.update (ifsc_FileID p) p (fileChecksums d)\<rparr>))
      else if Type h = RecoveryPacketType then
        bindG (liftR (ParseRecoveryPacket body)) (\<lambda>p. modG (storeRecovery p filename))
      else retG ())"

definition zeroID :: bytes where
  "zeroID = replicate 16 0"

text \<open>The tests on a packet whose body has been read, up to the call of the handler.\<close>

definition admitPacket :: "(Header \<Rightarrow> bytes \<Rightarrow> unit dec) \<Rightarrow> Header \<Rightarrow> bytes \<Rightarrow> unit dec" where
  "admitPacket handle h body =
     (if ComputePacketHash (RecoverySetID h) (Type h) body \<noteq> Hash h
      then errG ''corrupt packet hash mismatch''
      else bindG (getG recoverySetID) (\<lambda>setID.
        if setID = zeroID then
          bindG (modG (\<lambda>d. d\<lparr>recoverySetID := RecoverySetID h\<rparr>)) (\<lambda>_. handle h body)
        else if RecoverySetID h \<noteq> setID then retG ()
        else handle h body))"

text \<open>\<open>io.ReadFull\<close> of \<open>n\<close> bytes from the bytes that are left.\<close>

definition readFull :: "nat \<Rightarrow> bytes \<Rightarrow> (world, bytes) go" where
  "readFull n rest = sysRead (\<lambda>_.
     if n \<le> length rest then Ret (take n rest)
     else if rest = [] then Error ''EOF'' else Error ''unexpected EOF'')"

text \<open>\<open>int64(h.Length - 64)\<close>.\<close>

definition bodyLen :: "Header \<Rightarrow> int" where
  "bodyLen h = sint (Length h - 64)"

text \<open>The body of the loop after the header.\<close>

definition readPacket :: "(Header \<Rightarrow> bytes \<Rightarrow> unit dec) \<Rightarrow> Header \<Rightarrow> bytes \<Rightarrow> unit dec" where
  "readPacket handle h rest =
     bindG (getG maxPacketSize) (\<lambda>limit.
       if bodyLen h < 0 \<or> limit < bodyLen h then errG ''packet body exceeds safe engine limits''
       else bindG (onRoot (readFull (nat (bodyLen h)) rest)) (admitPacket handle h))"

lemma ReadHeader_shorter: "ReadHeader r = Ret (h, rest) \<Longrightarrow> length rest < length r"
  by (auto simp: ReadHeader_def Let_def split: if_splits)

text \<open>The loop of \<open>streamPAR2Packets\<close>; \<open>rest\<close> is what the file has left to read.\<close>

function stream_loop :: "(Header \<Rightarrow> bytes \<Rightarrow> unit dec) \<Rightarrow> bytes \<Rightarrow> unit dec" where
  "stream_loop handle rest =
     bindG (onRoot ctxErr) (\<lambda>canc.
       if canc then errG ''context canceled''
       else tryG (onRoot (sysRead (\<lambda>_. ReadHeader rest)))
         (\<lambda>_. case ReadHeader rest of
              Ret (h, rest1) \<Rightarrow>
                bindG (readPacket handle h rest1) (\<lambda>_. stream_loop handle (drop (nat (bodyLen h)) rest1))
            | _ \<Rightarrow> retG ())
         (\<lambda>e. if e = ''EOF'' then retG () else errG ''failed to read packet header''))"
  by pat_completeness auto
termination
  by (relation "measure (length \<circ> snd)") (auto dest!: ReadHeader_shorter)

declare stream_loop.simps [simp del]

definition streamPAR2Packets :: "bytes \<Rightarrow> (Header \<Rightarrow> bytes \<Rightarrow> unit dec) \<Rightarrow> unit dec" where
  "streamPAR2Packets filename handle =
     bindG (onRoot (open_file filename)) (\<lambda>f.
       tryG (onRoot (stat_size f)) (\<lambda>size.
         bindG (getG maxFileSize) (\<lambda>limit.
           if limit < int size then errG ''file exceeds maximum allowed size''
           else bindG (getG (\<lambda>d. inodes (root d) f)) (stream_loop handle)))
         (\<lambda>_. errG ''failed to stat file''))"

section \<open>Loading a set\<close>

text \<open>\<open>slices.SortFunc\<close> by \<open>FileIDLess\<close>: a stable insertion sort stands for it; identifiers are distinct, so
  every sort gives the same list.\<close>

fun insert_file :: "FileDescPacket \<Rightarrow> FileDescPacket list \<Rightarrow> FileDescPacket list" where
  "insert_file f [] = [f]"
| "insert_file f (g # gs) =
     (if FileIDLess (fd_FileID g) (fd_FileID f) then g # insert_file f gs else f # g # gs)"

definition sort_files :: "FileDescPacket list \<Rightarrow> FileDescPacket list" where
  "sort_files fs = foldr insert_file fs []"

definition loadIndexFile :: "bytes \<Rightarrow> unit dec" where
  "loadIndexFile indexFilename =
     bindG (streamPAR2Packets indexFilename (handlePacket indexFilename)) (\<lambda>_.
       modG (\<lambda>d. d\<lparr>protectedFiles := sort_files (protectedFiles d)\<rparr>))"

text \<open>The handler that \<open>loadSingleVolumeFile\<close> passes: a volume contributes recovery packets only.\<close>

definition handleVolumePacket :: "bytes \<Rightarrow> Header \<Rightarrow> bytes \<Rightarrow> unit dec" where
  "handleVolumePacket filename h body =
     (if Type h = RecoveryPacketType then
        bindG (liftR (ParseRecoveryPacket body)) (\<lambda>p. modG (storeRecovery p filename))
      else retG ())"

definition loadSingleVolumeFile :: "bytes \<Rightarrow> unit dec" where
  "loadSingleVolumeFile filename = streamPAR2Packets filename (handleVolumePacket filename)"

definition toLower :: "u8 \<Rightarrow> u8" where
  "toLower b = (if 0x41 \<le> b \<and> b \<le> 0x5a then b + 0x20 else b)"

definition HasSuffix :: "bytes \<Rightarrow> bytes \<Rightarrow> bool" where
  "HasSuffix s suf \<longleftrightarrow> length suf \<le> length s \<and> drop (length s - length suf) s = suf"

definition par2Ext :: bytes where
  "par2Ext = ascii ''.par2''"

definition isDigit :: "u8 \<Rightarrow> bool" where
  "isDigit b \<longleftrightarrow> 0x30 \<le> b \<and> b \<le> 0x39"

text \<open>A whole string that the volume tag \<open>\.vol\d+[+-]\d+\<close> matches, letters in either case.\<close>

definition isVolumeTag :: "bytes \<Rightarrow> bool" where
  "isVolumeTag s \<longleftrightarrow>
     map toLower (take 4 s) = ascii ''.vol'' \<and>
     (let digits = takeWhile isDigit (drop 4 s); rest = dropWhile isDigit (drop 4 s)
      in digits \<noteq> [] \<and> rest \<noteq> [] \<and> (hd rest = 0x2b \<or> hd rest = 0x2d) \<and>
         tl rest \<noteq> [] \<and> list_all isDigit (tl rest))"

text \<open>A match has its only dot in front, so it starts at the last dot of the name.\<close>

definition removeVolumeTag :: "bytes \<Rightarrow> bytes" where
  "removeVolumeTag name =
     (let tag = rev (takeWhile (\<lambda>b. b \<noteq> dot) (rev name))
      in if dot \<in> set name \<and> isVolumeTag (dot # tag) then take (length name - length tag - 1) name else name)"

definition setBaseName :: "bytes \<Rightarrow> bytes" where
  "setBaseName name =
     removeVolumeTag (if HasSuffix (map toLower name) par2Ext then take (length name - length par2Ext) name else name)"

definition loadVolume :: "bytes \<Rightarrow> bytes \<Rightarrow> bytes \<Rightarrow> unit dec" where
  "loadVolume indexFilename prefix name =
     bindG (onRoot ctxErr) (\<lambda>canc.
       if canc then errG ''context canceled''
       else if name = indexFilename then retG ()
       else if \<not> HasSuffix (map toLower name) par2Ext then retG ()
       else if \<not> HasPrefix name prefix then retG ()
       else tryG (loadSingleVolumeFile name) retG (\<lambda>_. retG ()))"

definition loadVolumeFiles :: "bytes \<Rightarrow> unit dec" where
  "loadVolumeFiles indexFilename =
     tryG (onRoot sysCall) (\<lambda>_.
       tryG (onRoot readDir) (\<lambda>entries. forG (loadVolume indexFilename (setBaseName indexFilename)) entries)
         (\<lambda>_. errG ''failed to read sandboxed directory''))
       (\<lambda>_. errG ''failed to open sandboxed directory'')"

definition newDecoderState :: "env \<Rightarrow> DecoderOptions \<Rightarrow> world \<Rightarrow> Decoder" where
  "newDecoderState e opts w =
     \<lparr>numGoroutines = (if NumGoroutines opts \<le> 0 then DefaultNumGoroutines e else NumGoroutines opts),
      memoryLimit = (if MemoryLimit opts \<le> 0 then 16 * 1024 * 1024 else MemoryLimit opts),
      maxFileSize = (if MaxFileSize opts \<le> 0 then 100 * 1024 * 1024 else MaxFileSize opts),
      maxPacketSize = (if MaxPacketSize opts \<le> 0 then 128 * 1024 * 1024 else MaxPacketSize opts),
      root = w, sliceByteCount = 0, recoverySetID = zeroID, protectedFiles = [], fileChecksums = [],
      parityShards = [], fileIntegrity = [], candidateFiles = [], candidateByID = [], parityFileBlocks = []\<rparr>"

text \<open>\<open>indexFilename\<close> is \<open>filepath.Base\<close> of the path, the world is its directory.\<close>

definition NewDecoder :: "env \<Rightarrow> DecoderOptions \<Rightarrow> bytes \<Rightarrow> world \<Rightarrow> Decoder res" where
  "NewDecoder e opts indexFilename w =
     (case bindG sysCall (\<lambda>_. sysCall) w of
        (Ret _, w') \<Rightarrow>
          (case bindG (loadIndexFile indexFilename) (\<lambda>_. loadVolumeFiles indexFilename) (newDecoderState e opts w') of
             (Ret _, d) \<Rightarrow> Ret d
           | (Error er, _) \<Rightarrow> Error er
           | (Panic p, _) \<Rightarrow> Panic p)
      | (Error er, _) \<Rightarrow> Error er
      | (Panic p, _) \<Rightarrow> Panic p)"

text \<open>A file name in the sandbox root needs no directory.\<close>

definition Dir :: "u8 \<Rightarrow> bytes \<Rightarrow> bytes" where
  "Dir sep name = Clean (map (\<lambda>b. if b = sep then slash else b)
     (rev (dropWhile (\<lambda>b. b \<noteq> sep) (rev name))))"

definition ensureParentDir :: "bytes \<Rightarrow> unit dec" where
  "ensureParentDir name =
     bindG (getG (\<lambda>d. separator (root d))) (\<lambda>sep.
       if Dir sep name = [dot] then retG ()
       else tryG (onRoot sysCall) retG (\<lambda>_. errG ''failed to create directory''))"

definition AddCandidateFile :: "bytes \<Rightarrow> unit dec" where
  "AddCandidateFile path =
     bindG (getG (\<lambda>d. separator (root d))) (\<lambda>sep.
       tryG (liftR (DefangPath sep path)) (\<lambda>defanged.
         modG (\<lambda>d.
           if map_of (candidateFiles d) defanged \<noteq> None then d
           else let id = md5 (ascii ''candidate:'' @ defanged)
                in d\<lparr>candidateFiles := AList.update defanged id (candidateFiles d),
                     candidateByID := AList.update id defanged (candidateByID d)\<rparr>))
         (\<lambda>_. errG ''invalid candidate file path''))"

section \<open>Counting\<close>

definition count_state :: "fileIntegrityState \<Rightarrow> ShardCounts \<Rightarrow> ShardCounts" where
  "count_state st sc =
     (let sc = fold (\<lambda>loc sc.
            if Offset loc = -1 then sc\<lparr>UnusableDataShardCount := UnusableDataShardCount sc + 1\<rparr>
            else sc\<lparr>UsableDataShardCount := UsableDataShardCount sc + 1\<rparr>) (ShardLocations st) sc
      in if RenameSource st \<noteq> [] then sc\<lparr>RenamesNeeded := RenamesNeeded sc + 1\<rparr>
         else if needsRebuild st then sc\<lparr>FilesNeedingRebuild := FilesNeedingRebuild sc + 1\<rparr>
         else sc)"

definition shardCountsLocked :: "Decoder \<Rightarrow> ShardCounts" where
  "shardCountsLocked d =
     fold (\<lambda>(_, st). count_state st) (fileIntegrity d)
       \<lparr>UsableDataShardCount = 0, UnusableDataShardCount = 0, UsableParityShardCount = length (parityShards d),
        UnusableParityShardCount = 0, RenamesNeeded = 0, FilesNeedingRebuild = 0\<rparr>"

end
