(* ===== verification/Decoder_Load.thy ===== *)
theory Decoder_Load
  imports Decoder "HOL-Library.Multiset"
begin

text \<open>
  What loading a PAR2 set guarantees. The handler of a streamed file only ever sees packets whose header,
  length and MD5 are right; a file that is a sequence of packets is handled packet by packet, in
  order; and whatever the files contain and whichever calls fail, a set that is loaded is well formed: its
  file identifiers are distinct and sorted, its names stay below the directory, its slice size is a multiple of
  four, and no file of the sandbox has changed.
\<close>

section \<open>Invariants through the sandbox and the streaming loop\<close>

definition reads :: "(world, 'a) go \<Rightarrow> bool" where
  "reads m \<longleftrightarrow> (\<forall>w. same_files w (snd (m w)))"

lemma reads_ops [simp]: "reads (sysRead f)" "reads ctxErr" "reads (open_file n)" "reads (stat_size i)" "reads (readAt i k off)"
  "reads (readAll i)" "reads sysCall" "reads (stat_name n)" "reads readDir" "reads (readFull k bs)"
  by (simp_all add: reads_def sysRead_same ctxErr_def same_files_def tick_def open_file_def stat_size_def readAt_def
      readAll_def sysCall_def stat_name_def readDir_def readFull_def sysRead_same[unfolded same_files_def])

text \<open>Predicates of the decoder that do not look at the clock of the sandbox.\<close>

definition file_pred :: "(Decoder \<Rightarrow> bool) \<Rightarrow> bool" where
  "file_pred I \<longleftrightarrow> (\<forall>d w. I d \<longrightarrow> same_files (root d) w \<longrightarrow> I (d\<lparr>root := w\<rparr>))"

lemma keeps_onRoot: "file_pred I \<Longrightarrow> reads m \<Longrightarrow> keeps I (onRoot m)"
  by (auto simp: keeps_def onRoot_def file_pred_def reads_def split: prod.splits) (metis snd_conv)

definition authentic :: "Header \<Rightarrow> bytes \<Rightarrow> bool" where
  "authentic h body \<longleftrightarrow> header_ok h \<and> unat (Length h) = 64 + length body \<and>
     ComputePacketHash (RecoverySetID h) (Type h) body = Hash h"

lemma keeps_admit:
  assumes "ComputePacketHash (RecoverySetID h) (Type h) body = Hash h \<Longrightarrow> keeps I (handle h body)"
    "\<And>d x. I d \<Longrightarrow> I (d\<lparr>recoverySetID := x\<rparr>)"
  shows "keeps I (admitPacket handle h body)"
  unfolding admitPacket_def using assms by (intro keeps) auto

lemma bodyLen_length:
  assumes "header_ok h" "0 \<le> bodyLen h"
  shows "unat (Length h) = 64 + nat (bodyLen h)"
proof -
  have "unat (Length h - 64) = nat (bodyLen h)"
    using assms(2) sint_lt[of "Length h - 64"] uint_sint[of "Length h - 64"]
    by (simp add: take_bit_int_eq_self bodyLen_def flip: nat_uint_eq)
  moreover have "unat (Length h - 64) = unat (Length h) - 64" "64 \<le> unat (Length h)"
    using assms(1) by (simp_all add: header_ok_def unat_sub word_le_nat_alt)
  ultimately show ?thesis by simp
qed

lemma bindG_cong:
  assumes "m s = m' s" "\<And>x s'. m' s = (Ret x, s') \<Longrightarrow> f x s' = f' x s'"
  shows "bindG m f s = bindG m' f' s"
  using assms by (auto simp: bindG_def split: prod.splits res.splits)

lemma tryG_cong:
  assumes "m s = m' s" "\<And>x s'. m' s = (Ret x, s') \<Longrightarrow> f x s' = f' x s'" "\<And>e s'. m' s = (Error e, s') \<Longrightarrow> h e s' = h' e s'"
  shows "tryG m f h s = tryG m' f' h' s"
  using assms by (auto simp: tryG_def split: prod.splits res.splits)

lemma readFull_Ret: "onRoot (readFull n rest) d = (Ret body, d') \<Longrightarrow> n \<le> length rest \<and> body = take n rest"
  by (auto simp: onRoot_def readFull_def sysRead_def split: prod.splits option.splits if_splits)

lemma admitPacket_cong:
  assumes "ComputePacketHash (RecoverySetID h) (Type h) body = Hash h \<Longrightarrow> handle h body = handle' h body"
  shows "admitPacket handle h body = admitPacket handle' h body"
proof (cases "ComputePacketHash (RecoverySetID h) (Type h) body = Hash h")
  case True
  with assms have "handle h body = handle' h body" by blast
  then show ?thesis unfolding admitPacket_def by (simp only:)
qed (simp add: admitPacket_def)

text \<open>The handler is only called on packets whose hash, header and length are right.\<close>

lemma readPacket_authentic:
  assumes "\<And>body. authentic h body \<Longrightarrow> handle h body = handle' h body" "header_ok h"
  shows "readPacket handle h rest = readPacket handle' h rest"
proof (cases "bodyLen h < 0")
  case False
  have "admitPacket handle h body d' = admitPacket handle' h body d'"
    if "onRoot (readFull (nat (bodyLen h)) rest) d = (Ret body, d')" for body d d'
  proof -
    have "length body = nat (bodyLen h)" using readFull_Ret[OF that] by auto
    then show ?thesis
      using assms bodyLen_length[OF assms(2)] False
      by (subst admitPacket_cong[of h body handle handle']) (auto simp: authentic_def)
  qed
  then have "bindG (onRoot (readFull (nat (bodyLen h)) rest)) (admitPacket handle h) =
      bindG (onRoot (readFull (nat (bodyLen h)) rest)) (admitPacket handle' h)"
    by (intro ext bindG_cong) auto
  then show ?thesis unfolding readPacket_def by (simp only:)
qed (simp add: readPacket_def)

lemma stream_loop_authentic:
  assumes "\<And>h body. authentic h body \<Longrightarrow> handle h body = handle' h body"
  shows "stream_loop handle rest = stream_loop handle' rest"
  using assms
proof (induction handle rest rule: stream_loop.induct)
  case (1 handle rest)
  have "bindG (readPacket handle h rest1) (\<lambda>_. stream_loop handle (drop (nat (bodyLen h)) rest1)) =
      bindG (readPacket handle' h rest1) (\<lambda>_. stream_loop handle' (drop (nat (bodyLen h)) rest1))"
    if "ReadHeader rest = Ret (h, rest1)" for h rest1
  proof -
    have "header_ok h" using ReadHeader_inv[OF that] by blast
    then have "readPacket handle h rest1 = readPacket handle' h rest1"
      using "1.prems" by (intro readPacket_authentic)
    moreover have "stream_loop handle (drop (nat (bodyLen h)) rest1) = stream_loop handle' (drop (nat (bodyLen h)) rest1)"
      using "1.IH" "1.prems" that by blast
    ultimately show ?thesis by simp
  qed
  then have "(case ReadHeader rest of
       Ret (h, rest1) \<Rightarrow> bindG (readPacket handle h rest1) (\<lambda>_. stream_loop handle (drop (nat (bodyLen h)) rest1))
     | _ \<Rightarrow> retG ()) = (case ReadHeader rest of
       Ret (h, rest1) \<Rightarrow> bindG (readPacket handle' h rest1) (\<lambda>_. stream_loop handle' (drop (nat (bodyLen h)) rest1))
     | _ \<Rightarrow> retG ())"
    by (auto split: res.splits prod.splits)
  then show ?case
    unfolding stream_loop.simps[of handle rest] stream_loop.simps[of handle' rest] by (simp only:)
qed

lemma keeps_readPacket:
  assumes "file_pred I" "\<And>body. keeps I (handle h body)" "\<And>d x. I d \<Longrightarrow> I (d\<lparr>recoverySetID := x\<rparr>)"
  shows "keeps I (readPacket handle h rest)"
  unfolding readPacket_def using assms by (intro keeps keeps_onRoot keeps_admit) auto

lemma keeps_stream_loop:
  assumes "file_pred I" "\<And>h body. authentic h body \<Longrightarrow> keeps I (handle h body)" "\<And>d x. I d \<Longrightarrow> I (d\<lparr>recoverySetID := x\<rparr>)"
  shows "keeps I (stream_loop handle rest)"
proof -
  define handle' where "handle' h body = (if authentic h body then handle h body else retG ())" for h body
  have h': "keeps I (handle' h body)" for h body using assms(2) by (simp add: handle'_def keeps)
  have "keeps I (stream_loop handle' rest)"
    using h'
  proof (induction handle' rest rule: stream_loop.induct)
    case (1 handle' rest)
    show ?case
      unfolding stream_loop.simps[of handle' rest]
      by (intro keeps keeps_onRoot assms(1) reads_ops)
        (auto split: res.splits prod.splits intro!: keeps keeps_readPacket assms(1,3) 1)
  qed
  moreover have "stream_loop handle rest = stream_loop handle' rest"
    by (rule stream_loop_authentic) (simp add: handle'_def)
  ultimately show ?thesis by simp
qed

lemma keeps_stream:
  assumes "file_pred I" "\<And>h body. authentic h body \<Longrightarrow> keeps I (handle h body)" "\<And>d x. I d \<Longrightarrow> I (d\<lparr>recoverySetID := x\<rparr>)"
  shows "keeps I (streamPAR2Packets fn handle)"
  unfolding streamPAR2Packets_def
  by (intro keeps keeps_onRoot assms(1) reads_ops keeps_stream_loop) (use assms in auto)


section \<open>What a loaded set looks like\<close>

definition safe_name :: "u8 \<Rightarrow> bytes \<Rightarrow> bool" where
  "safe_name sep p \<longleftrightarrow> (\<exists>q. p = FromSlash sep q \<and> \<not> IsAbs q \<and> q \<noteq> [] \<and> \<not> (1 < length q \<and> q ! 1 = 0x3a) \<and>
     dotdot \<notin> set (split_slash q) \<and> [] \<notin> set (split_slash q))"

definition file_ok :: "u8 \<Rightarrow> FileDescPacket \<Rightarrow> bool" where
  "file_ok sep f \<longleftrightarrow> length (fd_FileID f) = 16 \<and> 0 < ByteCount f \<and> ByteCount f < 2 ^ 63 \<and> safe_name sep (Filename f)"

definition dec_ok :: "Decoder \<Rightarrow> bool" where
  "dec_ok d \<longleftrightarrow>
     sliceByteCount d mod 4 = 0 \<and> sliceByteCount d < 2 ^ 63 \<and>
     distinct (map fd_FileID (protectedFiles d)) \<and>
     (\<forall>f\<in>set (protectedFiles d). file_ok (separator (root d)) f) \<and>
     distinct (map fst (fileChecksums d)) \<and>
     (\<forall>(i, p)\<in>set (fileChecksums d). ifsc_ok p \<and> ifsc_FileID p = i) \<and>
     distinct (map fst (parityShards d)) \<and> (\<forall>e\<in>fst ` set (parityShards d). e \<le> 32767) \<and>
     distinct (map fst (parityFileBlocks d)) \<and>
     sum_list (map snd (parityFileBlocks d)) = length (parityShards d)"

lemma file_pred_dec_ok: "file_pred dec_ok"
  unfolding file_pred_def
proof (intro allI impI)
  fix d w assume "dec_ok d" "same_files (root d) w"
  then show "dec_ok (d\<lparr>root := w\<rparr>)" unfolding dec_ok_def same_files_def by simp
qed

lemma ParseMainPacket_slice:
  assumes "ParseMainPacket body = Ret p"
  shows "0 < SliceByteCount p \<and> SliceByteCount p mod 4 = 0 \<and> SliceByteCount p < 2 ^ 63"
proof -
  define s :: u64 where "s = le_word (take 8 body)"
  have g: "\<not> (s = 0 \<or> s mod 4 \<noteq> 0 \<or> s > maxInt)" "SliceByteCount p = unat s"
    using assms unfolding ParseMainPacket_def Let_def s_def[symmetric] bindR_Ret_iff if_Ret_iff res.inject by auto
  have "unat s mod 4 = 0" using g(1) unat_mod_4[of s] by simp
  moreover have "unat s \<noteq> 0" using g(1) by (simp add: unat_eq_0)
  moreover have "unat s < 2 ^ 63" using g(1) by (simp add: maxInt_def word_less_nat_alt)
  ultimately show ?thesis using g(2) by simp
qed

lemma file_ok_parsed: "ParseFileDescPacket sep body = Ret (Some p) \<Longrightarrow> file_ok sep p"
  using ParseFileDescPacket_inv[of sep body p] DefangPath_safe[of sep "DecodeNullPaddedASCIIString (drop 56 body)" "Filename p"]
  unfolding file_ok_def safe_name_def by (metis length_md5 computeFileID_def)

lemma update_new: "map_of al k = None \<Longrightarrow> AList.update k v al = al @ [(k, v)]"
  by (induction al) (auto split: if_splits)

lemma sum_count_of:
  "distinct (map fst al) \<Longrightarrow> sum_list (map snd (AList.update k (count_of al k + 1) al)) = sum_list (map snd al) + 1"
proof (induction al)
  case (Cons kv al)
  show ?case
  proof (cases "fst kv = k")
    case False
    then have "count_of (kv # al) k = count_of al k" by (cases kv) (simp add: count_of_def)
    with Cons False show ?thesis by (cases kv) simp
  qed (use Cons in \<open>cases kv; simp add: count_of_def\<close>)
qed (simp add: count_of_def)

lemma storeRecovery_ok:
  assumes "dec_ok d" "ParseRecoveryPacket body = Ret p"
  shows "dec_ok (storeRecovery p fn d)"
proof (cases "map_of (parityShards d) (Exponent p)")
  case None
  have e: "Exponent p \<le> 32767" using ParseRecoveryPacket_inv[OF assms(2)] by (simp add: recovery_ok_def)
  have "Exponent p \<notin> fst ` set (parityShards d)" using None by (simp add: map_of_eq_None_iff)
  then show ?thesis
    using assms(1) None e sum_count_of[of "parityFileBlocks d" fn]
    unfolding dec_ok_def storeRecovery_def
    by (auto simp: update_new distinct_update)
qed (use assms(1) in \<open>simp add: storeRecovery_def\<close>)

lemma keeps_liftR_bind:
  assumes "\<And>x. r = Ret x \<Longrightarrow> keeps I (f x)"
  shows "keeps I (bindG (liftR r) f)"
  using assms by (cases r) (auto simp: keeps_def bindG_def liftR_def)

text \<open>The four kinds of packets.\<close>

lemma main_packet_ok: "dec_ok d \<Longrightarrow> ParseMainPacket body = Ret p \<Longrightarrow> dec_ok (d\<lparr>sliceByteCount := SliceByteCount p\<rparr>)"
  using ParseMainPacket_slice[of body p] unfolding dec_ok_def by simp

lemma file_packet_ok:
  assumes "dec_ok d" "ParseFileDescPacket (separator (root d)) body = Ret (Some p)"
    "\<not> list_ex (\<lambda>f. fd_FileID f = fd_FileID p) (protectedFiles d)"
  shows "dec_ok (d\<lparr>protectedFiles := protectedFiles d @ [p]\<rparr>)"
proof -
  have "fd_FileID p \<notin> fd_FileID ` set (protectedFiles d)" using assms(3) by (auto simp: list_ex_iff)
  then show ?thesis using file_ok_parsed[OF assms(2)] assms(1) unfolding dec_ok_def by simp
qed

lemma ifsc_packet_ok:
  assumes "dec_ok d" "ParseIFSCPacket body = Ret p"
  shows "dec_ok (d\<lparr>fileChecksums := AList.update (ifsc_FileID p) p (fileChecksums d)\<rparr>)"
proof -
  have d: "distinct (map fst (fileChecksums d))" "\<forall>(i, q)\<in>set (fileChecksums d). ifsc_ok q \<and> ifsc_FileID q = i"
    using assms(1) unfolding dec_ok_def by blast+
  have p: "ifsc_ok p" using ParseIFSCPacket_inv[OF assms(2)] by blast
  let ?u = "AList.update (ifsc_FileID p) p (fileChecksums d)"
  have u: "distinct (map fst ?u)" using d(1) by (rule distinct_update)
  have "ifsc_ok q \<and> ifsc_FileID q = i" if "(i, q) \<in> set ?u" for i q
  proof -
    have "((map_of (fileChecksums d))(ifsc_FileID p \<mapsto> p)) i = Some q"
      using that u by (simp add: update_conv' flip: map_of_eq_Some_iff)
    then show ?thesis using p d(2) by (auto split: if_splits dest!: map_of_SomeD)
  qed
  then show ?thesis using assms(1) u unfolding dec_ok_def by auto
qed

lemma keeps_handlePacket: "keeps dec_ok (handlePacket fn h body)"
proof -
  have main: "keeps dec_ok (bindG (liftR (ParseMainPacket body)) (\<lambda>p. modG (\<lambda>d. d\<lparr>sliceByteCount := SliceByteCount p\<rparr>)))"
    by (intro keeps_liftR_bind keeps_mod main_packet_ok)
  have fdesc: "keeps dec_ok (bindG (getG (\<lambda>d. separator (root d))) (\<lambda>sep. bindG (liftR (ParseFileDescPacket sep body)) (\<lambda>r.
      case r of None \<Rightarrow> retG () | Some p \<Rightarrow> modG (\<lambda>d.
                if list_ex (\<lambda>f. fd_FileID f = fd_FileID p) (protectedFiles d) then d
                else d\<lparr>protectedFiles := protectedFiles d @ [p]\<rparr>))))"
    unfolding keeps_def
    by (auto simp: go_defs intro: file_packet_ok split: res.splits option.splits)
  have ifsc: "keeps dec_ok (bindG (liftR (ParseIFSCPacket body)) (\<lambda>p.
          modG (\<lambda>d. d\<lparr>fileChecksums := AList.update (ifsc_FileID p) p (fileChecksums d)\<rparr>)))"
    by (intro keeps_liftR_bind keeps_mod ifsc_packet_ok)
  have rec: "keeps dec_ok (bindG (liftR (ParseRecoveryPacket body)) (\<lambda>p. modG (storeRecovery p fn)))"
    by (intro keeps_liftR_bind keeps_mod storeRecovery_ok)
  show ?thesis
    unfolding handlePacket_def by (intro keeps_if main fdesc ifsc rec keeps_simple(1))
qed

section \<open>Loading keeps the invariant\<close>

lemma insert_file_set: "set (insert_file f gs) = insert f (set gs)"
  by (induction f gs rule: insert_file.induct) auto

lemma sort_files_set: "set (sort_files fs) = set fs"
  by (induction fs) (simp_all add: sort_files_def insert_file_set)

lemma insert_file_distinct:
  "distinct (map fd_FileID (insert_file f gs)) \<longleftrightarrow> fd_FileID f \<notin> fd_FileID ` set gs \<and> distinct (map fd_FileID gs)"
  by (induction f gs rule: insert_file.induct) (auto simp: insert_file_set)

lemma sort_files_distinct: "distinct (map fd_FileID (sort_files fs)) \<longleftrightarrow> distinct (map fd_FileID fs)"
  by (induction fs) (simp_all add: sort_files_def insert_file_distinct sort_files_set[unfolded sort_files_def])

definition files_sorted :: "FileDescPacket list \<Rightarrow> bool" where
  "files_sorted fs \<longleftrightarrow> sorted_wrt (\<lambda>a b. FileIDLess (fd_FileID a) (fd_FileID b)) fs"

lemma insert_file_sorted:
  assumes "\<forall>g\<in>set (f # gs). length (fd_FileID g) = 16" "fd_FileID f \<notin> fd_FileID ` set gs" "files_sorted gs"
  shows "files_sorted (insert_file f gs)"
  using assms
proof (induction f gs rule: insert_file.induct)
  case (2 f g gs)
  have lt: "FileIDLess (fd_FileID a) (fd_FileID b) \<longleftrightarrow> le_nat (fd_FileID a) < le_nat (fd_FileID b)"
    if "a \<in> set (f # g # gs)" "b \<in> set (f # g # gs)" for a b
    using that 2(2) by (intro FileIDLess_iff) auto
  show ?case
  proof (cases "FileIDLess (fd_FileID g) (fd_FileID f)")
    case True
    then show ?thesis using 2 by (auto simp: files_sorted_def insert_file_set)
  next
    case False
    have "le_nat (fd_FileID f) \<noteq> le_nat (fd_FileID g)"
      using 2(2,3) le_nat_inject[of "fd_FileID f" "fd_FileID g"] by auto
    then have "le_nat (fd_FileID f) < le_nat (fd_FileID g)" using False lt[of g f] by simp
    moreover have "\<forall>b\<in>set gs. le_nat (fd_FileID g) < le_nat (fd_FileID b)"
      using 2(4) lt[of g] by (auto simp: files_sorted_def)
    ultimately have "\<forall>b\<in>set (g # gs). FileIDLess (fd_FileID f) (fd_FileID b)" using lt[of f] by force
    then show ?thesis using False 2(4) by (simp add: files_sorted_def)
  qed
qed (simp add: files_sorted_def)

lemma sort_files_sorted:
  "\<forall>g\<in>set fs. length (fd_FileID g) = 16 \<Longrightarrow> distinct (map fd_FileID fs) \<Longrightarrow> files_sorted (sort_files fs)"
proof (induction fs)
  case (Cons f fs)
  then have "files_sorted (sort_files fs)" by simp
  then have "files_sorted (insert_file f (sort_files fs))"
    using Cons.prems by (intro insert_file_sorted) (auto simp: sort_files_set)
  then show ?case by (simp add: sort_files_def)
qed (simp add: sort_files_def files_sorted_def)

text \<open>A set in the middle of loading, and a loaded one, in a sandbox whose files stay as they were.\<close>

definition loading :: "world \<Rightarrow> Decoder \<Rightarrow> bool" where
  "loading w d \<longleftrightarrow> dec_ok d \<and> same_files w (root d)"

definition loaded :: "world \<Rightarrow> Decoder \<Rightarrow> bool" where
  "loaded w d \<longleftrightarrow> dec_ok d \<and> same_files w (root d) \<and> files_sorted (protectedFiles d)"

lemma file_pred_loading: "file_pred (loading w)" "file_pred (loaded w)"
proof -
  have "loading w (d\<lparr>root := w'\<rparr>)" if "loading w d" "same_files (root d) w'" for d w'
    using that file_pred_dec_ok same_files_trans[of w "root d" w'] by (simp add: file_pred_def loading_def)
  note l = this
  show "file_pred (loading w)" unfolding file_pred_def using l by blast
  show "file_pred (loaded w)"
    unfolding file_pred_def using l by (auto simp: loading_def loaded_def)
qed

lemma handlePacket_root: "root (snd (handlePacket fn h body d)) = root d"
proof -
  have "keeps (\<lambda>d'. root d' = root d) (handlePacket fn h body)"
    unfolding handlePacket_def by (intro keeps) (auto simp: storeRecovery_def)
  then show ?thesis by (simp add: keeps_def)
qed

lemma keeps_index: "keeps (loading w) (streamPAR2Packets fn (handlePacket fn))"
proof (rule keeps_stream[OF file_pred_loading(1)])
  show "keeps (loading w) (handlePacket fn h body)" for h body
    using keeps_handlePacket[of fn h body] handlePacket_root[of fn h body] by (simp add: keeps_def loading_def)
qed (simp add: loading_def dec_ok_def)

lemma storeRecovery_fields:
  "root (storeRecovery p fn d) = root d" "protectedFiles (storeRecovery p fn d) = protectedFiles d"
  by (simp_all add: storeRecovery_def)

lemma keeps_single_volume: "keeps (loaded w) (loadSingleVolumeFile fn)"
  unfolding loadSingleVolumeFile_def
proof (rule keeps_stream[OF file_pred_loading(2)])
  show "keeps (loaded w) (handleVolumePacket fn h body)" for h body
    unfolding handleVolumePacket_def by (intro keeps_if keeps_liftR_bind keeps_mod keeps_simple)
      (auto simp: loaded_def storeRecovery_fields intro: storeRecovery_ok)
qed (simp add: loaded_def dec_ok_def)

lemma keeps_volumes: "keeps (loaded w) (loadVolumeFiles fn)"
  unfolding loadVolumeFiles_def loadVolume_def
  by (intro keeps keeps_onRoot file_pred_loading(2) reads_ops keeps_single_volume)

lemma newDecoderState_ok: "dec_ok (newDecoderState e opts w)" "root (newDecoderState e opts w) = w"
  by (simp_all add: newDecoderState_def dec_ok_def)

lemma loadIndexFile_loaded:
  assumes "loadIndexFile fn d = (Ret x, d')" "loading w d"
  shows "loaded w d'"
proof -
  obtain y d1 where d1: "streamPAR2Packets fn (handlePacket fn) d = (Ret y, d1)"
    "d' = d1\<lparr>protectedFiles := sort_files (protectedFiles d1)\<rparr>"
    using assms(1) by (auto simp: loadIndexFile_def go_defs split: prod.splits res.splits)
  have "loading w d1" using keeps_D[OF keeps_index assms(2) d1(1)] .
  then have l: "dec_ok d1" "same_files w (root d1)" by (simp_all add: loading_def)
  have f: "distinct (map fd_FileID (protectedFiles d1))" "\<forall>f\<in>set (protectedFiles d1). file_ok (separator (root d1)) f"
    using l(1) unfolding dec_ok_def by blast+
  have "files_sorted (sort_files (protectedFiles d1))"
    using f by (intro sort_files_sorted) (auto simp: file_ok_def)
  moreover have "dec_ok d'"
    using l(1) f unfolding d1(2) dec_ok_def by (simp add: sort_files_set sort_files_distinct)
  ultimately show ?thesis using l(2) d1(2) by (simp add: loaded_def)
qed

lemma NewDecoder_loaded: "NewDecoder e opts fn w = Ret d \<Longrightarrow> loaded w d"
proof -
  assume "NewDecoder e opts fn w = Ret d"
  then obtain x w' y d1 z where s: "bindG sysCall (\<lambda>_. sysCall) w = (Ret x, w')"
    "loadIndexFile fn (newDecoderState e opts w') = (Ret y, d1)" "loadVolumeFiles fn d1 = (Ret z, d)"
    unfolding NewDecoder_def by (auto simp: bindG_def split: prod.splits res.splits)
  have "same_files w w'"
    using s(1) by (auto simp: go_defs same_files_def split: option.splits prod.splits)
  then have "loading w (newDecoderState e opts w')" by (simp add: loading_def newDecoderState_ok)
  then have "loaded w d1" using loadIndexFile_loaded[OF s(2)] by blast
  then show ?thesis using keeps_D[OF keeps_volumes _ s(3)] by blast
qed

section \<open>Streaming a file of packets\<close>

definition packet_bytes :: "Header \<times> bytes \<Rightarrow> bytes" where
  "packet_bytes p = header_bytes (fst p) @ snd p"

text \<open>A sandbox in which no call fails and nothing is cancelled.\<close>

definition quiet :: "world \<Rightarrow> bool" where
  "quiet w \<longleftrightarrow> (\<forall>k. faults w k = None) \<and> cancelAt w = None"

definition later :: "nat \<Rightarrow> Decoder \<Rightarrow> Decoder" where
  "later n d = d\<lparr>root := (root d)\<lparr>ticks := ticks (root d) + n\<rparr>\<rparr>"

lemma later_simps [simp]:
  "quiet (root (later n d)) \<longleftrightarrow> quiet (root d)" "recoverySetID (later n d) = recoverySetID d"
  "maxPacketSize (later n d) = maxPacketSize d" "separator (root (later n d)) = separator (root d)"
  "same_files (root d) (root (later n d))" "later n (later m d) = later (m + n) d"
  "(later n d)\<lparr>recoverySetID := x\<rparr> = later n (d\<lparr>recoverySetID := x\<rparr>)"
  by (simp_all add: later_def quiet_def same_files_def)

lemma later_bind:
  "quiet (root d) \<Longrightarrow> bindG (onRoot (sysRead (\<lambda>_. r))) f d =
     (case r of Ret x \<Rightarrow> f x (later 1 d) | Error e \<Rightarrow> (Error e, later 1 d) | Panic p \<Rightarrow> (Panic p, later 1 d))"
  by (simp add: bindG_def onRoot_def sysRead_def quiet_def later_def tick_def split: res.splits)

lemma later_ctx: "quiet (root d) \<Longrightarrow> bindG (onRoot ctxErr) f d = f False (later 1 d)"
  by (simp add: bindG_def onRoot_def ctxErr_def quiet_def later_def tick_def)

lemma later_try:
  "quiet (root d) \<Longrightarrow> tryG (onRoot (sysRead (\<lambda>_. r))) f h d =
     (case r of Ret x \<Rightarrow> f x (later 1 d) | Error e \<Rightarrow> h e (later 1 d) | Panic p \<Rightarrow> (Panic p, later 1 d))"
  by (simp add: tryG_def onRoot_def sysRead_def quiet_def later_def tick_def split: res.splits)

lemma bodyLen_eq:
  assumes "authentic h body" "length body < 2 ^ 63"
  shows "bodyLen h = int (length body)"
proof -
  have l: "unat (Length h) = 64 + length body" "header_ok h" using assms(1) by (auto simp: authentic_def)
  then have "unat (Length h - 64) = length body" by (simp add: header_ok_def unat_sub word_le_nat_alt)
  then have "uint (Length h - 64) = int (length body)" by (metis uint_nat)
  then show ?thesis using assms(2)
    by (simp add: bodyLen_def sint_uint signed_take_bit_int_eq_self)
qed

lemma setID_same: "recoverySetID d = x \<Longrightarrow> d\<lparr>recoverySetID := x\<rparr> = (d :: Decoder)"
  by auto

lemma stream_step:
  assumes "quiet (root d)" "authentic h body" "length body < 2 ^ 63" "int (length body) \<le> maxPacketSize d"
    "RecoverySetID h \<noteq> zeroID" "recoverySetID d \<in> {zeroID, RecoverySetID h}"
  shows "stream_loop handle (packet_bytes (h, body) @ rest) d =
    bindG (handle h body) (\<lambda>_. stream_loop handle rest) (later 3 (d\<lparr>recoverySetID := RecoverySetID h\<rparr>))"
proof -
  have rh: "ReadHeader (packet_bytes (h, body) @ rest) = Ret (h, body @ rest)"
    using ReadHeader_bytes[of h "body @ rest"] assms(2) by (simp add: packet_bytes_def authentic_def)
  note bl = bodyLen_eq[OF assms(2,3)]
  have adm: "admitPacket handle h body (later 3 d) = handle h body (later 3 (d\<lparr>recoverySetID := RecoverySetID h\<rparr>))"
  proof (cases "recoverySetID d = zeroID")
    case True
    then show ?thesis using assms(2,5) by (simp add: admitPacket_def authentic_def go_defs)
  next
    case False
    then have "recoverySetID d = RecoverySetID h" using assms(6) by simp
    note same = setID_same[OF this]
    show ?thesis unfolding same using \<open>recoverySetID d = RecoverySetID h\<close> assms(2,5)
      by (simp add: admitPacket_def authentic_def go_defs)
  qed
  have rp: "readPacket handle h (body @ rest) (later 2 d) = admitPacket handle h body (later 3 d)"
    using assms(1,4) bl by (simp add: readPacket_def readFull_def later_bind bindG_def[of "getG maxPacketSize"] getG_def)
  have "stream_loop handle (packet_bytes (h, body) @ rest) d =
      bindG (readPacket handle h (body @ rest)) (\<lambda>_. stream_loop handle rest) (later 2 d)"
    unfolding stream_loop.simps[of handle "packet_bytes (h, body) @ rest"]
    using assms(1) bl by (simp add: later_ctx later_try rh numeral_2_eq_2)
  also have "\<dots> = bindG (handle h body) (\<lambda>_. stream_loop handle rest) (later 3 (d\<lparr>recoverySetID := RecoverySetID h\<rparr>))"
    unfolding bindG_def rp adm ..
  finally show ?thesis .
qed

lemma stream_end: "quiet (root d) \<Longrightarrow> stream_loop handle [] d = (Ret (), later 2 d)"
  unfolding stream_loop.simps[of handle "[]"] by (simp add: later_ctx later_try ReadHeader_def retG_def numeral_2_eq_2)

text \<open>Handlers that do not look at the clock and leave the size limit alone.\<close>

definition clock_free :: "(Header \<Rightarrow> bytes \<Rightarrow> unit dec) \<Rightarrow> bool" where
  "clock_free handle \<longleftrightarrow> (\<forall>h body d n. handle h body (later n d) = apsnd (later n) (handle h body d) \<and>
     maxPacketSize (snd (handle h body d)) = maxPacketSize d \<and> root (snd (handle h body d)) = root d \<and>
     recoverySetID (snd (handle h body d)) = recoverySetID d)"

lemma forG_later:
  assumes "clock_free handle"
  shows "forG (\<lambda>(h, body). handle h body) ps (later n d) = apsnd (later n) (forG (\<lambda>(h, body). handle h body) ps d)"
proof (induction ps arbitrary: d)
  case (Cons p ps)
  obtain h body where p: "p = (h, body)" by (cases p)
  have "handle h body (later n d) = apsnd (later n) (handle h body d)" using assms by (simp add: clock_free_def)
  then show ?case using Cons p by (cases "handle h body d"; cases "fst (handle h body d)") (auto simp: bindG_def)
qed simp

definition good_packets :: "bytes \<Rightarrow> int \<Rightarrow> (Header \<times> bytes) list \<Rightarrow> bool" where
  "good_packets sid limit ps \<longleftrightarrow> sid \<noteq> zeroID \<and> (\<forall>(h, body)\<in>set ps. authentic h body \<and> RecoverySetID h = sid \<and>
     length body < 2 ^ 63 \<and> int (length body) \<le> limit)"

lemma stream_loop_packets:
  assumes "clock_free handle" "good_packets sid (maxPacketSize d) ps" "quiet (root d)" "recoverySetID d \<in> {zeroID, sid}"
  shows "\<exists>n. stream_loop handle (concat (map packet_bytes ps)) d =
    apsnd (later n) (forG (\<lambda>(h, body). handle h body) ps
      (if ps = [] then d else d\<lparr>recoverySetID := sid\<rparr>))"
  using assms(2-4)
proof (induction ps arbitrary: d)
  case Nil
  then show ?case using stream_end[of d handle] by auto
next
  case (Cons p ps)
  obtain h body where p: "p = (h, body)" by (cases p)
  define d1 where "d1 = d\<lparr>recoverySetID := sid\<rparr>"
  have a: "authentic h body" "length body < 2 ^ 63" "int (length body) \<le> maxPacketSize d" "RecoverySetID h = sid" "sid \<noteq> zeroID"
    using Cons.prems(1) p by (auto simp: good_packets_def)
  have step: "stream_loop handle (concat (map packet_bytes (p # ps))) d =
      bindG (handle h body) (\<lambda>_. stream_loop handle (concat (map packet_bytes ps))) (later 3 d1)"
    using stream_step[OF Cons.prems(2) a(1-3), of handle "concat (map packet_bytes ps)"] a(4,5) Cons.prems(3)
    by (simp add: p d1_def)
  obtain r d2 where h: "handle h body d1 = (r, d2)" by (cases "handle h body d1")
  have cf: "handle h body (later 3 d1) = (r, later 3 d2)" "maxPacketSize d2 = maxPacketSize d1" "root d2 = root d1"
    "recoverySetID d2 = recoverySetID d1"
    using assms(1) h unfolding clock_free_def by (metis apsnd_conv snd_conv)+
  show ?case
  proof (cases r)
    case (Ret x)
    have d2: "(later 3 d2)\<lparr>recoverySetID := sid\<rparr> = later 3 d2"
      using cf(4) by (intro setID_same) (simp add: d1_def)
    have "good_packets sid (maxPacketSize (later 3 d2)) ps" "quiet (root (later 3 d2))" "recoverySetID (later 3 d2) \<in> {zeroID, sid}"
      using Cons.prems cf(2-4) by (auto simp: good_packets_def d1_def)
    from Cons.IH[OF this] obtain n where "stream_loop handle (concat (map packet_bytes ps)) (later 3 d2) =
        apsnd (later n) (forG (\<lambda>(h, body). handle h body) ps (later 3 d2))" unfolding d2 if_cancel by blast
    then have "stream_loop handle (concat (map packet_bytes ps)) (later 3 d2) =
        apsnd (later (3 + n)) (forG (\<lambda>(h, body). handle h body) ps d2)"
      by (cases "forG (\<lambda>(h, body). handle h body) ps d2") (simp add: forG_later[OF assms(1)])
    then show ?thesis using step cf(1) Ret h p by (auto simp: bindG_def simp flip: d1_def)
  qed (use step cf(1) h p in \<open>auto simp: bindG_def simp flip: d1_def\<close>)
qed

definition commutes :: "nat \<Rightarrow> 'a dec \<Rightarrow> bool" where
  "commutes n m \<longleftrightarrow> (\<forall>d. m (later n d) = apsnd (later n) (m d))"

lemma commutes_rules:
  "commutes n (retG x)" "commutes n (errG e)" "commutes n (liftR r)"
  "(\<And>d. f (later n d) = f d) \<Longrightarrow> commutes n (getG f)"
  "(\<And>d. g (later n d) = later n (g d)) \<Longrightarrow> commutes n (modG g)"
  by (simp_all add: commutes_def go_defs)

lemma commutes_bind: "commutes n m \<Longrightarrow> (\<And>x. commutes n (f x)) \<Longrightarrow> commutes n (bindG m f)"
  unfolding commutes_def
proof (intro allI)
  fix d assume "\<forall>d. m (later n d) = apsnd (later n) (m d)" "\<And>x. \<forall>d. f x (later n d) = apsnd (later n) (f x d)"
  then show "bindG m f (later n d) = apsnd (later n) (bindG m f d)"
    by (cases "m d"; cases "fst (m d)") (auto simp: bindG_def)
qed

lemma commutes_cases:
  "commutes n m \<Longrightarrow> commutes n m' \<Longrightarrow> commutes n (if b then m else m')"
  "commutes n m \<Longrightarrow> (\<And>y. commutes n (g y)) \<Longrightarrow> commutes n (case x of None \<Rightarrow> m | Some y \<Rightarrow> g y)"
  by (simp_all split: option.splits)

text \<open>The contract of a packet handler, and what it gives for a stream of packets.\<close>

locale packet_handler =
  fixes handle :: "Header \<Rightarrow> bytes \<Rightarrow> unit dec"
  assumes handler: "clock_free handle"
begin

lemma stream_packets:
  assumes "quiet (root d)" "dir (root d) fn = Some i" "inodes (root d) i = concat (map packet_bytes ps)"
    "int (length (inodes (root d) i)) \<le> maxFileSize d" "good_packets sid (maxPacketSize d) ps"
    "recoverySetID d \<in> {zeroID, sid}"
  shows "\<exists>n. streamPAR2Packets fn handle d = apsnd (later n)
    (forG (\<lambda>(h, body). handle h body) ps (if ps = [] then d else d\<lparr>recoverySetID := sid\<rparr>))"
proof -
  have f: "faults (root d) k = None" for k using assms(1) by (simp add: quiet_def)
  have "streamPAR2Packets fn handle d = stream_loop handle (concat (map packet_bytes ps)) (later 2 d)"
    using assms(2-4) f by (simp add: streamPAR2Packets_def go_defs onRoot_def later_def)
  moreover obtain n where "stream_loop handle (concat (map packet_bytes ps)) (later 2 d) =
      apsnd (later n) (forG (\<lambda>(h, body). handle h body) ps
        (if ps = [] then later 2 d else (later 2 d)\<lparr>recoverySetID := sid\<rparr>))"
    using stream_loop_packets[OF handler, of sid "later 2 d" ps] assms(1,5,6) by auto
  moreover have "(if ps = [] then later 2 d else (later 2 d)\<lparr>recoverySetID := sid\<rparr>) =
      later 2 (if ps = [] then d else d\<lparr>recoverySetID := sid\<rparr>)" by simp
  ultimately have "streamPAR2Packets fn handle d = apsnd (later n) (apsnd (later 2)
      (forG (\<lambda>(h, body). handle h body) ps (if ps = [] then d else d\<lparr>recoverySetID := sid\<rparr>)))"
    by (simp only: forG_later[OF handler])
  then show ?thesis
    by (cases "forG (\<lambda>(h, body). handle h body) ps (if ps = [] then d else d\<lparr>recoverySetID := sid\<rparr>)") auto
qed

end

lemma clock_free_handlePacket: "clock_free (handlePacket fn)"
proof -
  have "commutes n (handlePacket fn h body)" for h body n
    unfolding handlePacket_def
    by (intro commutes_rules commutes_bind commutes_cases) (simp_all add: storeRecovery_def later_def)
  moreover have "keeps (\<lambda>d'. maxPacketSize d' = maxPacketSize d \<and> recoverySetID d' = recoverySetID d) (handlePacket fn h body)" for h body d
    unfolding handlePacket_def by (intro keeps) (auto simp: storeRecovery_def)
  ultimately show ?thesis
    using handlePacket_root unfolding clock_free_def keeps_def commutes_def by blast
qed


lemma clock_free_volume: "clock_free (handleVolumePacket fn)"
proof -
  have "commutes n (handleVolumePacket fn h body)" for h body n
    unfolding handleVolumePacket_def
    by (intro commutes_rules commutes_bind commutes_cases) (simp_all add: storeRecovery_def later_def)
  moreover have "keeps (\<lambda>d'. maxPacketSize d' = maxPacketSize d \<and> recoverySetID d' = recoverySetID d \<and> root d' = root d)
      (handleVolumePacket fn h body)" for h body d
    unfolding handleVolumePacket_def by (intro keeps) (auto simp: storeRecovery_def)
  ultimately show ?thesis unfolding clock_free_def keeps_def commutes_def by blast
qed

interpretation index: packet_handler "handlePacket fn" for fn
  by unfold_locales (rule clock_free_handlePacket)

interpretation volume: packet_handler "handleVolumePacket fn" for fn
  by unfold_locales (rule clock_free_volume)

section \<open>Counts, names and candidates\<close>

definition all_locations :: "Decoder \<Rightarrow> shardLocation list" where
  "all_locations d = concat (map (ShardLocations \<circ> snd) (fileIntegrity d))"

lemma count_locations:
  fixes sc :: ShardCounts
  shows "fold (\<lambda>loc sc. if Offset loc = -1 then sc\<lparr>UnusableDataShardCount := UnusableDataShardCount sc + 1\<rparr>
            else sc\<lparr>UsableDataShardCount := UsableDataShardCount sc + 1\<rparr>) locs sc =
   sc\<lparr>UsableDataShardCount := UsableDataShardCount sc + length (filter (\<lambda>l. Offset l \<noteq> -1) locs),
      UnusableDataShardCount := UnusableDataShardCount sc + length (filter (\<lambda>l. Offset l = -1) locs)\<rparr>"
  by (induction locs arbitrary: sc) simp_all

lemma count_state_fields:
  fixes sc :: ShardCounts
  shows "UsableDataShardCount (count_state st sc) =
      UsableDataShardCount sc + length (filter (\<lambda>l. Offset l \<noteq> -1) (ShardLocations st))"
    "UnusableDataShardCount (count_state st sc) =
      UnusableDataShardCount sc + length (filter (\<lambda>l. Offset l = -1) (ShardLocations st))"
    "RenamesNeeded (count_state st sc) = RenamesNeeded sc + (if RenameSource st \<noteq> [] then 1 else 0)"
    "FilesNeedingRebuild (count_state st sc) =
      FilesNeedingRebuild sc + (if RenameSource st = [] \<and> needsRebuild st then 1 else 0)"
    "UsableParityShardCount (count_state st sc) = UsableParityShardCount sc"
  unfolding count_state_def count_locations Let_def by (cases "RenameSource st = []"; cases "needsRebuild st"; simp)+

lemma fold_count_state:
  fixes sc :: ShardCounts
  defines "f al \<equiv> fold (\<lambda>(_, st). count_state st) al"
  shows "UsableDataShardCount (f al sc) = UsableDataShardCount sc +
         length (filter (\<lambda>l. Offset l \<noteq> -1) (concat (map (ShardLocations \<circ> snd) al)))"
    "UnusableDataShardCount (f al sc) = UnusableDataShardCount sc +
         length (filter (\<lambda>l. Offset l = -1) (concat (map (ShardLocations \<circ> snd) al)))"
    "RenamesNeeded (f al sc) = RenamesNeeded sc + length (filter (\<lambda>(_, st). RenameSource st \<noteq> []) al)"
    "FilesNeedingRebuild (f al sc) = FilesNeedingRebuild sc +
         length (filter (\<lambda>(_, st). RenameSource st = [] \<and> needsRebuild st) al)"
    "UsableParityShardCount (f al sc) = UsableParityShardCount sc"
  unfolding f_def by (induction al arbitrary: sc) (simp_all add: count_state_fields split: prod.splits)

lemma counts_fields:
  "UsableDataShardCount (shardCountsLocked d) = length (filter (\<lambda>l. Offset l \<noteq> -1) (all_locations d))"
  "UnusableDataShardCount (shardCountsLocked d) = length (filter (\<lambda>l. Offset l = -1) (all_locations d))"
  "UsableParityShardCount (shardCountsLocked d) = length (parityShards d)"
  "RenamesNeeded (shardCountsLocked d) = length (filter (\<lambda>(_, st). RenameSource st \<noteq> []) (fileIntegrity d))"
  "FilesNeedingRebuild (shardCountsLocked d) =
     length (filter (\<lambda>(_, st). RenameSource st = [] \<and> needsRebuild st) (fileIntegrity d))"
  by (simp_all add: shardCountsLocked_def fold_count_state[of "fileIntegrity d", folded all_locations_def])

lemma RepairNeeded_iff:
  "RepairNeeded (shardCountsLocked d) \<longleftrightarrow> (\<exists>l\<in>set (all_locations d). Offset l = -1) \<or>
     (\<exists>s\<in>set (map snd (fileIntegrity d)). RenameSource s \<noteq> [] \<or> needsRebuild s)"
proof -
  let ?sc = "shardCountsLocked d"
  have "0 < RenamesNeeded ?sc \<or> 0 < FilesNeedingRebuild ?sc \<longleftrightarrow>
      (\<exists>s\<in>set (map snd (fileIntegrity d)). RenameSource s \<noteq> [] \<or> needsRebuild s)"
    unfolding counts_fields by (force simp: filter_empty_conv)
  moreover have "0 < UnusableDataShardCount ?sc \<longleftrightarrow> (\<exists>l\<in>set (all_locations d). Offset l = -1)"
    unfolding counts_fields by (simp add: filter_empty_conv)
  ultimately show ?thesis unfolding RepairNeeded_def by (simp only:)
qed

text \<open>The order of the states does not matter.\<close>

lemma counts_commute: "count_state st (count_state st' sc) = count_state st' (count_state st (sc :: ShardCounts))"
proof -
  have "UnusableParityShardCount (count_state st sc) = UnusableParityShardCount sc" for st and sc :: ShardCounts
    unfolding count_state_def count_locations Let_def by simp
  then show ?thesis by (intro ShardCounts.equality) (simp_all add: count_state_fields)
qed

lemma counts_any_order:
  assumes "mset al = mset al'"
  shows "fold (\<lambda>(_, st). count_state st) al (sc :: ShardCounts) = fold (\<lambda>(_, st). count_state st) al' sc"
proof -
  let ?f = "\<lambda>(_, st). count_state st :: ShardCounts \<Rightarrow> ShardCounts"
  have "fold ?f al = fold ?f al'"
    by (rule fold_multiset_equiv[OF _ assms]) (auto simp: fun_eq_iff counts_commute split: prod.splits)
  then show ?thesis by simp
qed

lemma removeVolumeTag_tag:
  assumes "isVolumeTag tag" "dot \<notin> set (tl tag)"
  shows "removeVolumeTag (base @ tag) = base"
proof -
  have vol: "map toLower (take 4 tag) = [0x2e, 0x76, 0x6f, 0x6c]" using assms(1) by (simp add: isVolumeTag_def ascii_def)
  then obtain b t where t: "tag = b # t" "toLower b = 0x2e" by (cases tag) auto
  have "b = dot"
  proof (cases "0x41 \<le> b \<and> b \<le> 0x5a")
    case True
    then have "b + 0x20 = 0x2e" using t(2) by (simp add: toLower_def)
    then have "b = 0x2e - 0x20" by (simp add: eq_diff_eq)
    then show ?thesis using True by simp
  next
    case False
    then have "toLower b = b" unfolding toLower_def by (rule if_not_P)
    then show ?thesis using t(2) by (simp add: dot_def)
  qed
  with t(1) have t: "tag = dot # t" by simp
  have "rev (takeWhile (\<lambda>b. b \<noteq> dot) (rev (base @ tag))) = t"
    using assms(2) t by (simp add: takeWhile_append)
  then show ?thesis using assms(1) t by (simp add: removeVolumeTag_def)
qed

lemma isVolumeTag_no_dot:
  assumes "isVolumeTag tag"
  shows "dot \<notin> set (tl tag)"
proof -
  have low: "toLower dot = dot" by (simp add: toLower_def dot_def)
  have v: "map toLower (take 4 tag) = [0x2e, 0x76, 0x6f, 0x6c]" using assms by (simp add: isVolumeTag_def ascii_def)
  then obtain a b c e where "take 4 tag = [a, b, c, e]" by (auto simp: map_eq_Cons_conv)
  then have t: "tag = a # b # c # e # drop 4 tag" by (metis append_take_drop_id append_Cons append_Nil)
  define r where "r = drop 4 tag"
  note t = t[folded r_def]
  have "b \<noteq> dot" "c \<noteq> dot" "e \<noteq> dot" using v low unfolding t by (auto simp: dot_def)
  moreover have "dot \<notin> set r"
  proof -
    have d: "\<not> isDigit dot" by (simp add: isDigit_def dot_def)
    have "set r = set (takeWhile isDigit r) \<union> set (dropWhile isDigit r)" by (metis set_append takeWhile_dropWhile_id)
    moreover have "dot \<notin> set (takeWhile isDigit r)" using d by (auto dest: set_takeWhileD)
    moreover have "dot \<notin> set (dropWhile isDigit r)"
      using assms d unfolding isVolumeTag_def t Let_def
      by (cases "dropWhile isDigit r") (auto simp: list_all_iff dot_def)
    ultimately show ?thesis by blast
  qed
  ultimately show ?thesis unfolding t by auto
qed

text \<open>A sandbox with one file, in which nothing fails.\<close>

definition one_file :: "name \<Rightarrow> bytes \<Rightarrow> world" where
  "one_file n bs = \<lparr>dir = [n \<mapsto> 0], inodes = (\<lambda>_. bs), nextInode = 1, listing = [], separator = slash, randText = (\<lambda>_. []),
     ticks = 0, faults = (\<lambda>_. None), cancelAt = None\<rparr>"

definition recovery_packet :: "bytes \<Rightarrow> recoveryPacket \<Rightarrow> Header \<times> bytes" where
  "recovery_packet sid p =
     (let body = recovery_body p
      in (\<lparr>Magic = expectedMagic, Length = of_nat (64 + length body),
           Hash = ComputePacketHash sid RecoveryPacketType body, RecoverySetID = sid, Type = RecoveryPacketType\<rparr>, body))"

definition sample_recovery :: recoveryPacket where
  "sample_recovery = \<lparr>Exponent = 3, Data = [1, 2, 3, 4]\<rparr>"

lemma sample_packets: "good_packets (replicate 16 1) limit [recovery_packet (replicate 16 1) sample_recovery]" if "8 \<le> limit"
  using that by (simp add: good_packets_def recovery_packet_def sample_recovery_def Let_def authentic_def header_ok_def
      recovery_body_def RecoveryPacketType_def pad16_def ascii_def ComputePacketHash_def zeroID_def)

section \<open>Properties\<close>

text \<open>A set that \<open>NewDecoder\<close> loads is well formed, whatever the files contain and whichever I/O calls fail: file
  identifiers are distinct and strictly sorted, names are relative and stay below the directory, lengths fit an
  \<open>int\<close>, the slice size is a multiple of four, recovery exponents are at most 32767 and unique, each volume's block
  count adds up to the recovery blocks held, and no file of the sandbox was changed.\<close>

lemma NewDecoder_invariant:
  assumes "NewDecoder e opts fn w = Ret d"
  shows "dec_ok d \<and> files_sorted (protectedFiles d) \<and> same_files w (root d)"
  using NewDecoder_loaded[OF assms] by (simp add: loaded_def)

text \<open>C14. No unauthenticated packet is ever processed: streaming a file gives the same result, from every state and
  in every world, when the handler is replaced by anything else on packets whose magic, length or MD5 does not match.\<close>

theorem only_authentic_packets_are_handled:
  "streamPAR2Packets fn handle =
     streamPAR2Packets fn (\<lambda>h body. if authentic h body then handle h body else other h body)"
proof -
  have "stream_loop handle rest = stream_loop (\<lambda>h body. if authentic h body then handle h body else other h body) rest" for rest
    by (rule stream_loop_authentic) simp
  then have "stream_loop handle = stream_loop (\<lambda>h body. if authentic h body then handle h body else other h body)" by blast
  then show ?thesis unfolding streamPAR2Packets_def by (simp only:)
qed

text \<open>C34. An index file that is a sequence of authentic packets of one set is read to its end, and loading it is handling
  its packets one by one in the order of the file, stopping at the first one that is refused.\<close>

theorem index_file_is_handled_in_order:
  assumes "quiet (root d)" "dir (root d) fn = Some i" "inodes (root d) i = concat (map packet_bytes ps)"
    "int (length (inodes (root d) i)) \<le> maxFileSize d" "good_packets sid (maxPacketSize d) ps"
    "recoverySetID d \<in> {zeroID, sid}"
  shows "\<exists>n. streamPAR2Packets fn (handlePacket fn) d = apsnd (later n)
    (forG (\<lambda>(h, body). handlePacket fn h body) ps (if ps = [] then d else d\<lparr>recoverySetID := sid\<rparr>))"
  using index.stream_packets[OF assms] .

theorem index_file_is_handled_in_order_witness:
  "\<exists>n. streamPAR2Packets [0x61] (handlePacket [0x61])
     (newDecoderState small_env \<lparr>NumGoroutines = 1, MemoryLimit = 1, MaxFileSize = 100, MaxPacketSize = 8\<rparr>
        (one_file [0x61] (packet_bytes (recovery_packet (replicate 16 1) sample_recovery)))) =
   apsnd (later n) (forG (\<lambda>(h, body). handlePacket [0x61] h body) [recovery_packet (replicate 16 1) sample_recovery]
     ((newDecoderState small_env \<lparr>NumGoroutines = 1, MemoryLimit = 1, MaxFileSize = 100, MaxPacketSize = 8\<rparr>
        (one_file [0x61] (packet_bytes (recovery_packet (replicate 16 1) sample_recovery))))\<lparr>recoverySetID := replicate 16 1\<rparr>))"
proof -
  let ?d = "newDecoderState small_env \<lparr>NumGoroutines = 1, MemoryLimit = 1, MaxFileSize = 100, MaxPacketSize = 8\<rparr>
        (one_file [0x61] (packet_bytes (recovery_packet (replicate 16 1) sample_recovery)))"
  have len: "length (packet_bytes (recovery_packet (replicate 16 1) sample_recovery)) = 72"
    by (simp add: packet_bytes_def recovery_packet_def sample_recovery_def recovery_body_def Let_def header_bytes_def
        RecoveryPacketType_def pad16_def ascii_def ComputePacketHash_def length_expectedMagic)
  show ?thesis
    using index_file_is_handled_in_order[of ?d "[0x61]" 0 "[recovery_packet (replicate 16 1) sample_recovery]" "replicate 16 1"]
      len sample_packets
    by (auto simp: newDecoderState_def one_file_def quiet_def)
qed

text \<open>C36. The shard counts are right: usable and unusable data shards partition the locations of all files by whether the
  block was found, renames and rebuilds count the misnamed files and the other damaged files, and the counts do not
  depend on the order in which the map of the states is iterated. A repair is needed exactly when a block is missing
  or a file is damaged or misnamed. It is possible exactly when there are at least as many recovery blocks as blocks
  are missing, and \<open>BlocksNeeded\<close> is exact: with any further recovery blocks, a repair is possible if and only if there are at
  least that many.\<close>

theorem shard_counts_correct:
  "let sc = shardCountsLocked d; states = map snd (fileIntegrity d) in
     UsableDataShardCount sc + UnusableDataShardCount sc = length (all_locations d) \<and>
     UnusableDataShardCount sc = length (filter (\<lambda>l. Offset l = -1) (all_locations d)) \<and>
     RenamesNeeded sc = length (filter (\<lambda>s. RenameSource s \<noteq> []) states) \<and>
     FilesNeedingRebuild sc = length (filter (\<lambda>s. RenameSource s = [] \<and> needsRebuild s) states) \<and>
     (\<forall>al. mset al = mset (fileIntegrity d) \<longrightarrow> shardCountsLocked (d\<lparr>fileIntegrity := al\<rparr>) = sc) \<and>
     (RepairNeeded sc \<longleftrightarrow> (\<exists>l\<in>set (all_locations d). Offset l = -1) \<or> (\<exists>s\<in>set states. RenameSource s \<noteq> [] \<or> needsRebuild s)) \<and>
     (RepairPossible sc \<longleftrightarrow> length (filter (\<lambda>l. Offset l = -1) (all_locations d)) \<le> length (parityShards d)) \<and>
     0 \<le> BlocksNeeded sc \<and>
     (\<forall>extra. RepairPossible (shardCountsLocked (d\<lparr>parityShards := parityShards d @ extra\<rparr>)) \<longleftrightarrow> BlocksNeeded sc \<le> int (length extra))"
proof -
  define sc where "sc = shardCountsLocked d"
  define states where "states = map snd (fileIntegrity d)"
  have "UsableDataShardCount sc + UnusableDataShardCount sc = length (all_locations d)"
    unfolding sc_def counts_fields using sum_length_filter_compl[of "\<lambda>l. Offset l = -1" "all_locations d"] by simp
  moreover have "RenamesNeeded sc = length (filter (\<lambda>s. RenameSource s \<noteq> []) states)"
    "FilesNeedingRebuild sc = length (filter (\<lambda>s. RenameSource s = [] \<and> needsRebuild s) states)"
    by (simp_all add: sc_def states_def counts_fields filter_map comp_def case_prod_unfold)
  moreover have "shardCountsLocked (d\<lparr>fileIntegrity := al\<rparr>) = sc" if "mset al = mset (fileIntegrity d)" for al
    unfolding sc_def using counts_any_order[OF that] by (simp add: shardCountsLocked_def)
  moreover have "RepairPossible (shardCountsLocked (d\<lparr>parityShards := parityShards d @ extra\<rparr>)) \<longleftrightarrow> BlocksNeeded sc \<le> int (length extra)" for extra
    by (auto simp: RepairPossible_def BlocksNeeded_def Let_def sc_def counts_fields all_locations_def)
  moreover have "0 \<le> BlocksNeeded sc" by (simp add: BlocksNeeded_def Let_def)
  moreover have "RepairPossible sc \<longleftrightarrow> length (filter (\<lambda>l. Offset l = -1) (all_locations d)) \<le> length (parityShards d)"
    by (simp add: RepairPossible_def sc_def counts_fields)
  ultimately show ?thesis using counts_fields(2)[of d] RepairNeeded_iff[of d] unfolding sc_def states_def Let_def by blast
qed

theorem shard_counts_correct_witness:
  "let d = (newDecoderState small_env \<lparr>NumGoroutines = 0, MemoryLimit = 0, MaxFileSize = 0, MaxPacketSize = 0\<rparr> (one_file [0x61] []))
       \<lparr>fileIntegrity := [(zeroID, \<lparr>fis_FileID = zeroID, fis_Filename = [0x62], Damage = damageMissing, RenameSource = [],
          ShardLocations = [\<lparr>loc_FileID = zeroID, Offset = -1\<rparr>, \<lparr>loc_FileID = zeroID, Offset = 4\<rparr>]\<rparr>)]\<rparr>
   in UnusableDataShardCount (shardCountsLocked d) = 1 \<and> RepairNeeded (shardCountsLocked d) \<and> \<not> RepairPossible (shardCountsLocked d) \<and>
     RepairPossible (shardCountsLocked (d\<lparr>parityShards := [(0, [])]\<rparr>))"
proof -
  let ?d = "(newDecoderState small_env \<lparr>NumGoroutines = 0, MemoryLimit = 0, MaxFileSize = 0, MaxPacketSize = 0\<rparr> (one_file [0x61] []))
       \<lparr>fileIntegrity := [(zeroID, \<lparr>fis_FileID = zeroID, fis_Filename = [0x62], Damage = damageMissing, RenameSource = [],
          ShardLocations = [\<lparr>loc_FileID = zeroID, Offset = -1\<rparr>, \<lparr>loc_FileID = zeroID, Offset = 4\<rparr>]\<rparr>)]\<rparr>"
  show ?thesis
    using shard_counts_correct[of ?d]
    by (auto simp: Let_def all_locations_def newDecoderState_def RepairPossible_def BlocksNeeded_def needsRebuild_def)
qed

text \<open>The files of a set share their base name: removing the \<open>.par2\<close> extension and the volume tag from the name
  of any recovery volume gives the base, in whatever case the extension and the tag are written.\<close>

lemma setBaseName_of_volume:
  assumes "isVolumeTag tag" "map toLower ext = par2Ext"
  shows "setBaseName (base @ tag @ ext) = base \<and> HasPrefix (base @ tag @ ext) base"
proof -
  have l: "length ext = length par2Ext" using arg_cong[OF assms(2), of length] by simp
  then have "HasSuffix (map toLower (base @ tag @ ext)) par2Ext" using assms(2) by (simp add: HasSuffix_def)
  then have "setBaseName (base @ tag @ ext) = removeVolumeTag (base @ tag)"
    using l by (simp add: setBaseName_def)
  then show ?thesis using removeVolumeTag_tag[OF assms(1) isVolumeTag_no_dot[OF assms(1)]] by (simp add: HasPrefix_def)
qed

end
