(* ===== verification/Integrity.thy ===== *)
theory Integrity
  imports Decoder_Load
begin

text \<open>
  The file-level part of \<open>src/par2/scan.go\<close>: the integrity state of every protected file, the existence check,
  the prescans by whole-file hash, the hash verification after the block scan, and the search for and
  installation of misnamed files. Reading \<open>d.fileIntegrity[fid]\<close> of an unknown identifier gives a \<open>nil\<close> pointer,
  whose use panics. Offsets \<open>int64(idx * sliceByteCount)\<close> are written as integers; \<open>initFileIntegrity\<close> only
  makes indices for which the product stays below the file length, so it does not wrap.
\<close>

section \<open>The state of a file\<close>

definition nilDeref :: string where
  "nilDeref = ''invalid memory address or nil pointer dereference''"

definition getState :: "FileID \<Rightarrow> fileIntegrityState dec" where
  "getState fid d = (case map_of (fileIntegrity d) fid of None \<Rightarrow> (Panic nilDeref, d) | Some st \<Rightarrow> (Ret st, d))"

definition updState :: "FileID \<Rightarrow> (fileIntegrityState \<Rightarrow> fileIntegrityState) \<Rightarrow> unit dec" where
  "updState fid f d = (case map_of (fileIntegrity d) fid of
       None \<Rightarrow> (Panic nilDeref, d)
     | Some st \<Rightarrow> (Ret (), d\<lparr>fileIntegrity := AList.update fid (f st) (fileIntegrity d)\<rparr>))"

definition setDamage :: "FileID \<Rightarrow> fileDamage \<Rightarrow> unit dec" where
  "setDamage fid dm = updState fid (\<lambda>st. st\<lparr>Damage := dm\<rparr>)"

definition missingLocation :: shardLocation where
  "missingLocation = \<lparr>loc_FileID = zeroID, Offset = -1\<rparr>"

definition shardCount :: "nat \<Rightarrow> nat \<Rightarrow> u64" where
  "shardCount byteCount bs = (of_nat byteCount + of_nat bs - 1) div of_nat bs"

definition init_file :: "FileDescPacket \<Rightarrow> nat \<Rightarrow> nat dec" where
  "init_file f totalShards =
     bindG (getG sliceByteCount) (\<lambda>bs.
       if bs = 0 then errG ''invalid PAR2 set: sliceByteCount is zero''
       else
         let shards = shardCount (ByteCount f) bs in
         if shards > 32768 then errG ''invalid PAR2 set: file block count exceeds specification limit (32768)''
         else
           let totalShards = totalShards + unat shards in
           if totalShards > 32768 then errG ''invalid PAR2 set: total recovery block count exceeds specification limit (32768)''
           else
             bindG (modG (\<lambda>d. d\<lparr>fileIntegrity := AList.update (fd_FileID f)
               \<lparr>fis_FileID = fd_FileID f, fis_Filename = Filename f, Damage = damageUnchecked, RenameSource = [],
                ShardLocations = replicate (unat shards) missingLocation\<rparr> (fileIntegrity d)\<rparr>)) (\<lambda>_.
               retG totalShards))"

definition initFileIntegrity :: "unit dec" where
  "initFileIntegrity =
     bindG (modG (\<lambda>d. d\<lparr>fileIntegrity := []\<rparr>)) (\<lambda>_.
       bindG (getG protectedFiles) (\<lambda>fs. bindG (foldG init_file fs 0) (\<lambda>_. retG ())))"

section \<open>Existence and whole-file hashes\<close>

definition check_exists :: "FileDescPacket \<Rightarrow> unit dec" where
  "check_exists fd =
     bindG (onRoot ctxErr) (\<lambda>canc.
       if canc then errG ''context canceled''
       else tryG (onRoot (open_file (Filename fd))) (\<lambda>_. retG ())
         (\<lambda>e. if e = errNotExist then setDamage (fd_FileID fd) damageMissing else errG e))"

definition checkFileExistence :: "unit dec" where
  "checkFileExistence = bindG (getG protectedFiles) (forG check_exists)"

definition quickHashSize :: nat where
  "quickHashSize = 16 * 1024"

definition quickHash16K :: "handle \<Rightarrow> nat \<Rightarrow> (world, bytes) go" where
  "quickHash16K f fileSize = bindG (readAt f (min quickHashSize fileSize) 0) (\<lambda>buf. retG (md5 buf))"

definition computeFileMD5 :: "handle \<Rightarrow> (world, bytes) go" where
  "computeFileMD5 f = bindG sysCall (\<lambda>_. bindG (readAll f) (\<lambda>bs. retG (md5 bs)))"

text \<open>Locations of a file found whole in one place.\<close>

definition wholeLocations :: "FileID \<Rightarrow> nat \<Rightarrow> nat \<Rightarrow> shardLocation list" where
  "wholeLocations fid bs n = map (\<lambda>i. \<lparr>loc_FileID = fid, Offset = int (i * bs)\<rparr>) [0..<n]"

definition setWhole :: "FileID \<Rightarrow> nat \<Rightarrow> fileIntegrityState \<Rightarrow> fileIntegrityState" where
  "setWhole fid bs st = st\<lparr>ShardLocations := wholeLocations fid bs (length (ShardLocations st))\<rparr>"

text \<open>The missing files by size and 16k hash; a later file replaces an earlier one with the same key.\<close>

definition missingByQuickKey :: "((nat \<times> bytes) \<times> FileDescPacket) list dec" where
  "missingByQuickKey =
     bindG (getG protectedFiles) (\<lambda>fs.
       foldG (\<lambda>fd m. bindG (getState (fd_FileID fd)) (\<lambda>st.
         retG (if Damage st = damageMissing then AList.update (ByteCount fd, SixteenKHash fd) fd m else m))) fs [])"

text \<open>One candidate of the prescan: the result says whether the candidate is resolved.\<close>

definition prescan_candidate :: "((nat \<times> bytes) \<times> FileDescPacket) list \<Rightarrow> bytes \<Rightarrow> FileID \<Rightarrow> bool dec" where
  "prescan_candidate missing path candidateID =
     tryG (onRoot (open_file path)) (\<lambda>f.
       tryG (onRoot (stat_size f)) (\<lambda>fileSize.
         tryG (onRoot (quickHash16K f fileSize)) (\<lambda>quickHash.
           case map_of missing (fileSize, quickHash) of
             None \<Rightarrow> retG False
           | Some fd \<Rightarrow>
               tryG (onRoot (computeFileMD5 f)) (\<lambda>fullHash.
                 if fullHash \<noteq> fd_Hash fd then retG False
                 else bindG (getG sliceByteCount) (\<lambda>bs.
                   bindG (updState (fd_FileID fd) (\<lambda>st. setWhole candidateID bs (st\<lparr>RenameSource := path\<rparr>)))
                     (\<lambda>_. retG True)))
                 (\<lambda>_. retG False))
           (\<lambda>_. retG False))
         (\<lambda>_. retG False))
       (\<lambda>_. retG True)"

text \<open>The loop over the candidates, which ends early when the context is cancelled.\<close>

fun prescan_loop :: "((nat \<times> bytes) \<times> FileDescPacket) list \<Rightarrow> (bytes \<times> FileID) list \<Rightarrow> bytes list \<Rightarrow> bytes list dec" where
  "prescan_loop missing [] resolved = retG resolved"
| "prescan_loop missing ((path, fid) # cs) resolved =
     bindG (onRoot ctxErr) (\<lambda>canc.
       if canc then retG resolved
       else bindG (prescan_candidate missing path fid) (\<lambda>r.
         prescan_loop missing cs (if r then path # resolved else resolved)))"

definition prescanCandidateMatches :: "bytes list dec" where
  "prescanCandidateMatches =
     bindG (getG candidateFiles) (\<lambda>cs.
       if cs = [] then retG []
       else bindG missingByQuickKey (\<lambda>missing.
         if missing = [] then retG []
         else prescan_loop missing cs []))"

definition prescan_protected :: "FileDescPacket \<Rightarrow> unit dec" where
  "prescan_protected fd =
     bindG (getState (fd_FileID fd)) (\<lambda>st.
       if Damage st = damageMissing then retG ()
       else tryG (onRoot (open_file (Filename fd))) (\<lambda>f.
         tryG (onRoot (stat_size f)) (\<lambda>fileSize.
           if fileSize \<noteq> ByteCount fd then retG ()
           else tryG (onRoot (quickHash16K f fileSize)) (\<lambda>quickHash.
             if quickHash \<noteq> SixteenKHash fd then retG ()
             else tryG (onRoot (computeFileMD5 f)) (\<lambda>fullHash.
               if fullHash \<noteq> fd_Hash fd then retG ()
               else bindG (getG sliceByteCount) (\<lambda>bs.
                 updState (fd_FileID fd) (\<lambda>st. setWhole (fd_FileID fd) bs (st\<lparr>Damage := damageNone\<rparr>))))
               (\<lambda>_. retG ()))
             (\<lambda>_. retG ()))
           (\<lambda>_. retG ()))
         (\<lambda>_. retG ()))"

fun prescan_protected_loop :: "FileDescPacket list \<Rightarrow> unit dec" where
  "prescan_protected_loop [] = retG ()"
| "prescan_protected_loop (fd # fds) =
     bindG (onRoot ctxErr) (\<lambda>canc.
       if canc then retG () else bindG (prescan_protected fd) (\<lambda>_. prescan_protected_loop fds))"

definition prescanProtectedMatches :: "unit dec" where
  "prescanProtectedMatches = bindG (getG protectedFiles) prescan_protected_loop"

section \<open>Verification after the scan\<close>

definition consecutive_at :: "FileID \<Rightarrow> nat \<Rightarrow> shardLocation list \<Rightarrow> bool" where
  "consecutive_at fid bs locs \<longleftrightarrow>
     list_all (\<lambda>i. Offset (locs ! i) = int (i * bs) \<and> loc_FileID (locs ! i) = fid) [0..<length locs]"

definition isAllShardsConsecutive :: "Decoder \<Rightarrow> FileDescPacket \<Rightarrow> fileIntegrityState \<Rightarrow> bool" where
  "isAllShardsConsecutive d fd st = consecutive_at (fd_FileID fd) (sliceByteCount d) (ShardLocations st)"

definition verifySingleFileHash :: "FileDescPacket \<Rightarrow> unit dec" where
  "verifySingleFileHash fd =
     tryG (onRoot (open_file (Filename fd))) (\<lambda>f.
       tryG (onRoot (readAll f)) (\<lambda>bs.
         if md5 bs \<noteq> fd_Hash fd then setDamage (fd_FileID fd) damageWrongHash
         else setDamage (fd_FileID fd) damageNone)
         (\<lambda>_. setDamage (fd_FileID fd) damageWrongHash))
       (\<lambda>_. setDamage (fd_FileID fd) damageMissing)"

text \<open>The empty name stands for no candidate.\<close>

definition detectRenameCandidate :: "FileDescPacket \<Rightarrow> fileIntegrityState \<Rightarrow> bytes dec" where
  "detectRenameCandidate fd st =
     (case ShardLocations st of
        [] \<Rightarrow> retG []
      | firstLoc # _ \<Rightarrow>
          if Offset firstLoc = -1 then retG []
          else if loc_FileID firstLoc = fd_FileID fd then retG []
          else bindG (getG (\<lambda>d. (map_of (candidateByID d) (loc_FileID firstLoc), sliceByteCount d))) (\<lambda>(p, bs).
            let path = (case p of None \<Rightarrow> [] | Some q \<Rightarrow> q) in
            if path = [] then retG []
            else if path = Filename fd then retG []
            else if \<not> consecutive_at (loc_FileID firstLoc) bs (ShardLocations st) then retG []
            else tryG (onRoot (open_file path)) (\<lambda>f.
              tryG (onRoot (readAll f)) (\<lambda>bytes'. if md5 bytes' \<noteq> fd_Hash fd then retG [] else retG path)
                (\<lambda>_. retG []))
              (\<lambda>_. retG [])))"

definition verify_file :: "FileDescPacket \<Rightarrow> unit dec" where
  "verify_file fd =
     bindG (getState (fd_FileID fd)) (\<lambda>st.
       if Damage st = damageNone \<or> Damage st = damageWrongSize \<or> RenameSource st \<noteq> [] then retG ()
       else if Damage st = damageMissing then
         bindG (detectRenameCandidate fd st) (\<lambda>rename.
           if rename \<noteq> [] then updState (fd_FileID fd) (\<lambda>st. st\<lparr>RenameSource := rename\<rparr>) else retG ())
       else bindG (getG (\<lambda>d. isAllShardsConsecutive d fd st)) (\<lambda>all.
         if all then verifySingleFileHash fd
         else bindG (detectRenameCandidate fd st) (\<lambda>rename.
           if rename \<noteq> [] then
             updState (fd_FileID fd) (\<lambda>st. st\<lparr>Damage := damageWrongHash, RenameSource := rename\<rparr>)
           else setDamage (fd_FileID fd) damageWrongHash)))"

definition verifyProtectedFilesHashes :: "unit dec" where
  "verifyProtectedFilesHashes = bindG (getG protectedFiles) (forG verify_file)"

section \<open>Renaming misnamed files\<close>

definition repoint :: "FileID \<Rightarrow> FileID \<Rightarrow> fileIntegrityState \<Rightarrow> fileIntegrityState" where
  "repoint old new st = st\<lparr>ShardLocations := map (\<lambda>loc.
     if loc_FileID loc = old \<and> Offset loc \<noteq> -1 then loc\<lparr>loc_FileID := new\<rparr> else loc) (ShardLocations st)\<rparr>"

text \<open>One file of the loop; the result says whether it was renamed.\<close>

definition rename_misnamed :: "FileDescPacket \<Rightarrow> bool dec" where
  "rename_misnamed fd =
     bindG (getState (fd_FileID fd)) (\<lambda>st.
       if RenameSource st = [] then retG False
       else tryG (ensureParentDir (Filename fd)) (\<lambda>_.
         tryG (onRoot (rename_file (RenameSource st) (Filename fd))) (\<lambda>_.
           bindG (modG (\<lambda>d. case map_of (candidateFiles d) (RenameSource st) of
               None \<Rightarrow> d
             | Some candidateID \<Rightarrow> d\<lparr>fileIntegrity :=
                 map (apsnd (repoint candidateID (fd_FileID fd))) (fileIntegrity d)\<rparr>)) (\<lambda>_.
             bindG (getG sliceByteCount) (\<lambda>bs.
               bindG (updState (fd_FileID fd) (\<lambda>st.
                 setWhole (fd_FileID fd) bs (st\<lparr>RenameSource := [], Damage := damageNone\<rparr>))) (\<lambda>_.
                   retG True))))
           (\<lambda>_. bindG (updState (fd_FileID fd) (\<lambda>st. st\<lparr>RenameSource := []\<rparr>)) (\<lambda>_. retG False)))
         (\<lambda>_. bindG (updState (fd_FileID fd) (\<lambda>st. st\<lparr>RenameSource := []\<rparr>)) (\<lambda>_. retG False)))"

definition renameMisnamedFiles :: "nat dec" where
  "renameMisnamedFiles =
     bindG (getG protectedFiles) (\<lambda>fs.
       foldG (\<lambda>fd n. bindG (rename_misnamed fd) (\<lambda>r. retG (if r then n + 1 else n))) fs 0)"

section \<open>Reading the sandbox\<close>

text \<open>The hash of the file under a name.\<close>

definition content_hash :: "world \<Rightarrow> name \<Rightarrow> bytes option" where
  "content_hash w n = map_option (\<lambda>i. md5 (inodes w i)) (dir w n)"

definition in_world :: "world \<Rightarrow> (Decoder \<Rightarrow> bool) \<Rightarrow> bool" where
  "in_world w I \<longleftrightarrow> (\<forall>d. I d \<longrightarrow> I (d\<lparr>root := tick (root d)\<rparr>) \<and> same_files w (root d))"

lemma keeps_in_world:
  assumes "in_world w I"
  shows "keeps I (onRoot (sysRead f))" "keeps I (onRoot ctxErr)"
  using assms by (auto simp: keeps_def onRoot_def sysRead_def ctxErr_def in_world_def split: option.splits)

lemma gives_sysRead:
  assumes "in_world w I" "\<And>w' x. same_files w w' \<Longrightarrow> f w' = Ret x \<Longrightarrow> R x"
  shows "gives I (onRoot (sysRead f)) R"
proof -
  have "keeps I (onRoot (sysRead f))" using assms(1) by (rule keeps_in_world)
  moreover have "R x" if "I d" "onRoot (sysRead f) d = (Ret x, d')" for d x d'
  proof -
    have "same_files w (root d)" using assms(1) that(1) by (simp add: in_world_def)
    moreover have "f (root d) = Ret x"
      using that(2) by (auto simp: onRoot_def sysRead_def split: option.splits prod.splits)
    ultimately show ?thesis using assms(2) by blast
  qed
  ultimately show ?thesis by (simp add: gives_def)
qed

lemma gives_open: "in_world w I \<Longrightarrow> gives I (onRoot (open_file n)) (\<lambda>i. dir w n = Some i)"
  unfolding open_file_def by (rule gives_sysRead) (auto simp: same_files_def split: option.splits)

lemma gives_readAll: "in_world w I \<Longrightarrow> gives I (onRoot (readAll i)) (\<lambda>bs. bs = inodes w i)"
  unfolding readAll_def by (rule gives_sysRead) (auto simp: same_files_def)

lemma gives_size: "in_world w I \<Longrightarrow> gives I (onRoot (stat_size i)) (\<lambda>n. n = length (inodes w i))"
  unfolding stat_size_def by (rule gives_sysRead) (auto simp: same_files_def)

lemma onRoot_bind: "onRoot (bindG m f) = bindG (onRoot m) (\<lambda>x. onRoot (f x))"
  by (rule ext) (auto simp: onRoot_def bindG_def split: prod.splits res.splits)

lemma onRoot_ret: "onRoot (retG x) = retG x"
  by (rule ext) (simp add: onRoot_def retG_def)

lemma gives_md5: "in_world w I \<Longrightarrow> gives I (onRoot (computeFileMD5 i)) (\<lambda>h. h = md5 (inodes w i))"
  unfolding computeFileMD5_def onRoot_bind onRoot_ret sysCall_def
  by (rule gives_bind[OF gives_sysRead[where R = "\<lambda>_. True"]]) (auto intro!: gives_bind[OF gives_readAll] gives_ret)

lemma gives_quick:
  "in_world w I \<Longrightarrow> gives I (onRoot (quickHash16K i n)) (\<lambda>h. h = md5 (take (min quickHashSize n) (inodes w i)))"
  unfolding quickHash16K_def onRoot_bind onRoot_ret readAt_def
  by (rule gives_bind[OF gives_sysRead]) (auto simp: same_files_def intro!: gives_ret)


section \<open>What the states say is true of the disk\<close>

text \<open>\<open>sound w d\<close>: the sandbox has the files of \<open>w\<close>; a file marked intact has its recorded hash on disk, and a rename
  source is a registered candidate with that hash. Every protected file has a state.\<close>

definition state_sound :: "world \<Rightarrow> FileDescPacket \<Rightarrow> fileIntegrityState \<Rightarrow> bool" where
  "state_sound w fd st \<longleftrightarrow>
     (Damage st = damageNone \<longrightarrow> content_hash w (Filename fd) = Some (fd_Hash fd)) \<and>
     (RenameSource st \<noteq> [] \<longrightarrow> content_hash w (RenameSource st) = Some (fd_Hash fd))"

definition state_shape :: "nat \<Rightarrow> FileDescPacket \<Rightarrow> fileIntegrityState \<Rightarrow> bool" where
  "state_shape s fd st \<longleftrightarrow> length (ShardLocations st) = unat (shardCount (ByteCount fd) s)"

definition sound :: "world \<Rightarrow> FileDescPacket list \<Rightarrow> nat \<Rightarrow> Decoder \<Rightarrow> bool" where
  "sound w fs s d \<longleftrightarrow> same_files w (root d) \<and> protectedFiles d = fs \<and> sliceByteCount d = s \<and>
     distinct (map fd_FileID fs) \<and> map fst (fileIntegrity d) = map fd_FileID fs \<and>
     (\<forall>fd\<in>set fs. \<exists>st. map_of (fileIntegrity d) (fd_FileID fd) = Some st \<and> state_sound w fd st \<and> state_shape s fd st)"

lemma file_pred_sound: "file_pred (sound w fs s)"
proof -
  have "sound w fs s (d\<lparr>root := w'\<rparr>)" if "sound w fs s d" "same_files (root d) w'" for d w'
    using that same_files_trans[of w "root d" w'] unfolding sound_def by (simp del: map_of_eq_Some_iff)
  then show ?thesis by (simp add: file_pred_def)
qed

lemma in_world_sound: "in_world w (sound w fs s)"
proof -
  have "same_files v (tick v)" for v by (simp add: same_files_def tick_def)
  then show ?thesis using file_pred_sound by (simp add: in_world_def file_pred_def) (simp add: sound_def)
qed

lemma sound_root: "reads m \<Longrightarrow> keeps (sound w fs s) (onRoot m)"
  by (rule keeps_onRoot[OF file_pred_sound])

text \<open>Changing the state of one file.\<close>

lemma sound_updState:
  assumes "fd \<in> set fs" "\<And>st. state_sound w fd st \<Longrightarrow> state_shape s fd st \<Longrightarrow> state_sound w fd (f st) \<and> state_shape s fd (f st)"
  shows "keeps (sound w fs s) (updState (fd_FileID fd) f)"
  unfolding keeps_def
proof (intro allI impI)
  fix d assume d: "sound w fs s d"
  then obtain st where st: "map_of (fileIntegrity d) (fd_FileID fd) = Some st" "state_sound w fd st" "state_shape s fd st"
    using assms(1) unfolding sound_def by blast
  let ?al = "AList.update (fd_FileID fd) (f st) (fileIntegrity d)"
  have eq: "snd (updState (fd_FileID fd) f d) = d\<lparr>fileIntegrity := ?al\<rparr>" using st(1) by (simp add: updState_def)
  have dist: "distinct (map fd_FileID fs)" "map fst (fileIntegrity d) = map fd_FileID fs"
    using d unfolding sound_def by blast+
  have "map fst ?al = map fd_FileID fs"
    using dist(2) assms(1) by (auto simp: update_keys)
  moreover have "\<exists>st'. map_of ?al (fd_FileID g) = Some st' \<and> state_sound w g st' \<and> state_shape s g st'"
    if g: "g \<in> set fs" for g
  proof (cases "fd_FileID g = fd_FileID fd")
    case True
    then have "g = fd" using g assms(1) dist(1) by (metis distinct_map inj_onD)
    then show ?thesis using assms(2)[OF st(2,3)] by (simp add: update_conv)
  next
    case False
    then show ?thesis using d g unfolding sound_def by (simp add: update_conv del: map_of_eq_Some_iff)
  qed
  ultimately show "sound w fs s (snd (updState (fd_FileID fd) f d))"
    unfolding eq using d unfolding sound_def by (simp del: map_of_eq_Some_iff)
qed

lemma sound_setDamage:
  "fd \<in> set fs \<Longrightarrow> dm = damageNone \<longrightarrow> content_hash w (Filename fd) = Some (fd_Hash fd) \<Longrightarrow>
    keeps (sound w fs s) (setDamage (fd_FileID fd) dm)"
  unfolding setDamage_def by (intro sound_updState) (auto simp: state_sound_def state_shape_def)

lemma keeps_getState [keeps]: "keeps I (getState fid)"
  by (auto simp: keeps_def getState_def split: option.splits)

lemma gives_getState:
  assumes "fd \<in> set fs"
  shows "gives (sound w fs s) (getState (fd_FileID fd)) (\<lambda>st. state_sound w fd st \<and> state_shape s fd st)"
proof -
  have "\<exists>st. getState (fd_FileID fd) d = (Ret st, d) \<and> state_sound w fd st \<and> state_shape s fd st" if "sound w fs s d" for d
    using that assms unfolding sound_def getState_def by fastforce
  then show ?thesis unfolding gives_def keeps_def by fastforce
qed

lemma gives_protected: "gives (sound w fs s) (getG protectedFiles) (\<lambda>x. x = fs)" "gives (sound w fs s) (getG sliceByteCount) (\<lambda>x. x = s)"
  by (auto simp: gives_def keeps go_defs sound_def)

section \<open>The prescans and the hash verification\<close>

lemma check_exists_sound: "fd \<in> set fs \<Longrightarrow> keeps (sound w fs s) (check_exists fd)"
  unfolding check_exists_def by (intro keeps sound_root reads_ops sound_setDamage) auto

lemma setWhole_fields [simp]:
  "Damage (setWhole fid n st) = Damage st" "RenameSource (setWhole fid n st) = RenameSource st"
  "length (ShardLocations (setWhole fid n st)) = length (ShardLocations st)"
  by (simp_all add: setWhole_def wholeLocations_def)

lemma content_hash_open: "dir w n = Some i \<Longrightarrow> content_hash w n = Some (md5 (inodes w i))"
  by (simp add: content_hash_def)

lemma prescan_protected_sound: "fd \<in> set fs \<Longrightarrow> keeps (sound w fs s) (prescan_protected fd)"
  unfolding prescan_protected_def
  by (rule keeps_bind_gives[OF gives_getState], assumption)
    (intro keeps_if keeps_simple keeps_try_gives[OF gives_open[OF in_world_sound]] keeps_try_gives[OF gives_size[OF in_world_sound]]
      keeps_try_gives[OF gives_quick[OF in_world_sound]] keeps_try_gives[OF gives_md5[OF in_world_sound]]
      keeps_bind_gives[OF gives_protected(2)] sound_updState,
      auto simp: content_hash_open state_sound_def state_shape_def)


lemma prescan_protected_loop_sound: "set fds \<subseteq> set fs \<Longrightarrow> keeps (sound w fs s) (prescan_protected_loop fds)"
  by (induction fds) (auto intro!: keeps sound_root prescan_protected_sound)

lemma prescanProtectedMatches_sound: "keeps (sound w fs s) prescanProtectedMatches"
  unfolding prescanProtectedMatches_def
  by (rule keeps_bind_gives[OF gives_protected(1)]) (auto intro: prescan_protected_loop_sound)

lemma checkFileExistence_sound: "keeps (sound w fs s) checkFileExistence"
  unfolding checkFileExistence_def
  by (rule keeps_bind_gives[OF gives_protected(1)]) (auto intro!: keeps_for check_exists_sound)

lemma gives_fold:
  assumes "R a" "\<And>x b. x \<in> set xs \<Longrightarrow> R b \<Longrightarrow> gives I (body x b) R"
  shows "gives I (foldG body xs a) R"
  using assms
proof (induction xs arbitrary: a)
  case Nil
  then show ?case by (auto simp: gives_def keeps_def)
next
  case (Cons x xs)
  have "gives I (bindG (body x a) (foldG body xs)) R"
    by (rule gives_bind[of I _ R]) (use Cons in auto)
  then show ?case by (simp add: gives_def keeps_def)
qed

lemma gives_missing: "gives (sound w fs s) missingByQuickKey (\<lambda>m. snd ` set m \<subseteq> set fs)"
  unfolding missingByQuickKey_def
proof (rule gives_bind[OF gives_protected(1)], simp, rule gives_fold)
  fix fd and m :: "((nat \<times> bytes) \<times> FileDescPacket) list"
  assume fd: "fd \<in> set fs" "snd ` set m \<subseteq> set fs"
  have u: "snd ` set (AList.update k v al) \<subseteq> insert v (snd ` set al)" for k and v :: FileDescPacket and al
    by (induction al) (auto split: if_splits)
  show "gives (sound w fs s) (bindG (getState (fd_FileID fd)) (\<lambda>st.
      retG (if Damage st = damageMissing then AList.update (ByteCount fd, SixteenKHash fd) fd m else m)))
      (\<lambda>m. snd ` set m \<subseteq> set fs)"
  proof (rule gives_bind[OF gives_getState[OF fd(1)]], rule gives_ret)
    have "snd ` set (AList.update (ByteCount fd, SixteenKHash fd) fd m) \<subseteq> set fs"
      using u[of "(ByteCount fd, SixteenKHash fd)" fd m] fd by blast
    then show "snd ` set (if Damage st = damageMissing then AList.update (ByteCount fd, SixteenKHash fd) fd m else m) \<subseteq> set fs" for st
      using fd(2) by simp
  qed
qed simp

lemma keeps_prescan_candidate:
  assumes "snd ` set missing \<subseteq> set fs"
  shows "keeps (sound w fs s) (prescan_candidate missing path cid)"
proof -
  have "fd \<in> set fs" if "map_of missing k = Some fd" for k fd
    using that assms by (force dest: map_of_SomeD)
  then show ?thesis
    unfolding prescan_candidate_def
    by (intro keeps_simple keeps_try_gives[OF gives_open[OF in_world_sound]] keeps_try_gives[OF gives_size[OF in_world_sound]]
        keeps_try_gives[OF gives_quick[OF in_world_sound]] keeps_option keeps_if keeps_try_gives[OF gives_md5[OF in_world_sound]]
        keeps_bind_gives[OF gives_protected(2)] keeps_bind sound_updState)
      (auto simp: content_hash_open state_sound_def state_shape_def)
qed

lemma keeps_prescan_loop:
  "snd ` set missing \<subseteq> set fs \<Longrightarrow> keeps (sound w fs s) (prescan_loop missing cs resolved)"
  by (induction cs arbitrary: resolved)
    (auto intro!: keeps sound_root keeps_prescan_candidate split: if_splits)

lemma prescanCandidateMatches_sound: "keeps (sound w fs s) prescanCandidateMatches"
  unfolding prescanCandidateMatches_def
  by (intro keeps_bind keeps_simple keeps_if keeps_bind_gives[OF gives_missing] keeps_prescan_loop)

lemma gives_detect:
  "gives (sound w fs s) (detectRenameCandidate fd st) (\<lambda>p. p \<noteq> [] \<longrightarrow> content_hash w p = Some (fd_Hash fd))"
proof (cases "ShardLocations st")
  case (Cons l ls)
  have g: "gives (sound w fs s) (getG f) (\<lambda>_. True)" for f :: "Decoder \<Rightarrow> bytes option \<times> nat"
    by (simp add: gives_keeps keeps)
  show ?thesis
    unfolding detectRenameCandidate_def Cons list.case
    by (intro gives_if gives_ret gives_bind[OF g]; (simp split: prod.split)?)
      (auto simp: Let_def content_hash_open intro!: gives_if gives_ret gives_try[OF gives_open[OF in_world_sound]]
        gives_try[OF gives_readAll[OF in_world_sound]] split: option.splits)
qed (simp add: detectRenameCandidate_def gives_ret)

lemma verifySingleFileHash_sound: "fd \<in> set fs \<Longrightarrow> keeps (sound w fs s) (verifySingleFileHash fd)"
  unfolding verifySingleFileHash_def
  by (intro keeps_try_gives[OF gives_open[OF in_world_sound]] keeps_try_gives[OF gives_readAll[OF in_world_sound]]
      keeps_if sound_setDamage) (auto simp: content_hash_open)

lemma verify_file_sound: "fd \<in> set fs \<Longrightarrow> keeps (sound w fs s) (verify_file fd)"
  unfolding verify_file_def
  by (rule keeps_bind_gives[OF gives_getState], assumption)
    (intro keeps_if keeps_simple keeps_bind keeps_bind_gives[OF gives_detect] sound_updState sound_setDamage
      verifySingleFileHash_sound, auto simp: state_sound_def state_shape_def)

lemma verifyProtectedFilesHashes_sound: "keeps (sound w fs s) verifyProtectedFilesHashes"
  unfolding verifyProtectedFilesHashes_def
  by (rule keeps_bind_gives[OF gives_protected(1)]) (auto intro!: keeps_for verify_file_sound)

section \<open>Fresh states\<close>

definition fresh_state :: "nat \<Rightarrow> FileDescPacket \<Rightarrow> fileIntegrityState" where
  "fresh_state s f = \<lparr>fis_FileID = fd_FileID f, fis_Filename = Filename f, Damage = damageUnchecked, RenameSource = [],
     ShardLocations = replicate (unat (shardCount (ByteCount f) s)) missingLocation\<rparr>"

lemma shardCount_exact:
  assumes "n < 2 ^ 63" "0 < s" "s < 2 ^ 63"
  shows "unat (shardCount n s) = (n + s - 1) div s"
proof -
  have w: "(of_nat n + of_nat s - 1 :: u64) = of_nat (n + s - 1)" using assms(2) by (simp add: of_nat_diff)
  have "n + s - 1 < 2 ^ LENGTH(64)" "s < 2 ^ LENGTH(64)" using assms by simp_all
  then have "unat (of_nat (n + s - 1) :: u64) = n + s - 1" "unat (of_nat s :: u64) = s"
    by (simp_all only: unat_of_nat mod_less)
  then show ?thesis unfolding shardCount_def w unat_div by simp
qed

lemma ceil_bounds:
  assumes "0 < (s :: nat)" "0 < n"
  shows "((n + s - 1) div s - 1) * s < n \<and> n \<le> (n + s - 1) div s * s"
proof -
  let ?q = "(n + s - 1) div s"
  have e: "?q * s + (n + s - 1) mod s = n + s - 1" by simp
  have m: "(n + s - 1) mod s < s" using assms(1) by simp
  have "0 < ?q" using assms by (simp add: div_greater_zero_iff)
  then have "(?q - 1) * s + s = ?q * s" by (metis Suc_pred' mult_Suc add.commute)
  then show ?thesis using e m assms by linarith
qed

definition shard_total :: "nat \<Rightarrow> FileDescPacket list \<Rightarrow> nat" where
  "shard_total s fs = sum_list (map (\<lambda>f. unat (shardCount (ByteCount f) s)) fs)"

lemma init_fold:
  assumes "sliceByteCount d = s" "0 < s" "distinct (map fst (fileIntegrity d) @ map fd_FileID fs)" "t \<le> 32768"
  shows "foldG init_file fs t d =
    (if t + shard_total s fs \<le> 32768
     then (Ret (t + shard_total s fs), d\<lparr>fileIntegrity := fileIntegrity d @ map (\<lambda>f. (fd_FileID f, fresh_state s f)) fs\<rparr>)
     else foldG init_file fs t d) \<and>
    (t + shard_total s fs > 32768 \<longrightarrow> (\<exists>e d'. foldG init_file fs t d = (Error e, d')))"
  using assms(1,3,4)
proof (induction fs arbitrary: t d)
  case (Cons f fs)
  define n where "n = unat (shardCount (ByteCount f) s)"
  let ?d = "d\<lparr>fileIntegrity := fileIntegrity d @ [(fd_FileID f, fresh_state s f)]\<rparr>"
  have big: "shardCount (ByteCount f) s > 32768 \<longleftrightarrow> n > 32768" by (simp add: n_def word_less_nat_alt)
  have tot: "shard_total s (f # fs) = n + shard_total s fs" by (simp add: shard_total_def n_def)
  show ?case
  proof (cases "n > 32768 \<or> t + n > 32768")
    case True
    then have "\<exists>e d'. init_file f t d = (Error e, d')"
      using Cons.prems(1) assms(2) big n_def by (auto simp: init_file_def go_defs Let_def)
    then show ?thesis using True tot by (auto simp: bindG_def)
  next
    case False
    have "map_of (fileIntegrity d) (fd_FileID f) = None" using Cons.prems(2) by (simp add: map_of_eq_None_iff)
    then have "init_file f t d = (Ret (t + n), ?d)"
      using False big Cons.prems(1) assms(2)
      by (simp add: init_file_def go_defs Let_def n_def fresh_state_def update_new)
    moreover have "distinct (map fst (fileIntegrity ?d) @ map fd_FileID fs)" "sliceByteCount ?d = s" "t + n \<le> 32768"
      using Cons.prems False by auto
    ultimately show ?thesis
      using Cons.IH[of ?d "t + n"] tot by (auto simp: bindG_def)
  qed
qed (simp add: shard_total_def)

lemma init_zero_slice: "sliceByteCount d = 0 \<Longrightarrow> fs \<noteq> [] \<Longrightarrow> \<exists>e d'. foldG init_file fs t d = (Error e, d')"
  by (cases fs) (simp_all add: init_file_def go_defs)

lemma initFileIntegrity_cases:
  assumes "distinct (map fd_FileID (protectedFiles d))"
  defines "s \<equiv> sliceByteCount d" and "fs \<equiv> protectedFiles d"
  shows "if fs = [] \<or> 0 < s \<and> shard_total s fs \<le> 32768
    then initFileIntegrity d = (Ret (), d\<lparr>fileIntegrity := map (\<lambda>f. (fd_FileID f, fresh_state s f)) fs\<rparr>)
    else (\<exists>e d'. initFileIntegrity d = (Error e, d'))"
proof -
  let ?d = "d\<lparr>fileIntegrity := []\<rparr>"
  have i: "initFileIntegrity d = bindG (foldG init_file fs 0) (\<lambda>_. retG ()) ?d"
    by (simp add: initFileIntegrity_def go_defs fs_def)
  consider "fs = []" | "fs \<noteq> []" "s = 0" | "0 < s" by blast
  then show ?thesis
  proof cases
    case 1
    then show ?thesis by (simp add: i go_defs)
  next
    case 2
    then show ?thesis using init_zero_slice[of ?d fs 0] by (auto simp: i s_def bindG_def)
  next
    case 3
    have "distinct (map fst (fileIntegrity ?d) @ map fd_FileID fs)" using assms(1) by (simp add: fs_def)
    note f = init_fold[OF _ 3 this, of 0]
    show ?thesis
    proof (cases "shard_total s fs \<le> 32768")
      case True
      then have "foldG init_file fs 0 ?d = (Ret (shard_total s fs), d\<lparr>fileIntegrity := map (\<lambda>f. (fd_FileID f, fresh_state s f)) fs\<rparr>)"
        using f by (simp add: s_def)
      then show ?thesis using 3 True by (simp add: i bindG_def retG_def)
    next
      case False
      then obtain e d' where "foldG init_file fs 0 ?d = (Error e, d')" using f by (auto simp: s_def)
      moreover have "fs \<noteq> []" using False by (auto simp: shard_total_def)
      ultimately show ?thesis using False by (auto simp: i bindG_def)
    qed
  qed
qed

lemma map_of_fresh:
  "distinct (map fd_FileID fs) \<Longrightarrow> fd \<in> set fs \<Longrightarrow>
    map_of (map (\<lambda>f. (fd_FileID f, g f)) fs) (fd_FileID fd) = Some (g fd)"
  by (induction fs) (auto, metis imageI)

lemma fresh_state_sound: "state_sound w fd (fresh_state s fd)" "state_shape s fd (fresh_state s fd)"
  by (simp_all add: state_sound_def state_shape_def fresh_state_def)

lemma init_sound:
  assumes "initFileIntegrity d = (Ret u, d')" "distinct (map fd_FileID (protectedFiles d))"
  shows "sound (root d) (protectedFiles d) (sliceByteCount d) d'"
proof -
  have d': "d' = d\<lparr>fileIntegrity := map (\<lambda>f. (fd_FileID f, fresh_state (sliceByteCount d) f)) (protectedFiles d)\<rparr>"
    using initFileIntegrity_cases[OF assms(2)] assms(1) by (auto split: if_splits)
  have "\<forall>fd\<in>set (protectedFiles d). \<exists>st. map_of (fileIntegrity d') (fd_FileID fd) = Some st \<and>
      state_sound (root d) fd st \<and> state_shape (sliceByteCount d) fd st"
    unfolding d' using map_of_fresh[OF assms(2), of _ "fresh_state (sliceByteCount d)"] fresh_state_sound by simp
  then show ?thesis unfolding sound_def using assms(2) by (simp add: d' comp_def del: map_of_eq_Some_iff)
qed

section \<open>Every file is decided\<close>

lemma wp_onRoot [wp]: "wp (onRoot m) Q E d = wp m (\<lambda>x w. Q x (d\<lparr>root := w\<rparr>)) (\<lambda>e w. E e (d\<lparr>root := w\<rparr>)) (root d)"
  by (auto simp: wp_def onRoot_def split: prod.splits res.splits)

text \<open>After the hash verification no file is left unchecked, unless it will be renamed.\<close>

definition settled :: "fileIntegrityState \<Rightarrow> bool" where
  "settled st \<longleftrightarrow> Damage st \<noteq> damageUnchecked \<or> RenameSource st \<noteq> []"

definition decided :: "FileDescPacket list \<Rightarrow> Decoder \<Rightarrow> bool" where
  "decided fs d \<longleftrightarrow> (\<forall>fd\<in>set fs. \<forall>st. map_of (fileIntegrity d) (fd_FileID fd) = Some st \<longrightarrow> settled st)"

text \<open>Only the state of the file itself changes, and it is settled.\<close>

definition settles :: "FileDescPacket \<Rightarrow> Decoder \<Rightarrow> Decoder \<Rightarrow> bool" where
  "settles fd d d' \<longleftrightarrow> same_files (root d) (root d') \<and>
     (\<forall>g. g \<noteq> fd_FileID fd \<longrightarrow> map_of (fileIntegrity d') g = map_of (fileIntegrity d) g) \<and>
     (\<exists>st. map_of (fileIntegrity d') (fd_FileID fd) = Some st \<and> settled st)"

lemma wp_updState:
  "map_of (fileIntegrity d) fid = Some st \<Longrightarrow>
    wp (updState fid f) Q E d = Q () (d\<lparr>fileIntegrity := AList.update fid (f st) (fileIntegrity d)\<rparr>)"
  "map_of (fileIntegrity d) fid = Some st \<Longrightarrow> wp (getState fid) Q' E d = Q' st d"
  by (simp_all add: wp_def updState_def getState_def)

lemma wp_detect:
  assumes "\<And>p w'. same_files (root d) w' \<Longrightarrow> Q p (d\<lparr>root := w'\<rparr>)"
  shows "wp (detectRenameCandidate fd st) Q E d"
proof -
  have "Q p d" for p using assms[of "root d" p] by simp
  then show ?thesis
    unfolding detectRenameCandidate_def
    by (auto simp: wp Let_def split: list.splits option.splits intro!: wp_reading assms dest: same_files_trans)
qed

lemma settles_set:
  assumes "same_files (root d) w'" "settled st"
  shows "settles fd d (d\<lparr>root := w', fileIntegrity := AList.update (fd_FileID fd) st (fileIntegrity d)\<rparr>)"
  using assms by (simp add: settles_def update_conv)

lemma wp_verify_file:
  assumes "map_of (fileIntegrity d) (fd_FileID fd) = Some st"
  shows "wp (verify_file fd) (\<lambda>_. settles fd d) E d"
proof -
  have same: "settles fd d (d\<lparr>root := w'\<rparr>)" if "settled st" "same_files (root d) w'" for w'
    using that assms by (simp add: settles_def)
  show ?thesis
    unfolding verify_file_def verifySingleFileHash_def setDamage_def
    using assms same[of "root d"]
    by (auto simp: wp wp_updState settled_def
      intro!: wp_detect wp_reading settles_set same dest: same_files_trans)
qed

lemma decided_snoc:
  assumes "decided pre d" "settles fd d d'"
  shows "decided (pre @ [fd]) d'"
  unfolding decided_def
proof (intro ballI allI impI)
  fix g st assume g: "g \<in> set (pre @ [fd])" "map_of (fileIntegrity d') (fd_FileID g) = Some st"
  show "settled st"
  proof (cases "fd_FileID g = fd_FileID fd")
    case True
    then show ?thesis using assms(2) g(2) unfolding settles_def by (metis option.inject)
  next
    case False
    then have "g \<in> set pre" using g(1) by auto
    then show ?thesis using assms g(2) False unfolding settles_def decided_def by metis
  qed
qed

lemma wp_verifyProtectedFilesHashes:
  assumes "sound w fs s d"
  shows "wp verifyProtectedFilesHashes (\<lambda>_ d'. sound w fs s d' \<and> decided fs d') E d"
proof -
  have "wp (forG verify_file fs) (\<lambda>_ d'. sound w fs s d' \<and> decided fs d') E d"
  proof (rule wp_for[where I = "\<lambda>pre d'. sound w fs s d' \<and> decided pre d'"])
    fix pre fd rest d
    assume fs: "fs = pre @ fd # rest" and d: "sound w fs s d \<and> decided pre d"
    then obtain st where st: "map_of (fileIntegrity d) (fd_FileID fd) = Some st"
      unfolding sound_def by (metis in_set_conv_decomp)
    have "wp (verify_file fd) (\<lambda>_ d'. settles fd d d' \<and> sound w fs s d') E d"
      using wp_keeps[OF wp_verify_file[OF st] verify_file_sound[of fd fs w s]] fs d by simp
    then show "wp (verify_file fd) (\<lambda>_ d'. sound w fs s d' \<and> decided (pre @ [fd]) d') E d"
      by (rule wp_mono) (use d decided_snoc in auto)
  qed (use assms in \<open>simp add: decided_def\<close>)
  moreover have "protectedFiles d = fs" using assms by (simp add: sound_def)
  ultimately show ?thesis by (simp add: verifyProtectedFilesHashes_def wp)
qed

section \<open>A small set\<close>

definition empty_world :: world where
  "empty_world = \<lparr>dir = Map.empty, inodes = (\<lambda>_. []), nextInode = 0, listing = [], separator = 0x2f,
     randText = (\<lambda>_. []), ticks = 0, faults = (\<lambda>_. None), cancelAt = None\<rparr>"

definition ten_bytes :: FileDescPacket where
  "ten_bytes = \<lparr>fd_FileID = zeroID, fd_Hash = [], SixteenKHash = [], ByteCount = 10, Filename = ascii ''a''\<rparr>"

definition small_set :: Decoder where
  "small_set = \<lparr>numGoroutines = 1, memoryLimit = 16, maxFileSize = 0, maxPacketSize = 0, root = empty_world,
     sliceByteCount = 4, recoverySetID = zeroID, protectedFiles = [ten_bytes], fileChecksums = [],
     parityShards = [], fileIntegrity = [], candidateFiles = [], candidateByID = [], parityFileBlocks = []\<rparr>"

section \<open>Properties\<close>

text \<open>C35. \<open>initFileIntegrity\<close> gives every protected file exactly the blocks that its length needs, all missing: with a slice
  size and file lengths below \<open>2 ^ 63\<close> no sum wraps, the blocks of a file of \<open>n\<close> bytes are the \<open>\<lceil>n / s\<rceil>\<close> smallest number
  that covers it, and it reports an error, without touching a file, exactly when the set has more than 32768 blocks.\<close>

theorem initFileIntegrity_correct:
  assumes "distinct (map fd_FileID (protectedFiles d))" "0 < sliceByteCount d" "sliceByteCount d < 2 ^ 63"
    and "\<forall>f\<in>set (protectedFiles d). ByteCount f < 2 ^ 63"
  defines "s \<equiv> sliceByteCount d"
  defines "blocks f \<equiv> (ByteCount f + s - 1) div s"
  shows "(if sum_list (map blocks (protectedFiles d)) \<le> 32768
    then initFileIntegrity d = (Ret (), d\<lparr>fileIntegrity := map (\<lambda>f. (fd_FileID f,
        \<lparr>fis_FileID = fd_FileID f, fis_Filename = Filename f, Damage = damageUnchecked, RenameSource = [],
         ShardLocations = replicate (blocks f) missingLocation\<rparr>)) (protectedFiles d)\<rparr>)
    else (\<exists>e d'. initFileIntegrity d = (Error e, d') \<and> root d' = root d)) \<and>
    (\<forall>f\<in>set (protectedFiles d). 0 < ByteCount f \<longrightarrow> (blocks f - 1) * s < ByteCount f \<and> ByteCount f \<le> blocks f * s)"
proof -
  have b: "unat (shardCount (ByteCount f) s) = blocks f" if "f \<in> set (protectedFiles d)" for f
    using shardCount_exact[of "ByteCount f" s] that assms(2-4) by (simp add: s_def blocks_def)
  have tot: "shard_total s (protectedFiles d) = sum_list (map blocks (protectedFiles d))"
    unfolding shard_total_def using b by (metis (no_types, lifting) map_eq_conv)
  have fresh: "map (\<lambda>f. (fd_FileID f, fresh_state s f)) (protectedFiles d) = map (\<lambda>f. (fd_FileID f,
        \<lparr>fis_FileID = fd_FileID f, fis_Filename = Filename f, Damage = damageUnchecked, RenameSource = [],
         ShardLocations = replicate (blocks f) missingLocation\<rparr>)) (protectedFiles d)"
    using b by (simp add: fresh_state_def)
  have root: "root (snd (initFileIntegrity d)) = root d"
  proof -
    have "keeps (\<lambda>d'. root d' = root d) initFileIntegrity"
      unfolding initFileIntegrity_def init_file_def Let_def by (intro keeps) simp_all
    then show ?thesis by (simp add: keeps_def)
  qed
  have "if sum_list (map blocks (protectedFiles d)) \<le> 32768
    then initFileIntegrity d = (Ret (), d\<lparr>fileIntegrity := map (\<lambda>f. (fd_FileID f,
        \<lparr>fis_FileID = fd_FileID f, fis_Filename = Filename f, Damage = damageUnchecked, RenameSource = [],
         ShardLocations = replicate (blocks f) missingLocation\<rparr>)) (protectedFiles d)\<rparr>)
    else (\<exists>e d'. initFileIntegrity d = (Error e, d') \<and> root d' = root d)"
    using initFileIntegrity_cases[OF assms(1)] root assms(2)
    unfolding s_def[symmetric] tot fresh by (auto split: if_splits)
  moreover have "\<forall>f\<in>set (protectedFiles d). 0 < ByteCount f \<longrightarrow> (blocks f - 1) * s < ByteCount f \<and> ByteCount f \<le> blocks f * s"
    using ceil_bounds[of s] assms(2) by (simp add: s_def blocks_def)
  ultimately show ?thesis by (rule conjI)
qed

theorem initFileIntegrity_correct_witness:
  "\<exists>d'. initFileIntegrity small_set = (Ret (), d') \<and> map (length \<circ> ShardLocations \<circ> snd) (fileIntegrity d') = [3]"
  using initFileIntegrity_correct[of small_set] by (simp add: small_set_def ten_bytes_def)

end
