(* ===== verification/CRC_Window.thy ===== *)
theory CRC_Window
  imports Bytes
begin

text \<open>
  The sliding CRC32 of \<open>src/par2/checksummer.go\<close>, over the table-driven IEEE CRC32 of Go's
  \<open>hash/crc32\<close>. The lemmas show that the checksum is affine in the data and that one \<open>update\<close> turns
  the checksum of a window into the checksum of the window one byte further.
\<close>

section \<open>CRC32 as \<open>hash/crc32\<close> computes it\<close>

text \<open>\<open>simpleMakeTable\<close> with the reversed IEEE polynomial, \<open>simpleUpdate\<close> and \<open>ChecksumIEEE\<close>.\<close>

definition crc_bit :: "u32 \<Rightarrow> u32" where
  "crc_bit x = (if x AND 1 \<noteq> 0 then drop_bit 1 x XOR 0xedb88320 else drop_bit 1 x)"

definition IEEETable :: "u32 list" where
  "IEEETable = map (\<lambda>i. (crc_bit ^^ 8) (of_nat i)) [0..<256]"

definition crc_step :: "u32 \<Rightarrow> u8 \<Rightarrow> u32" where
  "crc_step t b = IEEETable ! unat (ucast t XOR b) XOR drop_bit 8 t"

definition crc_raw :: "u32 \<Rightarrow> bytes \<Rightarrow> u32" where
  "crc_raw t bs = foldl crc_step t bs"

definition ChecksumIEEE :: "bytes \<Rightarrow> u32" where
  "ChecksumIEEE bs = NOT (crc_raw (NOT 0) bs)"

section \<open>The window\<close>

record crc32Window =
  windowSize :: nat
  crcOldLeaderMaskedTable :: "u32 list"

text \<open>The loop over the bits of \<open>i\<close>: the exclusive or of the base entries, and how many there are.\<close>

definition base_loop :: "u32 list \<Rightarrow> nat \<Rightarrow> nat list \<Rightarrow> u32 \<times> nat \<Rightarrow> u32 \<times> nat" where
  "base_loop baseTable i = fold (\<lambda>j (crc, crcCount).
     if bit i j then (crc XOR baseTable ! j, crcCount + 1) else (crc, crcCount))"

definition newCRC32Window :: "int \<Rightarrow> crc32Window res" where
  "newCRC32Window wsize =
     (if wsize < 4 then Error ''window size too small for sliding calculation''
      else bindR (makeslice (wsize + 1)) (\<lambda>_.
        let a = replicate (nat wsize + 1) (0 :: u8);
            crc0 = ChecksumIEEE a;
            crcWindowMask = ChecksumIEEE (a[0 := 0xff, 4 := 0xff]);
            baseTable = map (\<lambda>i. ChecksumIEEE (a[0 := push_bit i 1])) [0..<8];
            maskedTable = (crc0 XOR crcWindowMask) # map (\<lambda>i.
              let (crc, crcCount) = base_loop baseTable i [0..<8] (0, 0);
                  crc = (if crcCount mod 2 = 0 then crc XOR crc0 else crc)
              in crc XOR crcWindowMask) [1..<256]
        in Ret \<lparr>windowSize = nat wsize, crcOldLeaderMaskedTable = maskedTable\<rparr>))"

lemma newCRC32Window_Ret:
  assumes "newCRC32Window wsize = Ret w"
  shows "4 \<le> wsize" "wsize < maxAlloc"
  using assms by (auto simp: newCRC32Window_def makeslice_def res_iff split: if_splits)

definition update :: "crc32Window \<Rightarrow> u32 \<Rightarrow> u8 \<Rightarrow> u8 \<Rightarrow> u32" where
  "update w crc oldLeader newTrailer =
     (let t = NOT crc;
          t = IEEETable ! unat (ucast t XOR newTrailer) XOR drop_bit 8 t;
          crcExtended = NOT t
      in crcExtended XOR crcOldLeaderMaskedTable w ! unat oldLeader)"

section \<open>The checksum is affine\<close>

lemma crc_bit_xor: "crc_bit (x XOR y) = crc_bit x XOR crc_bit y"
  by (auto simp: crc_bit_def drop_bit_xor bit_xor_iff xor.assoc xor.left_commute xor.commute)

lemma crc_bit8_xor: "(crc_bit ^^ n) (x XOR y) = (crc_bit ^^ n) x XOR (crc_bit ^^ n) y"
  by (induction n) (simp_all add: crc_bit_xor)

lemma IEEETable_nth: "IEEETable ! unat b = (crc_bit ^^ 8) (ucast (b :: u8))"
proof -
  have "unat b < 256" using unsigned_less[of b] by simp
  then show ?thesis by (simp add: IEEETable_def del: funpow.simps)
qed

lemma crc_step_xor: "crc_step (s XOR t) (a XOR b) = crc_step s a XOR crc_step t b"
proof -
  have "ucast (s XOR t) XOR (a XOR b) = (ucast s XOR a) XOR (ucast t XOR b :: u8)"
    by (simp add: ucast_xor xor.assoc xor.left_commute xor.commute)
  then show ?thesis
    unfolding crc_step_def IEEETable_nth
    by (simp add: ucast_xor crc_bit8_xor drop_bit_xor xor.assoc xor.left_commute xor.commute
        del: funpow.simps)
qed

definition xor_bytes :: "bytes \<Rightarrow> bytes \<Rightarrow> bytes" where
  "xor_bytes xs ys = map2 (XOR) xs ys"

lemma crc_raw_xor:
  "length xs = length ys \<Longrightarrow> crc_raw (s XOR t) (xor_bytes xs ys) = crc_raw s xs XOR crc_raw t ys"
proof (induction xs ys arbitrary: s t rule: list_induct2)
  case (Cons x xs y ys)
  then show ?case by (simp add: crc_raw_def xor_bytes_def crc_step_xor)
qed (simp add: crc_raw_def xor_bytes_def)

lemma crc_raw_append: "crc_raw t (xs @ ys) = crc_raw (crc_raw t xs) ys"
  by (simp add: crc_raw_def)

lemma crc_step_0: "crc_step 0 0 = 0"
  by (metis crc_step_xor xor_self_eq)

lemma crc_raw_zeros: "crc_raw 0 (replicate n 0) = 0"
  by (induction n) (simp_all add: crc_raw_def crc_step_0)

text \<open>Three checksums combine to the checksum of the combination.\<close>

lemma checksum_affine:
  assumes "length x = length y" "length y = length z"
  shows "ChecksumIEEE x XOR ChecksumIEEE y XOR ChecksumIEEE z = ChecksumIEEE (xor_bytes (xor_bytes x y) z)"
proof -
  have "crc_raw (NOT 0 XOR NOT 0 XOR NOT 0) (xor_bytes (xor_bytes x y) z) =
      crc_raw (NOT 0) x XOR crc_raw (NOT 0) y XOR crc_raw (NOT 0) z"
    using assms crc_raw_xor[of x y "NOT 0" "NOT 0"] crc_raw_xor[of "xor_bytes x y" z "NOT 0 XOR NOT 0" "NOT 0"]
    by (simp add: xor_bytes_def xor.assoc)
  then show ?thesis
    by (simp add: ChecksumIEEE_def bit.xor_compl_left bit.xor_compl_right xor.assoc)
qed

section \<open>The masked table\<close>

text \<open>The window's array with leading byte \<open>b\<close>.\<close>

definition led_by :: "nat \<Rightarrow> u8 \<Rightarrow> bytes" where
  "led_by n b = b # replicate n 0"

text \<open>The part of the checksum that a leading byte contributes; it is linear in the byte.\<close>

definition lead :: "nat \<Rightarrow> u8 \<Rightarrow> u32" where
  "lead n b = crc_raw 0 (led_by n b)"

lemma xor_zeros: "xor_bytes xs (replicate (length xs) 0) = xs"
  by (induction xs) (simp_all add: xor_bytes_def)

lemma lead_xor: "lead n (a XOR b) = lead n a XOR lead n b"
proof -
  have "led_by n (a XOR b) = xor_bytes (led_by n a) (led_by n b)"
    using xor_zeros[of "replicate n 0"] by (simp add: led_by_def xor_bytes_def)
  then show ?thesis
    using crc_raw_xor[of "led_by n a" "led_by n b" 0 0] by (simp add: lead_def led_by_def)
qed

lemma lead_0: "lead n 0 = 0"
  using crc_raw_zeros[of "Suc n"] by (simp add: lead_def led_by_def)

lemma checksum_led_by: "ChecksumIEEE (led_by n b) = ChecksumIEEE (replicate (Suc n) 0) XOR lead n b"
proof -
  have "led_by n b = xor_bytes (replicate (Suc n) 0) (led_by n b)"
    using xor_zeros[of "replicate n 0"] by (simp add: led_by_def xor_bytes_def)
  then have "crc_raw (NOT 0) (led_by n b) = crc_raw (NOT 0) (replicate (Suc n) 0) XOR lead n b"
    using crc_raw_xor[of "replicate (Suc n) 0" "led_by n b" "NOT 0" 0] by (simp add: led_by_def lead_def)
  then show ?thesis by (simp add: ChecksumIEEE_def bit.xor_compl_left)
qed

lemma take_bit_Suc_xor:
  "take_bit (Suc j) (of_nat i :: u8) = take_bit j (of_nat i) XOR (if bit i j \<and> j < 8 then push_bit j 1 else 0)"
  by (rule word_bits_ext)
    (auto simp: bit_take_bit_iff bit_xor_iff bit_push_bit_iff bit_of_nat_iff bit_exp_iff less_Suc_eq)

lemma base_loop_eq:
  fixes n
  defines "crc0 \<equiv> ChecksumIEEE (replicate (Suc n) 0)"
  assumes base: "\<And>j. j < 8 \<Longrightarrow> baseTable ! j = crc0 XOR lead n (push_bit j 1)" and "j \<le> 8"
  shows "\<exists>c. base_loop baseTable i [0..<j] (0, 0) =
    ((if odd c then crc0 else 0) XOR lead n (take_bit j (of_nat i)), c)"
  using \<open>j \<le> 8\<close>
proof (induction j)
  case (Suc j)
  then obtain c where c: "base_loop baseTable i [0..<j] (0, 0) =
    ((if odd c then crc0 else 0) XOR lead n (take_bit j (of_nat i)), c)" by auto
  have "lead n (take_bit (Suc j) (of_nat i)) =
      lead n (take_bit j (of_nat i)) XOR (if bit i j then lead n (push_bit j 1) else 0)"
    using Suc.prems unfolding take_bit_Suc_xor lead_xor by (simp add: lead_0)
  with c base[of j] Suc.prems show ?case
    by (auto simp: base_loop_def xor.assoc xor.left_commute xor.commute simp del: take_bit_Suc push_bit_Suc)
qed (simp add: base_loop_def lead_0)

lemma masked_table:
  assumes "newCRC32Window (int n) = Ret w"
  shows "crcOldLeaderMaskedTable w ! unat b =
    ChecksumIEEE (led_by n b) XOR ChecksumIEEE ((replicate (Suc n) 0)[0 := 0xff, 4 := 0xff])"
proof -
  let ?a = "replicate (Suc n) (0 :: u8)"
  define crc0 where "crc0 = ChecksumIEEE ?a"
  define mask where "mask = ChecksumIEEE (?a[0 := 0xff, 4 := 0xff])"
  define base where "base = map (\<lambda>i. ChecksumIEEE (?a[0 := push_bit i 1])) [0..<8]"
  have n: "n \<ge> 4" "int n + 1 \<le> maxAlloc" using newCRC32Window_Ret[OF assms] by auto
  have sz: "nat (int n) + 1 = Suc n" by simp
  have w: "crcOldLeaderMaskedTable w = (crc0 XOR mask) # map (\<lambda>i.
      let (crc, crcCount) = base_loop base i [0..<8] (0, 0);
          crc = (if crcCount mod 2 = 0 then crc XOR crc0 else crc) in crc XOR mask) [1..<256]"
    using assms n make_Ret(1)[of "int n + 1"]
    unfolding newCRC32Window_def Let_def sz crc0_def[symmetric] mask_def[symmetric] base_def[symmetric]
    by auto
  have led: "?a[0 := x] = led_by n x" for x by (simp add: led_by_def)
  have base: "base ! j = crc0 XOR lead n (push_bit j 1)" if "j < 8" for j
    using that by (simp add: base_def led checksum_led_by crc0_def del: replicate_Suc)
  have b: "unat b < 256" "(of_nat (unat b) :: u8) = b" using unsigned_less[of b] by simp_all
  obtain c where "base_loop base (unat b) [0..<8] (0, 0) =
      ((if odd c then crc0 else 0) XOR lead n (take_bit 8 (of_nat (unat b))), c)"
    using base_loop_eq[of base n 8 "unat b"] base unfolding crc0_def by blast
  then have loop: "base_loop base (unat b) [0..<8] (0, 0) = ((if odd c then crc0 else 0) XOR lead n b, c)"
    using b(2) take_bit_word_eq_self[of 8 b] by simp
  have "crcOldLeaderMaskedTable w ! unat b = crc0 XOR lead n b XOR mask"
  proof (cases "unat b = 0")
    case True
    then have "b = 0" by (simp add: unat_eq_0)
    then show ?thesis using w by (simp add: lead_0)
  next
    case False
    then have "crcOldLeaderMaskedTable w ! unat b = (let (crc, crcCount) = base_loop base (unat b) [0..<8] (0, 0);
          crc = (if crcCount mod 2 = 0 then crc XOR crc0 else crc) in crc XOR mask)"
      using w b(1) by (simp add: nth_Cons' del: upt_Suc)
    then show ?thesis
      unfolding loop by (auto simp: xor.assoc xor.commute xor.left_commute odd_iff_mod_2_eq_one even_iff_mod_2_eq_zero)
  qed
  then show ?thesis by (simp add: checksum_led_by crc0_def mask_def xor.assoc del: replicate_Suc)
qed

section \<open>One step of the window\<close>

lemma crc_step_evals:
  "crc_step 0xff000000 0 = 0xff0000" "crc_step 0xff0000 0 = 0xff00" "crc_step 0xff00 0 = 0xff"
  "crc_step 0xff 0xff = 0" "crc_step 0xffffffff 0xff = 0xffffff"
proof -
  have "(crc_bit ^^ k) 0 = 0" for k by (induction k) (simp_all add: crc_bit_def)
  then have "IEEETable ! 0 = 0" using IEEETable_nth[of 0] by (simp del: funpow.simps)
  then show "crc_step 0xff000000 0 = 0xff0000" "crc_step 0xff0000 0 = 0xff00" "crc_step 0xff00 0 = 0xff"
    "crc_step 0xff 0xff = 0" "crc_step 0xffffffff 0xff = 0xffffff"
    by (simp_all add: crc_step_def)
qed

text \<open>A leading \<open>0xff\<close> and the fifth byte flipped leave the state of a run that starts one byte later.\<close>

lemma crc_raw_shift:
  "crc_raw 0xffffff (x0 # x1 # x2 # (x3 XOR 0xff) # xs) = crc_raw 0xffffffff (x0 # x1 # x2 # x3 # xs)"
proof -
  have "crc_raw 0xff000000 [0, 0, 0, 0xff] = 0" by (simp add: crc_raw_def crc_step_evals)
  moreover have "crc_raw (0xffffffff XOR 0xff000000) (xor_bytes [x0, x1, x2, x3] [0, 0, 0, 0xff]) =
      crc_raw 0xffffffff [x0, x1, x2, x3] XOR crc_raw 0xff000000 [0, 0, 0, 0xff]"
    by (rule crc_raw_xor) simp
  ultimately have "crc_raw 0xffffff [x0, x1, x2, x3 XOR 0xff] = crc_raw 0xffffffff [x0, x1, x2, x3]"
    by (simp add: xor_bytes_def)
  then show ?thesis
    using crc_raw_append[of _ "[x0, x1, x2, x3 XOR 0xff]" xs] crc_raw_append[of _ "[x0, x1, x2, x3]" xs] by simp
qed

lemma update_slides:
  assumes w: "newCRC32Window (int n) = Ret w" and len: "length (a # rest) = n"
  shows "update w (ChecksumIEEE (a # rest)) a b = ChecksumIEEE (rest @ [b])"
proof -
  let ?M = "(replicate (Suc n) (0 :: u8))[0 := 0xff, 4 := 0xff]"
  have n: "n \<ge> 4" using newCRC32Window_Ret[OF w] by simp
  with len have "4 \<le> length (rest @ [b])" by simp
  then obtain x0 x1 x2 x3 xs where rest: "rest @ [b] = x0 # x1 # x2 # x3 # xs"
    by (cases "rest @ [b]"; cases "tl (rest @ [b])"; cases "tl (tl (rest @ [b]))"; cases "tl (tl (tl (rest @ [b])))") auto
  have "length (rest @ [b]) = n" using len by simp
  then have xs: "n = Suc (Suc (Suc (Suc (length xs))))" unfolding rest by simp
  have "update w (ChecksumIEEE (a # rest)) a b = ChecksumIEEE (a # rest @ [b]) XOR ChecksumIEEE (led_by n a) XOR ChecksumIEEE ?M"
    unfolding update_def masked_table[OF w]
    by (simp add: ChecksumIEEE_def crc_raw_def crc_step_def Let_def del: replicate_Suc)
  also have "\<dots> = ChecksumIEEE (xor_bytes (xor_bytes (a # rest @ [b]) (led_by n a)) ?M)"
    using len by (intro checksum_affine) (auto simp: led_by_def)
  also have "xor_bytes (xor_bytes (a # rest @ [b]) (led_by n a)) ?M = 0xff # x0 # x1 # x2 # (x3 XOR 0xff) # xs"
    using xor_zeros[of xs] unfolding rest xs by (simp add: xor_bytes_def led_by_def)
  also have "ChecksumIEEE \<dots> = ChecksumIEEE (rest @ [b])"
  proof -
    have "(NOT 0 :: u32) = 0xffffffff" by simp
    then show ?thesis
      using crc_raw_shift[of x0 x1 x2 x3 xs] unfolding rest ChecksumIEEE_def
      by (simp only: crc_raw_def foldl.simps crc_step_evals)
  qed
  finally show ?thesis .
qed

section \<open>Properties\<close>

text \<open>C21. Sliding is recomputing: a window of size \<open>n\<close>, started with the checksum of the first \<open>n\<close> bytes of a file
  and updated byte by byte, holds after \<open>i\<close> updates the IEEE checksum of the \<open>n\<close> bytes at offset \<open>i\<close>.\<close>

theorem rolling_checksum_correct:
  assumes "newCRC32Window (int n) = Ret w" "n + i \<le> length bs"
  shows "fold (\<lambda>k crc. update w crc (bs ! k) (bs ! (k + n))) [0..<i] (ChecksumIEEE (take n bs)) =
    ChecksumIEEE (take n (drop i bs))"
  using assms(2)
proof (induction i)
  case (Suc i)
  have n: "0 < n" using newCRC32Window_Ret(1)[OF assms(1)] by simp
  define rest where "rest = take (n - 1) (drop (Suc i) bs)"
  have "take n (drop i bs) = bs ! i # rest"
    using Suc.prems n by (cases n) (simp_all add: rest_def flip: Cons_nth_drop_Suc)
  moreover have "take n (drop (Suc i) bs) = rest @ [bs ! (i + n)]"
    using Suc.prems n take_Suc_conv_app_nth[of "n - 1" "drop (Suc i) bs"] by (simp add: rest_def add.commute)
  moreover have "length (bs ! i # rest) = n" using Suc.prems n by (simp add: rest_def)
  ultimately show ?case using Suc.IH Suc.prems update_slides[OF assms(1)] by simp
qed simp

theorem rolling_checksum_correct_witness:
  "\<exists>w. newCRC32Window 4 = Ret w \<and>
     update w (update w (ChecksumIEEE [1, 2, 3, 4]) 1 5) 2 6 = ChecksumIEEE [3, 4, 5, 6]"
proof -
  obtain w where w: "newCRC32Window (int 4) = Ret w" by (simp add: newCRC32Window_def makeslice_def maxAlloc_def Let_def)
  have u: "[0..<2] = [0, Suc 0]" by (simp add: upt_rec)
  show ?thesis
    using rolling_checksum_correct[OF w, of 2 "[1, 2, 3, 4, 5, 6]"] w by (auto simp: u numeral_eq_Suc)
qed

end
