(* ===== verification/CRC_Table.thy ===== *)
theory CRC_Table
  imports Bytes
begin

text \<open>
  The open-addressing lookup table of \<open>src/par2/crc_table.go\<close>, from the CRC32 of a block to the
  locations that expect a block with that checksum. Go visits the source map in an arbitrary order,
  so the constructor takes its entries as a list in the order of the visit. The probing loops are
  partial functions; the lemmas show that they end and that the table is a correct implementation of
  the map it was built from.
\<close>

record checksumLocation =
  fileID :: bytes
  shardIndex :: nat
  md5Hash :: bytes
  reported :: "nat option"

text \<open>\<open>reported\<close> points to a flag: it is the number of the flag in the array of flags, or \<open>nil\<close>.\<close>

record crcTableEntry =
  crc :: u32
  valid :: bool
  locs :: "checksumLocation list"

record crcLookupTable =
  mask' :: u32
  table :: "crcTableEntry list"

definition empty_entry :: crcTableEntry where
  "empty_entry = \<lparr>crc = 0, valid = False, locs = []\<rparr>"

function size_loop :: "nat \<Rightarrow> nat \<Rightarrow> nat" where
  "size_loop sz numEntries =
     (if 0 < sz \<and> sz < numEntries * 4 then size_loop (sz * 2) numEntries else sz)"
  by pat_completeness auto
termination
  by (relation "measure (\<lambda>(s, n). n * 4 - s)") auto

declare size_loop.simps [simp del]

text \<open>Each location of the entry gets the next flag.\<close>

definition assign_flags :: "nat \<Rightarrow> checksumLocation list \<Rightarrow> checksumLocation list" where
  "assign_flags next ls = map2 (\<lambda>i l. l\<lparr>reported := Some i\<rparr>) [next..<next + length ls] ls"

partial_function (option) insert_loop ::
    "u32 \<Rightarrow> crcTableEntry \<Rightarrow> u32 \<Rightarrow> crcTableEntry list \<Rightarrow> crcTableEntry list option" where
  "insert_loop m e idx tab =
     (if \<not> valid (tab ! unat idx) then Some (tab[unat idx := e])
      else insert_loop m e ((idx + 1) AND m) tab)"

definition insert_entry ::
    "u32 \<Rightarrow> u32 \<times> checksumLocation list \<Rightarrow> nat \<times> crcTableEntry list \<Rightarrow> (nat \<times> crcTableEntry list) option" where
  "insert_entry m kv st =
     (case (kv, st) of ((c, ls), (next, tab)) \<Rightarrow>
        map_option (Pair (next + length ls))
          (insert_loop m \<lparr>crc = c, valid = True, locs = assign_flags next ls\<rparr> (c AND m) tab))"

fun insert_all ::
    "u32 \<Rightarrow> (u32 \<times> checksumLocation list) list \<Rightarrow> nat \<times> crcTableEntry list \<Rightarrow> (nat \<times> crcTableEntry list) option" where
  "insert_all m [] st = Some st"
| "insert_all m (kv # kvs) st = Option.bind (insert_entry m kv st) (insert_all m kvs)"

definition newCRCLookupTable :: "(u32 \<times> checksumLocation list) list \<Rightarrow> crcLookupTable option" where
  "newCRCLookupTable checksumMap =
     (let sz = size_loop 16 (length checksumMap);
          m = of_nat (sz - 1)
      in map_option (\<lambda>(_, tab). \<lparr>mask' = m, table = tab\<rparr>)
           (insert_all m checksumMap (0, replicate sz empty_entry)))"

partial_function (option) lookup_loop ::
    "u32 \<Rightarrow> crcTableEntry list \<Rightarrow> u32 \<Rightarrow> u32 \<Rightarrow> (checksumLocation list \<times> bool) option" where
  "lookup_loop m tab c idx =
     (if \<not> valid (tab ! unat idx) then Some ([], False)
      else if crc (tab ! unat idx) = c then Some (locs (tab ! unat idx), True)
      else lookup_loop m tab c ((idx + 1) AND m))"

definition Lookup :: "crcLookupTable \<Rightarrow> u32 \<Rightarrow> (checksumLocation list \<times> bool) option" where
  "Lookup t c = lookup_loop (mask' t) (table t) c (c AND mask' t)"

section \<open>Probing\<close>

lemma size_loop_power:
  assumes "\<exists>k\<ge>4. sz = 2 ^ k" "8 * n \<le> 2 ^ 31" "sz \<le> 2 ^ 31"
  shows "\<exists>k. 4 \<le> k \<and> k \<le> 31 \<and> size_loop sz n = 2 ^ k \<and> n * 4 \<le> size_loop sz n"
  using assms
proof (induction sz n rule: size_loop.induct)
  case (1 sz n)
  then obtain k where k: "4 \<le> k" "sz = 2 ^ k" by blast
  have "k \<le> 31" using 1(4) k(2) power_increasing_iff[of "2 :: nat" k 31] by simp
  show ?case
  proof (cases "sz < n * 4")
    case True
    then have "sz * 2 \<le> 2 ^ 31" using 1(3) by simp
    moreover have "\<exists>k\<ge>4. sz * 2 = 2 ^ k" using k by (intro exI[of _ "Suc k"]) simp
    ultimately show ?thesis using 1(1,3) True k by (subst (1 2) size_loop.simps) simp
  next
    case False
    then show ?thesis using k \<open>k \<le> 31\<close> by (subst (1 2) size_loop.simps) auto
  qed
qed

text \<open>The table has \<open>2 ^ k\<close> slots; masked indexes are residues.\<close>

lemma mask_index: "k \<le> 31 \<Longrightarrow> unat (x AND of_nat (2 ^ k - 1)) = unat (x :: u32) mod 2 ^ k"
proof -
  assume "k \<le> 31"
  have "(of_nat (2 ^ k - 1) :: u32) = mask k" by (simp add: mask_eq_exp_minus_1 of_nat_diff)
  then show ?thesis by (metis take_bit_eq_mask take_bit_eq_mod unsigned_take_bit_eq)
qed

lemma mask_next:
  assumes "k \<le> 31" "unat idx < 2 ^ k"
  shows "unat ((idx + 1 :: u32) AND of_nat (2 ^ k - 1)) = (unat idx + 1) mod 2 ^ k"
proof -
  have "(2 :: nat) ^ k \<le> 2 ^ 31" using assms(1) by (intro power_increasing) auto
  then have "unat (idx + 1) = unat idx + 1" using assms(2) by (simp add: unat_word_ariths)
  then show ?thesis using mask_index[OF assms(1), of "idx + 1"] by simp
qed

text \<open>The slot that a probe sequence reaches after \<open>d\<close> steps.\<close>

definition slot :: "nat \<Rightarrow> nat \<Rightarrow> nat \<Rightarrow> nat" where
  "slot n h d = (h + d) mod n"

lemma slot_less: "0 < n \<Longrightarrow> slot n h d < n"
  by (simp add: slot_def)

lemma slot_Suc: "slot n ((h + 1) mod n) d = slot n h (Suc d)"
  by (simp add: slot_def mod_add_left_eq)

lemma slot_0: "h < n \<Longrightarrow> slot n h 0 = h"
  by (simp add: slot_def)

lemma slot_inj: "d < n \<Longrightarrow> d' < n \<Longrightarrow> slot n h d = slot n h d' \<Longrightarrow> d = d'"
proof (induction d d' rule: linorder_wlog)
  case (le a b)
  then have "n dvd b - a" using mod_eq_dvd_iff_nat[of "h + a" "h + b" n] by (auto simp: slot_def)
  with le show ?case by (auto dest: dvd_imp_le)
qed auto

lemma slot_surj: "h < n \<Longrightarrow> p < n \<Longrightarrow> \<exists>d<n. slot n h d = p"
  by (rule exI[of _ "(p + (n - h)) mod n"]) (auto simp: slot_def mod_add_right_eq)

lemma insert_loop_slot:
  assumes "k \<le> 31" "unat idx < 2 ^ k" "\<not> valid (tab ! slot (2 ^ k) (unat idx) d)"
    "\<forall>d'<d. valid (tab ! slot (2 ^ k) (unat idx) d')" and m: "m = of_nat (2 ^ k - 1)"
  shows "insert_loop m e idx tab = Some (tab[slot (2 ^ k) (unat idx) d := e])"
  using assms(2-4)
proof (induction d arbitrary: idx)
  case 0
  then show ?case by (subst insert_loop.simps) (simp add: slot_0)
next
  case (Suc d)
  let ?i = "(idx + 1) AND m"
  have i: "unat ?i = (unat idx + 1) mod 2 ^ k" unfolding m using assms(1) Suc.prems(1) by (rule mask_next)
  have s: "slot (2 ^ k) (unat ?i) d' = slot (2 ^ k) (unat idx) (Suc d')" for d' unfolding i by (rule slot_Suc)
  have "insert_loop m e ?i tab = Some (tab[slot (2 ^ k) (unat ?i) d := e])"
    by (rule Suc.IH) (use i s Suc.prems in auto)
  moreover have "valid (tab ! unat idx)" using Suc.prems(1) Suc.prems(3)[rule_format, of 0] by (simp add: slot_0)
  ultimately show ?case by (subst insert_loop.simps) (simp add: s)
qed

lemma lookup_loop_slot:
  assumes "k \<le> 31" "unat idx < 2 ^ k"
    "\<forall>d'<d. valid (tab ! slot (2 ^ k) (unat idx) d') \<and> crc (tab ! slot (2 ^ k) (unat idx) d') \<noteq> c"
    "\<not> valid (tab ! slot (2 ^ k) (unat idx) d) \<or> crc (tab ! slot (2 ^ k) (unat idx) d) = c"
    and m: "m = of_nat (2 ^ k - 1)"
  shows "lookup_loop m tab c idx =
    Some (if valid (tab ! slot (2 ^ k) (unat idx) d) then (locs (tab ! slot (2 ^ k) (unat idx) d), True) else ([], False))"
  using assms(2-4)
proof (induction d arbitrary: idx)
  case 0
  then show ?case by (subst lookup_loop.simps) (simp add: slot_0)
next
  case (Suc d)
  let ?i = "(idx + 1) AND m"
  have i: "unat ?i = (unat idx + 1) mod 2 ^ k" unfolding m using assms(1) Suc.prems(1) by (rule mask_next)
  have s: "slot (2 ^ k) (unat ?i) d' = slot (2 ^ k) (unat idx) (Suc d')" for d' unfolding i by (rule slot_Suc)
  have "lookup_loop m tab c ?i =
      Some (if valid (tab ! slot (2 ^ k) (unat ?i) d) then (locs (tab ! slot (2 ^ k) (unat ?i) d), True) else ([], False))"
    by (rule Suc.IH) (use i s Suc.prems in auto)
  moreover have "valid (tab ! unat idx)" "crc (tab ! unat idx) \<noteq> c"
    using Suc.prems(1) Suc.prems(2)[rule_format, of 0] by (simp_all add: slot_0)
  ultimately show ?case by (subst lookup_loop.simps) (simp add: s)
qed

section \<open>The table refines the map\<close>

text \<open>A table of \<open>n\<close> slots that holds exactly the entries \<open>es\<close>, each reachable from its home slot.\<close>

definition holds :: "nat \<Rightarrow> (u32 \<times> checksumLocation list) list \<Rightarrow> crcTableEntry list \<Rightarrow> bool" where
  "holds n es tab \<longleftrightarrow> length tab = n \<and>
     (\<forall>(c, ls) \<in> set es. \<exists>d<n. tab ! slot n (unat c mod n) d = \<lparr>crc = c, valid = True, locs = ls\<rparr> \<and>
        (\<forall>d'<d. valid (tab ! slot n (unat c mod n) d'))) \<and>
     (\<forall>p<n. valid (tab ! p) \<longrightarrow> (crc (tab ! p), locs (tab ! p)) \<in> set es) \<and>
     (\<forall>p<n. \<forall>q<n. valid (tab ! p) \<longrightarrow> valid (tab ! q) \<longrightarrow> crc (tab ! p) = crc (tab ! q) \<longrightarrow> p = q) \<and>
     card {p. p < n \<and> valid (tab ! p)} \<le> length es"

lemma holds_empty: "holds n [] (replicate n empty_entry)"
  by (auto simp: holds_def empty_entry_def)

lemma holds_first_free:
  assumes "holds n es tab" "length es < n" "h < n"
  shows "\<exists>d<n. \<not> valid (tab ! slot n h d) \<and> (\<forall>d'<d. valid (tab ! slot n h d'))"
proof -
  have "\<exists>p<n. \<not> valid (tab ! p)"
  proof (rule ccontr)
    assume "\<not> (\<exists>p<n. \<not> valid (tab ! p))"
    then have "{p. p < n \<and> valid (tab ! p)} = {..<n}" by auto
    then show False using assms(1,2) by (simp add: holds_def)
  qed
  then obtain d0 where "d0 < n" "\<not> valid (tab ! slot n h d0)" using slot_surj[OF assms(3)] by blast
  then have "\<exists>d. (d < n \<and> \<not> valid (tab ! slot n h d)) \<and> (\<forall>d'<d. \<not> (d' < n \<and> \<not> valid (tab ! slot n h d')))"
    by (intro exists_least_iff[THEN iffD1]) blast
  then show ?thesis by (metis order.strict_trans)
qed

lemma holds_entry:
  assumes "holds n es tab" "(c, ls) \<in> set es"
  shows "\<exists>d<n. tab ! slot n (unat c mod n) d = \<lparr>crc = c, valid = True, locs = ls\<rparr> \<and>
    (\<forall>d'<d. valid (tab ! slot n (unat c mod n) d'))"
  using assms by (auto simp: holds_def dest: bspec)

lemma holds_sub: "holds n es tab \<Longrightarrow> p < n \<Longrightarrow> valid (tab ! p) \<Longrightarrow> (crc (tab ! p), locs (tab ! p)) \<in> set es"
  unfolding holds_def by blast

lemma holds_inj:
  "holds n es tab \<Longrightarrow> p < n \<Longrightarrow> q < n \<Longrightarrow> valid (tab ! p) \<Longrightarrow> valid (tab ! q) \<Longrightarrow> crc (tab ! p) = crc (tab ! q) \<Longrightarrow> p = q"
  unfolding holds_def by blast

lemma holds_insert:
  assumes h: "holds n es tab" and c: "c \<notin> fst ` set es" and d: "d < n" "\<not> valid (tab ! slot n (unat c mod n) d)"
    "\<forall>d'<d. valid (tab ! slot n (unat c mod n) d')"
  shows "holds n (es @ [(c, ls)]) (tab[slot n (unat c mod n) d := \<lparr>crc = c, valid = True, locs = ls\<rparr>])"
    (is "holds n _ (tab[?p := ?e])")
proof -
  have p: "?p < n" "length tab = n" using d h by (auto simp: slot_less holds_def)
  then have nth: "tab[?p := ?e] ! q = (if q = ?p then ?e else tab ! q)" for q by (cases "q = ?p") simp_all
  have keep: "valid (tab ! q) \<Longrightarrow> tab[?p := ?e] ! q = tab ! q" for q using d(2) nth[of q] by auto
  have new: "(c', ls') \<in> set es \<Longrightarrow> c' \<noteq> c" for c' ls' using c by force
  have old: "\<exists>d<n. tab[?p := ?e] ! slot n (unat c' mod n) d = \<lparr>crc = c', valid = True, locs = ls'\<rparr> \<and>
      (\<forall>d'<d. valid (tab[?p := ?e] ! slot n (unat c' mod n) d'))" if es: "(c', ls') \<in> set es" for c' ls'
  proof -
    obtain d where "d < n" "tab ! slot n (unat c' mod n) d = \<lparr>crc = c', valid = True, locs = ls'\<rparr>"
      "\<forall>d'<d. valid (tab ! slot n (unat c' mod n) d')" using holds_entry[OF h es] by blast
    then show ?thesis using keep by (intro exI[of _ d]) auto
  qed
  have A: "\<exists>d<n. tab[?p := ?e] ! slot n (unat c' mod n) d = \<lparr>crc = c', valid = True, locs = ls'\<rparr> \<and>
      (\<forall>d'<d. valid (tab[?p := ?e] ! slot n (unat c' mod n) d'))" if "(c', ls') \<in> set (es @ [(c, ls)])" for c' ls'
  proof (cases "(c', ls') \<in> set es")
    case False
    then have "c' = c" "ls' = ls" using that by auto
    then show ?thesis using d nth keep by (intro exI[of _ d]) auto
  qed (rule old)
  have "{q. q < n \<and> valid (tab[?p := ?e] ! q)} = insert ?p {q. q < n \<and> valid (tab ! q)}"
    using p d(2) by (auto simp: nth)
  then have E: "card {q. q < n \<and> valid (tab[?p := ?e] ! q)} \<le> length (es @ [(c, ls)])"
    using h d(2) by (simp add: holds_def)
  note sub = holds_sub[OF h] and inj = holds_inj[OF h]
  have fresh: "crc (tab ! q) \<noteq> c" if "q < n" "valid (tab ! q)" for q
    using sub[OF that] new by blast
  have D: "q = r" if "q < n" "r < n" "valid (tab[?p := ?e] ! q)" "valid (tab[?p := ?e] ! r)"
      "crc (tab[?p := ?e] ! q) = crc (tab[?p := ?e] ! r)" for q r
    using that inj[of q r] fresh[of q] fresh[of r] by (simp add: nth split: if_splits)
  have B: "(crc (tab[?p := ?e] ! q), locs (tab[?p := ?e] ! q)) \<in> set (es @ [(c, ls)])"
    if "q < n" "valid (tab[?p := ?e] ! q)" for q
    using that sub[of q] by (simp add: nth split: if_splits)
  show ?thesis unfolding holds_def
  proof (intro conjI ballI allI impI)
    fix x assume "x \<in> set (es @ [(c, ls)])"
    then show "case x of (c, ls) \<Rightarrow> \<exists>d<n. tab[?p := ?e] ! slot n (unat c mod n) d = \<lparr>crc = c, valid = True, locs = ls\<rparr> \<and>
        (\<forall>d'<d. valid (tab[?p := ?e] ! slot n (unat c mod n) d'))"
      using A[of "fst x" "snd x"] by (simp only: split_beta prod.collapse)
  next
    show "length (tab[?p := ?e]) = n" using p(2) by simp
  qed (fact B | fact D | fact E)+
qed

text \<open>The entries with their flags, as the table stores them.\<close>

fun flagged :: "nat \<Rightarrow> (u32 \<times> checksumLocation list) list \<Rightarrow> (u32 \<times> checksumLocation list) list" where
  "flagged next [] = []"
| "flagged next ((c, ls) # kvs) = (c, assign_flags next ls) # flagged (next + length ls) kvs"

lemma length_flagged [simp]: "length (flagged next kvs) = length kvs"
  by (induction "next" kvs rule: flagged.induct) auto

lemma fst_flagged: "map fst (flagged next kvs) = map fst kvs"
  by (induction "next" kvs rule: flagged.induct) auto

lemma insert_all_holds:
  assumes "k \<le> 31" and m: "m = of_nat (2 ^ k - 1)"
    and "holds (2 ^ k) es tab" "length es + length kvs < 2 ^ k" "distinct (map fst es @ map fst kvs)"
  shows "\<exists>n tab'. insert_all m kvs (next, tab) = Some (n, tab') \<and> holds (2 ^ k) (es @ flagged next kvs) tab'"
  using assms(3-5)
proof (induction kvs arbitrary: es "next" tab)
  case (Cons kv kvs)
  obtain c ls where kv: "kv = (c, ls)" by (cases kv)
  let ?N = "2 ^ k :: nat" and ?ls = "assign_flags next ls"
  let ?e = "\<lparr>crc = c, valid = True, locs = ?ls\<rparr>"
  have home: "unat (c AND m) = unat c mod ?N" unfolding m using assms(1) by (rule mask_index)
  then have less: "unat (c AND m) < ?N" by simp
  obtain d where d: "d < ?N" "\<not> valid (tab ! slot ?N (unat (c AND m)) d)"
    "\<forall>d'<d. valid (tab ! slot ?N (unat (c AND m)) d')"
    using holds_first_free[OF Cons.prems(1) _ less] Cons.prems(2) by auto
  have "insert_loop m ?e (c AND m) tab = Some (tab[slot ?N (unat (c AND m)) d := ?e])"
    using assms(1) less d(2,3) m by (rule insert_loop_slot)
  moreover have "holds ?N (es @ [(c, ?ls)]) (tab[slot ?N (unat (c AND m)) d := ?e])"
    using Cons.prems(1,3) d unfolding home by (intro holds_insert) (auto simp: kv)
  from Cons.IH[OF this, of "next + length ls"] Cons.prems(2,3)
  obtain n tab' where "insert_all m kvs (next + length ls, tab[slot ?N (unat (c AND m)) d := ?e]) = Some (n, tab')"
    "holds ?N (es @ flagged next (kv # kvs)) tab'" by (auto simp: kv)
  ultimately show ?case by (auto simp: kv insert_entry_def)
qed simp

lemma holds_lookup:
  assumes "k \<le> 31" and m: "m = of_nat (2 ^ k - 1)" and h: "holds (2 ^ k) es tab" "length es < 2 ^ k"
  shows "lookup_loop m tab c (c AND m) = Some (case map_of es c of Some ls \<Rightarrow> (ls, True) | None \<Rightarrow> ([], False))"
proof -
  let ?N = "2 ^ k :: nat" let ?h = "unat (c AND m)"
  have home: "?h = unat c mod ?N" unfolding m using assms(1) by (rule mask_index)
  then have less: "?h < ?N" by simp
  show ?thesis
  proof (cases "map_of es c")
    case None
    then have "c \<notin> fst ` set es" by (simp add: map_of_eq_None_iff)
    then have other: "crc (tab ! p) \<noteq> c" if "p < ?N" "valid (tab ! p)" for p
      using holds_sub[OF h(1) that] by force
    obtain d where d: "d < ?N" "\<not> valid (tab ! slot ?N ?h d)" "\<forall>d'<d. valid (tab ! slot ?N ?h d')"
      using holds_first_free[OF h less] by auto
    with other have "\<forall>d'<d. valid (tab ! slot ?N ?h d') \<and> crc (tab ! slot ?N ?h d') \<noteq> c" by (simp add: slot_less)
    from lookup_loop_slot[OF assms(1) less this _ m] d(2) None show ?thesis by simp
  next
    case (Some ls)
    then have "(c, ls) \<in> set es" by (rule map_of_SomeD)
    then obtain d where d: "d < ?N" "tab ! slot ?N ?h d = \<lparr>crc = c, valid = True, locs = ls\<rparr>"
      "\<forall>d'<d. valid (tab ! slot ?N ?h d')" using holds_entry[OF h(1)] unfolding home by blast
    have "crc (tab ! slot ?N ?h d') \<noteq> c" if "d' < d" for d'
    proof
      assume c: "crc (tab ! slot ?N ?h d') = c"
      have "slot ?N ?h d' = slot ?N ?h d"
        using d that c by (intro holds_inj[OF h(1)]) (simp_all add: slot_less)
      then show False using slot_inj[of d' ?N d ?h] d(1) that by simp
    qed
    with d(3) have "\<forall>d'<d. valid (tab ! slot ?N ?h d') \<and> crc (tab ! slot ?N ?h d') \<noteq> c" by blast
    from lookup_loop_slot[OF assms(1) less this _ m] d(2) Some show ?thesis by simp
  qed
qed

lemma table_refines_map:
  assumes "distinct (map fst kvs)" "length kvs \<le> 2 ^ 28"
  shows "\<exists>t. newCRCLookupTable kvs = Some t \<and>
    (\<forall>c. Lookup t c = Some (case map_of (flagged 0 kvs) c of Some ls \<Rightarrow> (ls, True) | None \<Rightarrow> ([], False)))"
proof -
  obtain k where k: "4 \<le> k" "k \<le> 31" "size_loop 16 (length kvs) = 2 ^ k" "length kvs * 4 \<le> size_loop 16 (length kvs)"
  proof -
    have "\<exists>k\<ge>4. (16 :: nat) = 2 ^ k" by (intro exI[of _ 4]) simp
    then show ?thesis using size_loop_power[of 16 "length kvs"] assms(2) that by auto
  qed
  define m :: u32 where "m = of_nat (2 ^ k - 1)"
  have "0 < (2 :: nat) ^ k" by simp
  then have lt: "length kvs < 2 ^ k" using k(3,4) by linarith
  obtain n tab where tab: "insert_all m kvs (0, replicate (2 ^ k) empty_entry) = Some (n, tab)"
    "holds (2 ^ k) (flagged 0 kvs) tab"
    using insert_all_holds[OF k(2) m_def holds_empty, of kvs 0] lt assms(1) by auto
  then have "newCRCLookupTable kvs = Some \<lparr>mask' = m, table = tab\<rparr>"
    unfolding newCRCLookupTable_def k(3) Let_def m_def[symmetric] by simp
  moreover have "Lookup \<lparr>mask' = m, table = tab\<rparr> c =
      Some (case map_of (flagged 0 kvs) c of Some ls \<Rightarrow> (ls, True) | None \<Rightarrow> ([], False))" for c
    using holds_lookup[OF k(2) m_def tab(2)] lt by (simp add: Lookup_def)
  ultimately show ?thesis by blast
qed

section \<open>Flags\<close>

text \<open>Apart from the flags, an entry is stored as it was; the flags of all locations are distinct.\<close>

definition unflag :: "checksumLocation \<Rightarrow> checksumLocation" where
  "unflag l = l\<lparr>reported := None\<rparr>"

lemma length_assign_flags [simp]: "length (assign_flags n ls) = length ls"
  by (simp add: assign_flags_def)

lemma unflag_assign: "map unflag (assign_flags n ls) = map unflag ls"
  by (rule nth_equalityI) (simp_all add: assign_flags_def unflag_def)

lemma reported_assign: "map reported (assign_flags n ls) = map Some [n..<n + length ls]"
  by (rule nth_equalityI) (simp_all add: assign_flags_def)

lemma map_of_flagged:
  "map_option (map unflag) (map_of (flagged n kvs) c) = map_option (map unflag) (map_of kvs c)"
  by (induction n kvs rule: flagged.induct) (simp_all add: unflag_assign)

lemma flags_distinct:
  "concat (map (map reported \<circ> snd) (flagged n kvs)) = map Some [n..<n + sum_list (map (length \<circ> snd) kvs)]"
proof (induction n kvs rule: flagged.induct)
  case (2 n c ls kvs)
  have "[n..<n + (length ls + s)] = [n..<n + length ls] @ [n + length ls..<n + length ls + s]" for s
    using upt_add_eq_append[of n "n + length ls" s] by (simp only: add.assoc le_add1)
  with 2 show ?case by (simp add: reported_assign)
qed simp

section \<open>Properties\<close>

text \<open>C22. The open-addressing table is the map it is built from: building it from up to \<open>2 ^ 28\<close> distinct checksums
  ends, every lookup ends, a checksum of the map is found with its locations (each now with its own reported
  flag), and any other checksum is reported absent.\<close>

theorem lookup_table_refines_map:
  assumes "distinct (map fst checksumMap)" "length checksumMap \<le> 2 ^ 28"
  shows "\<exists>t. newCRCLookupTable checksumMap = Some t \<and>
    (\<forall>c. case map_of checksumMap c of
       None \<Rightarrow> Lookup t c = Some ([], False)
     | Some ls \<Rightarrow> \<exists>ls'. Lookup t c = Some (ls', True) \<and> map unflag ls' = map unflag ls)"
proof -
  obtain t where t: "newCRCLookupTable checksumMap = Some t"
    "\<And>c. Lookup t c = Some (case map_of (flagged 0 checksumMap) c of Some ls \<Rightarrow> (ls, True) | None \<Rightarrow> ([], False))"
    using table_refines_map[OF assms] by blast
  have "case map_of checksumMap c of None \<Rightarrow> Lookup t c = Some ([], False)
      | Some ls \<Rightarrow> \<exists>ls'. Lookup t c = Some (ls', True) \<and> map unflag ls' = map unflag ls" for c
    using map_of_flagged[of 0 checksumMap c] t(2)[of c]
    by (cases "map_of checksumMap c") auto
  with t(1) show ?thesis by blast
qed

theorem lookup_table_refines_map_witness:
  "\<exists>t. newCRCLookupTable [(7, [\<lparr>fileID = [1], shardIndex = 0, md5Hash = [], reported = None\<rparr>]), (23, [])] = Some t \<and>
     Lookup t 8 = Some ([], False) \<and> (\<exists>ls. Lookup t 23 = Some (ls, True))"
proof -
  let ?m = "[(7 :: u32, [\<lparr>fileID = [1], shardIndex = 0, md5Hash = [], reported = None\<rparr>]), (23, [])]"
  obtain t where t: "newCRCLookupTable ?m = Some t" "\<And>c. case map_of ?m c of
       None \<Rightarrow> Lookup t c = Some ([], False)
     | Some ls \<Rightarrow> \<exists>ls'. Lookup t c = Some (ls', True) \<and> map unflag ls' = map unflag ls"
    using lookup_table_refines_map[of ?m] by auto
  show ?thesis using t(1) t(2)[of 8] t(2)[of 23] by auto
qed

end
