(* ===== verification/Scan.thy ===== *)
theory Scan
  imports Integrity CRC_Window CRC_Table
begin

text \<open>
  The block scanner of \<open>src/par2/scan.go\<close>: \<open>matchBlock\<close>, \<open>claimGrid\<close> and \<open>scanChunk\<close> on one chunk, the goroutines
  of \<open>scanFileChunks\<close> and \<open>scan\<close>, and the collector. A goroutine runs on its own record: the sandbox as it sees
  it, with its own faults and its own moment of cancellation, the matches it sent, and the reported flags it
  set. At its \<open>n\<close>-th access to a flag it finds the flags it set itself and those that \<open>others n\<close> says other
  goroutines have set by then; \<open>others\<close> is arbitrary, so every interleaving of the flag accesses is covered.
  The collector receives the sent matches in an arbitrary interleaving, given as a schedule.
\<close>

section \<open>Goroutines\<close>

record matchEvent =
  targetFileID :: FileID
  ev_shardIndex :: nat
  sourceFileID :: FileID
  ev_offset :: nat

record genv =
  gfaults :: "nat \<Rightarrow> (string \<times> nat) option"
  gcancel :: "nat option"
  gothers :: "nat \<Rightarrow> nat \<Rightarrow> bool"
  gstart :: bool

record goroutine =
  gworld :: world
  others :: "nat \<Rightarrow> nat \<Rightarrow> bool"
  accesses :: nat
  mine :: "nat list"
  sent :: "matchEvent list"
  chunkSent :: "matchEvent list list"
  marks :: "(FileID \<times> fileDamage) list"

type_synonym 'a gor = "(goroutine, 'a) go"

definition new_goroutine :: "genv \<Rightarrow> world \<Rightarrow> goroutine" where
  "new_goroutine e w = \<lparr>gworld = w\<lparr>ticks := 0, faults := gfaults e, cancelAt := gcancel e\<rparr>, others = gothers e,
     accesses = 0, mine = [], sent = [], chunkSent = [], marks = []\<rparr>"

definition onWorld :: "(world, 'a) go \<Rightarrow> 'a gor" where
  "onWorld m g = (case m (gworld g) of (r, w) \<Rightarrow> (r, g\<lparr>gworld := w\<rparr>))"

definition panicG :: "string \<Rightarrow> ('s, 'a) go" where
  "panicG p s = (Panic p, s)"

text \<open>\<open>reported.Load()\<close>, and \<open>CompareAndSwap(false, true)\<close> on it.\<close>

definition loadFlag :: "nat option \<Rightarrow> bool gor" where
  "loadFlag r g = (case r of
       None \<Rightarrow> (Panic nilDeref, g)
     | Some f \<Rightarrow> (Ret (f \<in> set (mine g) \<or> others g (accesses g) f), g\<lparr>accesses := accesses g + 1\<rparr>))"

definition casFlag :: "nat option \<Rightarrow> bool gor" where
  "casFlag r = bindG (loadFlag r) (\<lambda>old.
     if old then retG False
     else bindG (modG (\<lambda>g. g\<lparr>mine := the r # mine g\<rparr>)) (\<lambda>_. retG True))"

section \<open>One window\<close>

record blockScanner =
  sd :: Decoder
  window :: crc32Window
  lookupTable :: crcLookupTable
  resolvedCandidates :: "bytes list"

record blockMatch =
  inPlace :: bool
  reportedNew :: bool

definition isCandidate :: "blockScanner \<Rightarrow> FileID \<Rightarrow> bool" where
  "isCandidate s fid \<longleftrightarrow> map_of (candidateByID (sd s)) fid \<noteq> None"

fun allReported :: "checksumLocation list \<Rightarrow> bool gor" where
  "allReported [] = retG True"
| "allReported (loc # ls) = bindG (loadFlag (reported loc)) (\<lambda>r. if \<not> r then retG False else allReported ls)"

text \<open>The body of the loop over the locations, which carries \<open>own\<close>, \<open>other\<close> and \<open>reportedNew\<close>.\<close>

definition match_location ::
    "FileID \<Rightarrow> bytes \<Rightarrow> nat \<Rightarrow> nat \<Rightarrow> bool \<Rightarrow> checksumLocation \<Rightarrow> bool \<times> bool \<times> bool \<Rightarrow> (bool \<times> bool \<times> bool) gor" where
  "match_location src blockHash absPos shardIdx atShardBoundary loc acc =
     (case acc of (own, other, new) \<Rightarrow>
        if md5Hash loc \<noteq> blockHash then retG (own, other, new)
        else
          let here = atShardBoundary \<and> shardIndex loc = shardIdx;
              own = (own \<or> here \<and> fileID loc = src);
              other = (other \<or> here \<and> fileID loc \<noteq> src)
          in bindG (loadFlag (reported loc)) (\<lambda>r.
            bindG (if r then retG False else casFlag (reported loc)) (\<lambda>swapped.
              bindG (modG (\<lambda>g. g\<lparr>sent := sent g @ [\<lparr>targetFileID = fileID loc, ev_shardIndex = shardIndex loc,
                  sourceFileID = src, ev_offset = absPos\<rparr>]\<rparr>)) (\<lambda>_.
                retG (own, other, new \<or> swapped)))))"

text \<open>A probe that does not end would keep the goroutine forever.\<close>

definition probeHangs :: string where
  "probeHangs = ''the lookup does not return''"

definition divideByZero :: string where
  "divideByZero = ''integer divide by zero''"

definition noMatch :: blockMatch where
  "noMatch = \<lparr>inPlace = False, reportedNew = False\<rparr>"

definition matchBlock :: "blockScanner \<Rightarrow> FileID \<Rightarrow> bytes \<Rightarrow> u32 \<Rightarrow> nat \<Rightarrow> blockMatch gor" where
  "matchBlock s src block c absPos =
     (let bs = sliceByteCount (sd s); shardIdx = absPos div bs; atShardBoundary = (absPos mod bs = 0)
      in case Lookup (lookupTable s) c of
           None \<Rightarrow> panicG probeHangs
         | Some (locations, found) \<Rightarrow>
             if \<not> found then retG noMatch
             else bindG (if \<not> atShardBoundary then allReported locations else retG False) (\<lambda>all.
               if all then retG noMatch
               else bindG (foldG (match_location src (md5 block) absPos shardIdx atShardBoundary) locations
                     (False, False, False)) (\<lambda>(own, other, new).
                 retG \<lparr>inPlace = (own \<or> other \<and> isCandidate s src), reportedNew = new\<rparr>)))"

section \<open>One chunk\<close>

text \<open>The windows on the block grid; the loop ends because the block size is not zero.\<close>

function claim_loop :: "blockScanner \<Rightarrow> FileID \<Rightarrow> bytes \<Rightarrow> nat \<Rightarrow> nat \<Rightarrow> bool list \<Rightarrow> bool list gor" where
  "claim_loop s src data start pos claimed =
     (let bs = sliceByteCount (sd s) in
      if bs = 0 then panicG divideByZero
      else if length data < bs \<or> pos - start > length data - bs then retG claimed
      else let block = take bs (drop (pos - start) data)
           in bindG (matchBlock s src block (ChecksumIEEE block) pos) (\<lambda>m.
             claim_loop s src data start (pos + bs) (claimed @ [inPlace m])))"
  by pat_completeness auto
termination
  by (relation "measure (\<lambda>(s, src, data, start, pos, claimed). start + length data + 1 - pos)") auto

declare claim_loop.simps [simp del]

definition firstAligned :: "nat \<Rightarrow> nat \<Rightarrow> nat" where
  "firstAligned bs start = (start + bs - 1) div bs * bs"

definition claimGrid :: "blockScanner \<Rightarrow> FileID \<Rightarrow> bytes \<Rightarrow> nat \<Rightarrow> (nat \<times> bool list) gor" where
  "claimGrid s src data start =
     (let fa = firstAligned (sliceByteCount (sd s)) start
      in bindG (claim_loop s src data start fa []) (\<lambda>claimed. retG (fa, claimed)))"

text \<open>Whether the block that starts at \<open>blockStart\<close> is claimed.\<close>

definition isClaimed :: "nat \<Rightarrow> nat \<Rightarrow> bool list \<Rightarrow> nat \<Rightarrow> bool" where
  "isClaimed bs fa claimed blockStart \<longleftrightarrow>
     fa \<le> blockStart \<and> (blockStart - fa) div bs < length claimed \<and> claimed ! ((blockStart - fa) div bs)"

lemma next_block: "0 < bs \<Longrightarrow> start + j < (start + j) div bs * bs + bs" for bs start j :: nat
  using dividend_less_div_times[of bs "start + j"] by (simp add: add.commute)

text \<open>The sliding loop; \<open>nextBoundary\<close> starts at \<open>-1\<close>. The window of the data at \<open>j\<close> is in range because
  \<open>j \<le> lastWindow\<close>, and \<open>justMissed\<close> is only true when \<open>j\<close> has moved, so \<open>data[j-1]\<close> is in range too.\<close>

function slide_loop ::
    "blockScanner \<Rightarrow> FileID \<Rightarrow> bytes \<Rightarrow> nat \<Rightarrow> nat \<Rightarrow> bool list \<Rightarrow> nat \<Rightarrow> u32 \<Rightarrow> bool \<Rightarrow> int \<Rightarrow> unit gor" where
  "slide_loop s src data start fa claimed j crcSlice justMissed nextBoundary =
     (let bs = sliceByteCount (sd s); lastWindow = length data - bs in
      if bs = 0 then panicG divideByZero
      else if length data < bs \<or> j > lastWindow then retG ()
      else bindG (if j mod 65536 = 0 then onWorld ctxErr else retG False) (\<lambda>canc.
        if canc then retG ()
        else
          let absPos = start + j; blockStart = absPos div bs * bs; boundary = int (blockStart + bs) in
          if int absPos \<ge> nextBoundary \<and> isClaimed bs fa claimed blockStart
          then slide_loop s src data start fa claimed (blockStart + bs - start) crcSlice False boundary
          else
            let nextBoundary = (if int absPos \<ge> nextBoundary then boundary else nextBoundary);
                block = take bs (drop j data);
                crcSlice = (if justMissed then update (window s) crcSlice (data ! (j - 1)) (last block)
                            else ChecksumIEEE block)
            in bindG (matchBlock s src block crcSlice absPos) (\<lambda>m.
              if reportedNew m then slide_loop s src data start fa claimed (j + bs) crcSlice False nextBoundary
              else slide_loop s src data start fa claimed (j + 1) crcSlice True nextBoundary)))"
  by pat_completeness auto
termination
proof (relation "measure (\<lambda>(s, src, data, start, fa, claimed, j, c, m, b). length data + 1 - j)", goal_cases)
  case (2 s src data start fa claimed j crcSlice justMissed nextBoundary bs lw canc a b c)
  then show ?case using next_block[of bs start j] by auto
qed auto

declare slide_loop.simps [simp del]

definition scanChunk :: "blockScanner \<Rightarrow> handle \<Rightarrow> FileID \<Rightarrow> nat \<Rightarrow> nat \<Rightarrow> unit gor" where
  "scanChunk s f src start end' =
     (if end' - start < sliceByteCount (sd s) then retG ()
      else bindG (liftR (makeslice (int (end' - start)))) (\<lambda>_.
        tryG (onWorld (readAt f (end' - start) start)) (\<lambda>got.
          let data = got @ replicate (end' - start - length got) 0
          in bindG (claimGrid s src data start) (\<lambda>(fa, claimed).
            slide_loop s src data start fa claimed 0 0 False (-1)))
          (\<lambda>_. errG ''ReadAt offset'')))"

section \<open>One file\<close>

definition scanChunkSize :: nat where
  "scanChunkSize = 32 * 1024 * 1024"

text \<open>The goroutine of one chunk: the matches it sent and its result. \<open>gstart\<close> is false when the \<open>select\<close> takes
  \<open>ctx.Done()\<close> before a slot of the semaphore is free; a semaphore without slots keeps the goroutine forever.\<close>

definition noSlots :: string where
  "noSlots = ''the semaphore has no slots''"

definition run_chunk ::
    "blockScanner \<Rightarrow> genv \<Rightarrow> handle \<Rightarrow> FileID \<Rightarrow> nat \<Rightarrow> world \<Rightarrow> nat \<Rightarrow> unit res \<times> matchEvent list" where
  "run_chunk s e f src fileSize w chunkIdx =
     (if \<not> gstart e then (Ret (), [])
      else if numGoroutines (sd s) = 0 then (Panic noSlots, [])
      else
        let start = chunkIdx * scanChunkSize;
            end' = min (start + scanChunkSize + sliceByteCount (sd s) - 1) fileSize;
            (r, g) = scanChunk s f src start end' (new_goroutine e w)
        in (r, sent g))"

text \<open>The loop that starts the goroutines, which breaks when the context is cancelled: the indexes it started.\<close>

fun launch :: "nat list \<Rightarrow> nat list gor" where
  "launch [] = retG []"
| "launch (i # is) = bindG (onWorld ctxErr) (\<lambda>canc.
     if canc then retG [] else bindG (launch is) (\<lambda>started. retG (i # started)))"

text \<open>What a group of goroutines returns when all are done: a panic of one ends the program, and one of the errors is
  kept. Which one depends on the order in which they fail; the model keeps the first in the order of the start.\<close>

fun waitAll :: "unit res list \<Rightarrow> unit res" where
  "waitAll [] = Ret ()"
| "waitAll (r # rs) = (case waitAll rs of Panic p \<Rightarrow> Panic p | r' \<Rightarrow> (case r of Ret _ \<Rightarrow> r' | _ \<Rightarrow> r))"

definition numChunks :: "nat \<Rightarrow> nat" where
  "numChunks fileSize = (fileSize + scanChunkSize - 1) div scanChunkSize"

definition scanFileChunks :: "blockScanner \<Rightarrow> (nat \<Rightarrow> genv) \<Rightarrow> handle \<Rightarrow> FileID \<Rightarrow> nat \<Rightarrow> unit gor" where
  "scanFileChunks s envs f src fileSize =
     bindG (launch [0..<numChunks fileSize]) (\<lambda>started. bindG (getG gworld) (\<lambda>w.
       let rs = map (\<lambda>i. run_chunk s (envs (Suc i)) f src fileSize w i) started
       in bindG (modG (\<lambda>g. g\<lparr>chunkSent := chunkSent g @ map snd rs\<rparr>)) (\<lambda>_. liftR (waitAll (map fst rs)))))"

definition scanLastPartialBlock :: "blockScanner \<Rightarrow> handle \<Rightarrow> FileID \<Rightarrow> nat \<Rightarrow> unit gor" where
  "scanLastPartialBlock s f src byteCount =
     (let bs = sliceByteCount (sd s) in
      if bs = 0 then panicG divideByZero
      else if byteCount mod bs = 0 then retG ()
      else
        let shards = (byteCount + bs - 1) div bs;
            lastBlockStart = (shards - 1) * bs;
            lastBlockLen = byteCount - lastBlockStart
        in bindG (liftR (makeslice (int bs))) (\<lambda>_.
          bindG (onWorld (readAt f lastBlockLen lastBlockStart)) (\<lambda>got.
            let paddedBlock = got @ replicate (bs - length got) 0
            in bindG (matchBlock s src paddedBlock (ChecksumIEEE paddedBlock) lastBlockStart) (\<lambda>_. retG ()))))"

definition markDamage :: "FileID \<Rightarrow> fileDamage \<Rightarrow> unit gor" where
  "markDamage fid dm = modG (\<lambda>g. g\<lparr>marks := marks g @ [(fid, dm)]\<rparr>)"

definition scanFile :: "blockScanner \<Rightarrow> (nat \<Rightarrow> genv) \<Rightarrow> FileDescPacket \<Rightarrow> unit gor" where
  "scanFile s envs fd =
     tryG (onWorld (open_file (Filename fd))) (\<lambda>f.
       bindG (onWorld (stat_size f)) (\<lambda>fileSize.
         bindG (if fileSize \<noteq> ByteCount fd then markDamage (fd_FileID fd) damageWrongSize else retG ()) (\<lambda>_.
           if fileSize = 0 then retG ()
           else bindG (scanFileChunks s envs f (fd_FileID fd) fileSize) (\<lambda>_.
             scanLastPartialBlock s f (fd_FileID fd) (ByteCount fd)))))
       (\<lambda>e. if e = errNotExist then markDamage (fd_FileID fd) damageMissing else errG e)"

definition scanCandidateFile :: "blockScanner \<Rightarrow> (nat \<Rightarrow> genv) \<Rightarrow> bytes \<Rightarrow> FileID \<Rightarrow> unit gor" where
  "scanCandidateFile s envs path fid =
     tryG (onWorld (open_file path)) (\<lambda>f.
       bindG (onWorld (stat_size f)) (\<lambda>fileSize.
         if fileSize = 0 then retG ()
         else bindG (scanFileChunks s envs f fid fileSize) (\<lambda>_. scanLastPartialBlock s f fid fileSize)))
       (\<lambda>e. if e = errNotExist then retG () else errG e)"

section \<open>The scan\<close>

datatype scanJob = ScanProtected FileDescPacket | ScanCandidate bytes FileID

record jobResult =
  jobRes :: "unit res"
  jobMarks :: "(FileID \<times> fileDamage) list"
  jobSent :: "matchEvent list list"

definition run_job :: "blockScanner \<Rightarrow> (nat \<Rightarrow> genv) \<Rightarrow> world \<Rightarrow> scanJob \<Rightarrow> jobResult" where
  "run_job s envs w jb =
     (case (case jb of ScanProtected fd \<Rightarrow> scanFile s envs fd | ScanCandidate path fid \<Rightarrow> scanCandidateFile s envs path fid)
        (new_goroutine (envs 0) w) of (r, g) \<Rightarrow>
          \<lparr>jobRes = r, jobMarks = marks g, jobSent = chunkSent g @ [sent g]\<rparr>)"

fun protected_jobs :: "FileDescPacket list \<Rightarrow> scanJob list dec" where
  "protected_jobs [] = retG []"
| "protected_jobs (fd # fds) =
     bindG (onRoot ctxErr) (\<lambda>canc.
       if canc then retG []
       else bindG (getState (fd_FileID fd)) (\<lambda>st.
         if skipsBlockScan st then protected_jobs fds
         else bindG (protected_jobs fds) (\<lambda>js. retG (ScanProtected fd # js))))"

fun candidate_jobs :: "bytes list \<Rightarrow> bytes list \<Rightarrow> (bytes \<times> FileID) list \<Rightarrow> scanJob list dec" where
  "candidate_jobs resolved names [] = retG []"
| "candidate_jobs resolved names ((path, fid) # cs) =
     bindG (onRoot ctxErr) (\<lambda>canc.
       if canc then retG []
       else if path \<in> set resolved \<or> path \<in> set names then candidate_jobs resolved names cs
       else bindG (candidate_jobs resolved names cs) (\<lambda>js. retG (ScanCandidate path fid # js)))"

text \<open>The order in which the collector receives: the schedule names the sender of each next match.\<close>

fun merge :: "nat list \<Rightarrow> 'a list list \<Rightarrow> 'a list" where
  "merge [] qs = concat qs"
| "merge (i # is) qs =
     (if i < length qs \<and> qs ! i \<noteq> [] then hd (qs ! i) # merge is (qs[i := tl (qs ! i)]) else merge is qs)"

definition collect :: "matchEvent \<Rightarrow> unit dec" where
  "collect m =
     bindG (getState (targetFileID m)) (\<lambda>st.
       bindG (liftR (goIndex (ShardLocations st) (int (ev_shardIndex m)))) (\<lambda>loc.
         if Offset loc = -1 then
           updState (targetFileID m) (\<lambda>st. st\<lparr>ShardLocations := (ShardLocations st)
             [ev_shardIndex m := \<lparr>loc_FileID = sourceFileID m, Offset = int (ev_offset m)\<rparr>]\<rparr>)
         else retG ()))"

text \<open>\<open>envs\<close> gives the \<open>i\<close>-th file goroutine its own environment at \<open>0\<close> and those of its chunks after it.\<close>

definition scan :: "blockScanner \<Rightarrow> (nat \<Rightarrow> nat \<Rightarrow> genv) \<Rightarrow> nat list \<Rightarrow> unit dec" where
  "scan s envs sched =
     bindG (getG protectedFiles) (\<lambda>fs. bindG (protected_jobs fs) (\<lambda>ps.
       bindG (getG candidateFiles) (\<lambda>cs.
         bindG (candidate_jobs (resolvedCandidates s) (map Filename fs) cs) (\<lambda>js.
           bindG (getG root) (\<lambda>w.
             let rs = map2 (\<lambda>i jb. run_job s (envs i) w jb) [0..<length (ps @ js)] (ps @ js)
             in bindG (forG (\<lambda>(fid, dm). setDamage fid dm) (concat (map jobMarks rs))) (\<lambda>_.
               bindG (forG collect (merge sched (concat (map jobSent rs)))) (\<lambda>_.
                 liftR (waitAll (map jobRes rs)))))))))"

section \<open>The lookup table\<close>

definition locs_of :: "(u32 \<times> checksumLocation list) list \<Rightarrow> u32 \<Rightarrow> checksumLocation list" where
  "locs_of m c = (case map_of m c of None \<Rightarrow> [] | Some ls \<Rightarrow> ls)"

definition add_pair ::
    "FileID \<Rightarrow> nat \<times> ChecksumPair \<Rightarrow> (u32 \<times> checksumLocation list) list \<Rightarrow> (u32 \<times> checksumLocation list) list" where
  "add_pair fID = (\<lambda>(shardIdx, pair) checksumMap.
     let crcVal = le_word (CRC32 pair)
     in AList.update crcVal (locs_of checksumMap crcVal @
          [\<lparr>fileID = fID, shardIndex = shardIdx, md5Hash = MD5 pair, reported = None\<rparr>]) checksumMap)"

definition checksum_map :: "Decoder \<Rightarrow> (u32 \<times> checksumLocation list) list" where
  "checksum_map d = fold (\<lambda>(fID, ifsc) m.
     if map_of (fileIntegrity d) fID = None then m
     else fold (add_pair fID) (enumerate 0 (ChecksumPairs ifsc)) m) (fileChecksums d) []"

definition buildLookupTable :: "crcLookupTable dec" where
  "buildLookupTable =
     bindG (getG checksum_map) (\<lambda>m. case newCRCLookupTable m of None \<Rightarrow> panicG probeHangs | Some t \<Rightarrow> retG t)"

section \<open>Verification\<close>

definition calculateBytesToScan :: "nat dec" where
  "calculateBytesToScan =
     bindG (getG protectedFiles) (\<lambda>fs. foldG (\<lambda>fd n.
       bindG (getState (fd_FileID fd)) (\<lambda>st. retG (if \<not> skipsBlockScan st then n + ByteCount fd else n))) fs 0)"

definition VerifyScans :: "(nat \<Rightarrow> nat \<Rightarrow> genv) \<Rightarrow> nat list \<Rightarrow> unit dec" where
  "VerifyScans envs sched =
     bindG initFileIntegrity (\<lambda>_. bindG checkFileExistence (\<lambda>_.
       bindG prescanCandidateMatches (\<lambda>resolved. bindG prescanProtectedMatches (\<lambda>_.
         bindG calculateBytesToScan (\<lambda>_.
           bindG (getG sliceByteCount) (\<lambda>bs. bindG (liftR (newCRC32Window (int bs))) (\<lambda>win.
             bindG buildLookupTable (\<lambda>tab. bindG (getG (\<lambda>d. d)) (\<lambda>d.
               bindG (liftR (makechan (numGoroutines d))) (\<lambda>_.
                 bindG (scan \<lparr>sd = d, window = win, lookupTable = tab, resolvedCandidates = resolved\<rparr> envs sched) (\<lambda>_.
                   bindG verifyProtectedFilesHashes (\<lambda>_. bindG (onRoot ctxErr) (\<lambda>canc.
                     if canc then errG ''context canceled'' else retG ())))))))))))))"

end
