(* ===== verification/Scan_Sound.thy ===== *)
theory Scan_Sound
  imports Scan
begin

text \<open>
  What a scan reports is true. Every match that a goroutine sends is genuine, whatever the interleaving, the faults
  and the moment of cancellation; a scan never marks a file as intact; and the verdict of \<open>VerifyScans\<close> holds on
  disk.
\<close>

section \<open>What the goroutines send\<close>

text \<open>\<open>Gok w M P g\<close>: the goroutine sees the files of \<open>w\<close>, every match it or its chunks sent satisfies \<open>P\<close>, and what
  it marks satisfies \<open>M\<close>.\<close>

definition Gok :: "world \<Rightarrow> (FileID \<times> fileDamage \<Rightarrow> bool) \<Rightarrow> (matchEvent \<Rightarrow> bool) \<Rightarrow> goroutine \<Rightarrow> bool" where
  "Gok w M P g \<longleftrightarrow> same_files w (gworld g) \<and> (\<forall>e\<in>set (sent g). P e) \<and> (\<forall>es\<in>set (chunkSent g). \<forall>e\<in>set es. P e) \<and>
     (\<forall>m\<in>set (marks g). M m)"

lemma keeps_onWorld [keeps]: "reads m \<Longrightarrow> keeps (Gok w M P) (onWorld m)"
  unfolding keeps_def onWorld_def Gok_def reads_def
  by (auto split: prod.splits intro: same_files_trans) (metis same_files_trans snd_conv)

lemma keeps_panicG [keeps]: "keeps I (panicG p)"
  by (simp add: keeps_def panicG_def)

lemma keeps_flags [keeps]: "keeps (Gok w M P) (loadFlag r)" "keeps (Gok w M P) (casFlag r)"
proof -
  show l: "keeps (Gok w M P) (loadFlag r)" by (auto simp: keeps_def loadFlag_def Gok_def split: option.splits)
  show "keeps (Gok w M P) (casFlag r)" unfolding casFlag_def by (intro keeps l) (simp add: Gok_def)
qed

lemma keeps_allReported [keeps]: "keeps (Gok w M P) (allReported ls)"
  by (induction ls) (auto intro!: keeps)

text \<open>The match that a location gives.\<close>

definition event_of :: "FileID \<Rightarrow> nat \<Rightarrow> checksumLocation \<Rightarrow> matchEvent" where
  "event_of src absPos loc = \<lparr>targetFileID = fileID loc, ev_shardIndex = shardIndex loc, sourceFileID = src, ev_offset = absPos\<rparr>"

lemma keeps_case_prod [keeps]: "(\<And>a b. x = (a, b) \<Longrightarrow> keeps I (f a b)) \<Longrightarrow> keeps I (case x of (a, b) \<Rightarrow> f a b)"
  by (cases x) simp

lemma keeps_match_location:
  assumes "md5Hash loc = h \<Longrightarrow> P (event_of src absPos loc)"
  shows "keeps (Gok w M P) (match_location src h absPos i b loc acc)"
  using assms unfolding match_location_def Let_def event_of_def by (intro keeps) (auto simp: Gok_def)

definition hits :: "blockScanner \<Rightarrow> u32 \<Rightarrow> bytes \<Rightarrow> checksumLocation \<Rightarrow> bool" where
  "hits s c block loc \<longleftrightarrow> (\<exists>ls. Lookup (lookupTable s) c = Some (ls, True) \<and> loc \<in> set ls \<and> md5Hash loc = md5 block)"

lemma keeps_matchBlock:
  assumes "\<And>loc. hits s c block loc \<Longrightarrow> P (event_of src absPos loc)"
  shows "keeps (Gok w M P) (matchBlock s src block c absPos)"
  using assms unfolding matchBlock_def Let_def hits_def
  by (intro keeps keeps_match_location) auto

section \<open>Windows\<close>

text \<open>\<open>block_at bs n data off\<close>: the first \<open>n\<close> bytes at \<open>off\<close>, padded with zeros to a block.\<close>

definition block_at :: "nat \<Rightarrow> nat \<Rightarrow> bytes \<Rightarrow> nat \<Rightarrow> bytes" where
  "block_at bs n data off = (let got = take n (drop off data) in got @ replicate (bs - length got) 0)"

text \<open>A match is genuine: the bytes at its offset, up to the end of the block or to the length \<open>lim\<close> that the file is taken to
  have, and padded, have the checksum and the hash of the block it names.\<close>

definition genuine :: "blockScanner \<Rightarrow> nat \<Rightarrow> bytes \<Rightarrow> FileID \<Rightarrow> matchEvent \<Rightarrow> bool" where
  "genuine s lim data src e \<longleftrightarrow> sourceFileID e = src \<and>
     (\<exists>n loc. n \<le> sliceByteCount (sd s) \<and> (n = sliceByteCount (sd s) \<or> lim \<le> ev_offset e + n) \<and>
        (let block = block_at (sliceByteCount (sd s)) n data (ev_offset e)
         in hits s (ChecksumIEEE block) block loc \<and> e = event_of src (ev_offset e) loc))"

lemma genuine_window:
  assumes "hits s (ChecksumIEEE (take bs (drop pos data))) (take bs (drop pos data)) loc" "bs = sliceByteCount (sd s)"
    "pos + bs \<le> length data"
  shows "genuine s lim data src (event_of src pos loc)"
proof -
  have "block_at bs bs data pos = take bs (drop pos data)" using assms(3) by (simp add: block_at_def)
  then show ?thesis using assms(1,2) unfolding genuine_def Let_def
    by (intro conjI exI[of _ bs] exI[of _ loc]) (simp_all add: event_of_def)
qed

lemma sub_window:
  "start + length sub \<le> length data \<Longrightarrow> sub = take (length sub) (drop start data) \<Longrightarrow> j + bs \<le> length sub \<Longrightarrow>
    take bs (drop j sub) = take bs (drop (start + j) data)"
proof -
  assume a: "sub = take (length sub) (drop start data)" "j + bs \<le> length sub"
  have "take bs (drop j sub) = take bs (drop j (take (length sub) (drop start data)))" using a(1) by simp
  also have "\<dots> = take bs (drop (start + j) data)" using a(2) by (simp add: drop_take add.commute min_def)
  finally show ?thesis .
qed

text \<open>A chunk of a file.\<close>

definition chunk_of :: "bytes \<Rightarrow> nat \<Rightarrow> bytes \<Rightarrow> bool" where
  "chunk_of file start data \<longleftrightarrow> start + length data \<le> length file \<and> data = take (length data) (drop start file)"

lemma keeps_claim_loop:
  assumes "chunk_of file start data" "start \<le> pos" "\<And>e. genuine s lim file src e \<Longrightarrow> P e"
  shows "keeps (Gok w M P) (claim_loop s src data start pos claimed)"
  using assms
proof (induction s src data start pos claimed rule: claim_loop.induct)
  case (1 s src data start pos claimed)
  note chunk = 1(2)[unfolded chunk_of_def]
  show ?case
  proof (subst claim_loop.simps, unfold Let_def, intro keeps_if keeps_panicG keeps_simple keeps_bind keeps_matchBlock)
    fix m :: blockMatch
    assume "sliceByteCount (sd s) \<noteq> 0" "\<not> (length data < sliceByteCount (sd s) \<or> length data - sliceByteCount (sd s) < pos - start)"
    then show "keeps (Gok w M P)
        (claim_loop s src data start (pos + sliceByteCount (sd s)) (claimed @ [inPlace m]))"
      using 1 by auto
  next
    fix loc
    let ?bs = "sliceByteCount (sd s)"
    assume a: "\<not> (length data < ?bs \<or> length data - ?bs < pos - start)"
      "hits s (ChecksumIEEE (take ?bs (drop (pos - start) data))) (take ?bs (drop (pos - start) data)) loc"
    have "pos - start + ?bs \<le> length data" using a(1) by linarith
    then have "take ?bs (drop (pos - start) data) = take ?bs (drop pos file)"
      using sub_window[OF conjunct1[OF chunk] conjunct2[OF chunk]] 1(3) by simp
    then show "P (event_of src pos loc)"
      using a 1(3) chunk by (intro 1(4) genuine_window[where bs = ?bs]) auto
  qed
qed

lemma window_step:
  assumes "newCRC32Window (int bs) = Ret win" "0 < j" "j + bs \<le> length data"
  shows "update win (ChecksumIEEE (take bs (drop (j - 1) data))) (data ! (j - 1)) (last (take bs (drop j data))) =
    ChecksumIEEE (take bs (drop j data))"
proof -
  have bs: "4 \<le> bs" using newCRC32Window_Ret(1)[OF assms(1)] by simp
  define rest where "rest = take (bs - 1) (drop j data)"
  have "drop (j - 1) data = data ! (j - 1) # drop j data"
    using assms(2,3) bs Cons_nth_drop_Suc[of "j - 1" data] by simp
  then have "take bs (drop (j - 1) data) = data ! (j - 1) # rest"
    using bs by (cases bs) (simp_all add: rest_def)
  moreover have l: "take bs (drop j data) = rest @ [data ! (j + bs - 1)]"
    using assms(3) bs take_Suc_conv_app_nth[of "bs - 1" "drop j data"] by (simp add: rest_def)
  moreover have "length (data ! (j - 1) # rest) = bs" using assms(3) bs by (simp add: rest_def)
  ultimately show ?thesis using update_slides[OF assms(1)] by simp
qed

text \<open>What the sliding loop carries: after a miss, the checksum of the window before.\<close>

definition rolled :: "nat \<Rightarrow> bytes \<Rightarrow> nat \<Rightarrow> u32 \<Rightarrow> bool \<Rightarrow> bool" where
  "rolled bs data j crcSlice justMissed \<longleftrightarrow>
     justMissed \<longrightarrow> 0 < j \<and> crcSlice = ChecksumIEEE (take bs (drop (j - 1) data))"

lemma rolled_crc:
  assumes "newCRC32Window (int bs) = Ret win" "rolled bs data j c m" "j + bs \<le> length data"
  shows "(if m then update win c (data ! (j - 1)) (last (take bs (drop j data))) else ChecksumIEEE (take bs (drop j data))) =
    ChecksumIEEE (take bs (drop j data))"
  using assms window_step by (simp add: rolled_def)

lemma keeps_slide_loop:
  assumes "chunk_of file start data" "newCRC32Window (int (sliceByteCount (sd s))) = Ret (window s)"
    "rolled (sliceByteCount (sd s)) data j c m" "\<And>e. genuine s lim file src e \<Longrightarrow> P e"
  shows "keeps (Gok w M P) (slide_loop s src data start fa claimed j c m b)"
  using assms(3)
proof (induction "length data + 1 - j" arbitrary: j c m b rule: less_induct)
  case less
  note chunk = assms(1)[unfolded chunk_of_def]
  let ?bs = "sliceByteCount (sd s)" and ?I = "Gok w M P"
  show ?case
  proof (cases "?bs = 0 \<or> length data < ?bs \<or> length data - ?bs < j")
    case True
    then show ?thesis by (subst slide_loop.simps) (auto simp: Let_def intro: keeps)
  next
    case False
    then have le: "j + ?bs \<le> length data" and pos: "0 < ?bs" by linarith+
    define block where "block = take ?bs (drop j data)"
    have crc: "(if m then update (window s) c (data ! (j - 1)) (last block) else ChecksumIEEE block) = ChecksumIEEE block"
      unfolding block_def by (rule rolled_crc[OF assms(2) less.prems le])
    have win: "block = take ?bs (drop (start + j) file)"
      unfolding block_def using sub_window[OF conjunct1[OF chunk] conjunct2[OF chunk] le] .
    have gen: "P (event_of src (start + j) loc)" if "hits s (ChecksumIEEE block) block loc" for loc
      using that chunk le unfolding win by (intro assms(4) genuine_window[where bs = ?bs]) auto
    have jump: "keeps ?I (slide_loop s src data start fa claimed j' c' False b')" if "j < j'" for j' c' b'
      using that le by (intro less.hyps) (auto simp: rolled_def)
    have skip: "j < (start + j) div ?bs * ?bs + ?bs - start" using next_block[OF pos, of start j] by linarith
    have miss: "keeps ?I (slide_loop s src data start fa claimed (j + 1) (ChecksumIEEE block) True b')" for b'
      using le pos by (intro less.hyps) (auto simp: rolled_def block_def)
    show ?thesis
      unfolding slide_loop.simps[of s src data start fa claimed j c m b] Let_def block_def[symmetric] crc
      by (intro keeps_if keeps_panicG keeps_simple keeps_bind keeps_matchBlock keeps_onWorld reads_ops gen miss jump skip)
        (use pos in auto)
  qed
qed

section \<open>Files\<close>

lemma gives_onWorld:
  assumes "\<And>w' x. same_files w w' \<Longrightarrow> f w' = Ret x \<Longrightarrow> R x"
  shows "gives (Gok w M P) (onWorld (sysRead f)) R"
proof -
  have "R x" if "Gok w M P g" "onWorld (sysRead f) g = (Ret x, g')" for g x g'
  proof -
    have "f (gworld g) = Ret x" using that(2) by (auto simp: onWorld_def sysRead_def split: option.splits prod.splits)
    then show ?thesis using assms that(1) unfolding Gok_def by blast
  qed
  then show ?thesis by (simp add: gives_def keeps)
qed

lemma gives_world:
  "gives (Gok w M P) (onWorld (open_file n)) (\<lambda>i. dir w n = Some i)"
  "gives (Gok w M P) (onWorld (stat_size i)) (\<lambda>k. k = length (inodes w i))"
  "gives (Gok w M P) (onWorld (readAt i k off)) (\<lambda>bs. bs = take k (drop off (inodes w i)))"
  unfolding open_file_def stat_size_def readAt_def
  by (rule gives_onWorld, auto simp: same_files_def split: option.splits)+

lemma keeps_scanChunk:
  assumes "end' \<le> length (inodes w f)" "newCRC32Window (int (sliceByteCount (sd s))) = Ret (window s)"
    "\<And>e. genuine s lim (inodes w f) src e \<Longrightarrow> P e"
  shows "keeps (Gok w M P) (scanChunk s f src start end')"
proof -
  let ?data = "take (end' - start) (drop start (inodes w f))"
  have len: "length ?data = end' - start" using assms(1) by simp
  show ?thesis
  proof (cases "start \<le> end'")
    case True
    then have chunk: "chunk_of (inodes w f) start ?data" using assms(1) by (auto simp: chunk_of_def)
    have "keeps (Gok w M P) (claimGrid s src ?data start)"
    proof (cases "sliceByteCount (sd s) = 0")
      case True
      then show ?thesis unfolding claimGrid_def Let_def by (subst claim_loop.simps) (auto intro!: keeps)
    next
      case False
      have "start \<le> firstAligned (sliceByteCount (sd s)) start"
        using ceil_bounds[of "sliceByteCount (sd s)" start] False by (cases "start = 0") (auto simp: firstAligned_def)
      then show ?thesis unfolding claimGrid_def Let_def by (intro keeps keeps_claim_loop[OF chunk, where lim = lim] assms(3))
    qed
    moreover have "keeps (Gok w M P) (slide_loop s src ?data start fa claimed 0 0 False (-1))" for fa claimed
      by (rule keeps_slide_loop[OF chunk assms(2), where lim = lim]) (simp_all add: rolled_def assms(3))
    ultimately show ?thesis
      unfolding scanChunk_def using len
      by (intro keeps_if keeps_bind[OF keeps_simple(3)] keeps_simple keeps_try_gives[OF gives_world(3)]) (auto simp: Let_def intro!: keeps)
  next
    case False
    then show ?thesis
      unfolding scanChunk_def
      by (intro keeps_if keeps_bind[OF keeps_simple(3)] keeps_simple keeps_try_gives[OF gives_world(3)])
        (auto simp: Let_def claimGrid_def claim_loop.simps slide_loop.simps intro!: keeps)
  qed
qed

lemma Gok_new: "same_files w w' \<Longrightarrow> Gok w M P (new_goroutine e w')"
  by (simp add: Gok_def new_goroutine_def same_files_def)

lemma run_chunk_genuine:
  assumes "newCRC32Window (int (sliceByteCount (sd s))) = Ret (window s)" "same_files w w'"
  shows "\<forall>e'\<in>set (snd (run_chunk s e f src (length (inodes w f)) w' i)). genuine s lim (inodes w f) src e'"
proof -
  let ?c = "scanChunk s f src (i * scanChunkSize)
    (min (i * scanChunkSize + scanChunkSize + sliceByteCount (sd s) - 1) (length (inodes w f))) (new_goroutine e w')"
  have "Gok w M (genuine s lim (inodes w f) src) (snd ?c)"
    using keeps_scanChunk[OF _ assms(1), of _ w f lim src "genuine s lim (inodes w f) src"] Gok_new[OF assms(2)] by (simp add: keeps_def)
  then show ?thesis by (cases ?c) (auto simp: run_chunk_def Let_def Gok_def)
qed

lemma keeps_launch [keeps]: "keeps (Gok w M P) (launch is)"
  by (induction "is") (auto intro!: keeps)

lemma keeps_chunks:
  assumes "newCRC32Window (int (sliceByteCount (sd s))) = Ret (window s)" "k = length (inodes w f)"
    "\<And>e. genuine s lim (inodes w f) src e \<Longrightarrow> P e"
  shows "keeps (Gok w M P) (scanFileChunks s envs f src k)"
proof -
  have g: "gives (Gok w M P) (getG gworld) (same_files w)" for P by (auto simp: gives_def keeps go_defs Gok_def)
  have "keeps (Gok w M P) (modG (\<lambda>g. g\<lparr>chunkSent := chunkSent g @
      map snd (map (\<lambda>i. run_chunk s (envs (Suc i)) f src k w' i) started)\<rparr>))" if "same_files w w'" for w' started
    using run_chunk_genuine[OF assms(1) that, of _ f src] assms(3) unfolding assms(2)
    by (intro keeps_mod) (auto simp: Gok_def)
  then show ?thesis unfolding scanFileChunks_def Let_def
    by (intro keeps_bind keeps_launch keeps_bind_gives[OF g] keeps_simple)
qed

lemma keeps_last_block:
  assumes "\<And>e. genuine s n (inodes w f) src e \<Longrightarrow> P e"
  shows "keeps (Gok w M P) (scanLastPartialBlock s f src n)"
proof -
  let ?bs = "sliceByteCount (sd s)"
  have "P (event_of src off loc)"
    if "hits s (ChecksumIEEE (block_at ?bs k (inodes w f) off)) (block_at ?bs k (inodes w f) off) loc" "k \<le> ?bs" "n \<le> off + k" for off loc k
    by (rule assms) (use that in \<open>auto simp: genuine_def Let_def event_of_def\<close>)
  moreover have "n - ((n + ?bs - 1) div ?bs - 1) * ?bs \<le> ?bs"
      "n \<le> ((n + ?bs - 1) div ?bs - 1) * ?bs + (n - ((n + ?bs - 1) div ?bs - 1) * ?bs)" if "n mod ?bs \<noteq> 0" "?bs \<noteq> 0"
  proof -
    have "0 < n" using that by (cases n) auto
    then have "n \<le> (n + ?bs - 1) div ?bs * ?bs" using ceil_bounds[of ?bs n] that by simp
    then show "n - ((n + ?bs - 1) div ?bs - 1) * ?bs \<le> ?bs" by (simp add: diff_mult_distrib)
  qed simp
  ultimately show ?thesis
    unfolding scanLastPartialBlock_def Let_def
    by (intro keeps_if keeps_panicG keeps_bind[OF keeps_simple(3)] keeps_simple keeps_bind_gives[OF gives_world(3)] keeps_bind keeps_matchBlock)
      (auto simp: block_at_def Let_def)
qed

lemma keeps_markDamage: "M (fid, dm) \<Longrightarrow> keeps (Gok w M P) (markDamage fid dm)"
  unfolding markDamage_def by (intro keeps) (auto simp: Gok_def)

fun job_name :: "scanJob \<Rightarrow> name" and job_id :: "scanJob \<Rightarrow> FileID" where
  "job_name (ScanProtected fd) = Filename fd"
| "job_name (ScanCandidate path fid) = path"
| "job_id (ScanProtected fd) = fd_FileID fd"
| "job_id (ScanCandidate path fid) = fid"

text \<open>The length that a job takes its file to have: the recorded one, or that of the candidate.\<close>

fun job_limit :: "scanJob \<Rightarrow> bytes \<Rightarrow> nat" where
  "job_limit (ScanProtected fd) data = ByteCount fd"
| "job_limit (ScanCandidate path fid) data = length data"

definition genuine_in :: "blockScanner \<Rightarrow> world \<Rightarrow> scanJob \<Rightarrow> matchEvent \<Rightarrow> bool" where
  "genuine_in s w j e \<longleftrightarrow>
     (\<exists>i. dir w (job_name j) = Some i \<and> genuine s (job_limit j (inodes w i)) (inodes w i) (job_id j) e)"

fun job_mark :: "scanJob \<Rightarrow> FileID \<times> fileDamage \<Rightarrow> bool" where
  "job_mark (ScanProtected fd) m \<longleftrightarrow> fst m = fd_FileID fd \<and> (snd m = damageMissing \<or> snd m = damageWrongSize)"
| "job_mark (ScanCandidate path fid) m \<longleftrightarrow> False"

lemma keeps_scanFile:
  assumes "newCRC32Window (int (sliceByteCount (sd s))) = Ret (window s)"
  shows "keeps (Gok w (job_mark (ScanProtected fd)) (genuine_in s w (ScanProtected fd))) (scanFile s envs fd)"
  unfolding scanFile_def
  by (intro keeps_try_gives[OF gives_world(1)] keeps_bind_gives[OF gives_world(2)] keeps_bind keeps_if keeps_simple
      keeps_markDamage keeps_chunks assms keeps_last_block) (auto simp: genuine_in_def)

lemma keeps_scanCandidateFile:
  assumes "newCRC32Window (int (sliceByteCount (sd s))) = Ret (window s)"
  shows "keeps (Gok w (job_mark (ScanCandidate path fid)) (genuine_in s w (ScanCandidate path fid))) (scanCandidateFile s envs path fid)"
  unfolding scanCandidateFile_def
  by (intro keeps_try_gives[OF gives_world(1)] keeps_bind_gives[OF gives_world(2)] keeps_bind keeps_if keeps_simple
      keeps_chunks assms keeps_last_block) (auto simp: genuine_in_def)

lemma run_job_genuine:
  assumes "newCRC32Window (int (sliceByteCount (sd s))) = Ret (window s)"
  shows "\<forall>es\<in>set (jobSent (run_job s envs w j)). \<forall>e\<in>set es. genuine_in s w j e"
    "\<forall>m\<in>set (jobMarks (run_job s envs w j)). job_mark j m"
proof -
  define m where "m = (case j of ScanProtected fd \<Rightarrow> scanFile s envs fd | ScanCandidate path fid \<Rightarrow> scanCandidateFile s envs path fid)"
  obtain r g where g: "m (new_goroutine (envs 0) w) = (r, g)" by (cases "m (new_goroutine (envs 0) w)")
  have "keeps (Gok w (job_mark j) (genuine_in s w j)) m"
    unfolding m_def by (cases j) (simp_all add: keeps_scanFile keeps_scanCandidateFile assms)
  then have "Gok w (job_mark j) (genuine_in s w j) g"
    by (rule keeps_D) (rule Gok_new[OF same_files_refl], rule g)
  then show "\<forall>es\<in>set (jobSent (run_job s envs w j)). \<forall>e\<in>set es. genuine_in s w j e"
    "\<forall>m\<in>set (jobMarks (run_job s envs w j)). job_mark j m"
    using g unfolding run_job_def m_def[symmetric] by (auto simp: Gok_def)
qed

lemma job_mark_damaged: "job_mark j m \<Longrightarrow> snd m \<noteq> damageNone \<and> snd m \<noteq> damageUnchecked"
  by (cases j) auto

section \<open>The scan keeps the states sound\<close>

lemma sound_updState_any:
  assumes "\<And>fd st. fd \<in> set fs \<Longrightarrow> fd_FileID fd = fid \<Longrightarrow> state_sound w fd st \<Longrightarrow> state_shape s fd st \<Longrightarrow>
    state_sound w fd (f st) \<and> state_shape s fd (f st)"
  shows "keeps (sound w fs s) (updState fid f)"
proof (cases "fid \<in> fd_FileID ` set fs")
  case True
  then show ?thesis using sound_updState[of _ fs w s f] assms by blast
next
  case False
  have "map_of (fileIntegrity d) fid = None" if "sound w fs s d" for d
  proof -
    have "set (map fst (fileIntegrity d)) = set (map fd_FileID fs)" using that by (simp add: sound_def)
    then show ?thesis using False by (simp add: map_of_eq_None_iff)
  qed
  then show ?thesis by (simp add: keeps_def updState_def)
qed

lemma collect_sound: "keeps (sound w fs s) (collect m)"
  unfolding collect_def by (intro keeps sound_updState_any) (auto simp: state_sound_def state_shape_def)

lemma keeps_protected_jobs [keeps]: "(\<And>m. reads m \<Longrightarrow> keeps I (onRoot m :: bool dec)) \<Longrightarrow> keeps I (protected_jobs fds)"
  by (induction fds) (auto intro!: keeps)

lemma keeps_candidate_jobs [keeps]:
  "(\<And>m. reads m \<Longrightarrow> keeps I (onRoot m :: bool dec)) \<Longrightarrow> keeps I (candidate_jobs resolved names cs)"
  by (induction cs) (auto intro!: keeps)

lemma set_merge: "set (merge is qs) = (\<Union>q\<in>set qs. set q)"
proof (induction "is" arbitrary: qs)
  case (Cons i "is")
  show ?case
  proof (cases "i < length qs \<and> qs ! i \<noteq> []")
    case True
    then obtain pre q suf where q: "qs = pre @ q # suf" "length pre = i" "q \<noteq> []" by (metis id_take_nth_drop length_take min.absorb4)
    then have "set (merge (i # is) qs) = insert (hd q) (set (merge is (pre @ tl q # suf)))"
      using True by (auto simp: nth_append list_update_append)
    also have "\<dots> = insert (hd q) ((\<Union>q\<in>set pre. set q) \<union> set (tl q) \<union> (\<Union>q\<in>set suf. set q))"
      using Cons by auto
    also have "\<dots> = (\<Union>q\<in>set qs. set q)" using q(1,3) by (cases q) auto
    finally show ?thesis .
  qed (use Cons in auto)
qed simp

text \<open>The jobs of a scan are protected files and candidates of the set.\<close>

definition jobs_of :: "FileDescPacket list \<Rightarrow> (bytes \<times> FileID) list \<Rightarrow> scanJob set" where
  "jobs_of fs cs = ScanProtected ` set fs \<union> (\<lambda>(p, fid). ScanCandidate p fid) ` set cs"

text \<open>The jobs with their results.\<close>

definition job_runs :: "blockScanner \<Rightarrow> (nat \<Rightarrow> nat \<Rightarrow> genv) \<Rightarrow> world \<Rightarrow> scanJob list \<Rightarrow> jobResult list" where
  "job_runs s envs w js = map2 (\<lambda>i j. run_job s (envs i) w j) [0..<length js] js"

lemma job_runs_mem: "r \<in> set (job_runs s envs w js) \<Longrightarrow> \<exists>i. \<exists>j\<in>set js. r = run_job s (envs i) w j"
  unfolding job_runs_def by (auto simp: in_set_zip) (metis nth_mem)

lemma job_runs_has: "j \<in> set js \<Longrightarrow> \<exists>i. run_job s (envs i) w j \<in> set (job_runs s envs w js)"
proof -
  assume "j \<in> set js"
  then obtain i where i: "i < length js" "js ! i = j" by (metis in_set_conv_nth)
  then have "job_runs s envs w js ! i = run_job s (envs i) w j" "i < length (job_runs s envs w js)" by (simp_all add: job_runs_def)
  then show ?thesis by (metis nth_mem)
qed

lemma job_runs_marks:
  assumes "newCRC32Window (int (sliceByteCount (sd s))) = Ret (window s)" "m \<in> set (concat (map jobMarks (job_runs s envs w js)))"
  shows "\<exists>j\<in>set js. job_mark j m"
  using assms(2) run_job_genuine(2)[OF assms(1)] by (force dest!: job_runs_mem)

lemma job_runs_events:
  assumes "newCRC32Window (int (sliceByteCount (sd s))) = Ret (window s)" "e \<in> set (merge sched (concat (map jobSent (job_runs s envs w js))))"
  shows "\<exists>j\<in>set js. genuine_in s w j e"
proof -
  obtain r es where "r \<in> set (job_runs s envs w js)" "es \<in> set (jobSent r)" "e \<in> set es" using assms(2) by (auto simp: set_merge)
  then show ?thesis using job_runs_mem run_job_genuine(1)[OF assms(1)] by blast
qed

lemma scan_sound:
  assumes "newCRC32Window (int (sliceByteCount (sd s'))) = Ret (window s')"
  shows "keeps (sound w fs s) (scan s' envs sched)"
proof -
  have marks: "keeps (sound w fs s) (case m of (fid, dm) \<Rightarrow> setDamage fid dm)" if "m \<in> set (concat (map jobMarks (job_runs s' envs w' js)))" for m w' js
  proof -
    have "snd m \<noteq> damageNone" using job_runs_marks[OF assms that] job_mark_damaged by blast
    then show ?thesis by (cases m) (auto simp: setDamage_def state_sound_def state_shape_def intro!: sound_updState_any)
  qed
  show ?thesis
    unfolding scan_def Let_def job_runs_def[symmetric] by (intro marks keeps sound_root collect_sound)
qed

section \<open>The verdict\<close>

lemma keeps_calculateBytesToScan [keeps]: "keeps I calculateBytesToScan"
  unfolding calculateBytesToScan_def by (intro keeps)

lemma keeps_buildLookupTable [keeps]: "keeps I buildLookupTable"
  unfolding buildLookupTable_def by (intro keeps)

lemma ends_verifyHashes: "ends (sound w fs s) verifyProtectedFilesHashes (\<lambda>_ d. sound w fs s d \<and> decided fs d)"
  unfolding ends_def using wp_D(1)[OF wp_verifyProtectedFilesHashes] by blast

lemma VerifyScans_sound:
  assumes "distinct (map fd_FileID (protectedFiles d))" "VerifyScans envs sched d = (Ret u, d')"
  shows "sound (root d) (protectedFiles d) (sliceByteCount d) d' \<and> decided (protectedFiles d) d'"
proof -
  define fs s where "fs = protectedFiles d" and "s = sliceByteCount d"
  have init: "ends (\<lambda>d1. d1 = d) initFileIntegrity (\<lambda>_. sound (root d) fs s)"
    unfolding ends_def fs_def s_def using init_sound assms(1) by blast
  have static: "gives (sound (root d) fs s) (getG (\<lambda>d. d)) (\<lambda>d. sliceByteCount d = s)"
    by (simp add: gives_def keeps go_defs sound_def)
  have fin: "ends (\<lambda>d'. sound (root d) fs s d' \<and> decided fs d') (bindG (onRoot ctxErr) (\<lambda>canc.
      if canc then errG ''context canceled'' else retG ())) (\<lambda>_ d'. sound (root d) fs s d' \<and> decided fs d')"
    (is "ends ?I _ _")
  proof (rule ends_bind_keeps)
    show "keeps ?I (onRoot ctxErr)"
      unfolding keeps_def using sound_root[OF reads_ops(2), of "root d" fs s]
      by (auto simp: keeps_def decided_def onRoot_def split: prod.splits)
  qed (simp add: ends_simple ends_if)
  have "ends (\<lambda>d1. d1 = d) (VerifyScans envs sched) (\<lambda>_ d'. sound (root d) fs s d' \<and> decided fs d')"
    unfolding VerifyScans_def
    by (rule ends_bind[OF init], rule ends_bind_keeps[OF checkFileExistence_sound],
        rule ends_bind_keeps[OF prescanCandidateMatches_sound], rule ends_bind_keeps[OF prescanProtectedMatches_sound],
        rule ends_bind_keeps[OF keeps_calculateBytesToScan], rule ends_bind_gives[OF gives_protected(2)],
        rule ends_bind_gives[OF gives_liftR], rule ends_bind_keeps[OF keeps_buildLookupTable],
        rule ends_bind_gives[OF static], rule ends_bind_keeps[OF keeps_simple(3)], rule ends_bind_keeps[OF scan_sound], simp, rule ends_bind[OF ends_verifyHashes fin])
  then show ?thesis using assms(2) unfolding ends_def fs_def s_def by blast
qed

lemma settled_verdict:
  assumes "sound w fs s d" "decided fs d" "\<not> RepairNeeded (shardCountsLocked d)" "fd \<in> set fs"
  shows "content_hash w (Filename fd) = Some (fd_Hash fd)"
proof -
  obtain st where st: "map_of (fileIntegrity d) (fd_FileID fd) = Some st" "state_sound w fd st"
    using assms(1,4) unfolding sound_def by blast
  have "st \<in> set (map snd (fileIntegrity d))" using map_of_SomeD[OF st(1)] by force
  then have "RenameSource st = []" "\<not> needsRebuild st" using assms(3) unfolding RepairNeeded_iff by blast+
  moreover have "settled st" using assms(2,4) st(1) unfolding decided_def by blast
  ultimately have "Damage st = damageNone" by (cases "Damage st") (auto simp: settled_def needsRebuild_def)
  then show ?thesis using st(2) by (simp add: state_sound_def)
qed

end
