(* ===== verification/Scan_Windows.thy ===== *)
theory Scan_Windows
  imports Scan_Sound
begin

text \<open>
  What a goroutine of the scanner does with a table in which every probe ends: it does not panic, every window on
  the block grid of its chunk that holds a block of the set is sent as a match, the chunks of a file cover its whole
  grid, and when no call fails the goroutine returns without an error.
\<close>

section \<open>One window\<close>

text \<open>A table in which every probe ends and every location has its flag.\<close>

definition table_ok :: "crcLookupTable \<Rightarrow> bool" where
  "table_ok t \<longleftrightarrow> (\<forall>c. \<exists>ls found. Lookup t c = Some (ls, found) \<and> (\<forall>l\<in>set ls. reported l \<noteq> None))"

text \<open>\<open>calm b\<close>: if \<open>b\<close>, no call fails any more and the context is never cancelled. \<open>sends cs b E\<close>: the goroutine
  has sent the matches \<open>E\<close>, and its chunks have sent \<open>cs\<close>.\<close>

definition calm_world :: "bool \<Rightarrow> world \<Rightarrow> bool" where
  "calm_world b w \<longleftrightarrow> (b \<longrightarrow> faults w = (\<lambda>_. None) \<and> cancelAt w = None)"

definition sends :: "matchEvent list list \<Rightarrow> bool \<Rightarrow> matchEvent set \<Rightarrow> goroutine \<Rightarrow> bool" where
  "sends cs b E g \<longleftrightarrow> chunkSent g = cs \<and> calm_world b (gworld g) \<and> E \<subseteq> set (sent g)"

lemma sends_mono: "sends cs b E g \<Longrightarrow> E' \<subseteq> E \<Longrightarrow> sends cs b E' g"
  by (auto simp: sends_def)

lemma wp_onWorld: "wp (onWorld m) Q E g = wp m (\<lambda>x w. Q x (g\<lparr>gworld := w\<rparr>)) (\<lambda>e w. E e (g\<lparr>gworld := w\<rparr>)) (gworld g)"
  by (auto simp: wp_def onWorld_def split: prod.splits res.splits)

lemma wp_panicG [wp]: "\<not> wp (panicG p) Q E s"
  by (simp add: wp_def panicG_def)

lemma wp_calm_read:
  assumes "calm_world b w" "\<And>p. f w \<noteq> Panic p"
    "\<And>x w'. calm_world b w' \<Longrightarrow> same_files w w' \<Longrightarrow> f w = Ret x \<Longrightarrow> Q x w'"
    "\<And>e w'. calm_world b w' \<Longrightarrow> same_files w w' \<Longrightarrow> b \<longrightarrow> f w = Error e \<Longrightarrow> E e w'"
  shows "wp (sysRead f) Q E w"
proof -
  have t: "calm_world b (tick w)" "same_files w (tick w)" using assms(1) by (simp_all add: calm_world_def tick_def same_files_def)
  show ?thesis
    using assms(1,3,4) assms(2)[of "case f w of Panic p \<Rightarrow> p"] t
    by (cases "f w") (auto simp: wp_def sysRead_def calm_world_def split: option.splits)
qed

lemma wp_ctx:
  assumes "calm_world b w" "\<And>c w'. calm_world b w' \<Longrightarrow> same_files w w' \<Longrightarrow> b \<longrightarrow> \<not> c \<Longrightarrow> Q c w'"
  shows "wp ctxErr Q E w"
  unfolding wp_def ctxErr_def using assms(1)
  by (auto intro!: assms(2) simp: calm_world_def tick_def same_files_def)

lemma wp_loadFlag:
  assumes "r \<noteq> None" "sends cs b E g" "\<And>x g'. sends cs b E g' \<Longrightarrow> Q x g'"
  shows "wp (loadFlag r) Q R g"
  using assms by (auto simp: wp_def loadFlag_def sends_def)

lemma wp_casFlag:
  assumes "r \<noteq> None" "sends cs b E g" "\<And>x g'. sends cs b E g' \<Longrightarrow> Q x g'"
  shows "wp (casFlag r) Q R g"
  unfolding casFlag_def wp
  by (rule wp_loadFlag[OF assms(1,2)]) (use assms(3) in \<open>auto simp: wp sends_def\<close>)

lemma wp_allReported:
  assumes "\<forall>l\<in>set ls. reported l \<noteq> None" "sends cs b E g" "\<And>x g'. sends cs b E g' \<Longrightarrow> Q x g'"
  shows "wp (allReported ls) Q R g"
  using assms(1,2)
proof (induction ls arbitrary: g)
  case (Cons l ls)
  show ?case unfolding allReported.simps wp
    by (rule wp_loadFlag[of _ cs b E]) (use Cons assms(3) in \<open>auto simp: wp\<close>)
qed (simp add: wp assms(3))

lemma wp_match_location:
  assumes "reported loc \<noteq> None" "sends cs b E g"
  shows "wp (match_location src h absPos i at loc acc)
    (\<lambda>_. sends cs b (E \<union> (if md5Hash loc = h then {event_of src absPos loc} else {}))) R g"
proof -
  have "sends cs b (insert (event_of src absPos loc) E) (g'\<lparr>sent := sent g' @ [event_of src absPos loc]\<rparr>)" if "sends cs b E g'" for g'
    using that by (auto simp: sends_def)
  then show ?thesis
    unfolding match_location_def Let_def event_of_def[symmetric]
    using assms by (auto simp: wp split: prod.split intro!: wp_loadFlag[of _ cs b E] wp_casFlag[of _ cs b E])
qed

lemma wp_match_locations:
  assumes "\<forall>l\<in>set ls. reported l \<noteq> None" "sends cs b E g"
  shows "wp (foldG (match_location src h absPos i at) ls acc)
    (\<lambda>_. sends cs b (E \<union> event_of src absPos ` {l \<in> set ls. md5Hash l = h})) R g"
proof (rule wp_mono)
  show "wp (foldG (match_location src h absPos i at) ls acc)
      ((\<lambda>pre _. sends cs b (E \<union> event_of src absPos ` {l \<in> set pre. md5Hash l = h})) ls) R g"
  proof (rule wp_fold[where I = "\<lambda>pre _. sends cs b (E \<union> event_of src absPos ` {l \<in> set pre. md5Hash l = h})"])
    fix pre l rest a g'
    assume ls: "ls = pre @ l # rest" and g': "sends cs b (E \<union> event_of src absPos ` {l \<in> set pre. md5Hash l = h}) g'"
    have "reported l \<noteq> None" using assms(1) ls by simp
    note m = wp_match_location[OF this g', of src h absPos i at a R]
    show "wp (match_location src h absPos i at l a) (\<lambda>_. sends cs b (E \<union> event_of src absPos ` {l' \<in> set (pre @ [l]). md5Hash l' = h})) R g'"
      by (rule wp_mono[OF m]) (auto elim!: sends_mono)
  qed (use assms(2) in simp)
qed auto

lemma wp_matchBlock:
  assumes "table_ok (lookupTable s)" "sends cs b E g"
    "\<And>m g'. sends cs b (E \<union> (if absPos mod sliceByteCount (sd s) = 0 then event_of src absPos ` {l. hits s c block l} else {})) g' \<Longrightarrow> Q m g'"
  shows "wp (matchBlock s src block c absPos) Q R g"
proof -
  let ?H = "if absPos mod sliceByteCount (sd s) = 0 then event_of src absPos ` {l. hits s c block l} else {}"
  obtain ls found where t: "Lookup (lookupTable s) c = Some (ls, found)" "\<forall>l\<in>set ls. reported l \<noteq> None"
    using assms(1) unfolding table_ok_def by meson
  have hits: "hits s c block l \<longleftrightarrow> found \<and> l \<in> set ls \<and> md5Hash l = md5 block" for l using t(1) by (auto simp: hits_def)
  have none: "Q m g" if "\<not> found" for m by (rule assms(3)) (use assms(2) that hits in \<open>auto simp: sends_def\<close>)
  have off: "Q m g'" if "absPos mod sliceByteCount (sd s) \<noteq> 0" "sends cs b E g'" for m g'
    by (rule assms(3)) (use that in simp)
  have locs: "wp (foldG (match_location src (md5 block) absPos i at) ls acc) (\<lambda>x. Q (F x)) R g'" if "found" "sends cs b E g'" for i at acc F g'
    by (rule wp_mono[OF wp_match_locations[OF t(2) that(2)]]) (rule assms(3), erule sends_mono, use that hits in auto)
  show ?thesis
    unfolding matchBlock_def Let_def t(1) option.case prod.case wp
    using t(2) assms(2)
    by (auto simp: case_prod_unfold wp intro!: none wp_allReported[of ls cs b E] off locs)
qed

section \<open>One chunk\<close>

text \<open>The matches of the windows on the block grid from \<open>pos\<close> to the last one.\<close>

definition window_events :: "blockScanner \<Rightarrow> FileID \<Rightarrow> nat \<Rightarrow> bytes \<Rightarrow> matchEvent set" where
  "window_events s src pos block = event_of src pos ` {l. hits s (ChecksumIEEE block) block l}"

definition grid :: "nat \<Rightarrow> nat \<Rightarrow> nat \<Rightarrow> nat \<Rightarrow> nat set" where
  "grid bs len start pos = {p. pos \<le> p \<and> p mod bs = 0 \<and> p - start + bs \<le> len}"

definition grid_events :: "blockScanner \<Rightarrow> FileID \<Rightarrow> bytes \<Rightarrow> nat \<Rightarrow> nat \<Rightarrow> matchEvent set" where
  "grid_events s src data start pos = (\<Union>p \<in> grid (sliceByteCount (sd s)) (length data) start pos.
     window_events s src p (take (sliceByteCount (sd s)) (drop (p - start) data)))"

lemma grid_step:
  assumes "bs \<noteq> 0" "pos mod bs = 0" "pos - start + bs \<le> len"
  shows "grid bs len start pos = insert pos (grid bs len start (pos + bs))"
proof -
  have "p = pos \<or> pos + bs \<le> p" if "pos \<le> p" "bs dvd p" for p
  proof -
    have "bs dvd p - pos" using that assms(2) by (simp add: dvd_diff_nat mod_eq_0_iff_dvd)
    then show ?thesis using that(1) dvd_imp_le[of bs "p - pos"] by (cases "p = pos") auto
  qed
  then show ?thesis using assms(2,3) by (auto simp: grid_def)
qed

lemma wp_claim_loop:
  assumes "table_ok (lookupTable s)" "sends cs b E g" "sliceByteCount (sd s) \<noteq> 0" "start \<le> pos" "pos mod sliceByteCount (sd s) = 0"
    "\<And>cl g'. sends cs b (E \<union> grid_events s src data start pos) g' \<Longrightarrow> Q cl g'"
  shows "wp (claim_loop s src data start pos claimed) Q R g"
  using assms
proof (induction s src data start pos claimed arbitrary: E g rule: claim_loop.induct)
  case (1 s src data start pos claimed)
  let ?bs = "sliceByteCount (sd s)"
  show ?case
  proof (cases "length data < ?bs \<or> length data - ?bs < pos - start")
    case True
    then have "grid_events s src data start pos = {}" by (auto simp: grid_events_def grid_def)
    then have "Q claimed g" using 1(3,7) by simp
    then show ?thesis using True 1(4) by (subst claim_loop.simps) (simp add: Let_def wp)
  next
    case False
    define block where "block = take ?bs (drop (pos - start) data)"
    have "pos - start + ?bs \<le> length data" using False by linarith
    then have grid: "grid_events s src data start pos =
        window_events s src pos block \<union> grid_events s src data start (pos + ?bs)"
      using grid_step[OF 1(4,6)] by (simp add: grid_events_def block_def)
    have rec: "wp (claim_loop s src data start (pos + ?bs) (claimed @ [inPlace m])) Q R g'"
      if "sends cs b (E \<union> window_events s src pos block) g'" for m :: blockMatch and g'
      by (rule 1(1)[OF refl 1(4) False refl 1(2) that 1(4)])
        (use 1(5,6,7) grid in \<open>auto simp: Un_assoc\<close>)
    show ?thesis
      unfolding claim_loop.simps[of s src data start pos claimed] Let_def block_def[symmetric]
      using False 1(4,6) by (simp add: wp) (rule wp_matchBlock[OF 1(2,3)], rule rec, simp add: window_events_def)
  qed
qed

lemma wp_slide_loop:
  assumes "table_ok (lookupTable s)" "sends cs b E g" "sliceByteCount (sd s) \<noteq> 0" "\<And>g'. sends cs b E g' \<Longrightarrow> Q () g'"
  shows "wp (slide_loop s src data start fa claimed j c m bd) Q R g"
  using assms(2)
proof (induction "length data + 1 - j" arbitrary: j c m bd g rule: less_induct)
  case less
  let ?bs = "sliceByteCount (sd s)"
  show ?case
  proof (cases "length data < ?bs \<or> length data - ?bs < j")
    case True
    then show ?thesis using assms(3,4) less.prems by (subst slide_loop.simps) (simp add: Let_def wp)
  next
    case False
    then have le: "j + ?bs \<le> length data" and pos: "0 < ?bs" using assms(3) by linarith+
    have rec: "wp (slide_loop s src data start fa claimed j' c' m' bd') Q R g'" if "j < j'" "sends cs b E g'" for j' c' m' bd' g'
      using that le by (intro less.hyps) auto
    have skip: "j < (start + j) div ?bs * ?bs + ?bs - start" using next_block[OF pos, of start j] by linarith
    have step: "wp (matchBlock s src block c' p) (\<lambda>x. if reportedNew x
          then wp (slide_loop s src data start fa claimed (j + ?bs) c' False bd') Q R
          else wp (slide_loop s src data start fa claimed (j + 1) c' True bd') Q R) R g'"
      if "sends cs b E g'" for block c' p bd' g'
      by (rule wp_matchBlock[OF assms(1) that]) (use pos in \<open>auto intro!: rec elim!: sends_mono\<close>)
    have ctx: "wp (if j mod 65536 = 0 then onWorld ctxErr else retG False) Q' R g"
      if "\<And>x g'. sends cs b E g' \<Longrightarrow> Q' x g'" for Q'
      using less.prems by (auto simp: wp wp_onWorld intro!: wp_ctx[of b] that) (auto simp: sends_def)
    show ?thesis
      unfolding slide_loop.simps[of s src data start fa claimed j c m bd] Let_def if_not_P[OF assms(3)] if_not_P[OF False] wp_bind
    proof (rule ctx, intro wp_ifI)
      fix x g' assume g': "sends cs b E g'"
      show "wp (retG ()) Q R g'" using assms(4) g' by (simp add: wp)
    qed (simp_all add: rec skip wp_bind step wp_if_fun del: wp_fun)
  qed
qed

lemma firstAligned_bounds:
  assumes "bs \<noteq> 0"
  shows "start \<le> firstAligned bs start" "firstAligned bs start mod bs = 0" "start \<le> p \<Longrightarrow> p mod bs = 0 \<Longrightarrow> firstAligned bs start \<le> p"
proof -
  show "start \<le> firstAligned bs start"
    using ceil_bounds[of bs start] assms by (cases "start = 0") (auto simp: firstAligned_def)
  show "firstAligned bs start mod bs = 0" by (simp add: firstAligned_def)
  assume p: "start \<le> p" "p mod bs = 0"
  have "(start + bs - 1) div bs < p div bs + 1"
    using p assms by (intro less_mult_imp_div_less) (auto simp: algebra_simps mod_eq_0_iff_dvd)
  then have "(start + bs - 1) div bs \<le> p div bs" by simp
  then have "(start + bs - 1) div bs * bs \<le> p div bs * bs" by (rule mult_le_mono1)
  moreover have "p div bs * bs = p" using p(2) by (simp add: mod_eq_0_iff_dvd)
  ultimately show "firstAligned bs start \<le> p" by (simp only: firstAligned_def)
qed

text \<open>The matches of the windows on the grid of a file that lie between two offsets.\<close>

definition file_events :: "blockScanner \<Rightarrow> FileID \<Rightarrow> bytes \<Rightarrow> nat \<Rightarrow> nat \<Rightarrow> matchEvent set" where
  "file_events s src content lo hi = (let bs = sliceByteCount (sd s) in
     \<Union>p \<in> {p. lo \<le> p \<and> p mod bs = 0 \<and> p + bs \<le> hi}. window_events s src p (take bs (drop p content)))"

lemma file_events_chunk:
  assumes "sliceByteCount (sd s) \<noteq> 0" "start \<le> end'" "end' \<le> length content"
  shows "file_events s src content start end' \<subseteq>
    grid_events s src (take (end' - start) (drop start content)) start (firstAligned (sliceByteCount (sd s)) start)"
proof -
  let ?bs = "sliceByteCount (sd s)" and ?data = "take (end' - start) (drop start content)"
  have len: "length ?data = end' - start" using assms by simp
  have "window_events s src p (take ?bs (drop p content)) \<subseteq> grid_events s src ?data start (firstAligned ?bs start)"
    if "start \<le> p" "p mod ?bs = 0" "p + ?bs \<le> end'" for p
  proof -
    have g: "p \<in> grid ?bs (length ?data) start (firstAligned ?bs start)"
      using that firstAligned_bounds(3)[OF assms(1) that(1,2)] len by (simp add: grid_def)
    have "take ?bs (drop (p - start) ?data) = take ?bs (drop p content)"
      using sub_window[of start ?data content "p - start" ?bs] that assms len by simp
    then show ?thesis
      unfolding grid_events_def using UN_upper[OF g, of "\<lambda>p. window_events s src p (take ?bs (drop (p - start) ?data))"] by (simp only:)
  qed
  then show ?thesis unfolding file_events_def Let_def by (intro UN_least) simp
qed

lemma wp_scanChunk:
  assumes "table_ok (lookupTable s)" "sends cs b E g" "sliceByteCount (sd s) \<noteq> 0" "end' \<le> length (inodes (gworld g) f)" "start \<le> end'"
    "\<And>g'. sends cs b (E \<union> file_events s src (inodes (gworld g) f) start end') g' \<Longrightarrow> Q () g'" "\<And>e g'. \<not> b \<Longrightarrow> R e g'"
    "int (end' - start) \<le> maxAlloc"
  shows "wp (scanChunk s f src start end') Q R g"
proof (cases "end' - start < sliceByteCount (sd s)")
  case True
  then have "file_events s src (inodes (gworld g) f) start end' = {}" by (auto simp: file_events_def Let_def)
  then show ?thesis using True assms(2,6) by (simp add: scanChunk_def wp)
next
  case False
  define content where "content = inodes (gworld g) f"
  let ?data = "take (end' - start) (drop start content)" and ?fa = "firstAligned (sliceByteCount (sd s)) start"
  have data: "end' - (start + min (length content - start) (end' - start)) = 0" using assms(4,5) by (simp add: content_def)
  have "wp (claimGrid s src ?data start) (\<lambda>(fa, claimed). wp (slide_loop s src ?data start fa claimed 0 0 False (-1)) Q R) R g'"
    if "sends cs b E g'" for g'
    unfolding claimGrid_def Let_def wp
  proof (rule wp_claim_loop[OF assms(1) that assms(3)], simp_all add: firstAligned_bounds[OF assms(3)])
    fix cl g'' assume g'': "sends cs b (E \<union> grid_events s src ?data start ?fa) g''"
    have le: "E \<union> file_events s src content start end' \<subseteq> E \<union> grid_events s src ?data start ?fa"
      using file_events_chunk[OF assms(3,5)] assms(4) unfolding content_def by blast
    show "wp (slide_loop s src ?data start ?fa cl 0 0 False (-1)) Q R g''"
      by (rule wp_slide_loop[OF assms(1) sends_mono[OF g'' le] assms(3)]) (use assms(6) in \<open>simp add: content_def\<close>)
  qed
  then show ?thesis
    unfolding scanChunk_def readAt_def using False assms(2,7,8)
    by (auto simp: wp wp_liftR wp_onWorld data case_prod_unfold Let_def sends_def content_def[symmetric] intro!: wp_calm_read[of b])
qed

section \<open>One file\<close>

definition quiet_env :: "genv \<Rightarrow> bool" where
  "quiet_env e \<longleftrightarrow> gfaults e = (\<lambda>_. None) \<and> gcancel e = None \<and> gstart e"

definition no_panic :: "'a res \<Rightarrow> bool" where
  "no_panic r \<longleftrightarrow> (\<forall>p. r \<noteq> Panic p)"

definition chunk_end :: "blockScanner \<Rightarrow> nat \<Rightarrow> nat \<Rightarrow> nat" where
  "chunk_end s len i = min (i * scanChunkSize + scanChunkSize + sliceByteCount (sd s) - 1) len"

lemma scanChunkSize_pos: "0 < scanChunkSize"
  by (simp add: scanChunkSize_def)

text \<open>What the scanner needs of a decoder: a semaphore with slots, and a block size for which the buffers can be allocated.\<close>

definition scan_limits :: "Decoder \<Rightarrow> bool" where
  "scan_limits d \<longleftrightarrow> 0 < numGoroutines d \<and> int (sliceByteCount d) + int scanChunkSize \<le> maxAlloc"

definition scan_ready :: "Decoder \<Rightarrow> bool" where
  "scan_ready d \<longleftrightarrow> sliceByteCount d \<noteq> 0 \<and> scan_limits d"

lemma scan_ready_D:
  assumes "scan_ready d"
  shows "sliceByteCount d \<noteq> 0" "numGoroutines d \<noteq> 0" "makeslice (int (sliceByteCount d)) = Ret ()"
  using assms by (simp_all add: scan_ready_def scan_limits_def)

lemma chunk_fits:
  assumes "scan_ready (sd s)"
  shows "int (chunk_end s len i - i * scanChunkSize) \<le> maxAlloc"
proof -
  have "chunk_end s len i \<le> i * scanChunkSize + scanChunkSize + sliceByteCount (sd s)" by (simp add: chunk_end_def)
  then have "chunk_end s len i - i * scanChunkSize \<le> scanChunkSize + sliceByteCount (sd s)" by linarith
  then show ?thesis using assms unfolding scan_ready_def scan_limits_def by linarith
qed

lemma run_chunk_result:
  fixes e :: genv and src :: FileID
  assumes "table_ok (lookupTable s)" "scan_ready (sd s)" "i < numChunks (length (inodes w f))"
  defines "rc \<equiv> run_chunk s e f src (length (inodes w f)) w i"
  shows "no_panic (fst rc)"
    "quiet_env e \<Longrightarrow> fst rc = Ret () \<and>
       file_events s src (inodes w f) (i * scanChunkSize) (chunk_end s (length (inodes w f)) i) \<subseteq> set (snd rc)"
proof -
  let ?len = "length (inodes w f)" and ?g = "new_goroutine e w"
  let ?c = "scanChunk s f src (i * scanChunkSize) (chunk_end s ?len i)"
  have lt: "i * scanChunkSize < ?len"
  proof (cases "?len = 0")
    case True
    then show ?thesis using assms(3) scanChunkSize_pos by (simp add: numChunks_def)
  next
    case False
    have "i * scanChunkSize \<le> (numChunks ?len - 1) * scanChunkSize" using assms(3) by (intro mult_le_mono1) simp
    also have "\<dots> < ?len" using ceil_bounds[OF scanChunkSize_pos, of ?len] False by (simp add: numChunks_def)
    finally show ?thesis .
  qed
  have se: "i * scanChunkSize \<le> chunk_end s ?len i" "chunk_end s ?len i \<le> length (inodes (gworld ?g) f)"
    using lt scan_ready_D(1)[OF assms(2)] by (auto simp: chunk_end_def new_goroutine_def)
  have calm: "sends [] (quiet_env e) {} ?g" by (simp add: sends_def calm_world_def quiet_env_def new_goroutine_def)
  have "wp ?c (\<lambda>_. sends [] (quiet_env e) (file_events s src (inodes w f) (i * scanChunkSize) (chunk_end s ?len i)))
      (\<lambda>_ _. \<not> quiet_env e) ?g"
    by (rule wp_scanChunk[OF assms(1) calm scan_ready_D(1)[OF assms(2)] se(2,1)]) (simp_all add: new_goroutine_def chunk_fits[OF assms(2)])
  then show "no_panic (fst rc)" "quiet_env e \<Longrightarrow> fst rc = Ret () \<and>
       file_events s src (inodes w f) (i * scanChunkSize) (chunk_end s (length (inodes w f)) i) \<subseteq> set (snd rc)"
    unfolding rc_def run_chunk_def chunk_end_def[symmetric] Let_def using scan_ready_D(2)[OF assms(2)]
    by (auto simp: wp_def no_panic_def sends_def quiet_env_def split: prod.splits res.splits)
qed

lemma chunks_cover:
  assumes "sliceByteCount (sd s) \<noteq> 0"
  shows "file_events s src content 0 (length content) \<subseteq>
    (\<Union>i<numChunks (length content). file_events s src content (i * scanChunkSize) (chunk_end s (length content) i))"
proof
  let ?bs = "sliceByteCount (sd s)" and ?len = "length content" and ?C = scanChunkSize
  fix e assume "e \<in> file_events s src content 0 ?len"
  then obtain p where p: "?bs dvd p" "p + ?bs \<le> ?len" "e \<in> window_events s src p (take ?bs (drop p content))"
    by (auto simp: file_events_def Let_def)
  let ?i = "p div ?C"
  have lo: "?i * ?C \<le> p" and hi: "p < ?i * ?C + ?C"
    using scanChunkSize_pos dividend_less_div_times[of ?C p] by (simp_all add: add.commute)
  have "p < ?len" using p(2) assms by linarith
  then have "?len \<le> numChunks ?len * ?C" using ceil_bounds[OF scanChunkSize_pos, of ?len] by (cases "content = []") (auto simp: numChunks_def)
  then have "?i < numChunks ?len" using \<open>p < ?len\<close> by (intro less_mult_imp_div_less) simp
  moreover have "e \<in> file_events s src content (?i * ?C) (chunk_end s ?len ?i)"
  proof -
    have "p \<in> {p. ?i * ?C \<le> p \<and> p mod ?bs = 0 \<and> p + ?bs \<le> chunk_end s ?len ?i}" using p lo hi by (simp add: chunk_end_def)
    then show ?thesis unfolding file_events_def Let_def using p(3) by (rule UN_I)
  qed
  ultimately show "e \<in> (\<Union>i<numChunks ?len. file_events s src content (i * ?C) (chunk_end s ?len i))" by blast
qed

lemma wp_launch:
  assumes "sends cs b E g" "same_files w (gworld g)"
    "\<And>started g'. sends cs b E g' \<Longrightarrow> same_files w (gworld g') \<Longrightarrow> set started \<subseteq> set is \<Longrightarrow> b \<longrightarrow> started = is \<Longrightarrow> Q started g'"
  shows "wp (launch is) Q R g"
  using assms
proof (induction "is" arbitrary: g Q)
  case (Cons i "is")
  show ?case
    unfolding launch.simps wp wp_onWorld
  proof (rule wp_ctx[of b])
    show "calm_world b (gworld g)" using Cons.prems(1) by (simp add: sends_def)
    fix c w' assume c: "calm_world b w'" "same_files (gworld g) w'" "b \<longrightarrow> \<not> c"
    have s: "sends cs b E (g\<lparr>gworld := w'\<rparr>)" "same_files w (gworld (g\<lparr>gworld := w'\<rparr>))"
      using Cons.prems(1,2) c(1,2) by (auto simp: sends_def intro: same_files_trans)
    show "if c then Q [] (g\<lparr>gworld := w'\<rparr>) else wp (launch is) (\<lambda>x. Q (i # x)) R (g\<lparr>gworld := w'\<rparr>)"
      using c(3) by (auto intro!: Cons.prems(3)[OF s] Cons.IH[OF s] Cons.prems(3))
  qed
qed (simp add: wp)

lemma waitAll_no_panic: "(\<forall>r\<in>set rs. no_panic r) \<Longrightarrow> no_panic (waitAll rs)"
  by (induction rs) (auto simp: no_panic_def split: res.splits)

lemma waitAll_Ret: "(\<forall>r\<in>set rs. r = Ret ()) \<Longrightarrow> waitAll rs = Ret ()"
  by (induction rs) auto

text \<open>Everything a goroutine and its chunks have sent.\<close>

definition emitted :: "goroutine \<Rightarrow> matchEvent set" where
  "emitted g = set (sent g) \<union> (\<Union>es\<in>set (chunkSent g). set es)"

lemma wp_scanFileChunks:
  assumes "table_ok (lookupTable s)" "scan_ready (sd s)" "sends cs b E g" "same_files w (gworld g)"
    "b \<longrightarrow> (\<forall>k. quiet_env (envs (Suc k)))"
    "\<And>g' cs'. sends cs' b E g' \<Longrightarrow> same_files w (gworld g') \<Longrightarrow>
      b \<longrightarrow> file_events s src (inodes w f) 0 (length (inodes w f)) \<subseteq> emitted g' \<Longrightarrow> Q () g'"
    "\<And>e g'. \<not> b \<Longrightarrow> R e g'"
  shows "wp (scanFileChunks s envs f src (length (inodes w f))) Q R g"
  unfolding scanFileChunks_def wp Let_def
proof (rule wp_launch[OF assms(3,4)])
  let ?len = "length (inodes w f)"
  fix started g'
  assume g': "sends cs b E g'" "same_files w (gworld g')" "set started \<subseteq> set [0..<numChunks ?len]" "b \<longrightarrow> started = [0..<numChunks ?len]"
  have ino: "inodes (gworld g') = inodes w" using g'(2) by (simp add: same_files_def)
  let ?rc = "\<lambda>i. run_chunk s (envs (Suc i)) f src ?len (gworld g') i"
  have rc: "no_panic (fst (?rc i))" "b \<Longrightarrow> fst (?rc i) = Ret () \<and>
      file_events s src (inodes w f) (i * scanChunkSize) (chunk_end s ?len i) \<subseteq> set (snd (?rc i))" if "i \<in> set started" for i
  proof -
    have i: "i < numChunks (length (inodes (gworld g') f))" using that g'(3) ino by auto
    show "no_panic (fst (?rc i))" using run_chunk_result(1)[OF assms(1,2) i] by (simp only: ino)
    show "b \<Longrightarrow> fst (?rc i) = Ret () \<and>
        file_events s src (inodes w f) (i * scanChunkSize) (chunk_end s ?len i) \<subseteq> set (snd (?rc i))"
      using run_chunk_result(2)[OF assms(1,2) i, of "envs (Suc i)" src] assms(5) by (simp only: ino)
  qed
  have "Q () (g'\<lparr>chunkSent := chunkSent g' @ map snd (map ?rc started)\<rparr>)"
    if "no_panic (waitAll (map fst (map ?rc started)))"
  proof (rule assms(6)[of "chunkSent g' @ map snd (map ?rc started)"])
    show "b \<longrightarrow> file_events s src (inodes w f) 0 ?len \<subseteq> emitted (g'\<lparr>chunkSent := chunkSent g' @ map snd (map ?rc started)\<rparr>)"
    proof
      assume b: "b"
      have "file_events s src (inodes w f) 0 ?len \<subseteq> (\<Union>i<numChunks ?len. set (snd (?rc i)))"
        using chunks_cover[OF scan_ready_D(1)[OF assms(2)], of src "inodes w f"] rc(2)[OF _ b] g'(4) b by fastforce
      then show "file_events s src (inodes w f) 0 ?len \<subseteq> emitted (g'\<lparr>chunkSent := chunkSent g' @ map snd (map ?rc started)\<rparr>)"
        using g'(4) b by (auto simp: emitted_def)
    qed
  qed (use g' in \<open>simp_all add: sends_def\<close>)
  moreover have "no_panic (waitAll (map fst (map ?rc started)))" by (rule waitAll_no_panic) (use rc(1) in auto)
  moreover have "b \<longrightarrow> waitAll (map fst (map ?rc started)) = Ret ()" by (intro impI waitAll_Ret) (use rc(2) in auto)
  ultimately show "wp (liftR (waitAll (map fst (map ?rc started)))) Q R (g'\<lparr>chunkSent := chunkSent g' @ map snd (map ?rc started)\<rparr>)"
    using assms(7) by (auto simp: wp_liftR no_panic_def split: res.splits)
qed

text \<open>The match of the last block when the length is not a multiple of the block size.\<close>

definition last_start :: "nat \<Rightarrow> nat \<Rightarrow> nat" where
  "last_start bs n = ((n + bs - 1) div bs - 1) * bs"

definition last_events :: "blockScanner \<Rightarrow> FileID \<Rightarrow> bytes \<Rightarrow> nat \<Rightarrow> matchEvent set" where
  "last_events s src content n = (let bs = sliceByteCount (sd s); p = last_start bs n in
     if n mod bs = 0 then {} else window_events s src p (block_at bs (n - p) content p))"

lemma wp_scanLastPartialBlock:
  assumes "table_ok (lookupTable s)" "scan_ready (sd s)" "sends cs b E g" "same_files w (gworld g)"
    "\<And>g'. sends cs b (E \<union> last_events s src (inodes w f) n) g' \<Longrightarrow> Q () g'"
    "\<And>e g'. \<not> b \<Longrightarrow> R e g'"
  shows "wp (scanLastPartialBlock s f src n) Q R g"
proof (cases "n mod sliceByteCount (sd s) = 0")
  case True
  then show ?thesis using scan_ready_D(1)[OF assms(2)] assms(3,5) by (simp add: scanLastPartialBlock_def last_events_def Let_def wp)
next
  case False
  let ?bs = "sliceByteCount (sd s)"
  define p where "p = last_start ?bs n"
  define block where "block = block_at ?bs (n - p) (inodes w f) p"
  have "wp (matchBlock s src block (ChecksumIEEE block) p) (\<lambda>_. Q ()) R g'" if "sends cs b E g'" for g'
    by (rule wp_matchBlock[OF assms(1) that], rule assms(5), erule sends_mono)
      (use False in \<open>auto simp: last_events_def Let_def window_events_def p_def[symmetric] block_def[symmetric]\<close>, simp add: p_def last_start_def)
  moreover have "inodes (gworld g) = inodes w" using assms(4) by (simp add: same_files_def)
  ultimately show ?thesis
    unfolding scanLastPartialBlock_def readAt_def Let_def last_start_def[symmetric] p_def[symmetric]
    using False scan_ready_D(1,3)[OF assms(2)] assms(3,6)
    by (auto simp: wp wp_liftR wp_onWorld sends_def block_def block_at_def Let_def intro!: wp_calm_read[of b])
qed

text \<open>What a job finds in a file of the given length on the grid and at its end.\<close>

definition job_events :: "blockScanner \<Rightarrow> world \<Rightarrow> scanJob \<Rightarrow> matchEvent set" where
  "job_events s w j = (case dir w (job_name j) of None \<Rightarrow> {} | Some i \<Rightarrow>
     if inodes w i = [] then {}
     else file_events s (job_id j) (inodes w i) 0 (length (inodes w i)) \<union>
       last_events s (job_id j) (inodes w i)
         (case j of ScanProtected fd \<Rightarrow> ByteCount fd | ScanCandidate _ _ \<Rightarrow> length (inodes w i)))"

lemma wp_scan_body:
  assumes "table_ok (lookupTable s)" "scan_ready (sd s)" "sends cs b {} g" "same_files w (gworld g)"
    "b \<longrightarrow> (\<forall>k. quiet_env (envs (Suc k)))"
  shows "wp (bindG (scanFileChunks s envs f src (length (inodes w f))) (\<lambda>_. scanLastPartialBlock s f src n))
    (\<lambda>_ g'. b \<longrightarrow> file_events s src (inodes w f) 0 (length (inodes w f)) \<union> last_events s src (inodes w f) n \<subseteq> emitted g')
    (\<lambda>_ _. \<not> b) g"
  unfolding wp
proof (rule wp_scanFileChunks[OF assms(1-5)])
  fix g' cs'
  assume g': "sends cs' b {} g'" "same_files w (gworld g')"
    "b \<longrightarrow> file_events s src (inodes w f) 0 (length (inodes w f)) \<subseteq> emitted g'"
  have s: "sends cs' b (set (sent g')) g'" using g'(1) by (simp add: sends_def)
  show "wp (scanLastPartialBlock s f src n) (\<lambda>_ g'. b \<longrightarrow> file_events s src (inodes w f) 0 (length (inodes w f)) \<union>
      last_events s src (inodes w f) n \<subseteq> emitted g') (\<lambda>_ _. \<not> b) g'"
  proof (rule wp_scanLastPartialBlock[OF assms(1,2) s g'(2)])
    fix g2 assume "sends cs' b (set (sent g') \<union> last_events s src (inodes w f) n) g2"
    then show "b \<longrightarrow> file_events s src (inodes w f) 0 (length (inodes w f)) \<union> last_events s src (inodes w f) n \<subseteq> emitted g2"
      using g'(1,3) by (auto simp: sends_def emitted_def)
  qed
qed

lemma wp_gread:
  assumes "sends cs b E g" "same_files w (gworld g)" "\<And>p. f (gworld g) \<noteq> Panic p"
    "\<And>x g'. sends cs b E g' \<Longrightarrow> same_files w (gworld g') \<Longrightarrow> f (gworld g) = Ret x \<Longrightarrow> Q x g'"
    "\<And>e g'. b \<longrightarrow> f (gworld g) = Error e \<Longrightarrow> R e g'"
  shows "wp (onWorld (sysRead f)) Q R g"
  unfolding wp_onWorld
  by (rule wp_calm_read[of b])
    (use assms same_files_trans[OF assms(2)] in \<open>auto simp: sends_def\<close>)

lemma wp_open_size:
  assumes "sends cs b E g" "same_files w (gworld g)"
  shows "(\<And>i g'. sends cs b E g' \<Longrightarrow> same_files w (gworld g') \<Longrightarrow> dir w n = Some i \<Longrightarrow> Q i g') \<Longrightarrow>
      (\<And>e g'. b \<longrightarrow> e = errNotExist \<and> dir w n = None \<Longrightarrow> R e g') \<Longrightarrow> wp (onWorld (open_file n)) Q R g"
    "(\<And>g'. sends cs b E g' \<Longrightarrow> same_files w (gworld g') \<Longrightarrow> Q' (length (inodes w i)) g') \<Longrightarrow>
      (\<And>e g'. \<not> b \<Longrightarrow> R e g') \<Longrightarrow> wp (onWorld (stat_size i)) Q' R g"
  unfolding open_file_def stat_size_def
  by (rule wp_gread[OF assms]; use assms(2) in \<open>force simp: same_files_def split: option.splits\<close>)+

lemma wp_job:
  assumes "table_ok (lookupTable s)" "scan_ready (sd s)" "sends cs b {} g" "same_files w (gworld g)"
    "b \<longrightarrow> (\<forall>k. quiet_env (envs (Suc k)))"
  shows "wp (case j of ScanProtected fd \<Rightarrow> scanFile s envs fd | ScanCandidate path fid \<Rightarrow> scanCandidateFile s envs path fid)
    (\<lambda>_ g'. b \<longrightarrow> job_events s w j \<subseteq> emitted g') (\<lambda>_ _. \<not> b) g"
proof -
  have body: "k = length (inodes w f) \<Longrightarrow> sends cs b {} g' \<Longrightarrow> same_files w (gworld g') \<Longrightarrow>
    wp (scanFileChunks s envs f src k) (\<lambda>_. wp (scanLastPartialBlock s f src n)
      (\<lambda>_ g'. b \<longrightarrow> file_events s src (inodes w f) 0 k \<subseteq> emitted g' \<and> last_events s src (inodes w f) n \<subseteq> emitted g')
      (\<lambda>_ _. \<not> b)) (\<lambda>_ _. \<not> b) g'" for f src n k g'
    using wp_scan_body[OF assms(1,2) _ _ assms(5), of cs g' w f src n] by (simp add: wp)
  have mark: "sends cs b {} g' \<Longrightarrow> sends cs b {} (g'\<lparr>marks := ms\<rparr>)" for g' ms
    by (simp add: sends_def)
  show ?thesis
  proof (cases j)
    case (ScanProtected fd)
    show ?thesis
      unfolding ScanProtected scanJob.case scanFile_def wp_try
      by (rule wp_open_size(1)[OF assms(3,4)])
        (auto simp: wp markDamage_def job_events_def ScanProtected intro!: wp_open_size(2) body mark)
  next
    case (ScanCandidate path fid)
    show ?thesis
      unfolding ScanCandidate scanJob.case scanCandidateFile_def wp_try
      by (rule wp_open_size(1)[OF assms(3,4)])
        (auto simp: wp job_events_def ScanCandidate intro!: wp_open_size(2) body)
  qed
qed

end
