(* ===== verification/Scan_Index.thy ===== *)
theory Scan_Index
  imports Scan_Windows
begin

text \<open>
  The lookup table seen through an interface: what the scanner needs of it is stated as a locale, interpreted on the
  open-addressing table, and applied to the table that \<open>buildLookupTable\<close> makes of the checksum packets of a set.
\<close>

section \<open>The lookup table as an interface\<close>

text \<open>What the scanner needs of a table of checksums.\<close>

locale checksum_index =
  fixes build :: "(u32 \<times> checksumLocation list) list \<Rightarrow> 't option"
    and look :: "'t \<Rightarrow> u32 \<Rightarrow> (checksumLocation list \<times> bool) option"
  assumes built: "distinct (map fst m) \<Longrightarrow> length m \<le> 2 ^ 28 \<Longrightarrow>
    \<exists>t. build m = Some t \<and> (\<forall>c. \<exists>ls. look t c = Some (ls, map_of m c \<noteq> None) \<and>
      (\<forall>l\<in>set ls. reported l \<noteq> None) \<and> map unflag ls = map unflag (locs_of m c))"
begin

lemma build_Some: "distinct (map fst m) \<Longrightarrow> length m \<le> 2 ^ 28 \<Longrightarrow> \<exists>t. build m = Some t"
  using built by blast

lemma look_total:
  assumes "build m = Some t" "distinct (map fst m)" "length m \<le> 2 ^ 28"
  shows "\<exists>ls found. look t c = Some (ls, found) \<and> (\<forall>l\<in>set ls. reported l \<noteq> None)"
  using built[OF assms(2,3)] assms(1) by fastforce

lemma look_sound:
  assumes "build m = Some t" "distinct (map fst m)" "length m \<le> 2 ^ 28" "look t c = Some (ls, True)" "l \<in> set ls"
  shows "\<exists>l'\<in>set (locs_of m c). unflag l' = unflag l"
proof -
  obtain ls' where "look t c = Some (ls', map_of m c \<noteq> None)" "map unflag ls' = map unflag (locs_of m c)"
    using built[OF assms(2,3)] assms(1) by fastforce
  then have "map unflag ls = map unflag (locs_of m c)" using assms(4) by simp
  then have "unflag l \<in> unflag ` set (locs_of m c)" using assms(5) by (metis image_eqI set_map)
  then show ?thesis by force
qed

lemma look_complete:
  assumes "build m = Some t" "distinct (map fst m)" "length m \<le> 2 ^ 28" "l' \<in> set (locs_of m c)"
  shows "\<exists>ls. look t c = Some (ls, True) \<and> (\<exists>l\<in>set ls. unflag l = unflag l')"
proof -
  obtain ls where ls: "look t c = Some (ls, map_of m c \<noteq> None)" "map unflag ls = map unflag (locs_of m c)"
    using built[OF assms(2,3)] assms(1) by fastforce
  have "map_of m c \<noteq> None" using assms(4) by (cases "map_of m c") (simp_all add: locs_of_def)
  moreover have "unflag l' \<in> unflag ` set ls" using assms(4) ls(2) by (metis image_eqI set_map)
  ultimately show ?thesis using ls(1) by force
qed

end

interpretation crc: checksum_index newCRCLookupTable Lookup
proof unfold_locales
  fix m :: "(u32 \<times> checksumLocation list) list"
  assume m: "distinct (map fst m)" "length m \<le> 2 ^ 28"
  obtain t where t: "newCRCLookupTable m = Some t"
    "\<And>c. Lookup t c = Some (case map_of (flagged 0 m) c of Some ls \<Rightarrow> (ls, True) | None \<Rightarrow> ([], False))"
    using table_refines_map[OF m] by blast
  have "\<exists>ls. Lookup t c = Some (ls, map_of m c \<noteq> None) \<and> (\<forall>l\<in>set ls. reported l \<noteq> None) \<and>
      map unflag ls = map unflag (locs_of m c)" for c
  proof (cases "map_of (flagged 0 m) c")
    case None
    then show ?thesis using t(2)[of c] map_of_flagged[of 0 m c] by (simp add: locs_of_def)
  next
    case (Some ls)
    have "set (map reported ls) \<subseteq> set (concat (map (map reported \<circ> snd) (flagged 0 m)))"
      using map_of_SomeD[OF Some] by force
    then have "\<forall>l\<in>set ls. reported l \<noteq> None" unfolding flags_distinct by auto
    then show ?thesis using Some t(2)[of c] map_of_flagged[of 0 m c] by (cases "map_of m c") (simp_all add: locs_of_def)
  qed
  with t(1) show "\<exists>t. newCRCLookupTable m = Some t \<and> (\<forall>c. \<exists>ls. Lookup t c = Some (ls, map_of m c \<noteq> None) \<and>
      (\<forall>l\<in>set ls. reported l \<noteq> None) \<and> map unflag ls = map unflag (locs_of m c))" by blast
qed

section \<open>The checksums of a set\<close>

text \<open>The block \<open>i\<close> of the file \<open>fid\<close> has the checksums \<open>pair\<close>.\<close>

definition expects :: "Decoder \<Rightarrow> FileID \<Rightarrow> nat \<Rightarrow> ChecksumPair \<Rightarrow> bool" where
  "expects d fid i pair \<longleftrightarrow> map_of (fileIntegrity d) fid \<noteq> None \<and>
     (\<exists>ifsc. (fid, ifsc) \<in> set (fileChecksums d) \<and> i < length (ChecksumPairs ifsc) \<and> pair = ChecksumPairs ifsc ! i)"

definition pair_count :: "Decoder \<Rightarrow> nat" where
  "pair_count d = sum_list (map (length \<circ> ChecksumPairs \<circ> snd) (fileChecksums d))"

definition loc_of_pair :: "FileID \<Rightarrow> nat \<times> ChecksumPair \<Rightarrow> checksumLocation" where
  "loc_of_pair fid = (\<lambda>(i, p). \<lparr>fileID = fid, shardIndex = i, md5Hash = MD5 p, reported = None\<rparr>)"

lemma add_pair_locs:
  "locs_of (add_pair fid ip m) c = locs_of m c @ (if le_word (CRC32 (snd ip)) = c then [loc_of_pair fid ip] else [])"
  by (cases ip) (auto simp: add_pair_def locs_of_def Let_def update_conv loc_of_pair_def)

lemma fold_add_pair_locs:
  "set (locs_of (fold (add_pair fid) ips m) c) =
    set (locs_of m c) \<union> loc_of_pair fid ` {ip \<in> set ips. le_word (CRC32 (snd ip)) = c}"
  by (induction ips arbitrary: m) (auto simp: add_pair_locs)

lemma fold_add_pair_keys:
  "distinct (map fst m) \<Longrightarrow> distinct (map fst (fold (add_pair fid) ips m)) \<and> length (fold (add_pair fid) ips m) \<le> length m + length ips"
proof (induction ips arbitrary: m)
  case (Cons ip ips)
  have u: "length (AList.update k v al) \<le> Suc (length al)" for k :: u32 and v :: "checksumLocation list" and al
    by (induction al) (auto split: if_splits)
  have "distinct (map fst (add_pair fid ip m))" "length (add_pair fid ip m) \<le> Suc (length m)"
    using Cons.prems u by (cases ip; simp add: add_pair_def Let_def distinct_update)+
  then show ?case using Cons.IH[of "add_pair fid ip m"] by auto
qed simp

definition checksum_fold :: "Decoder \<Rightarrow> (FileID \<times> IFSCPacket) list \<Rightarrow> (u32 \<times> checksumLocation list) list \<Rightarrow> (u32 \<times> checksumLocation list) list" where
  "checksum_fold d = fold (\<lambda>(fID, ifsc) m. if map_of (fileIntegrity d) fID = None then m
     else fold (add_pair fID) (enumerate 0 (ChecksumPairs ifsc)) m)"

lemma checksum_fold_Cons:
  "checksum_fold d ((fid, ifsc) # cks) m = checksum_fold d cks
     (if map_of (fileIntegrity d) fid = None then m else fold (add_pair fid) (enumerate 0 (ChecksumPairs ifsc)) m)"
  by (simp add: checksum_fold_def)

lemma checksum_fold_keys:
  "distinct (map fst m) \<Longrightarrow> distinct (map fst (checksum_fold d cks m)) \<and>
    length (checksum_fold d cks m) \<le> length m + sum_list (map (length \<circ> ChecksumPairs \<circ> snd) cks)"
proof (induction cks arbitrary: m)
  case (Cons ck cks)
  obtain fid ifsc where ck: "ck = (fid, ifsc)" by (cases ck)
  show ?case
  proof (cases "map_of (fileIntegrity d) fid = None")
    case True
    then have "checksum_fold d (ck # cks) m = checksum_fold d cks m" by (simp add: checksum_fold_Cons ck)
    then show ?thesis using Cons.IH[OF Cons.prems] by simp
  next
    case False
    let ?m = "fold (add_pair fid) (enumerate 0 (ChecksumPairs ifsc)) m"
    have "distinct (map fst ?m) \<and> length ?m \<le> length m + length (ChecksumPairs ifsc)"
      using fold_add_pair_keys[OF Cons.prems, of fid "enumerate 0 (ChecksumPairs ifsc)"] by simp
    moreover have "checksum_fold d (ck # cks) m = checksum_fold d cks ?m" using False by (simp only: checksum_fold_Cons ck if_False)
    ultimately show ?thesis using Cons.IH[of ?m] by (simp add: ck)
  qed
qed (simp add: checksum_fold_def)

definition from_packet :: "Decoder \<Rightarrow> u32 \<Rightarrow> checksumLocation \<Rightarrow> FileID \<times> IFSCPacket \<Rightarrow> bool" where
  "from_packet d c loc ck \<longleftrightarrow> map_of (fileIntegrity d) (fst ck) \<noteq> None \<and>
     (\<exists>i<length (ChecksumPairs (snd ck)). c = le_word (CRC32 (ChecksumPairs (snd ck) ! i)) \<and>
        loc = loc_of_pair (fst ck) (i, ChecksumPairs (snd ck) ! i))"

lemma checksum_fold_locs:
  "loc \<in> set (locs_of (checksum_fold d cks m) c) \<longleftrightarrow> loc \<in> set (locs_of m c) \<or> (\<exists>ck\<in>set cks. from_packet d c loc ck)"
proof (induction cks arbitrary: m)
  case (Cons ck cks)
  obtain fid ifsc where ck: "ck = (fid, ifsc)" by (cases ck)
  have e: "ip \<in> set (enumerate 0 ps) \<longleftrightarrow> (\<exists>i<length ps. ip = (i, ps ! i))" for ip and ps :: "ChecksumPair list"
    by (cases ip) (auto simp: in_set_enumerate_eq)
  show ?case
  proof (cases "map_of (fileIntegrity d) fid = None")
    case True
    then have "checksum_fold d (ck # cks) m = checksum_fold d cks m" by (simp add: checksum_fold_Cons ck)
    then show ?thesis using Cons.IH[of m] True ck by (simp add: from_packet_def)
  next
    case False
    let ?m = "fold (add_pair fid) (enumerate 0 (ChecksumPairs ifsc)) m"
    have "checksum_fold d (ck # cks) m = checksum_fold d cks ?m" using False by (simp only: checksum_fold_Cons ck if_False)
    moreover have "loc \<in> set (locs_of ?m c) \<longleftrightarrow> loc \<in> set (locs_of m c) \<or> from_packet d c loc ck"
      unfolding fold_add_pair_locs using False by (auto simp: e from_packet_def ck)
    ultimately show ?thesis using Cons.IH[of ?m] by simp
  qed
qed (simp add: checksum_fold_def)

lemma checksum_map_keys: "distinct (map fst (checksum_map d))" "length (checksum_map d) \<le> pair_count d"
  using checksum_fold_keys[of "[]" d "fileChecksums d"] by (simp_all add: checksum_map_def checksum_fold_def pair_count_def)

lemma checksum_map_locs:
  "loc \<in> set (locs_of (checksum_map d) c) \<longleftrightarrow>
    (\<exists>fid i pair. expects d fid i pair \<and> c = le_word (CRC32 pair) \<and> loc = loc_of_pair fid (i, pair))"
proof -
  have "locs_of [] c = []" by (simp add: locs_of_def)
  then have "loc \<in> set (locs_of (checksum_map d) c) \<longleftrightarrow> (\<exists>ck\<in>set (fileChecksums d). from_packet d c loc ck)"
    using checksum_fold_locs[of loc d "fileChecksums d" "[]" c] by (simp add: checksum_map_def checksum_fold_def)
  also have "\<dots> \<longleftrightarrow> (\<exists>fid ifsc. (fid, ifsc) \<in> set (fileChecksums d) \<and> from_packet d c loc (fid, ifsc))" by auto
  finally show ?thesis unfolding from_packet_def expects_def fst_conv snd_conv by blast
qed

text \<open>The table of a set, seen through the interface.\<close>

lemma set_table:
  assumes "pair_count d \<le> 2 ^ 28"
  shows "\<exists>t. newCRCLookupTable (checksum_map d) = Some t \<and> table_ok t"
proof -
  have "length (checksum_map d) \<le> 2 ^ 28" using checksum_map_keys(2)[of d] assms by simp
  then show ?thesis
    using crc.build_Some[OF checksum_map_keys(1)] crc.look_total[OF _ checksum_map_keys(1)] unfolding table_ok_def by blast
qed

lemma hits_iff:
  assumes "pair_count d \<le> 2 ^ 28" "newCRCLookupTable (checksum_map d) = Some (lookupTable s)"
  shows "hits s c block loc \<Longrightarrow> \<exists>pair. expects d (fileID loc) (shardIndex loc) pair \<and> c = le_word (CRC32 pair) \<and> MD5 pair = md5 block"
    "expects d fid i pair \<Longrightarrow> le_word (CRC32 pair) = c \<Longrightarrow> MD5 pair = md5 block \<Longrightarrow>
      \<exists>loc. hits s c block loc \<and> fileID loc = fid \<and> shardIndex loc = i"
proof -
  have len: "length (checksum_map d) \<le> 2 ^ 28" using checksum_map_keys(2)[of d] assms by simp
  show "\<exists>pair. expects d (fileID loc) (shardIndex loc) pair \<and> c = le_word (CRC32 pair) \<and> MD5 pair = md5 block" if h: "hits s c block loc"
  proof -
    obtain l' where "l' \<in> set (locs_of (checksum_map d) c)" "unflag l' = unflag loc" "md5Hash loc = md5 block"
      using h crc.look_sound[OF assms(2) checksum_map_keys(1) len] unfolding hits_def by blast
    then obtain pair where "expects d (fileID l') (shardIndex l') pair" "c = le_word (CRC32 pair)" "MD5 pair = md5Hash l'"
      unfolding checksum_map_locs by (auto simp: loc_of_pair_def)
    moreover have "fileID l' = fileID loc" "shardIndex l' = shardIndex loc" "md5Hash l' = md5Hash loc"
      using \<open>unflag l' = unflag loc\<close> by (cases l', cases loc, simp add: unflag_def)+
    ultimately show ?thesis using \<open>md5Hash loc = md5 block\<close> by (intro exI[of _ pair]) simp
  qed
  show "\<exists>loc. hits s c block loc \<and> fileID loc = fid \<and> shardIndex loc = i"
    if "expects d fid i pair" "le_word (CRC32 pair) = c" "MD5 pair = md5 block"
  proof -
    have "loc_of_pair fid (i, pair) \<in> set (locs_of (checksum_map d) c)" unfolding checksum_map_locs using that by blast
    then obtain ls l where "Lookup (lookupTable s) c = Some (ls, True)" "l \<in> set ls" "unflag l = unflag (loc_of_pair fid (i, pair))"
      using crc.look_complete[OF assms(2) checksum_map_keys(1) len] by blast
    then show ?thesis using that(3) unfolding hits_def by (intro exI[of _ l]) (cases l, auto simp: loc_of_pair_def unflag_def)
  qed
qed

end
