(* ===== verification/Verify_Phases.thy ===== *)
theory Verify_Phases
  imports Scan_Index
begin

text \<open>
  The phases of \<open>VerifyScans\<close> one by one: none of them panics on a set whose checksum packets fit its files, and the
  scan finds every block that lies in its place.
\<close>

section \<open>Verification in progress\<close>

text \<open>Block \<open>i\<close> of the file \<open>fid\<close> has been found.\<close>

definition located :: "Decoder \<Rightarrow> FileID \<Rightarrow> nat \<Rightarrow> bool" where
  "located d fid i \<longleftrightarrow> (\<exists>st. map_of (fileIntegrity d) fid = Some st \<and> i < length (ShardLocations st) \<and>
     Offset (ShardLocations st ! i) \<noteq> -1)"

text \<open>The set \<open>d0\<close> is being verified in a sandbox with the files of \<open>w\<close>; the blocks of \<open>L\<close> have been found.\<close>

definition verifying :: "world \<Rightarrow> Decoder \<Rightarrow> bool \<Rightarrow> (FileID \<times> nat) set \<Rightarrow> Decoder \<Rightarrow> bool" where
  "verifying w d0 b L d \<longleftrightarrow> sound w (protectedFiles d0) (sliceByteCount d0) d \<and> fileChecksums d = fileChecksums d0 \<and>
     candidateFiles d = candidateFiles d0 \<and> numGoroutines d = numGoroutines d0 \<and> calm_world b (root d) \<and> (\<forall>(fid, i)\<in>L. located d fid i)"

definition all_found :: "fileIntegrityState \<Rightarrow> fileIntegrityState \<Rightarrow> bool" where
  "all_found st st' \<longleftrightarrow> length (ShardLocations st') = length (ShardLocations st) \<and>
     (\<forall>i<length (ShardLocations st). Offset (ShardLocations st ! i) \<noteq> -1 \<longrightarrow> Offset (ShardLocations st' ! i) \<noteq> -1)"

lemma located_update:
  assumes "map_of (fileIntegrity d) fid = Some st" "all_found st st'" "located d g i"
  shows "located (d\<lparr>fileIntegrity := AList.update fid st' (fileIntegrity d)\<rparr>) g i"
  using assms by (cases "g = fid") (auto simp: located_def all_found_def update_conv)

lemma located_root [simp]: "located (d\<lparr>root := w\<rparr>) fid i = located d fid i"
  by (simp add: located_def)

lemma verifying_sound: "verifying w d0 b L d \<Longrightarrow> sound w (protectedFiles d0) (sliceByteCount d0) d"
  by (simp add: verifying_def)

lemma safe_updState:
  assumes "fd \<in> set (protectedFiles d0)"
    "\<And>st. state_sound w fd st \<Longrightarrow> state_shape (sliceByteCount d0) fd st \<Longrightarrow>
      state_sound w fd (f st) \<and> state_shape (sliceByteCount d0) fd (f st) \<and> all_found st (f st)"
  shows "safe (verifying w d0 b L) c (updState (fd_FileID fd) f)"
  unfolding safe_def
proof (intro allI impI)
  fix d assume d: "verifying w d0 b L d"
  obtain st where st: "map_of (fileIntegrity d) (fd_FileID fd) = Some st" "state_sound w fd st" "state_shape (sliceByteCount d0) fd st"
    using verifying_sound[OF d] assms(1) unfolding sound_def by blast
  let ?d = "d\<lparr>fileIntegrity := AList.update (fd_FileID fd) (f st) (fileIntegrity d)\<rparr>"
  have "keeps (sound w (protectedFiles d0) (sliceByteCount d0)) (updState (fd_FileID fd) f)"
    by (rule sound_updState[OF assms(1)]) (use assms(2) in blast)
  then have "sound w (protectedFiles d0) (sliceByteCount d0) ?d"
    using verifying_sound[OF d] st(1) unfolding keeps_def updState_def by fastforce
  moreover have "\<forall>(fid, i)\<in>L. located ?d fid i"
    using d located_update[OF st(1)] assms(2)[OF st(2,3)] unfolding verifying_def by blast
  ultimately have "verifying w d0 b L ?d" using d by (simp add: verifying_def)
  then show "wp (updState (fd_FileID fd) f) (\<lambda>_. verifying w d0 b L) (\<lambda>_ s'. \<not> c \<and> verifying w d0 b L s') d"
    by (simp add: wp_updState(1)[OF st(1)])
qed

lemma all_found_same: "ShardLocations st' = ShardLocations st \<Longrightarrow> all_found st st'"
  by (simp add: all_found_def)

lemma all_found_whole [simp]: "all_found st (setWhole fid bs st)" "all_found st (setWhole fid bs (st\<lparr>Damage := dm\<rparr>))"
    "all_found st (setWhole fid bs (st\<lparr>RenameSource := r\<rparr>))"
proof -
  have "int i * int bs \<noteq> -1" for i by (metis mult_nonneg_nonneg neg_0_le_iff_le not_one_le_zero of_nat_0_le_iff)
  then show "all_found st (setWhole fid bs st)" "all_found st (setWhole fid bs (st\<lparr>Damage := dm\<rparr>))"
    "all_found st (setWhole fid bs (st\<lparr>RenameSource := r\<rparr>))"
    by (simp_all add: all_found_def setWhole_def wholeLocations_def)
qed

lemma safe_getState:
  assumes "fd \<in> set (protectedFiles d0)"
  shows "safe (verifying w d0 b L) c (getState (fd_FileID fd))"
    "gives (verifying w d0 b L) (getState (fd_FileID fd)) (\<lambda>st. state_sound w fd st \<and> state_shape (sliceByteCount d0) fd st)"
proof -
  have g: "\<exists>st. getState (fd_FileID fd) d = (Ret st, d) \<and> state_sound w fd st \<and> state_shape (sliceByteCount d0) fd st"
    if "verifying w d0 b L d" for d
    using verifying_sound[OF that] assms unfolding sound_def getState_def by fastforce
  then show "safe (verifying w d0 b L) c (getState (fd_FileID fd))" unfolding safe_def wp_def by fastforce
  show "gives (verifying w d0 b L) (getState (fd_FileID fd)) (\<lambda>st. state_sound w fd st \<and> state_shape (sliceByteCount d0) fd st)"
    unfolding gives_def keeps_def using g by fastforce
qed

lemma in_world_verifying: "in_world w (verifying w d0 b L)"
  using in_world_sound[of w "protectedFiles d0" "sliceByteCount d0"]
  by (auto simp: in_world_def verifying_def calm_world_def tick_def split: prod.splits)

section \<open>The phases before the scan\<close>

lemma safe_sysRead:
  assumes "in_world w I" "\<And>w'. same_files w w' \<Longrightarrow> no_panic (f w')"
  shows "safe I False (onRoot (sysRead f))"
  unfolding safe_def
proof (intro allI impI)
  fix d assume d: "I d"
  then have "no_panic (f (root d))" "I (d\<lparr>root := tick (root d)\<rparr>)" using assms by (simp_all add: in_world_def)
  then show "wp (onRoot (sysRead f)) (\<lambda>_. I) (\<lambda>_ s'. \<not> False \<and> I s') d"
    by (auto simp: wp_def onRoot_def sysRead_def no_panic_def split: prod.splits res.splits option.splits)
qed

lemma safe_reads [safe]:
  assumes "in_world w I"
  shows "safe I False (onRoot (open_file n))" "safe I False (onRoot (stat_size i))" "safe I False (onRoot (readAll i))"
    "safe I False (onRoot (readAt i k off))" "safe I False (onRoot sysCall)"
  unfolding open_file_def stat_size_def readAll_def readAt_def sysCall_def
  by (rule safe_sysRead[OF assms], simp add: no_panic_def split: option.splits)+

lemma safe_hashes:
  assumes "in_world w I"
  shows "safe I False (onRoot (quickHash16K i n))" "safe I False (onRoot (computeFileMD5 i))"
  unfolding quickHash16K_def computeFileMD5_def onRoot_bind onRoot_ret by (intro safe safe_reads[OF assms])+

lemma safe_ctx: "in_world w I \<Longrightarrow> safe I b (onRoot ctxErr)"
  by (auto simp: safe_def wp_def onRoot_def ctxErr_def in_world_def)

lemmas safe_world = safe_reads[OF in_world_verifying] safe_hashes[OF in_world_verifying] safe_ctx[OF in_world_verifying]

lemma wp_verifying_ctx:
  assumes "verifying w d0 b L d" "\<And>c d'. verifying w d0 b L d' \<Longrightarrow> b \<longrightarrow> \<not> c \<Longrightarrow> fileIntegrity d' = fileIntegrity d \<Longrightarrow> Q c d'"
  shows "wp (onRoot ctxErr) Q E d"
proof -
  have "verifying w d0 b L (d\<lparr>root := tick (root d)\<rparr>)" using assms(1) in_world_verifying[of w d0 b L] by (simp add: in_world_def)
  then show ?thesis unfolding wp_def onRoot_def ctxErr_def
    using assms(1) by (auto intro!: assms(2) simp: verifying_def calm_world_def)
qed

lemma wp_verifying_read:
  assumes "verifying w d0 b L d" "no_panic (f (root d))"
    "\<And>x d'. verifying w d0 b L d' \<Longrightarrow> f (root d) = Ret x \<Longrightarrow> fileIntegrity d' = fileIntegrity d \<Longrightarrow> Q x d'"
    "\<And>e d'. verifying w d0 b L d' \<Longrightarrow> b \<longrightarrow> f (root d) = Error e \<Longrightarrow> fileIntegrity d' = fileIntegrity d \<Longrightarrow> E e d'"
  shows "wp (onRoot (sysRead f)) Q E d"
proof -
  have "verifying w d0 b L (d\<lparr>root := tick (root d)\<rparr>)" using assms(1) in_world_verifying[of w d0 b L] by (simp add: in_world_def)
  then show ?thesis unfolding wp_def onRoot_def sysRead_def
    using assms(1,2) by (auto intro!: assms(3,4) simp: verifying_def calm_world_def no_panic_def split: option.splits res.splits)
qed

lemma safe_setDamage:
  "fd \<in> set (protectedFiles d0) \<Longrightarrow> dm = damageNone \<longrightarrow> content_hash w (Filename fd) = Some (fd_Hash fd) \<Longrightarrow>
    safe (verifying w d0 b L) c (setDamage (fd_FileID fd) dm)"
  unfolding setDamage_def by (intro safe_updState) (auto simp: state_sound_def state_shape_def all_found_same)

lemma safe_check_exists:
  assumes "fd \<in> set (protectedFiles d0)"
  shows "safe (verifying w d0 b L) b (check_exists fd)"
  unfolding safe_def check_exists_def wp_bind
proof (intro allI impI)
  let ?I = "verifying w d0 b L"
  let ?E = "\<lambda>(_ :: string) s'. \<not> b \<and> ?I s'"
  fix d assume d: "?I d"
  show "wp (onRoot ctxErr) (\<lambda>x. wp (if x then errG ''context canceled''
      else tryG (onRoot (open_file (Filename fd))) (\<lambda>_. retG ())
        (\<lambda>e. if e = errNotExist then setDamage (fd_FileID fd) damageMissing else errG e)) (\<lambda>_. ?I) ?E) ?E d"
  proof (rule wp_verifying_ctx[OF d])
    fix c d1 assume d1: "?I d1" "b \<longrightarrow> \<not> c"
    have mark: "wp (setDamage (fd_FileID fd) damageMissing) (\<lambda>_. ?I) ?E d2" if "?I d2" for d2
      using safe_setDamage[OF assms, of damageMissing] that unfolding safe_def by blast
    have "wp (onRoot (open_file (Filename fd))) (\<lambda>_. ?I) (\<lambda>e. wp (if e = errNotExist then setDamage (fd_FileID fd) damageMissing
        else errG e) (\<lambda>_. ?I) ?E) d1"
      unfolding open_file_def
      by (rule wp_verifying_read[OF d1(1)]) (auto simp: no_panic_def wp mark split: option.splits)
    then show "wp (if c then errG ''context canceled'' else tryG (onRoot (open_file (Filename fd))) (\<lambda>_. retG ())
        (\<lambda>e. if e = errNotExist then setDamage (fd_FileID fd) damageMissing else errG e)) (\<lambda>_. ?I) ?E d1"
      using d1 by (cases c) (simp_all add: wp)
  qed
qed

lemma gives_verifying: "gives (verifying w d0 b L) (getG protectedFiles) (\<lambda>x. x = protectedFiles d0)"
    "gives (verifying w d0 b L) (getG sliceByteCount) (\<lambda>x. x = sliceByteCount d0)"
    "gives (verifying w d0 b L) (getG candidateFiles) (\<lambda>x. x = candidateFiles d0)"
  by (auto simp: gives_def keeps go_defs verifying_def sound_def)

lemma safe_checkFileExistence: "safe (verifying w d0 b L) b checkFileExistence"
  unfolding checkFileExistence_def
  by (rule safe_bind_gives[OF gives_verifying(1)]) (auto intro!: safe safe_check_exists)

lemma safe_prescan_protected: "fd \<in> set (protectedFiles d0) \<Longrightarrow> safe (verifying w d0 b L) c (prescan_protected fd)"
  unfolding prescan_protected_def
  by (rule safe_bind_gives[OF safe_getState(2) safe_getState(1)], assumption, assumption)
    (intro safe_if safe_ret safe_try_gives[OF gives_open[OF in_world_verifying]] safe_try_gives[OF gives_size[OF in_world_verifying]]
      safe_try_gives[OF gives_quick[OF in_world_verifying]] safe_try_gives[OF gives_md5[OF in_world_verifying]]
      safe_bind_gives[OF gives_verifying(2)] safe_updState safe_world,
      auto simp: content_hash_open state_sound_def state_shape_def)

lemma safe_prescanProtectedMatches: "safe (verifying w d0 b L) c prescanProtectedMatches"
proof -
  have "set fds \<subseteq> set (protectedFiles d0) \<Longrightarrow> safe (verifying w d0 b L) c (prescan_protected_loop fds)" for fds
    by (induction fds) (auto intro!: safe safe_world safe_prescan_protected)
  then show ?thesis unfolding prescanProtectedMatches_def
    by (intro safe_bind_gives[OF gives_verifying(1)] safe) auto
qed

lemma safe_missing: "safe (verifying w d0 b L) c missingByQuickKey"
  unfolding missingByQuickKey_def
  by (rule safe_bind_gives[OF gives_verifying(1)]) (auto intro!: safe safe_getState)

lemma gives_missing_verifying: "gives (verifying w d0 b L) missingByQuickKey (\<lambda>m. snd ` set m \<subseteq> set (protectedFiles d0))"
proof -
  have "keeps (verifying w d0 b L) missingByQuickKey" by (rule safe_keeps[OF safe_missing])
  moreover have "verifying w d0 b L d \<Longrightarrow> missingByQuickKey d = (Ret m, d') \<Longrightarrow> snd ` set m \<subseteq> set (protectedFiles d0)" for d m d'
    using gives_missing[of w "protectedFiles d0" "sliceByteCount d0"] verifying_sound unfolding gives_def by blast
  ultimately show ?thesis unfolding gives_def by blast
qed

lemma safe_prescan_candidate:
  assumes "snd ` set missing \<subseteq> set (protectedFiles d0)"
  shows "safe (verifying w d0 b L) c (prescan_candidate missing path cid)"
proof -
  have "fd \<in> set (protectedFiles d0)" if "map_of missing k = Some fd" for k fd
    using that assms by (force dest: map_of_SomeD)
  then show ?thesis
    unfolding prescan_candidate_def
    by (intro safe_if safe_ret safe_option safe_bind safe_try_gives[OF gives_open[OF in_world_verifying]]
        safe_try_gives[OF gives_size[OF in_world_verifying]] safe_try_gives[OF gives_quick[OF in_world_verifying]]
        safe_try_gives[OF gives_md5[OF in_world_verifying]] safe_updState safe_world)
      (auto simp: content_hash_open state_sound_def state_shape_def)
qed

lemma safe_prescanCandidateMatches: "safe (verifying w d0 b L) c prescanCandidateMatches"
proof -
  have "snd ` set missing \<subseteq> set (protectedFiles d0) \<Longrightarrow> safe (verifying w d0 b L) c (prescan_loop missing cs resolved)" for missing cs resolved
    by (induction cs arbitrary: resolved) (auto intro!: safe safe_world safe_prescan_candidate split: if_splits)
  then show ?thesis unfolding prescanCandidateMatches_def
    by (intro safe_if safe_ret safe_bind safe_bind_gives[OF gives_missing_verifying] safe_missing)
qed

lemma safe_calculateBytesToScan: "safe (verifying w d0 b L) c calculateBytesToScan"
  unfolding calculateBytesToScan_def
  by (rule safe_bind_gives[OF gives_verifying(1)]) (auto intro!: safe safe_getState)

section \<open>The table\<close>

text \<open>What the set expects of its blocks, in terms of the loaded packets.\<close>

definition wants :: "Decoder \<Rightarrow> FileID \<Rightarrow> nat \<Rightarrow> ChecksumPair \<Rightarrow> bool" where
  "wants d fid i pair \<longleftrightarrow> fid \<in> fd_FileID ` set (protectedFiles d) \<and>
     (\<exists>ifsc. (fid, ifsc) \<in> set (fileChecksums d) \<and> i < length (ChecksumPairs ifsc) \<and> pair = ChecksumPairs ifsc ! i)"

lemma verifying_expects: "verifying w d0 b L d \<Longrightarrow> expects d = wants d0"
proof -
  assume d: "verifying w d0 b L d"
  then have "fst ` set (fileIntegrity d) = fd_FileID ` set (protectedFiles d0)"
    using verifying_sound[OF d] unfolding sound_def by (metis set_map)
  then have "map_of (fileIntegrity d) fid \<noteq> None \<longleftrightarrow> fid \<in> fd_FileID ` set (protectedFiles d0)" for fid
    by (simp add: map_of_eq_None_iff del: not_None_eq)
  then show ?thesis using d by (intro ext) (simp add: expects_def wants_def verifying_def del: not_None_eq)
qed

text \<open>No checksum packet lists more blocks than its file has.\<close>

definition ifsc_fits :: "Decoder \<Rightarrow> bool" where
  "ifsc_fits d \<longleftrightarrow> (\<forall>fd\<in>set (protectedFiles d). \<forall>ifsc. (fd_FileID fd, ifsc) \<in> set (fileChecksums d) \<longrightarrow>
     length (ChecksumPairs ifsc) \<le> unat (shardCount (ByteCount fd) (sliceByteCount d)))"

definition table_of :: "Decoder \<Rightarrow> crcLookupTable \<Rightarrow> bool" where
  "table_of d t \<longleftrightarrow> table_ok t \<and> (\<forall>s. lookupTable s = t \<longrightarrow> (\<forall>c block.
     (\<forall>loc. hits s c block loc \<longrightarrow> (\<exists>pair. wants d (fileID loc) (shardIndex loc) pair \<and> c = le_word (CRC32 pair) \<and> MD5 pair = md5 block)) \<and>
     (\<forall>fid i pair. wants d fid i pair \<longrightarrow> le_word (CRC32 pair) = c \<longrightarrow> MD5 pair = md5 block \<longrightarrow>
       (\<exists>loc. hits s c block loc \<and> fileID loc = fid \<and> shardIndex loc = i))))"

lemma build_table:
  assumes "verifying w d0 b L d" "pair_count d0 \<le> 2 ^ 28"
  shows "\<exists>t. buildLookupTable d = (Ret t, d) \<and> table_of d0 t"
proof -
  have pc: "pair_count d \<le> 2 ^ 28" using assms by (simp add: pair_count_def verifying_def)
  obtain t where t: "newCRCLookupTable (checksum_map d) = Some t" "table_ok t" using set_table[OF pc] by blast
  have "table_of d0 t"
    unfolding table_of_def using t(2) hits_iff[OF pc] t(1) unfolding verifying_expects[OF assms(1)] by metis
  moreover have "buildLookupTable d = (Ret t, d)" by (simp add: buildLookupTable_def go_defs t(1))
  ultimately show ?thesis by blast
qed

lemma safe_buildLookupTable:
  assumes "pair_count d0 \<le> 2 ^ 28"
  shows "safe (verifying w d0 b L) c buildLookupTable" "gives (verifying w d0 b L) buildLookupTable (table_of d0)"
proof -
  show s: "safe (verifying w d0 b L) c buildLookupTable" for c
    unfolding safe_def wp_def using build_table[OF _ assms] by fastforce
  show "gives (verifying w d0 b L) buildLookupTable (table_of d0)"
    unfolding gives_def using safe_keeps[OF s] build_table[OF _ assms] by fastforce
qed

section \<open>The scan\<close>

lemma fits_range:
  assumes "verifying w d0 b L d" "ifsc_fits d0" "wants d0 fid i pair"
  obtains fd st where "fd \<in> set (protectedFiles d0)" "fd_FileID fd = fid" "map_of (fileIntegrity d) fid = Some st"
    "i < length (ShardLocations st)"
proof -
  obtain fd ifsc where fd: "fd \<in> set (protectedFiles d0)" "fd_FileID fd = fid" "(fid, ifsc) \<in> set (fileChecksums d0)"
    "i < length (ChecksumPairs ifsc)" using assms(3) unfolding wants_def by blast
  obtain st where st: "map_of (fileIntegrity d) fid = Some st" "state_shape (sliceByteCount d0) fd st"
    using verifying_sound[OF assms(1)] fd(1,2) unfolding sound_def by blast
  have "length (ChecksumPairs ifsc) \<le> length (ShardLocations st)"
    using assms(2) fd st(2) unfolding ifsc_fits_def state_shape_def by auto
  then show ?thesis using that[OF fd(1,2) st(1)] fd(4) by simp
qed

lemma verifying_insert: "verifying w d0 b L d \<Longrightarrow> located d fid i \<Longrightarrow> verifying w d0 b (insert (fid, i) L) d"
  by (simp add: verifying_def)

lemma all_found_set: "all_found st (st\<lparr>ShardLocations := (ShardLocations st)[i := \<lparr>loc_FileID = f, Offset = int off\<rparr>]\<rparr>)"
  by (cases "i < length (ShardLocations st)") (auto simp: all_found_def nth_list_update)

lemma wp_collect:
  assumes "verifying w d0 b L d" "ifsc_fits d0" "wants d0 (targetFileID m) (ev_shardIndex m) pair"
  shows "wp (collect m) (\<lambda>_. verifying w d0 b (insert (targetFileID m, ev_shardIndex m) L)) E d"
proof -
  let ?fid = "targetFileID m" and ?i = "ev_shardIndex m"
  obtain fd st where st: "fd \<in> set (protectedFiles d0)" "fd_FileID fd = ?fid" "map_of (fileIntegrity d) ?fid = Some st"
    "?i < length (ShardLocations st)" using fits_range[OF assms] .
  let ?f = "\<lambda>st. st\<lparr>ShardLocations := (ShardLocations st)[?i := \<lparr>loc_FileID = sourceFileID m, Offset = int (ev_offset m)\<rparr>]\<rparr>"
  have "safe (verifying w d0 b L) True (updState (fd_FileID fd) ?f)"
    by (rule safe_updState[OF st(1)]) (auto simp: state_sound_def state_shape_def all_found_set)
  then have "wp (updState ?fid ?f) (\<lambda>_. verifying w d0 b L) (\<lambda>_ _. False) d" using assms(1) st(2) by (simp add: safe_def)
  then have v: "verifying w d0 b L (d\<lparr>fileIntegrity := AList.update ?fid (?f st) (fileIntegrity d)\<rparr>)"
    by (simp add: wp_updState(1)[OF st(3)])
  have "located (d\<lparr>fileIntegrity := AList.update ?fid (?f st) (fileIntegrity d)\<rparr>) ?fid ?i"
    using st(4) by (simp add: located_def update_conv)
  note new = verifying_insert[OF v this]
  have old: "verifying w d0 b (insert (?fid, ?i) L) d" if "Offset (ShardLocations st ! ?i) \<noteq> -1"
    using that st(3,4) by (intro verifying_insert[OF assms(1)]) (simp add: located_def)
  show ?thesis
    unfolding collect_def wp_bind wp_updState(2)[OF st(3)] goIndex_Ret[OF st(4)]
    using new old by (simp add: wp_liftR wp wp_updState(1)[OF st(3)])
qed

lemma wp_collect_all:
  assumes "verifying w d0 b L d" "ifsc_fits d0" "\<And>e. e \<in> set es \<Longrightarrow> \<exists>pair. wants d0 (targetFileID e) (ev_shardIndex e) pair"
  shows "wp (forG collect es) (\<lambda>_. verifying w d0 b ((\<lambda>e. (targetFileID e, ev_shardIndex e)) ` set es \<union> L)) E d"
proof (rule wp_for[where I = "\<lambda>pre. verifying w d0 b ((\<lambda>e. (targetFileID e, ev_shardIndex e)) ` set pre \<union> L)"])
  fix pre e rest d assume es: "es = pre @ e # rest" and d: "verifying w d0 b ((\<lambda>e. (targetFileID e, ev_shardIndex e)) ` set pre \<union> L) d"
  obtain pair where "wants d0 (targetFileID e) (ev_shardIndex e) pair" using assms(3) es by fastforce
  from wp_collect[OF d assms(2) this, of E]
  show "wp (collect e) (\<lambda>_. verifying w d0 b ((\<lambda>e. (targetFileID e, ev_shardIndex e)) ` set (pre @ [e]) \<union> L)) E d" by simp
qed (use assms(1) in simp)

text \<open>The files that the scan reads.\<close>

definition to_scan :: "Decoder \<Rightarrow> FileDescPacket \<Rightarrow> bool" where
  "to_scan d fd \<longleftrightarrow> (\<exists>st. map_of (fileIntegrity d) (fd_FileID fd) = Some st \<and> \<not> skipsBlockScan st)"

lemma wp_protected_jobs:
  assumes "verifying w d0 b L d" "set fds \<subseteq> set (protectedFiles d0)"
    "\<And>js d'. verifying w d0 b L d' \<Longrightarrow> fileIntegrity d' = fileIntegrity d \<Longrightarrow>
      set js \<subseteq> ScanProtected ` {fd \<in> set fds. to_scan d fd} \<Longrightarrow>
      b \<longrightarrow> set js = ScanProtected ` {fd \<in> set fds. to_scan d fd} \<Longrightarrow> Q js d'"
  shows "wp (protected_jobs fds) Q E d"
  using assms
proof (induction fds arbitrary: d Q)
  case (Cons fd fds)
  show ?case
    unfolding protected_jobs.simps wp_bind
  proof (rule wp_verifying_ctx[OF Cons.prems(1)])
    fix c d1 assume d1: "verifying w d0 b L d1" "b \<longrightarrow> \<not> c" "fileIntegrity d1 = fileIntegrity d"
    obtain st where st: "map_of (fileIntegrity d1) (fd_FileID fd) = Some st"
      using verifying_sound[OF d1(1)] Cons.prems(2) unfolding sound_def by auto
    have same: "to_scan d1 = to_scan d" by (simp add: to_scan_def d1(3) fun_eq_iff)
    have this': "to_scan d fd \<longleftrightarrow> \<not> skipsBlockScan st" using st by (simp add: to_scan_def d1(3))
    have rec: "wp (protected_jobs fds) Q' E d1"
      if "\<And>js d'. verifying w d0 b L d' \<Longrightarrow> fileIntegrity d' = fileIntegrity d \<Longrightarrow>
        set js \<subseteq> ScanProtected ` {fd \<in> set fds. to_scan d fd} \<Longrightarrow>
        b \<longrightarrow> set js = ScanProtected ` {fd \<in> set fds. to_scan d fd} \<Longrightarrow> Q' js d'" for Q'
      by (rule Cons.IH[OF d1(1)]) (use Cons.prems(2) that same d1(3) in auto)
    show "wp (if c then retG [] else bindG (getState (fd_FileID fd)) (\<lambda>st.
        if skipsBlockScan st then protected_jobs fds
        else bindG (protected_jobs fds) (\<lambda>js. retG (ScanProtected fd # js)))) Q E d1"
    proof (rule wp_ifI)
      assume "c"
      then show "wp (retG []) Q E d1" using d1 by (simp add: wp Cons.prems(3))
    next
      have skip: "Q js d'" if "skipsBlockScan st" "verifying w d0 b L d'" "fileIntegrity d' = fileIntegrity d"
        "set js \<subseteq> ScanProtected ` {fd \<in> set fds. to_scan d fd}" "b \<longrightarrow> set js = ScanProtected ` {fd \<in> set fds. to_scan d fd}" for js d'
        using that this' by (intro Cons.prems(3)) auto
      have take: "Q (ScanProtected fd # js) d'" if "\<not> skipsBlockScan st" "verifying w d0 b L d'" "fileIntegrity d' = fileIntegrity d"
        "set js \<subseteq> ScanProtected ` {fd \<in> set fds. to_scan d fd}" "b \<longrightarrow> set js = ScanProtected ` {fd \<in> set fds. to_scan d fd}" for js d'
        using that this' by (intro Cons.prems(3)) auto
      show "wp (bindG (getState (fd_FileID fd)) (\<lambda>st. if skipsBlockScan st then protected_jobs fds
          else bindG (protected_jobs fds) (\<lambda>js. retG (ScanProtected fd # js)))) Q E d1"
        unfolding wp_bind wp_updState(2)[OF st] by (rule wp_ifI) (auto simp: wp intro!: rec skip take)
    qed
  qed
qed (simp add: wp)

lemma wp_candidate_jobs:
  assumes "verifying w d0 b L d"
    "\<And>js d'. verifying w d0 b L d' \<Longrightarrow> fileIntegrity d' = fileIntegrity d \<Longrightarrow> set js \<subseteq> (\<lambda>(p, fid). ScanCandidate p fid) ` set cs \<Longrightarrow> Q js d'"
  shows "wp (candidate_jobs resolved names cs) Q E d"
  using assms
proof (induction cs arbitrary: d Q)
  case (Cons c cs)
  obtain p fid where c: "c = (p, fid)" by (cases c)
  show ?case
    unfolding c candidate_jobs.simps wp_bind
  proof (rule wp_verifying_ctx[OF Cons.prems(1)])
    fix canc d1 assume d1: "verifying w d0 b L d1" "fileIntegrity d1 = fileIntegrity d"
    have rec: "wp (candidate_jobs resolved names cs) Q' E d1"
      if "\<And>js d'. verifying w d0 b L d' \<Longrightarrow> fileIntegrity d' = fileIntegrity d \<Longrightarrow>
        set js \<subseteq> (\<lambda>(p, fid). ScanCandidate p fid) ` set cs \<Longrightarrow> Q' js d'" for Q'
      by (rule Cons.IH[OF d1(1)]) (use that d1(2) in auto)
    have fin: "Q js d'" if "verifying w d0 b L d'" "fileIntegrity d' = fileIntegrity d"
        "set js \<subseteq> (\<lambda>(p, fid). ScanCandidate p fid) ` set (c # cs)" for js d'
      using that by (rule Cons.prems(2))
    show "wp (if canc then retG [] else if p \<in> set resolved \<or> p \<in> set names then candidate_jobs resolved names cs
        else bindG (candidate_jobs resolved names cs) (\<lambda>js. retG (ScanCandidate p fid # js))) Q E d1"
      by (intro wp_ifI) (auto simp: wp c d1 intro!: rec fin)
  qed
qed (simp add: wp)

lemma run_job_result:
  assumes "table_ok (lookupTable s)" "scan_ready (sd s)"
  shows "no_panic (jobRes (run_job s envs w j))"
    "(\<And>k. quiet_env (envs k)) \<Longrightarrow> jobRes (run_job s envs w j) = Ret () \<and>
       job_events s w j \<subseteq> (\<Union>es\<in>set (jobSent (run_job s envs w j)). set es)"
proof -
  define m where "m = (case j of ScanProtected fd \<Rightarrow> scanFile s envs fd | ScanCandidate path fid \<Rightarrow> scanCandidateFile s envs path fid)"
  define b where "b \<longleftrightarrow> (\<forall>k. quiet_env (envs k))"
  obtain r g where g: "m (new_goroutine (envs 0) w) = (r, g)" by (cases "m (new_goroutine (envs 0) w)")
  have "wp m (\<lambda>_ g'. b \<longrightarrow> job_events s w j \<subseteq> emitted g') (\<lambda>_ _. \<not> b) (new_goroutine (envs 0) w)"
    unfolding m_def
    by (rule wp_job[OF assms, of "[]"]) (auto simp: sends_def calm_world_def new_goroutine_def b_def quiet_env_def same_files_def)
  then show "no_panic (jobRes (run_job s envs w j))"
    "(\<And>k. quiet_env (envs k)) \<Longrightarrow> jobRes (run_job s envs w j) = Ret () \<and>
       job_events s w j \<subseteq> (\<Union>es\<in>set (jobSent (run_job s envs w j)). set es)"
    using g unfolding run_job_def m_def[symmetric]
    by (auto simp: wp_def no_panic_def emitted_def b_def split: res.splits)
qed

definition found_by :: "matchEvent set \<Rightarrow> (FileID \<times> nat) set" where
  "found_by E = (\<lambda>e. (targetFileID e, ev_shardIndex e)) ` E"

lemma verifying_mono: "verifying w d0 b L d \<Longrightarrow> L' \<subseteq> L \<Longrightarrow> verifying w d0 b L' d"
  unfolding verifying_def by blast

lemma genuine_wanted:
  assumes "table_of d0 (lookupTable s)" "genuine_in s w j e"
  shows "\<exists>pair. wants d0 (targetFileID e) (ev_shardIndex e) pair"
proof -
  obtain c block loc where "hits s c block loc" "targetFileID e = fileID loc" "ev_shardIndex e = shardIndex loc"
    using assms(2) unfolding genuine_in_def genuine_def Let_def event_of_def by (metis matchEvent.select_convs(1,2))
  then show ?thesis using assms(1) unfolding table_of_def by metis
qed

text \<open>The collector and the marks, once the jobs are done.\<close>

lemma safe_marks:
  assumes "newCRC32Window (int (sliceByteCount (sd s))) = Ret (window s)" "set js \<subseteq> jobs_of (protectedFiles d0) (candidateFiles d0)"
  shows "safe (verifying w d0 b L) c (forG (\<lambda>(fid, dm). setDamage fid dm) (concat (map jobMarks (job_runs s envs w' js))))"
proof (intro safe_for)
  fix m assume "m \<in> set (concat (map jobMarks (job_runs s envs w' js)))"
  then obtain j where j: "j \<in> set js" "job_mark j m" using job_runs_marks[OF assms(1)] by blast
  then have "j \<in> jobs_of (protectedFiles d0) (candidateFiles d0)" using assms(2) by blast
  then obtain fd dm where "fd \<in> set (protectedFiles d0)" "m = (fd_FileID fd, dm)" "dm \<noteq> damageNone"
    using j(2) by (cases m) (auto simp: jobs_of_def)
  then show "safe (verifying w d0 b L) c (case m of (fid, dm) \<Rightarrow> setDamage fid dm)" by (simp add: safe_setDamage)
qed

lemma runs_result:
  assumes "table_ok (lookupTable s)" "scan_ready (sd s)" "b \<longrightarrow> (\<forall>i k. quiet_env (envs i k))"
  shows "no_panic (waitAll (map jobRes (job_runs s envs w js)))" "b \<longrightarrow> waitAll (map jobRes (job_runs s envs w js)) = Ret ()"
proof -
  show "no_panic (waitAll (map jobRes (job_runs s envs w js)))"
    by (rule waitAll_no_panic) (use run_job_result(1)[OF assms(1,2)] in \<open>auto dest!: job_runs_mem\<close>)
  show "b \<longrightarrow> waitAll (map jobRes (job_runs s envs w js)) = Ret ()"
    by (intro impI waitAll_Ret) (use run_job_result(2)[OF assms(1,2)] assms(3) in \<open>auto dest!: job_runs_mem\<close>)
qed

lemma runs_found:
  assumes "table_ok (lookupTable s)" "scan_ready (sd s)" "\<forall>i k. quiet_env (envs i k)" "same_files w w'" "ScanProtected fd \<in> set js"
  shows "job_events s w (ScanProtected fd) \<subseteq> set (merge sched (concat (map jobSent (job_runs s envs w' js))))"
proof -
  have "dir w' = dir w" "inodes w' = inodes w" using assms(4) by (simp_all add: same_files_def)
  then have ev: "job_events s w (ScanProtected fd) = job_events s w' (ScanProtected fd)" unfolding job_events_def by (simp only:)
  obtain i where i: "run_job s (envs i) w' (ScanProtected fd) \<in> set (job_runs s envs w' js)" using job_runs_has[OF assms(5)] by blast
  have "job_events s w' (ScanProtected fd) \<subseteq> (\<Union>es\<in>set (jobSent (run_job s (envs i) w' (ScanProtected fd))). set es)"
    using run_job_result(2)[OF assms(1,2), of "envs i" w' "ScanProtected fd"] assms(3) by simp
  also have "\<dots> \<subseteq> set (merge sched (concat (map jobSent (job_runs s envs w' js))))" unfolding set_merge set_concat set_map using i by blast
  finally show ?thesis unfolding ev .
qed

lemma wp_scan:
  assumes d: "verifying w d0 b L d" and tab: "table_of d0 (lookupTable s)" and fits: "ifsc_fits d0"
    and win: "newCRC32Window (int (sliceByteCount (sd s))) = Ret (window s)" and lim: "scan_limits (sd s)"
    and quiet: "b \<longrightarrow> (\<forall>i k. quiet_env (envs i k))"
  defines "E \<equiv> (\<Union>fd\<in>{fd \<in> set (protectedFiles d0). to_scan d fd}. job_events s w (ScanProtected fd))"
  shows "wp (scan s envs sched) (\<lambda>_. verifying w d0 b (L \<union> (if b then found_by E else {}))) (\<lambda>_ _. \<not> b) d"
proof -
  have bs: "scan_ready (sd s)" using newCRC32Window_Ret(1)[OF win] lim by (simp add: scan_ready_def)
  have tok: "table_ok (lookupTable s)" using tab by (simp add: table_of_def)
  have pf: "protectedFiles d = protectedFiles d0" "candidateFiles d' = candidateFiles d0" if "verifying w d0 b L d'" for d'
    using d that by (simp_all add: verifying_def sound_def)
  have collected: "wp (bindG (forG (\<lambda>(fid, dm). setDamage fid dm) (concat (map jobMarks (job_runs s envs (root d2) js))))
      (\<lambda>_. bindG (forG collect (merge sched (concat (map jobSent (job_runs s envs (root d2) js)))))
        (\<lambda>_. liftR (waitAll (map jobRes (job_runs s envs (root d2) js))))))
      (\<lambda>_. verifying w d0 b (L \<union> (if b then found_by E else {}))) (\<lambda>_ _. \<not> b) d2"
    if d2: "verifying w d0 b L d2" and js: "set js \<subseteq> jobs_of (protectedFiles d0) (candidateFiles d0)"
      "b \<longrightarrow> ScanProtected ` {fd \<in> set (protectedFiles d0). to_scan d fd} \<subseteq> set js" for d2 js
  proof -
    let ?rs = "job_runs s envs (root d2) js"
    let ?es = "merge sched (concat (map jobSent ?rs))"
    have sf: "same_files w (root d2)" using verifying_sound[OF d2] by (simp add: sound_def)
    note res = runs_result[OF tok bs quiet, of "root d2" js]
    have wanted: "\<exists>pair. wants d0 (targetFileID e) (ev_shardIndex e) pair" if "e \<in> set ?es" for e
      using job_runs_events[OF win that] genuine_wanted[OF tab] by blast
    have found: "E \<subseteq> set ?es" if "b"
      using runs_found[OF tok bs _ sf] quiet js(2) that by (fastforce simp: E_def)
    have "wp (forG collect ?es) (\<lambda>_. wp (liftR (waitAll (map jobRes ?rs)))
        (\<lambda>_. verifying w d0 b (L \<union> (if b then found_by E else {}))) (\<lambda>_ _. \<not> b)) (\<lambda>_ _. \<not> b) d3" if "verifying w d0 b L d3" for d3
    proof (rule wp_mono[OF wp_collect_all[OF that fits wanted]])
      fix x d4 assume d4: "verifying w d0 b ((\<lambda>e. (targetFileID e, ev_shardIndex e)) ` set ?es \<union> L) d4"
      have "verifying w d0 b (L \<union> (if b then found_by E else {})) d4"
        by (rule verifying_mono[OF d4]) (use found in \<open>auto simp: found_by_def\<close>)
      then show "wp (liftR (waitAll (map jobRes ?rs))) (\<lambda>_. verifying w d0 b (L \<union> (if b then found_by E else {}))) (\<lambda>_ _. \<not> b) d4"
        using res by (auto simp: wp_liftR no_panic_def split: res.splits)
    qed
    moreover have "wp (forG (\<lambda>(fid, dm). setDamage fid dm) (concat (map jobMarks ?rs))) (\<lambda>_. verifying w d0 b L) (\<lambda>_ _. False) d2"
      using safe_marks[OF win js(1), of w b L True envs "root d2"] d2 by (simp add: safe_def)
    ultimately show ?thesis unfolding wp_bind by (elim wp_mono) auto
  qed
  have jobs: "ScanProtected ` {fd \<in> set (protectedFiles d0). to_scan d fd} \<subseteq> jobs_of (protectedFiles d0) (candidateFiles d0)"
    "(\<lambda>(p, fid). ScanCandidate p fid) ` set (candidateFiles d0) \<subseteq> jobs_of (protectedFiles d0) (candidateFiles d0)"
    by (auto simp: jobs_of_def)
  show ?thesis
    unfolding scan_def Let_def wp_bind wp_basic pf(1)[OF d] job_runs_def[symmetric]
    by (rule wp_protected_jobs[OF d order_refl], simp only: pf(2), rule wp_candidate_jobs, assumption,
        rule collected[unfolded wp_bind], assumption) (use jobs in \<open>auto 0 3\<close>)
qed

end
