(* ===== verification/Verify_Complete.thy ===== *)
theory Verify_Complete
  imports Verify_Phases
begin

text \<open>
  The verification of a whole set: it ends without a panic, finds every block that lies in its place, and reports an
  intact set as intact.
\<close>

section \<open>What the states say before the scan\<close>

definition states_pred :: "FileDescPacket list \<Rightarrow> (FileDescPacket \<Rightarrow> fileIntegrityState \<Rightarrow> bool) \<Rightarrow> Decoder \<Rightarrow> bool" where
  "states_pred fs P d \<longleftrightarrow> (\<forall>fd\<in>set fs. \<forall>st. map_of (fileIntegrity d) (fd_FileID fd) = Some st \<longrightarrow> P fd st)"

lemma states_pred_root [simp]: "states_pred fs P (d\<lparr>root := w\<rparr>) = states_pred fs P d"
  by (simp add: states_pred_def)

lemma keeps_states_root [keeps]: "keeps (states_pred fs P) (onRoot m)"
  by (auto simp: keeps_def onRoot_def split: prod.splits)

lemma keeps_states_update:
  assumes "\<And>fd st. fd \<in> set fs \<Longrightarrow> fd_FileID fd = fid \<Longrightarrow> P fd st \<Longrightarrow> P fd (f st)"
  shows "keeps (states_pred fs P) (updState fid f)"
  using assms by (auto simp: keeps_def updState_def states_pred_def update_conv split: option.splits)

text \<open>Before the scan: a file marked missing is not there, and a file marked intact has all its blocks.\<close>

definition prescanned :: "world \<Rightarrow> FileDescPacket \<Rightarrow> fileIntegrityState \<Rightarrow> bool" where
  "prescanned w fd st \<longleftrightarrow> (Damage st = damageMissing \<longrightarrow> dir w (Filename fd) = None) \<and>
     (Damage st = damageNone \<longrightarrow> (\<forall>l\<in>set (ShardLocations st). Offset l \<noteq> -1))"

lemma setWhole_found: "l \<in> set (ShardLocations (setWhole fid bs st)) \<Longrightarrow> Offset l \<noteq> -1"
proof -
  have "int i * int bs \<noteq> -1" for i by (metis mult_nonneg_nonneg neg_0_le_iff_le not_one_le_zero of_nat_0_le_iff)
  then show "l \<in> set (ShardLocations (setWhole fid bs st)) \<Longrightarrow> Offset l \<noteq> -1" by (auto simp: setWhole_def wholeLocations_def)
qed

lemma prescanned_setWhole:
  "prescanned w fd st \<Longrightarrow> prescanned w fd (setWhole fid bs (st\<lparr>RenameSource := r\<rparr>))"
  "prescanned w fd st \<Longrightarrow> prescanned w fd (setWhole fid bs (st\<lparr>Damage := damageNone\<rparr>))"
  using setWhole_found by (simp_all add: prescanned_def)

lemma prescanCandidateMatches_prescanned: "keeps (states_pred fs (prescanned w)) prescanCandidateMatches"
proof -
  have "keeps (states_pred fs (prescanned w)) (prescan_candidate missing path cid)" for missing path cid
    unfolding prescan_candidate_def by (intro keeps keeps_states_update prescanned_setWhole(1))
  then have "keeps (states_pred fs (prescanned w)) (prescan_loop missing cs resolved)" for missing cs resolved
    by (induction cs arbitrary: resolved) (auto intro!: keeps split: if_splits)
  moreover have "keeps (states_pred fs (prescanned w)) missingByQuickKey"
    unfolding missingByQuickKey_def by (intro keeps)
  ultimately show ?thesis unfolding prescanCandidateMatches_def by (intro keeps)
qed

lemma prescanProtectedMatches_prescanned: "keeps (states_pred fs (prescanned w)) prescanProtectedMatches"
proof -
  have "keeps (states_pred fs (prescanned w)) (prescan_protected fd)" for fd
    unfolding prescan_protected_def by (intro keeps keeps_states_update prescanned_setWhole(2))
  then have "keeps (states_pred fs (prescanned w)) (prescan_protected_loop fds)" for fds
    by (induction fds) (auto intro!: keeps)
  then show ?thesis unfolding prescanProtectedMatches_def by (intro keeps)
qed

lemma fresh_prescanned:
  assumes "initFileIntegrity d = (Ret u, d')" "distinct (map fd_FileID (protectedFiles d))"
  shows "states_pred (protectedFiles d) (\<lambda>_ st. Damage st = damageUnchecked \<and> RenameSource st = []) d'"
proof -
  have "d' = d\<lparr>fileIntegrity := map (\<lambda>f. (fd_FileID f, fresh_state (sliceByteCount d) f)) (protectedFiles d)\<rparr>"
    using initFileIntegrity_cases[OF assms(2)] assms(1) by (auto split: if_splits)
  then show ?thesis
    using map_of_fresh[OF assms(2), of _ "fresh_state (sliceByteCount d)"] by (simp add: states_pred_def fresh_state_def del: map_of_eq_Some_iff)
qed

text \<open>The existence check, when nothing fails: only absent files become missing.\<close>

definition checked :: "world \<Rightarrow> FileDescPacket \<Rightarrow> fileIntegrityState \<Rightarrow> bool" where
  "checked w fd st \<longleftrightarrow> RenameSource st = [] \<and>
     (Damage st = damageUnchecked \<or> Damage st = damageMissing \<and> dir w (Filename fd) = None)"

lemma keeps_check_exists:
  assumes "fd \<in> set (protectedFiles d0)" "distinct (map fd_FileID (protectedFiles d0))"
  shows "keeps (\<lambda>d. verifying w d0 True L d \<and> states_pred (protectedFiles d0) (checked w) d) (check_exists fd)"
  unfolding keeps_def
proof (intro allI impI)
  let ?P = "states_pred (protectedFiles d0) (checked w)"
  let ?I = "\<lambda>d. verifying w d0 True L d \<and> ?P d"
  fix d assume d: "?I d"
  have v: "verifying w d0 True L (snd (check_exists fd d))"
    using safe_keeps[OF safe_check_exists[OF assms(1)]] d by (auto simp: keeps_def)
  have dw: "dir (root d) = dir w" using d by (simp add: verifying_def sound_def same_files_def)
  have same: "g = fd" if "g \<in> set (protectedFiles d0)" "fd_FileID g = fd_FileID fd" for g
    using that assms by (metis distinct_map inj_onD)
  have mark: "?P (snd (setDamage (fd_FileID fd) damageMissing d1))" if "?P d1" "dir w (Filename fd) = None" for d1
    using keeps_states_update[of "protectedFiles d0" "fd_FileID fd" "checked w" "\<lambda>st. st\<lparr>Damage := damageMissing\<rparr>"] that same
    by (auto simp: setDamage_def keeps_def checked_def)
  have "?P (snd (check_exists fd d))"
    using d dw by (auto simp: check_exists_def bindG_def tryG_def onRoot_def ctxErr_def open_file_def sysRead_def
        errG_def retG_def verifying_def calm_world_def tick_def split: option.splits intro!: mark)
  then show "?I (snd (check_exists fd d))" using v by simp
qed

section \<open>Intact files\<close>

definition intact :: "world \<Rightarrow> FileDescPacket \<Rightarrow> bool" where
  "intact w fd \<longleftrightarrow> (\<exists>i. dir w (Filename fd) = Some i \<and> length (inodes w i) = ByteCount fd \<and>
     md5 (take quickHashSize (inodes w i)) = SixteenKHash fd \<and> md5 (inodes w i) = fd_Hash fd)"

definition whole :: "fileIntegrityState \<Rightarrow> bool" where
  "whole st \<longleftrightarrow> Damage st = damageNone \<and> RenameSource st = [] \<and> (\<forall>l\<in>set (ShardLocations st). Offset l \<noteq> -1)"

lemma wp_calm_file:
  assumes "verifying w d0 True L d" "\<And>d'. verifying w d0 True L d' \<Longrightarrow> fileIntegrity d' = fileIntegrity d \<Longrightarrow> Q d'"
  shows "dir w n = Some i \<Longrightarrow> wp (onRoot (open_file n)) (\<lambda>j d'. j = i \<and> Q d') E d"
    "wp (onRoot (stat_size i)) (\<lambda>k d'. k = length (inodes w i) \<and> Q d') E d"
    "wp (onRoot (readAt i k off)) (\<lambda>bs d'. bs = take k (drop off (inodes w i)) \<and> Q d') E d"
    "wp (onRoot (readAll i)) (\<lambda>bs d'. bs = inodes w i \<and> Q d') E d"
    "wp (onRoot sysCall) (\<lambda>_. Q) E d"
proof -
  have w: "dir (root d) = dir w" "inodes (root d) = inodes w" using assms(1) by (simp_all add: verifying_def sound_def same_files_def)
  show "dir w n = Some i \<Longrightarrow> wp (onRoot (open_file n)) (\<lambda>j d'. j = i \<and> Q d') E d"
    "wp (onRoot (stat_size i)) (\<lambda>k d'. k = length (inodes w i) \<and> Q d') E d"
    "wp (onRoot (readAt i k off)) (\<lambda>bs d'. bs = take k (drop off (inodes w i)) \<and> Q d') E d"
    "wp (onRoot (readAll i)) (\<lambda>bs d'. bs = inodes w i \<and> Q d') E d" "wp (onRoot sysCall) (\<lambda>_. Q) E d"
    unfolding open_file_def stat_size_def readAt_def readAll_def sysCall_def
    by (rule wp_verifying_read[OF assms(1)], auto simp: no_panic_def w intro: assms(2))+
qed

lemma wp_calm_hash:
  assumes "verifying w d0 True L d" "\<And>d'. verifying w d0 True L d' \<Longrightarrow> fileIntegrity d' = fileIntegrity d \<Longrightarrow> Q d'"
  shows "wp (onRoot (quickHash16K i (length (inodes w i)))) (\<lambda>h d'. h = md5 (take quickHashSize (inodes w i)) \<and> Q d') E d"
    "wp (onRoot (computeFileMD5 i)) (\<lambda>h d'. h = md5 (inodes w i) \<and> Q d') E d"
proof -
  have t: "take (min quickHashSize (length xs)) xs = take quickHashSize xs" for xs :: bytes by (simp add: min_def)
  show "wp (onRoot (quickHash16K i (length (inodes w i)))) (\<lambda>h d'. h = md5 (take quickHashSize (inodes w i)) \<and> Q d') E d"
    unfolding quickHash16K_def onRoot_bind onRoot_ret wp_bind
    by (rule wp_mono[OF wp_calm_file(3)[OF assms]]) (auto simp: wp t)
  have r: "wp (onRoot (readAll i)) (\<lambda>bs d'. md5 bs = md5 (inodes w i) \<and> Q d') E d1"
    if "verifying w d0 True L d1" "fileIntegrity d1 = fileIntegrity d" for d1
    by (rule wp_mono[OF wp_calm_file(4)[OF that(1), where Q = Q]]) (use that assms(2) in auto)
  show "wp (onRoot (computeFileMD5 i)) (\<lambda>h d'. h = md5 (inodes w i) \<and> Q d') E d"
    unfolding computeFileMD5_def onRoot_bind onRoot_ret wp_bind wp_fun(1)
    by (rule wp_mono[OF wp_calm_file(5)[OF assms(1), where Q = "\<lambda>d1. verifying w d0 True L d1 \<and> fileIntegrity d1 = fileIntegrity d"]])
      (simp_all add: r wp_fun del: wp_onRoot)
qed

text \<open>The prescan of the protected files, over those before the current one.\<close>

definition prescanning :: "FileDescPacket list \<Rightarrow> FileDescPacket \<Rightarrow> fileIntegrityState \<Rightarrow> bool" where
  "prescanning pre fd st \<longleftrightarrow> RenameSource st = [] \<and> Damage st \<noteq> damageMissing \<and> (fd \<in> set pre \<longrightarrow> whole st)"

lemma whole_setWhole: "RenameSource st = [] \<Longrightarrow> whole (setWhole fid bs (st\<lparr>Damage := damageNone\<rparr>))"
  using setWhole_found by (simp add: whole_def)

lemma wp_mark_whole:
  assumes d: "verifying w d0 True L d" "states_pred (protectedFiles d0) (prescanning pre) d"
    and fd: "fd \<in> set (protectedFiles d0)" "intact w fd"
  shows "wp (updState (fd_FileID fd) (\<lambda>st. setWhole (fd_FileID fd) (sliceByteCount d0) (st\<lparr>Damage := damageNone\<rparr>)))
    (\<lambda>_ d'. verifying w d0 True L d' \<and> states_pred (protectedFiles d0) (prescanning (pre @ [fd])) d') E d"
proof -
  let ?f = "\<lambda>st. setWhole (fd_FileID fd) (sliceByteCount d0) (st\<lparr>Damage := damageNone\<rparr>)"
  obtain st where st: "map_of (fileIntegrity d) (fd_FileID fd) = Some st"
    using verifying_sound[OF d(1)] fd(1) unfolding sound_def by blast
  have pst: "prescanning pre fd st" using d(2) fd(1) st by (simp add: states_pred_def)
  have "safe (verifying w d0 True L) True (updState (fd_FileID fd) ?f)"
    by (rule safe_updState[OF fd(1)]) (use fd(2) in \<open>auto simp: state_sound_def state_shape_def content_hash_open intact_def\<close>)
  then have "verifying w d0 True L (d\<lparr>fileIntegrity := AList.update (fd_FileID fd) (?f st) (fileIntegrity d)\<rparr>)"
    using d(1) wp_updState(1)[OF st, of ?f] by (fastforce simp: safe_def)
  moreover have "prescanning (pre @ [fd]) g st'" if g: "g \<in> set (protectedFiles d0)"
    "map_of (AList.update (fd_FileID fd) (?f st) (fileIntegrity d)) (fd_FileID g) = Some st'" for g st'
  proof (cases "fd_FileID g = fd_FileID fd")
    case True
    then have "st' = ?f st" using g(2) by (simp add: update_conv)
    then show ?thesis using pst whole_setWhole[of st] by (simp add: prescanning_def)
  next
    case False
    then have "map_of (fileIntegrity d) (fd_FileID g) = Some st'" "g \<noteq> fd" using g(2) by (auto simp: update_conv)
    then show ?thesis using d(2) g(1) by (simp add: states_pred_def prescanning_def)
  qed
  ultimately show ?thesis unfolding wp_updState(1)[OF st] by (simp add: states_pred_def)
qed

text \<open>What reading an intact file gives.\<close>

lemma wp_intact_reads:
  assumes v: "verifying w d0 True L d" and n: "\<And>d'. verifying w d0 True L d' \<Longrightarrow> fileIntegrity d' = fileIntegrity d \<Longrightarrow> Q d'"
    and i: "dir w (Filename fd) = Some i" "length (inodes w i) = ByteCount fd"
      "md5 (take quickHashSize (inodes w i)) = SixteenKHash fd" "md5 (inodes w i) = fd_Hash fd"
  shows "wp (onRoot (open_file (Filename fd))) (\<lambda>j d'. j = i \<and> Q d') E d"
    "wp (onRoot (stat_size i)) (\<lambda>k d'. k = ByteCount fd \<and> Q d') E d"
    "wp (onRoot (quickHash16K i (ByteCount fd))) (\<lambda>h d'. h = SixteenKHash fd \<and> Q d') E d"
    "wp (onRoot (computeFileMD5 i)) (\<lambda>h d'. h = fd_Hash fd \<and> Q d') E d"
proof -
  show "wp (onRoot (open_file (Filename fd))) (\<lambda>j d'. j = i \<and> Q d') E d" by (rule wp_calm_file(1)[OF v n i(1)])
  show "wp (onRoot (stat_size i)) (\<lambda>k d'. k = ByteCount fd \<and> Q d') E d"
    using wp_calm_file(2)[OF v n, where i = i and E = E] by (simp only: i(2))
  show "wp (onRoot (quickHash16K i (ByteCount fd))) (\<lambda>h d'. h = SixteenKHash fd \<and> Q d') E d"
    using wp_calm_hash(1)[OF v n, where i = i and E = E] by (simp only: i(2,3))
  show "wp (onRoot (computeFileMD5 i)) (\<lambda>h d'. h = fd_Hash fd \<and> Q d') E d"
    using wp_calm_hash(2)[OF v n, where i = i and E = E] by (simp only: i(4))
qed

lemma wp_prescan_protected:
  assumes d: "verifying w d0 True L d" "states_pred (protectedFiles d0) (prescanning pre) d"
    and fd: "fd \<in> set (protectedFiles d0)" "intact w fd" and dist: "distinct (map fd_FileID (protectedFiles d0))"
  shows "wp (prescan_protected fd) (\<lambda>_ d'. verifying w d0 True L d' \<and> states_pred (protectedFiles d0) (prescanning (pre @ [fd])) d') E d"
proof -
  obtain st where st: "map_of (fileIntegrity d) (fd_FileID fd) = Some st"
    using verifying_sound[OF d(1)] fd(1) unfolding sound_def by blast
  have pst: "prescanning pre fd st" using d(2) fd(1) st by (simp add: states_pred_def)
  obtain i where i: "dir w (Filename fd) = Some i" "length (inodes w i) = ByteCount fd"
    "md5 (take quickHashSize (inodes w i)) = SixteenKHash fd" "md5 (inodes w i) = fd_Hash fd" using fd(2) by (auto simp: intact_def)
  define fin where "fin d1 \<longleftrightarrow> verifying w d0 True L d1 \<and> fileIntegrity d1 = fileIntegrity d" for d1
  have "fin d" using d(1) by (simp add: fin_def)
  have v: "verifying w d0 True L d1" and fin_next: "\<And>d'. verifying w d0 True L d' \<Longrightarrow> fileIntegrity d' = fileIntegrity d1 \<Longrightarrow> fin d'"
    if "fin d1" for d1 using that by (simp_all add: fin_def)
  have o: "wp (onRoot (open_file (Filename fd))) (\<lambda>j d'. j = i \<and> fin d') E' d1"
    "wp (onRoot (stat_size i)) (\<lambda>k d'. k = ByteCount fd \<and> fin d') E' d1"
    "wp (onRoot (quickHash16K i (ByteCount fd))) (\<lambda>h d'. h = SixteenKHash fd \<and> fin d') E' d1"
    "wp (onRoot (computeFileMD5 i)) (\<lambda>h d'. h = fd_Hash fd \<and> fin d') E' d1" if "fin d1" for d1 E'
    by (rule wp_intact_reads[where Q = fin, OF v[OF that] _ i], erule (1) fin_next[OF that])+
  have whole: "wp (bindG (getG sliceByteCount) (\<lambda>bs. updState (fd_FileID fd) (\<lambda>st. setWhole (fd_FileID fd) bs (st\<lparr>Damage := damageNone\<rparr>))))
      (\<lambda>_ d'. verifying w d0 True L d' \<and> states_pred (protectedFiles d0) (prescanning (pre @ [fd])) d') E d1" if "fin d1" for d1
  proof -
    have "sliceByteCount d1 = sliceByteCount d0" using v[OF that] by (simp add: verifying_def sound_def)
    moreover have "states_pred (protectedFiles d0) (prescanning pre) d1" using that d(2) by (simp add: fin_def states_pred_def)
    ultimately show ?thesis unfolding wp_bind wp_basic using wp_mark_whole[OF v[OF that] _ fd] by simp
  qed
  show ?thesis
    unfolding prescan_protected_def wp_bind wp_updState(2)[OF st]
    by (rule wp_ifI, use pst in \<open>simp add: prescanning_def\<close>, rule wp_try_known[OF o(1)[OF \<open>fin d\<close>]],
      rule wp_try_known[OF o(2)], assumption, rule wp_ifI, simp, rule wp_try_known[OF o(3)], assumption, rule wp_ifI, simp,
      rule wp_try_known[OF o(4)], assumption, rule wp_ifI, simp, rule whole)
qed

section \<open>The hash verification\<close>

lemma safe_detect: "safe (verifying w d0 b L) c (detectRenameCandidate fd st)"
  "gives (verifying w d0 b L) (detectRenameCandidate fd st) (\<lambda>p. p \<noteq> [] \<longrightarrow> content_hash w p = Some (fd_Hash fd))"
proof -
  show s: "safe (verifying w d0 b L) c (detectRenameCandidate fd st)" for c
    unfolding detectRenameCandidate_def
    by (cases "ShardLocations st") (auto simp: Let_def intro!: safe safe_world split: prod.split option.split)
  have "verifying w d0 b L d \<Longrightarrow> detectRenameCandidate fd st d = (Ret p, d') \<Longrightarrow> p \<noteq> [] \<longrightarrow> content_hash w p = Some (fd_Hash fd)" for d p d'
    using gives_detect[of w "protectedFiles d0" "sliceByteCount d0" fd st] verifying_sound unfolding gives_def by blast
  then show "gives (verifying w d0 b L) (detectRenameCandidate fd st) (\<lambda>p. p \<noteq> [] \<longrightarrow> content_hash w p = Some (fd_Hash fd))"
    using safe_keeps[OF s] unfolding gives_def by blast
qed

lemma safe_verifySingleFileHash:
  "fd \<in> set (protectedFiles d0) \<Longrightarrow> safe (verifying w d0 b L) c (verifySingleFileHash fd)"
  unfolding verifySingleFileHash_def
  by (intro safe_try_gives[OF gives_open[OF in_world_verifying]] safe_try_gives[OF gives_readAll[OF in_world_verifying]]
      safe_if safe_setDamage safe_world) (auto simp: content_hash_open)

lemma safe_verify_file:
  assumes "fd \<in> set (protectedFiles d0)"
  shows "safe (verifying w d0 b L) c (verify_file fd)"
  unfolding verify_file_def
  by (rule safe_bind_gives[OF safe_getState(2)[OF assms] safe_getState(1)[OF assms]])
    (intro safe_if safe_ret safe_bind safe_bind_gives[OF safe_detect(2)] safe_detect(1) safe_updState safe_setDamage
      safe_verifySingleFileHash assms, auto simp: state_sound_def state_shape_def all_found_same)

lemma safe_verifyProtectedFilesHashes: "safe (verifying w d0 b L) c verifyProtectedFilesHashes"
  unfolding verifyProtectedFilesHashes_def
  by (rule safe_bind_gives[OF gives_verifying(1)]) (auto intro!: safe safe_verify_file)

section \<open>Healthy sets\<close>

text \<open>Every protected file has been found whole under its own name.\<close>

definition healthy :: "Decoder \<Rightarrow> Decoder \<Rightarrow> bool" where
  "healthy d0 d \<longleftrightarrow> protectedFiles d = protectedFiles d0 \<and> sliceByteCount d = sliceByteCount d0 \<and> map fst (fileIntegrity d) = map fd_FileID (protectedFiles d0) \<and>
     states_pred (protectedFiles d0) (\<lambda>_. whole) d"

lemma gives_state_healthy:
  "fd \<in> set (protectedFiles d0) \<Longrightarrow> gives (healthy d0) (getState (fd_FileID fd)) whole"
  by (auto simp: gives_def keeps_def getState_def healthy_def states_pred_def split: option.splits)

lemma gives_any_state_healthy: "gives (healthy d0) (getState fid) whole"
proof (cases "fid \<in> fd_FileID ` set (protectedFiles d0)")
  case False
  have "map_of (fileIntegrity d) fid = None" if "healthy d0 d" for d
  proof -
    have "set (map fst (fileIntegrity d)) = set (map fd_FileID (protectedFiles d0))" using that by (simp add: healthy_def)
    then show ?thesis using False by (simp add: map_of_eq_None_iff)
  qed
  then show ?thesis by (simp add: gives_def keeps_def getState_def)
qed (use gives_state_healthy in blast)

lemma keeps_healthy_root: "keeps (healthy d0) (onRoot m)"
  by (auto simp: keeps_def onRoot_def healthy_def split: prod.splits)

lemma collect_healthy: "keeps (healthy d0) (collect m)"
  unfolding collect_def
proof (rule keeps_bind_gives[OF gives_any_state_healthy], rule keeps_bind_gives[OF gives_liftR])
  fix st loc assume st: "whole st" and "goIndex (ShardLocations st) (int (ev_shardIndex m)) = Ret loc"
  then have "loc \<in> set (ShardLocations st)" by (auto simp: goIndex_def split: if_splits)
  then have "Offset loc \<noteq> -1" using st by (simp add: whole_def)
  then show "keeps (healthy d0) (if Offset loc = - 1
      then updState (targetFileID m) (\<lambda>st. st\<lparr>ShardLocations := (ShardLocations st)
        [ev_shardIndex m := \<lparr>loc_FileID = sourceFileID m, Offset = int (ev_offset m)\<rparr>]\<rparr>) else retG ())"
    by (simp add: keeps)
qed

lemma gives_healthy_jobs:
  "set fds \<subseteq> set (protectedFiles d0) \<Longrightarrow> gives (healthy d0) (protected_jobs fds) (\<lambda>js. js = [])"
proof (induction fds)
  case (Cons fd fds)
  then show ?case
    by (auto intro!: gives_bind[OF gives_keeps[OF keeps_healthy_root]] gives_if gives_ret gives_bind[OF gives_state_healthy]
        simp: whole_def skipsBlockScan_def)
qed (simp add: gives_ret)

lemma gives_candidate_jobs:
  "gives (healthy d0) (candidate_jobs resolved names cs) (\<lambda>js. set js \<subseteq> (\<lambda>(p, fid). ScanCandidate p fid) ` set cs)"
proof (induction cs)
  case (Cons c cs)
  have "gives (healthy d0) (candidate_jobs resolved names cs) (\<lambda>js. set js \<subseteq> (\<lambda>(p, fid). ScanCandidate p fid) ` set (c # cs))"
    by (rule gives_mono[OF Cons]) auto
  then show ?case
    by (cases c) (auto intro!: gives_bind[OF gives_keeps[OF keeps_healthy_root]] gives_if gives_ret gives_bind[OF Cons.IH])
qed (simp add: gives_ret)

lemma scan_healthy:
  assumes "newCRC32Window (int (sliceByteCount (sd s))) = Ret (window s)"
  shows "keeps (healthy d0) (scan s envs sched)"
proof -
  have fs: "gives (healthy d0) (getG protectedFiles) (\<lambda>x. x = protectedFiles d0)"
    by (simp add: gives_def keeps go_defs healthy_def)
  have "concat (map jobMarks (map2 (\<lambda>i j. run_job s (envs i) w j) is js)) = []"
    if "set js \<subseteq> (\<lambda>(p, fid). ScanCandidate p fid) ` set cs" for w "is" js cs
  proof -
    have "jobMarks (run_job s (envs i) w j) = []" if j: "j \<in> set js" for i j
    proof -
      have "\<exists>p fid. j = ScanCandidate p fid" using j \<open>set js \<subseteq> _\<close> by auto
      then obtain p fid where "j = ScanCandidate p fid" by blast
      then have "\<forall>m\<in>set (jobMarks (run_job s (envs i) w j)). False" using run_job_genuine(2)[OF assms, of "envs i" w j] by simp
      then show ?thesis by (cases "jobMarks (run_job s (envs i) w j)") auto
    qed
    then show ?thesis by (auto dest!: set_zip_rightD)
  qed
  then show ?thesis
    unfolding scan_def Let_def
    by (intro keeps_bind_gives[OF fs] keeps_bind_gives[OF gives_healthy_jobs] keeps_bind[OF keeps_simple(4)]
        keeps_bind_gives[OF gives_candidate_jobs] keeps_bind keeps_for keeps_simple collect_healthy)
      auto
qed

lemma verify_healthy: "keeps (healthy d0) verifyProtectedFilesHashes"
proof -
  have fs: "gives (healthy d0) (getG protectedFiles) (\<lambda>x. x = protectedFiles d0)"
    by (simp add: gives_def keeps go_defs healthy_def)
  have "keeps (healthy d0) (verify_file fd)" if "fd \<in> set (protectedFiles d0)" for fd
    unfolding verify_file_def
    by (rule keeps_bind_gives[OF gives_state_healthy[OF that]]) (simp add: whole_def keeps)
  then show ?thesis unfolding verifyProtectedFilesHashes_def
    by (intro keeps_bind_gives[OF fs] keeps_for) auto
qed

lemma healthy_verdict: "healthy d0 d \<Longrightarrow> distinct (map fd_FileID (protectedFiles d0)) \<Longrightarrow> \<not> RepairNeeded (shardCountsLocked d)"
proof -
  assume h: "healthy d0 d" and dist: "distinct (map fd_FileID (protectedFiles d0))"
  have "whole st" if "(fid, st) \<in> set (fileIntegrity d)" for fid st
  proof -
    have keys: "map fst (fileIntegrity d) = map fd_FileID (protectedFiles d0)" using h by (simp add: healthy_def)
    then have "map_of (fileIntegrity d) fid = Some st" using that dist by (intro map_of_is_SomeI) simp_all
    moreover have "fid \<in> fd_FileID ` set (protectedFiles d0)" using that keys by (metis fst_conv image_eqI image_set)
    ultimately show ?thesis using h by (auto simp: healthy_def states_pred_def)
  qed
  then show ?thesis
    unfolding RepairNeeded_iff all_locations_def by (force simp: whole_def needsRebuild_def)
qed

section \<open>The whole verification\<close>

text \<open>The bytes of block \<open>k\<close> as they lie in the file of the given protected length: a whole block, or the last one padded
  with zeros.\<close>

definition in_place :: "nat \<Rightarrow> nat \<Rightarrow> bytes \<Rightarrow> nat \<Rightarrow> bytes \<Rightarrow> bool" where
  "in_place bs n content k block \<longleftrightarrow> content \<noteq> [] \<and>
     (k * bs + bs \<le> length content \<and> block = take bs (drop (k * bs) content) \<or>
      n mod bs \<noteq> 0 \<and> k = n div bs \<and> block = block_at bs (n mod bs) content (k * bs))"

lemma last_start_div: "bs \<noteq> 0 \<Longrightarrow> n mod bs \<noteq> 0 \<Longrightarrow> last_start bs n = n div bs * bs"
proof -
  assume a: "bs \<noteq> 0" "n mod bs \<noteq> 0"
  have "n + bs - 1 = n div bs * bs + (n mod bs + bs - 1)" using a div_mult_mod_eq[of n bs] by linarith
  then have "(n + bs - 1) div bs = n div bs + (n mod bs + bs - 1) div bs" by (simp only: div_mult_self3[OF a(1)])
  moreover have "(n mod bs + bs - 1) div bs = 1"
  proof (rule div_nat_eqI)
    have "0 < n mod bs" "n mod bs < bs" using a by simp_all
    then show "bs * 1 \<le> n mod bs + bs - 1" "n mod bs + bs - 1 < bs * Suc 1" by simp_all
  qed
  ultimately show ?thesis by (simp add: last_start_def)
qed

lemma in_place_event:
  assumes "in_place (sliceByteCount (sd s)) (ByteCount fd) (inodes w i) k block" "dir w (Filename fd) = Some i"
    "sliceByteCount (sd s) \<noteq> 0" "hits s (ChecksumIEEE block) block loc"
  shows "event_of (fd_FileID fd) (k * sliceByteCount (sd s)) loc \<in> job_events s w (ScanProtected fd)"
proof -
  let ?bs = "sliceByteCount (sd s)" and ?n = "ByteCount fd"
  have ev: "event_of (fd_FileID fd) (k * ?bs) loc \<in> window_events s (fd_FileID fd) (k * ?bs) block"
    using assms(4) by (simp add: window_events_def)
  have ne: "inodes w i \<noteq> []" using assms(1) unfolding in_place_def by blast
  have je: "job_events s w (ScanProtected fd) = file_events s (fd_FileID fd) (inodes w i) 0 (length (inodes w i)) \<union>
      last_events s (fd_FileID fd) (inodes w i) ?n"
    using ne assms(2) by (simp add: job_events_def)
  consider "k * ?bs + ?bs \<le> length (inodes w i)" "block = take ?bs (drop (k * ?bs) (inodes w i))"
    | "?n mod ?bs \<noteq> 0" "k = ?n div ?bs" "block = block_at ?bs (?n mod ?bs) (inodes w i) (k * ?bs)"
    using assms(1) unfolding in_place_def by blast
  then show ?thesis
  proof cases
    case 1
    then have "k * ?bs \<in> {p. 0 \<le> p \<and> p mod ?bs = 0 \<and> p + ?bs \<le> length (inodes w i)}" by simp
    then have "event_of (fd_FileID fd) (k * ?bs) loc \<in> file_events s (fd_FileID fd) (inodes w i) 0 (length (inodes w i))"
      unfolding file_events_def Let_def by (rule UN_I) (use ev 1(2) in \<open>simp only:\<close>)
    then show ?thesis unfolding je by (rule UnI1)
  next
    case 2
    have "last_start ?bs ?n = k * ?bs" "?n - k * ?bs = ?n mod ?bs"
      using last_start_div[OF assms(3) 2(1)] 2(2) by (simp_all add: minus_div_mult_eq_mod)
    then have "last_events s (fd_FileID fd) (inodes w i) ?n = window_events s (fd_FileID fd) (k * ?bs) block"
      unfolding last_events_def Let_def using 2(1,3) by (simp only: if_False)
    then show ?thesis unfolding je using ev by (intro UnI2) (simp only:)
  qed
qed

text \<open>A block of the set that lies in its place in its file.\<close>

definition present :: "Decoder \<Rightarrow> FileID \<Rightarrow> nat \<Rightarrow> bool" where
  "present d fid k \<longleftrightarrow> (\<exists>fd\<in>set (protectedFiles d). fd_FileID fd = fid \<and> (\<exists>i block pair.
     dir (root d) (Filename fd) = Some i \<and> in_place (sliceByteCount d) (ByteCount fd) (inodes (root d) i) k block \<and>
     wants d fid k pair \<and> le_word (CRC32 pair) = ChecksumIEEE block \<and> MD5 pair = md5 block))"

text \<open>The state in which the scan starts.\<close>

definition before_scan :: "Decoder \<Rightarrow> bool \<Rightarrow> Decoder \<Rightarrow> bool" where
  "before_scan d0 b d \<longleftrightarrow> verifying (root d0) d0 b {} d \<and> (b \<longrightarrow> states_pred (protectedFiles d0) (prescanned (root d0)) d)"

lemma wp_scan_present:
  assumes d: "before_scan d0 b d" and tab: "table_of d0 (lookupTable s)" and fits: "ifsc_fits d0"
    and bs: "sliceByteCount (sd s) = sliceByteCount d0" and win: "newCRC32Window (int (sliceByteCount d0)) = Ret (window s)"
    and lim: "scan_limits (sd s)" and quiet: "b \<longrightarrow> (\<forall>i k. quiet_env (envs i k))"
  shows "wp (scan s envs sched) (\<lambda>_. verifying (root d0) d0 b {(fid, k). b \<and> present d0 fid k}) (\<lambda>_ _. \<not> b) d"
proof -
  let ?w = "root d0"
  define L where "L = {(fid, k). located d fid k}"
  have v: "verifying ?w d0 b L d" using d by (auto simp: before_scan_def verifying_def L_def)
  have nz: "sliceByteCount (sd s) \<noteq> 0" using newCRC32Window_Ret(1)[OF win] bs by simp
  let ?E = "\<Union>fd\<in>{fd \<in> set (protectedFiles d0). to_scan d fd}. job_events s ?w (ScanProtected fd)"
  have "(fid, k) \<in> L \<union> found_by ?E" if b: "b" and p: "present d0 fid k" for fid k
  proof -
    obtain fd i block pair where fd: "fd \<in> set (protectedFiles d0)" "fd_FileID fd = fid" "dir ?w (Filename fd) = Some i"
      "in_place (sliceByteCount (sd s)) (ByteCount fd) (inodes ?w i) k block" "wants d0 fid k pair" "le_word (CRC32 pair) = ChecksumIEEE block"
      "MD5 pair = md5 block" using p bs unfolding present_def by auto
    obtain loc where loc: "hits s (ChecksumIEEE block) block loc" "fileID loc = fid" "shardIndex loc = k"
      using tab fd(5-7) unfolding table_of_def by blast
    obtain fd' st where st: "map_of (fileIntegrity d) fid = Some st" "k < length (ShardLocations st)"
      using fits_range[OF v fits fd(5)] by metis
    show ?thesis
    proof (cases "to_scan d fd")
      case True
      then have "event_of (fd_FileID fd) (k * sliceByteCount (sd s)) loc \<in> ?E"
        using in_place_event[OF fd(4,3) nz loc(1)] fd(1) by blast
      then have "(fid, k) \<in> found_by ?E" unfolding found_by_def
        by (rule rev_image_eqI) (simp add: event_of_def loc)
      then show ?thesis by simp
    next
      case False
      then have "skipsBlockScan st" using st(1) fd(2) by (simp add: to_scan_def)
      moreover have "prescanned ?w fd st" using d b fd(1,2) st(1) by (simp add: before_scan_def states_pred_def)
      ultimately have "\<forall>l\<in>set (ShardLocations st). Offset l \<noteq> -1" using fd(3) by (auto simp: skipsBlockScan_def prescanned_def)
      then show ?thesis using st by (simp add: L_def located_def)
    qed
  qed
  then have "{(fid, k). b \<and> present d0 fid k} \<subseteq> L \<union> (if b then found_by ?E else {})" by auto
  note sub = this
  show ?thesis
    by (rule wp_mono[OF wp_scan[OF v tab fits _ lim quiet]]) (use bs win sub in \<open>auto elim!: verifying_mono\<close>)
qed

lemma keeps_verifying_prescan:
  "keeps (before_scan d0 b) prescanCandidateMatches" "keeps (before_scan d0 b) prescanProtectedMatches"
  "keeps (before_scan d0 b) calculateBytesToScan" "keeps (before_scan d0 b) buildLookupTable"
  using safe_keeps[OF safe_prescanCandidateMatches, of "root d0" d0 b "{}"] prescanCandidateMatches_prescanned[of "protectedFiles d0" "root d0"]
    safe_keeps[OF safe_prescanProtectedMatches, of "root d0" d0 b "{}"] prescanProtectedMatches_prescanned[of "protectedFiles d0" "root d0"]
  by (simp_all add: keeps_def before_scan_def keeps_calculateBytesToScan[unfolded keeps_def, rule_format]
      keeps_buildLookupTable[unfolded keeps_def, rule_format])

lemma before_scan_phase:
  assumes "before_scan d0 b d"
  shows "wp prescanCandidateMatches (\<lambda>_. before_scan d0 b) (\<lambda>_ _. \<not> b) d"
    "wp prescanProtectedMatches (\<lambda>_. before_scan d0 b) (\<lambda>_ _. \<not> b) d"
    "wp calculateBytesToScan (\<lambda>_. before_scan d0 b) (\<lambda>_ _. \<not> b) d"
proof -
  have v: "verifying (root d0) d0 b {} d" using assms by (simp add: before_scan_def)
  show "wp prescanCandidateMatches (\<lambda>_. before_scan d0 b) (\<lambda>_ _. \<not> b) d"
    by (rule wp_safe_keeps[OF safe_prescanCandidateMatches v keeps_verifying_prescan(1) assms])
  show "wp prescanProtectedMatches (\<lambda>_. before_scan d0 b) (\<lambda>_ _. \<not> b) d"
    by (rule wp_safe_keeps[OF safe_prescanProtectedMatches v keeps_verifying_prescan(2) assms])
  show "wp calculateBytesToScan (\<lambda>_. before_scan d0 b) (\<lambda>_ _. \<not> b) d"
    by (rule wp_safe_keeps[OF safe_calculateBytesToScan v keeps_verifying_prescan(3) assms])
qed

text \<open>The set can be verified at all: its slices fit the sliding window and there are not too many of them.\<close>

definition verifiable :: "Decoder \<Rightarrow> bool" where
  "verifiable d \<longleftrightarrow> 4 \<le> sliceByteCount d \<and> shard_total (sliceByteCount d) (protectedFiles d) \<le> 32768"

definition fresh :: "Decoder \<Rightarrow> bool \<Rightarrow> Decoder \<Rightarrow> bool" where
  "fresh d0 b d \<longleftrightarrow> verifying (root d0) d0 b {} d \<and>
     states_pred (protectedFiles d0) (\<lambda>_ st. Damage st = damageUnchecked \<and> RenameSource st = []) d"

lemma wp_init:
  assumes "distinct (map fd_FileID (protectedFiles d))" "calm_world b (root d)" "b \<longrightarrow> verifiable d"
  shows "wp initFileIntegrity (\<lambda>_. fresh d b) (\<lambda>_ _. \<not> b) d"
proof -
  obtain r d' where r: "initFileIntegrity d = (r, d')" by (cases "initFileIntegrity d")
  note cases = initFileIntegrity_cases[OF assms(1)]
  show ?thesis
  proof (cases r)
    case (Ret u)
    then have i: "initFileIntegrity d = (Ret u, d')" using r by simp
    have d': "d' = d\<lparr>fileIntegrity := map (\<lambda>f. (fd_FileID f, fresh_state (sliceByteCount d) f)) (protectedFiles d)\<rparr>"
      using cases i by (auto split: if_splits)
    have "fresh d b d'"
      using init_sound[OF i assms(1)] fresh_prescanned[OF i assms(1)] assms(2) by (simp add: fresh_def verifying_def d')
    then show ?thesis using i by (simp add: wp_def)
  next
    case (Error e)
    then have "\<not> b" using cases r assms(3) by (auto simp: verifiable_def split: if_splits)
    then show ?thesis using r Error by (simp add: wp_def)
  next
    case (Panic p)
    then show ?thesis using cases r by (auto split: if_splits)
  qed
qed

lemma wp_check:
  assumes "fresh d0 b d" "distinct (map fd_FileID (protectedFiles d0))"
  shows "wp checkFileExistence (\<lambda>_ d'. verifying (root d0) d0 b {} d' \<and>
      (b \<longrightarrow> states_pred (protectedFiles d0) (checked (root d0)) d')) (\<lambda>_ _. \<not> b) d"
proof (cases b)
  case False
  have "wp checkFileExistence (\<lambda>_. verifying (root d0) d0 b {}) (\<lambda>_ s'. \<not> b \<and> verifying (root d0) d0 b {} s') d"
    using safe_checkFileExistence assms(1) unfolding safe_def fresh_def by blast
  then show ?thesis by (rule wp_mono) (simp_all add: False)
next
  case True
  let ?J = "\<lambda>d. verifying (root d0) d0 True {} d \<and> states_pred (protectedFiles d0) (checked (root d0)) d"
  have J: "?J d" using assms(1) True by (auto simp: fresh_def states_pred_def checked_def)
  have fs: "gives ?J (getG protectedFiles) (\<lambda>x. x = protectedFiles d0)"
    by (auto simp: gives_def keeps go_defs verifying_def sound_def)
  have "keeps ?J checkFileExistence"
    unfolding checkFileExistence_def
    by (rule keeps_bind_gives[OF fs]) (auto intro!: keeps_for keeps_check_exists assms(2))
  from wp_safe_keeps[OF safe_checkFileExistence conjunct1[OF J] this J] show ?thesis by (simp add: True)
qed

lemma wp_VerifyScans:
  assumes dist: "distinct (map fd_FileID (protectedFiles d))" and calm: "calm_world b (root d)" and ok: "b \<longrightarrow> verifiable d"
    and lim: "scan_limits d" and pc: "pair_count d \<le> 2 ^ 28" and fits: "ifsc_fits d" and quiet: "b \<longrightarrow> (\<forall>i k. quiet_env (envs i k))"
  shows "wp (VerifyScans envs sched)
    (\<lambda>_ d'. verifying (root d) d b {(fid, k). b \<and> present d fid k} d' \<and> decided (protectedFiles d) d') (\<lambda>_ _. \<not> b) d"
proof -
  let ?L = "{(fid, k). b \<and> present d fid k}" and ?E = "\<lambda>(_ :: string) (_ :: Decoder). \<not> b"
  let ?Q = "\<lambda>_ d'. verifying (root d) d b ?L d' \<and> decided (protectedFiles d) d'"
  have fin: "wp (bindG verifyProtectedFilesHashes (\<lambda>_. bindG (onRoot ctxErr) (\<lambda>canc.
      if canc then errG ''context canceled'' else retG ()))) ?Q ?E d1" if v: "verifying (root d) d b ?L d1" for d1
  proof -
    have hash: "wp verifyProtectedFilesHashes (\<lambda>_ d'. (sound (root d) (protectedFiles d) (sliceByteCount d) d' \<and> decided (protectedFiles d) d') \<and>
        verifying (root d) d b ?L d') ?E d1"
      by (rule wp_keeps[OF wp_verifyProtectedFilesHashes[OF verifying_sound[OF v]] safe_keeps[OF safe_verifyProtectedFilesHashes] v])
    have ctx: "wp (onRoot ctxErr) (\<lambda>canc. wp (if canc then errG ''context canceled'' else retG ()) ?Q ?E) ?E d2"
      if "verifying (root d) d b ?L d2" "decided (protectedFiles d) d2" for d2
      by (rule wp_verifying_ctx[OF that(1)]) (use that(2) in \<open>auto simp: wp decided_def\<close>)
    show ?thesis unfolding wp_bind by (rule wp_mono[OF hash]) (use ctx in auto)
  qed
  have scanned: "wp (scan s envs sched) (\<lambda>_. wp (bindG verifyProtectedFilesHashes (\<lambda>_. bindG (onRoot ctxErr) (\<lambda>canc.
      if canc then errG ''context canceled'' else retG ()))) ?Q ?E) ?E d1"
    if "before_scan d b d1" "table_of d (lookupTable s)" "sliceByteCount (sd s) = sliceByteCount d"
      "newCRC32Window (int (sliceByteCount d)) = Ret (window s)" "numGoroutines (sd s) = numGoroutines d" for s d1
  proof -
    have "scan_limits (sd s)" using lim that(3,5) by (simp add: scan_limits_def)
    then show ?thesis by (rule wp_mono[OF wp_scan_present[OF that(1,2) fits that(3,4) _ quiet]]) (use fin in auto)
  qed
  have win: "wp (liftR (newCRC32Window (int (sliceByteCount d)))) (\<lambda>win d'. d' = d1 \<and> newCRC32Window (int (sliceByteCount d)) = Ret win) ?E d1" for d1
    using ok lim by (auto simp: wp_liftR newCRC32Window_def verifiable_def scan_limits_def scanChunkSize_def Let_def)
  have bs: "sliceByteCount d1 = sliceByteCount d" "numGoroutines d1 = numGoroutines d" "makechan (numGoroutines d1) = Ret ()" if "before_scan d b d1" for d1
    using that lim by (simp_all add: before_scan_def verifying_def sound_def scan_limits_def)
  have tab: "wp buildLookupTable (\<lambda>t d'. d' = d1 \<and> table_of d t) ?E d1" if "before_scan d b d1" for d1
    using build_table[OF _ pc] that unfolding before_scan_def wp_def by fastforce
  have "wp (bindG (getG sliceByteCount) (\<lambda>bs. bindG (liftR (newCRC32Window (int bs))) (\<lambda>win.
             bindG buildLookupTable (\<lambda>tab. bindG (getG (\<lambda>d. d)) (\<lambda>d.
               bindG (liftR (makechan (numGoroutines d))) (\<lambda>_.
                 bindG (scan \<lparr>sd = d, window = win, lookupTable = tab, resolvedCandidates = resolved\<rparr> envs sched) (\<lambda>_.
                   bindG verifyProtectedFilesHashes (\<lambda>_. bindG (onRoot ctxErr) (\<lambda>canc.
                     if canc then errG ''context canceled'' else retG ()))))))))) ?Q ?E d1" if d1: "before_scan d b d1" for d1 resolved
    unfolding wp_bind wp_basic bs(1)[OF d1]
  proof (rule wp_mono[OF win], elim conjE, simp only:, rule wp_mono[OF tab[OF d1]], elim conjE)
    fix w t d2 d3 assume "d3 = d1" "newCRC32Window (int (sliceByteCount d)) = Ret w" "table_of d t"
    then show "wp (liftR (makechan (numGoroutines d3))) (\<lambda>_. wp (scan \<lparr>sd = d3, window = w, lookupTable = t, resolvedCandidates = resolved\<rparr> envs sched)
       (\<lambda>x. wp verifyProtectedFilesHashes (\<lambda>x. wp (onRoot ctxErr)
          (\<lambda>x. wp (if x then errG ''context canceled'' else retG ()) ?Q ?E) ?E) ?E) ?E) ?E d3"
      using scanned[OF d1, of "\<lparr>sd = d3, window = w, lookupTable = t, resolvedCandidates = resolved\<rparr>"] bs[OF d1]
      unfolding wp_bind wp_liftR by simp
  qed auto
  note rest = this
  have before: "before_scan d b d1" if "verifying (root d) d b {} d1" "b \<longrightarrow> states_pred (protectedFiles d) (checked (root d)) d1" for d1
    using that by (auto simp: before_scan_def states_pred_def checked_def prescanned_def)
  show ?thesis
    unfolding VerifyScans_def
    by (rule wp_then[OF wp_init[OF dist calm ok]], rule wp_then[OF wp_check[OF _ dist]], assumption,
      rule wp_then[OF before_scan_phase(1)[OF before]], erule conjunct1, erule conjunct2,
      rule wp_then[OF before_scan_phase(2)], assumption, rule wp_then[OF before_scan_phase(3)], assumption, rule rest)
qed

section \<open>An intact set is found intact\<close>

definition all_intact :: "Decoder \<Rightarrow> bool" where
  "all_intact d \<longleftrightarrow> (\<forall>fd\<in>set (protectedFiles d). intact (root d) fd)"

definition nothing_missing :: "Decoder \<Rightarrow> Decoder \<Rightarrow> bool" where
  "nothing_missing d0 d \<longleftrightarrow> verifying (root d0) d0 True {} d \<and> states_pred (protectedFiles d0) (prescanning []) d"

lemma gives_nothing_missing: "gives (nothing_missing d0) missingByQuickKey (\<lambda>m. m = [])"
proof -
  have fs: "gives (nothing_missing d0) (getG protectedFiles) (\<lambda>x. x = protectedFiles d0)"
    by (auto simp: gives_def keeps go_defs nothing_missing_def verifying_def sound_def)
  have st: "gives (nothing_missing d0) (getState (fd_FileID fd)) (\<lambda>st. Damage st \<noteq> damageMissing)" if "fd \<in> set (protectedFiles d0)" for fd
    using that by (auto simp: gives_def keeps nothing_missing_def getState_def states_pred_def prescanning_def split: option.splits)
  show ?thesis unfolding missingByQuickKey_def
    by (rule gives_bind[OF fs], simp, rule gives_fold) (auto intro!: gives_bind[OF st] gives_ret)
qed

lemma prescanCandidateMatches_nothing: "keeps (nothing_missing d0) prescanCandidateMatches"
  unfolding prescanCandidateMatches_def
  by (intro keeps_bind keeps_simple keeps_if keeps_bind_gives[OF gives_nothing_missing]) simp

lemma wp_prescan_protected_loop:
  assumes "verifying w d0 True L d" "states_pred (protectedFiles d0) (prescanning pre) d"
    "set fds \<subseteq> set (protectedFiles d0)" "\<And>fd. fd \<in> set fds \<Longrightarrow> intact w fd" "distinct (map fd_FileID (protectedFiles d0))"
  shows "wp (prescan_protected_loop fds) (\<lambda>_ d'. verifying w d0 True L d' \<and> states_pred (protectedFiles d0) (prescanning (pre @ fds)) d') E d"
  using assms
proof (induction fds arbitrary: pre d)
  case (Cons fd fds)
  have "wp (prescan_protected fd) (\<lambda>_ d'. verifying w d0 True L d' \<and> states_pred (protectedFiles d0) (prescanning (pre @ [fd])) d') E d1"
    if "verifying w d0 True L d1" "fileIntegrity d1 = fileIntegrity d" for d1
    by (rule wp_prescan_protected) (use Cons.prems that in \<open>auto simp: states_pred_def\<close>)
  then have "wp (bindG (prescan_protected fd) (\<lambda>_. prescan_protected_loop fds))
      (\<lambda>_ d'. verifying w d0 True L d' \<and> states_pred (protectedFiles d0) (prescanning (pre @ fd # fds)) d') E d1"
    if "verifying w d0 True L d1" "fileIntegrity d1 = fileIntegrity d" for d1
    by (rule wp_then) (use that Cons.IH[of _ "pre @ [fd]"] Cons.prems(3-5) in auto)
  then show ?case
    unfolding prescan_protected_loop.simps wp_bind[of "onRoot ctxErr"]
    by (intro wp_verifying_ctx[OF Cons.prems(1)] wp_ifI) auto
qed (simp add: wp)

lemma ends_prescanProtected:
  assumes "all_intact d0" "distinct (map fd_FileID (protectedFiles d0))"
  shows "ends (nothing_missing d0) prescanProtectedMatches (\<lambda>_. healthy d0)"
  unfolding ends_def
proof (intro allI impI)
  fix d u d' assume d: "nothing_missing d0 d" and r: "prescanProtectedMatches d = (Ret u, d')"
  have fs: "protectedFiles d = protectedFiles d0" using d by (simp add: nothing_missing_def verifying_def sound_def)
  have "wp prescanProtectedMatches (\<lambda>_ d'. verifying (root d0) d0 True {} d' \<and>
      states_pred (protectedFiles d0) (prescanning ([] @ protectedFiles d0)) d') (\<lambda>_ _. True) d"
    unfolding prescanProtectedMatches_def wp_bind wp_basic fs
    by (rule wp_prescan_protected_loop) (use d assms in \<open>auto simp: nothing_missing_def all_intact_def\<close>)
  from wp_D(1)[OF this r] show "healthy d0 d'"
    by (auto simp: healthy_def verifying_def sound_def states_pred_def prescanning_def)
qed

lemma ends_VerifyScans_intact:
  assumes "all_intact d" "distinct (map fd_FileID (protectedFiles d))" "calm_world True (root d)" "verifiable d"
  shows "ends (\<lambda>d1. d1 = d) (VerifyScans envs sched) (\<lambda>_. healthy d)"
proof -
  have init: "ends (\<lambda>d1. d1 = d) initFileIntegrity (\<lambda>_. fresh d True)"
    unfolding ends_def using wp_D(1)[OF wp_init[OF assms(2,3)]] assms(4) by blast
  have check: "ends (fresh d True) checkFileExistence (\<lambda>_. nothing_missing d)"
    unfolding ends_def
  proof (intro allI impI)
    fix d1 u d2 assume "fresh d True d1" "checkFileExistence d1 = (Ret u, d2)"
    then have "verifying (root d) d True {} d2" "states_pred (protectedFiles d) (checked (root d)) d2"
      using wp_D(1)[OF wp_check[OF _ assms(2)]] by blast+
    then show "nothing_missing d d2"
      using assms(1) by (fastforce simp: nothing_missing_def states_pred_def checked_def prescanning_def all_intact_def intact_def)
  qed
  have static: "gives (healthy d) (getG (\<lambda>d. d)) (\<lambda>d1. sliceByteCount d1 = sliceByteCount d)"
    "gives (healthy d) (getG sliceByteCount) (\<lambda>x. x = sliceByteCount d)"
    by (simp_all add: gives_def keeps go_defs healthy_def)
  have fin: "ends (healthy d) (bindG (onRoot ctxErr) (\<lambda>canc. if canc then errG ''context canceled'' else retG ())) (\<lambda>_. healthy d)"
    by (intro ends_bind_keeps[OF keeps_healthy_root] ends_if ends_simple)
  show ?thesis
    unfolding VerifyScans_def
    by (rule ends_bind[OF init], rule ends_bind[OF check], rule ends_bind_keeps[OF prescanCandidateMatches_nothing],
        rule ends_bind[OF ends_prescanProtected[OF assms(1,2)]], rule ends_bind_keeps[OF keeps_calculateBytesToScan],
        rule ends_bind_gives[OF static(2)], rule ends_bind_gives[OF gives_liftR], rule ends_bind_keeps[OF keeps_buildLookupTable],
        rule ends_bind_gives[OF static(1)], rule ends_bind_keeps[OF keeps_simple(3)], rule ends_bind_keeps[OF scan_healthy], simp, rule ends_bind_keeps[OF verify_healthy fin])
qed

lemma intact_verifies:
  assumes "all_intact d" "distinct (map fd_FileID (protectedFiles d))" "calm_world True (root d)" "verifiable d"
    "pair_count d \<le> 2 ^ 28" "ifsc_fits d" "scan_limits d" "\<And>i k. quiet_env (envs i k)"
  shows "\<exists>d'. VerifyScans envs sched d = (Ret (), d') \<and> \<not> RepairNeeded (shardCountsLocked d')"
proof -
  have "wp (VerifyScans envs sched) (\<lambda>_ d'. True) (\<lambda>_ _. False) d"
    by (rule wp_mono[OF wp_VerifyScans[where b = True]]) (use assms in auto)
  then obtain d' where d': "VerifyScans envs sched d = (Ret (), d')" using wp_total by fastforce
  then have "healthy d d'" using ends_VerifyScans_intact[OF assms(1-4)] unfolding ends_def by blast
  then show ?thesis using d' healthy_verdict assms(2) by blast
qed

section \<open>A set with one file\<close>

definition sample_file :: FileDescPacket where
  "sample_file = \<lparr>fd_FileID = replicate 16 1, fd_Hash = md5 [1, 2, 3, 4], SixteenKHash = md5 [1, 2, 3, 4],
     ByteCount = 4, Filename = ascii ''a''\<rparr>"

definition sample_world :: world where
  "sample_world = \<lparr>dir = [ascii ''a'' \<mapsto> 0], inodes = (\<lambda>_. [1, 2, 3, 4]), nextInode = 1, listing = [], separator = 0x2f,
     randText = (\<lambda>_. []), ticks = 0, faults = (\<lambda>_. None), cancelAt = None\<rparr>"

definition sample_pair :: ChecksumPair where
  "sample_pair = \<lparr>MD5 = md5 [1, 2, 3, 4], CRC32 = le_bytes 4 (ChecksumIEEE [1, 2, 3, 4])\<rparr>"

definition sample_set :: Decoder where
  "sample_set = \<lparr>numGoroutines = 1, memoryLimit = 16, maxFileSize = 0, maxPacketSize = 0, root = sample_world,
     sliceByteCount = 4, recoverySetID = zeroID, protectedFiles = [sample_file],
     fileChecksums = [(replicate 16 1, \<lparr>ifsc_FileID = replicate 16 1, ChecksumPairs = [sample_pair]\<rparr>)],
     parityShards = [], fileIntegrity = [], candidateFiles = [], candidateByID = [], parityFileBlocks = []\<rparr>"

definition quiet_genv :: genv where
  "quiet_genv = \<lparr>gfaults = (\<lambda>_. None), gcancel = None, gothers = (\<lambda>_ _. False), gstart = True\<rparr>"

lemma sample_shards: "shardCount 4 4 = (1 :: u64)"
  by (simp add: shardCount_def)

lemma sample_ok:
  "all_intact sample_set" "distinct (map fd_FileID (protectedFiles sample_set))" "calm_world True (root sample_set)"
  "verifiable sample_set" "pair_count sample_set \<le> 2 ^ 28" "ifsc_fits sample_set" "scan_limits sample_set" "quiet_env quiet_genv"
  by (simp_all add: all_intact_def intact_def sample_set_def sample_file_def sample_world_def quickHashSize_def calm_world_def
      verifiable_def shard_total_def sample_shards pair_count_def ifsc_fits_def scan_limits_def scanChunkSize_def maxAlloc_def
      quiet_env_def quiet_genv_def)

lemma sample_verifies:
  "\<exists>d'. VerifyScans (\<lambda>_ _. quiet_genv) [] sample_set = (Ret (), d') \<and> \<not> RepairNeeded (shardCountsLocked d')"
  using intact_verifies[OF sample_ok(1-7), of "\<lambda>_ _. quiet_genv"] sample_ok(8) by blast

section \<open>Properties\<close>

text \<open>C8. A verdict of the engine is true on disk: when \<open>VerifyScans\<close> returns without an error and \<open>RepairNeeded\<close> is
  false, every protected file is there under its own name with the recorded MD5, and the verification has changed
  no file. This holds whatever the files contain, whichever calls fail, whenever the context is cancelled, and
  however the goroutines are interleaved.\<close>

theorem verified_files_are_intact:
  assumes "distinct (map fd_FileID (protectedFiles d))"
    and "VerifyScans envs sched d = (Ret (), d')" "\<not> RepairNeeded (shardCountsLocked d')"
  shows "same_files (root d) (root d') \<and>
    (\<forall>fd\<in>set (protectedFiles d). \<exists>i. dir (root d) (Filename fd) = Some i \<and> md5 (inodes (root d) i) = fd_Hash fd)"
proof -
  have s: "sound (root d) (protectedFiles d) (sliceByteCount d) d'" "decided (protectedFiles d) d'"
    using VerifyScans_sound[OF assms(1,2)] by blast+
  then show ?thesis using settled_verdict[OF s assms(3)] by (auto simp: sound_def content_hash_def)
qed

theorem verified_files_are_intact_witness:
  "\<exists>d'. VerifyScans (\<lambda>_ _. quiet_genv) [] sample_set = (Ret (), d') \<and> same_files (root sample_set) (root d')"
proof -
  obtain d' where "VerifyScans (\<lambda>_ _. quiet_genv) [] sample_set = (Ret (), d')" "\<not> RepairNeeded (shardCountsLocked d')"
    using sample_verifies by blast
  then show ?thesis using verified_files_are_intact[OF sample_ok(2)] by blast
qed

text \<open>C12. Verification does not crash: \<open>VerifyScans\<close> returns, with or without an error, and never panics, whatever the files
  contain, whichever calls fail and however the goroutines are interleaved, and in particular every probe of the lookup table
  and every loop of the scanner ends, on every set with distinct file identifiers, as loading
  gives, that meets four conditions. No checksum packet lists more blocks than its file has; there are at most \<open>2 ^ 28\<close> checksums; the slice size is at most \<open>2 ^ 48\<close> bytes less the 32 MiB of a
  chunk, so that the buffers are not beyond the address space of the heap; and there is at least one goroutine, as
  \<open>NewDecoder\<close> provides. Each is needed: the collector panics on a block too many, \<open>make\<close> panics on a buffer that is
  too long, and a semaphore without slots lets no chunk start.\<close>

theorem VerifyScans_never_panics:
  assumes "distinct (map fd_FileID (protectedFiles d))" "pair_count d \<le> 2 ^ 28" "ifsc_fits d"
    and "0 < numGoroutines d" "int (sliceByteCount d) + int scanChunkSize \<le> 2 ^ 48"
  shows "fst (VerifyScans envs sched d) \<noteq> Panic p"
proof -
  have "scan_limits d" using assms(4,5) by (simp add: scan_limits_def maxAlloc_def)
  then have "wp (VerifyScans envs sched) (\<lambda>_ _. True) (\<lambda>_ _. True) d"
    by (intro wp_mono[OF wp_VerifyScans[where b = False]]) (use assms in \<open>auto simp: calm_world_def\<close>)
  then show ?thesis by (auto simp: wp_def split: prod.splits res.splits)
qed

theorem VerifyScans_never_panics_witness: "fst (VerifyScans (\<lambda>_ _. quiet_genv) [] sample_set) \<noteq> Panic ''p''"
  using VerifyScans_never_panics[OF sample_ok(2,5,6)] by (simp add: sample_set_def scanChunkSize_def)



text \<open>C13. No false alarm: when every protected file is intact on disk, no call fails and the context is not cancelled, \<open>VerifyScans\<close>
  returns and no repair is needed, whatever candidate files are registered and whatever they hold, on every set that can be
  verified: distinct file identifiers, slices of at least four bytes and at most 32768 of them, no checksum packet that lists more blocks than
  its file has, at most \<open>2 ^ 28\<close> checksums, buffers that can be allocated and a goroutine to run.\<close>

theorem intact_set_is_reported_intact:
  assumes "\<forall>fd\<in>set (protectedFiles d). intact (root d) fd" "distinct (map fd_FileID (protectedFiles d))"
    and "calm_world True (root d)" "verifiable d" "pair_count d \<le> 2 ^ 28" "ifsc_fits d" "scan_limits d" "\<forall>i k. quiet_env (envs i k)"
  shows "\<exists>d'. VerifyScans envs sched d = (Ret (), d') \<and> \<not> RepairNeeded (shardCountsLocked d')"
  using intact_verifies[OF _ assms(2-7), of envs sched] assms(1,8) by (simp add: all_intact_def)

theorem intact_set_is_reported_intact_witness:
  "\<exists>d'. VerifyScans (\<lambda>_ _. quiet_genv) [0] sample_set = (Ret (), d') \<and> \<not> RepairNeeded (shardCountsLocked d')"
  using intact_set_is_reported_intact[OF _ sample_ok(2-7), of "\<lambda>_ _. quiet_genv" "[0]"] sample_ok(1,8)
  by (simp add: all_intact_def)

end
