(* ===== verification/Repair_Plan.thy ===== *)
theory Repair_Plan
  imports Integrity "HOL-Library.Signed_Division"
begin

text \<open>
  The plan of \<open>src/par2/repair.go\<close>: the checks on the parity shards, the size and number of the chunks, the
  flattened locations that line up with the rows of the Reed-Solomon matrix, and the files to rebuild.
  \<open>int64\<close> arithmetic is on integers; the one sum that can pass \<open>2 ^ 63\<close>, in the number of chunks, is wrapped.
\<close>

section \<open>The plan\<close>

record flattenedLocation =
  fl_targetFileID :: FileID
  fl_targetFilename :: bytes
  fl_shardIndex :: nat
  fl_sourceFileID :: FileID
  fl_sourceFilename :: bytes
  diskOffset :: int

record repairPlan =
  plan_counts :: ShardCounts
  totalDataShards :: nat
  totalParityShards :: nat
  chunkSize :: int
  numChunks :: int
  flatLocs :: "flattenedLocation list"
  needsWrite :: "(bytes \<times> bool) list"
  filesRenamed :: nat

definition validateParityShards :: "Decoder \<Rightarrow> unit res" where
  "validateParityShards d =
     foldR (\<lambda>(exp, parityBytes) _.
         if length parityBytes \<noteq> sliceByteCount d then Error ''recovery packet data length is not sliceByteCount''
         else Ret ())
       (Decoder.parityShards d) ()"

definition computeChunkSize :: "Decoder \<Rightarrow> nat \<Rightarrow> nat \<Rightarrow> int res" where
  "computeChunkSize d shards unusable =
     (let denom = int (shards + unusable)
      in if denom \<le> 0 then Error ''invalid shard configuration for repair''
         else let chunk = min (memoryLimit d sdiv denom) (int (sliceByteCount d)) in Ret (max (chunk sdiv 16 * 16) 16))"

definition buildFileIDToFilenameMap :: "Decoder \<Rightarrow> (FileID \<times> bytes) list" where
  "buildFileIDToFilenameMap d =
     fold (\<lambda>(path, fid) m. AList.update fid path m) (candidateFiles d)
       (fold (\<lambda>f m. AList.update (fd_FileID f) (Filename f) m) (protectedFiles d) [])"

definition flatten :: "(FileID \<times> bytes) list \<Rightarrow> FileDescPacket \<Rightarrow> shardLocation list \<Rightarrow> flattenedLocation list" where
  "flatten names f locs = map (\<lambda>(shardIdx, loc).
     \<lparr>fl_targetFileID = fd_FileID f, fl_targetFilename = Filename f, fl_shardIndex = shardIdx,
      fl_sourceFileID = loc_FileID loc,
      fl_sourceFilename = (if Offset loc \<noteq> -1
        then (case map_of names (loc_FileID loc) of None \<Rightarrow> [] | Some n \<Rightarrow> n) else []),
      diskOffset = Offset loc\<rparr>) (enumerate 0 locs)"

text \<open>The slice of \<open>totalDataShards\<close> entries is filled from the front; an entry past its end would panic.\<close>

definition buildFlatLocs :: "(FileID \<times> bytes) list \<Rightarrow> nat \<Rightarrow> flattenedLocation list dec" where
  "buildFlatLocs names totalShards =
     bindG (getG protectedFiles) (\<lambda>fs.
       foldG (\<lambda>f acc. bindG (getState (fd_FileID f)) (\<lambda>st.
         let acc' = acc @ flatten names f (ShardLocations st)
         in if totalShards < length acc' then liftR (Panic ''index out of range'') else retG acc')) fs [])"

definition misplaced :: "nat \<Rightarrow> FileID \<Rightarrow> shardLocation list \<Rightarrow> bool" where
  "misplaced bs fid locs \<longleftrightarrow>
     list_ex (\<lambda>(shardIdx, loc). Offset loc \<noteq> int (shardIdx * bs) \<or> loc_FileID loc \<noteq> fid) (enumerate 0 locs)"

definition buildNeedsWrite :: "(bytes \<times> bool) list dec" where
  "buildNeedsWrite =
     bindG (getG (\<lambda>d. (protectedFiles d, sliceByteCount d))) (\<lambda>(fs, bs).
       foldG (\<lambda>f m. bindG (getState (fd_FileID f)) (\<lambda>st.
         retG (if needsRebuild st \<or> misplaced bs (fd_FileID f) (ShardLocations st)
               then AList.update (Filename f) True m else m))) fs [])"

definition int64 :: "int \<Rightarrow> int" where
  "int64 x = sint (of_int x :: u64)"

definition chunk_count :: "nat \<Rightarrow> int \<Rightarrow> int" where
  "chunk_count sliceBytes chunk = int64 (int sliceBytes + chunk - 1) sdiv chunk"

definition planRepair :: "nat \<Rightarrow> repairPlan dec" where
  "planRepair renamed =
     bindG (bindG (getG validateParityShards) liftR) (\<lambda>_.
       bindG (getG shardCountsLocked) (\<lambda>counts.
         bindG (getG protectedFiles) (\<lambda>fs.
           bindG (foldG (\<lambda>f n. bindG (getState (fd_FileID f)) (\<lambda>st. retG (n + length (ShardLocations st)))) fs 0) (\<lambda>total.
             bindG (getG (\<lambda>d. fold max (map (unat \<circ> fst) (Decoder.parityShards d)) 0)) (\<lambda>maxExp.
               bindG (bindG (getG (\<lambda>d. computeChunkSize d total (UnusableDataShardCount counts))) liftR) (\<lambda>chunk.
                 bindG (getG buildFileIDToFilenameMap) (\<lambda>names.
                   bindG (getG (\<lambda>d. chunk_count (sliceByteCount d) chunk)) (\<lambda>n.
                     bindG (buildFlatLocs names total) (\<lambda>locs.
                       bindG buildNeedsWrite (\<lambda>needs.
                         retG \<lparr>plan_counts = counts, totalDataShards = total, totalParityShards = maxExp + 1,
                           chunkSize = chunk, numChunks = n, flatLocs = locs, needsWrite = needs,
                           filesRenamed = renamed\<rparr>))))))))))"

section \<open>The chunks\<close>

text \<open>The bytes of a slice that chunk \<open>k\<close> covers.\<close>

definition currChunkSize :: "nat \<Rightarrow> int \<Rightarrow> int \<Rightarrow> int \<Rightarrow> int" where
  "currChunkSize sliceBytes chunk n k = (if k = n - 1 then int sliceBytes - k * chunk else chunk)"

lemma int64_id: "- (2 ^ 63) \<le> x \<Longrightarrow> x < 2 ^ 63 \<Longrightarrow> int64 x = x"
  unfolding int64_def by (simp add: sint_sbintrunc' signed_take_bit_int_eq_self)

lemma sdiv_pos: "0 \<le> (a :: int) \<Longrightarrow> 0 < b \<Longrightarrow> a sdiv b = a div b"
  by (cases "a = 0") (simp_all add: signed_divide_int_def)

lemma computeChunkSize_bounds:
  assumes "0 < n + u" "0 \<le> memoryLimit d"
  obtains c where "computeChunkSize d n u = Ret c" "16 dvd c" "16 \<le> c" "c \<le> max 16 (int (sliceByteCount d))"
    "c * int (n + u) \<le> max (memoryLimit d) (16 * int (n + u))"
proof
  define m where "m = memoryLimit d"
  define k where "k = int (n + u)"
  define q where "q = min (m div k) (int (sliceByteCount d))"
  let ?c = "max (q div 16 * 16) 16"
  have k: "0 < k" and m: "0 \<le> m" using assms by (auto simp: k_def m_def)
  have q: "0 \<le> q" using k m by (simp add: q_def pos_imp_zdiv_nonneg_iff)
  show "computeChunkSize d n u = Ret ?c"
    unfolding computeChunkSize_def Let_def k_def[symmetric] m_def[symmetric]
    using k q by (simp add: sdiv_pos m flip: q_def)
  have q16: "q div 16 * 16 \<le> q" by presburger
  have "q * k \<le> m div k * k" using k by (intro mult_right_mono) (simp_all add: q_def)
  also have "\<dots> \<le> m" using k by (smt (verit) minus_mod_eq_div_mult pos_mod_sign)
  finally have "q div 16 * 16 * k \<le> m" using q16 k by (smt (verit) mult_right_mono)
  then show "?c * int (n + u) \<le> max (memoryLimit d) (16 * int (n + u))"
    unfolding m_def[symmetric] k_def[symmetric] by (auto simp: max_def)
  show "16 dvd ?c" by (auto simp: max_def)
  show "16 \<le> ?c" by simp
  show "?c \<le> max 16 (int (sliceByteCount d))" using q16 by (auto simp: q_def)
qed

lemma chunk_count_eq:
  assumes "0 < c" "c \<le> max 16 (int s)" "s < 2 ^ 62"
  shows "chunk_count s c = (int s + c - 1) div c"
proof -
  have "int s + c - 1 < 2 ^ 63" "0 \<le> int s + c - 1" using assms by auto
  then show ?thesis using assms(1) by (simp add: chunk_count_def int64_id sdiv_pos)
qed

lemma ceil_count:
  assumes "0 < (c :: nat)" "0 < s"
  defines "n \<equiv> (s + c - 1) div c"
  shows "0 < n" "(n - 1) * c < s" "s \<le> n * c"
proof -
  show "0 < n" using assms by (simp add: div_greater_zero_iff)
  show "(n - 1) * c < s" "s \<le> n * c" using ceil_bounds[OF assms(1,2)] by (simp_all add: n_def)
qed

text \<open>Planning only reads the decoder.\<close>

lemma planning_reads:
  "keeps I buildNeedsWrite" "keeps I (buildFlatLocs names n)" "keeps I (planRepair r)"
  unfolding planRepair_def buildNeedsWrite_def buildFlatLocs_def Let_def
  by (intro keeps | clarsimp intro!: keeps split: prod.split)+

lemma gives_value: "keeps (\<lambda>s. s = d) m \<Longrightarrow> gives (\<lambda>s. s = d) m (\<lambda>x. m d = (Ret x, d))"
  unfolding gives_def keeps_def by (metis snd_conv)

lemma planRepair_inv:
  assumes "planRepair r d = (Ret p, d')"
  shows "d' = d" "validateParityShards d = Ret ()"
    "computeChunkSize d (totalDataShards p) (UnusableDataShardCount (shardCountsLocked d)) = Ret (chunkSize p)"
    "numChunks p = chunk_count (sliceByteCount d) (chunkSize p)"
    "totalParityShards p = fold max (map (unat \<circ> fst) (Decoder.parityShards d)) 0 + 1"
    "foldG (\<lambda>f n. bindG (getState (fd_FileID f)) (\<lambda>st. retG (n + length (ShardLocations st)))) (protectedFiles d) 0 d =
      (Ret (totalDataShards p), d)"
    "buildFlatLocs (buildFileIDToFilenameMap d) (totalDataShards p) d = (Ret (flatLocs p), d)"
    "buildNeedsWrite d = (Ret (needsWrite p), d)"
proof -
  show "d' = d" using keeps_D[OF planning_reads(3)[of "\<lambda>d'. d' = d"] _ assms] by simp
  let ?total = "\<lambda>fs. foldG (\<lambda>f n. bindG (getState (fd_FileID f)) (\<lambda>st. retG (n + length (ShardLocations st)))) fs (0 :: nat)"
  let ?Q = "\<lambda>p. validateParityShards d = Ret () \<and>
    computeChunkSize d (totalDataShards p) (UnusableDataShardCount (shardCountsLocked d)) = Ret (chunkSize p) \<and>
    numChunks p = chunk_count (sliceByteCount d) (chunkSize p) \<and>
    totalParityShards p = fold max (map (unat \<circ> fst) (Decoder.parityShards d)) 0 + 1 \<and>
    ?total (protectedFiles d) d = (Ret (totalDataShards p), d) \<and>
    buildFlatLocs (buildFileIDToFilenameMap d) (totalDataShards p) d = (Ret (flatLocs p), d) \<and>
    buildNeedsWrite d = (Ret (needsWrite p), d)"
  let ?I = "\<lambda>d'. d' = d"
  have g: "gives ?I (getG f) (\<lambda>x. x = f d)" for f by (simp add: gives_def keeps getG_def)
  have l: "gives ?I (bindG (getG f) liftR) (\<lambda>x. f d = Ret x)" for f
    by (rule gives_bind[OF g]) (auto intro: gives_liftR)
  have t: "keeps ?I (?total fs)" for fs by (intro keeps)
  have "gives ?I (planRepair r) ?Q"
    unfolding planRepair_def
    by (rule gives_bind[OF l] gives_bind[OF g] gives_bind[OF gives_value[OF t]]
        gives_bind[OF gives_value[OF planning_reads(1)]] gives_bind[OF gives_value[OF planning_reads(2)]] gives_ret
        | simp)+
  then have "?Q p" using assms unfolding gives_def by blast
  then show "validateParityShards d = Ret ()"
    "computeChunkSize d (totalDataShards p) (UnusableDataShardCount (shardCountsLocked d)) = Ret (chunkSize p)"
    "numChunks p = chunk_count (sliceByteCount d) (chunkSize p)"
    "totalParityShards p = fold max (map (unat \<circ> fst) (Decoder.parityShards d)) 0 + 1"
    "?total (protectedFiles d) d = (Ret (totalDataShards p), d)"
    "buildFlatLocs (buildFileIDToFilenameMap d) (totalDataShards p) d = (Ret (flatLocs p), d)"
    "buildNeedsWrite d = (Ret (needsWrite p), d)"
    by blast+
qed

text \<open>The files that the plan rebuilds.\<close>

definition rebuilds :: "Decoder \<Rightarrow> FileDescPacket \<Rightarrow> bool" where
  "rebuilds d f = (case map_of (fileIntegrity d) (fd_FileID f) of
       None \<Rightarrow> False
     | Some st \<Rightarrow> needsRebuild st \<or> misplaced (sliceByteCount d) (fd_FileID f) (ShardLocations st))"

lemma needs_fold:
  assumes "foldG (\<lambda>f m. bindG (getState (fd_FileID f)) (\<lambda>st.
         retG (if needsRebuild st \<or> misplaced (sliceByteCount d) (fd_FileID f) (ShardLocations st)
               then AList.update (Filename f) True m else m))) fs m0 d = (Ret m, d')"
  shows "map_of m n = (if \<exists>f\<in>set fs. Filename f = n \<and> rebuilds d f then Some True else map_of m0 n) \<and>
    (\<forall>f\<in>set fs. map_of (fileIntegrity d) (fd_FileID f) \<noteq> None)"
  using assms
proof (induction fs arbitrary: m0)
  case (Cons f fs)
  then obtain st where st: "map_of (fileIntegrity d) (fd_FileID f) = Some st"
    by (auto simp: go_basic getState_def split: option.splits prod.splits)
  then have r: "rebuilds d f \<longleftrightarrow> needsRebuild st \<or> misplaced (sliceByteCount d) (fd_FileID f) (ShardLocations st)"
    by (simp add: rebuilds_def)
  let ?m = "if rebuilds d f then AList.update (Filename f) True m0 else m0"
  have "map_of m n = (if \<exists>f\<in>set fs. Filename f = n \<and> rebuilds d f then Some True else map_of ?m n) \<and>
      (\<forall>f\<in>set fs. map_of (fileIntegrity d) (fd_FileID f) \<noteq> None)"
    using Cons.IH[of ?m] Cons.prems st by (simp add: go_basic getState_def r)
  then show ?case using st by (auto simp: update_conv)
qed simp

lemma buildNeedsWrite_eq:
  assumes "buildNeedsWrite d = (Ret m, d')"
  shows "map_of m n = (if \<exists>f\<in>set (protectedFiles d). Filename f = n \<and> rebuilds d f then Some True else None)"
    "\<forall>f\<in>set (protectedFiles d). map_of (fileIntegrity d) (fd_FileID f) \<noteq> None"
  using needs_fold[of d "protectedFiles d" "[]" m d' n] assms by (simp_all add: buildNeedsWrite_def bindG_def getG_def)

lemma chunk_ranges_concat:
  assumes "0 < (c :: nat)" "0 < s"
  defines "n \<equiv> (s + c - 1) div c"
  shows "concat (map (\<lambda>k. [k * c..<k * c + (if k = n - 1 then s - k * c else c)]) [0..<n]) = [0..<s]"
proof -
  note n = ceil_count[OF assms(1,2), folded n_def]
  have "concat (map (\<lambda>k. [k * c..<k * c + (if k = n - 1 then s - k * c else c)]) [0..<m]) = [0..<m * c]" if "m < n" for m
    using that
  proof (induction m)
    case (Suc m)
    then show ?case using upt_add_eq_append[of 0 "m * c" c] by (simp add: add.commute)
  qed simp
  moreover obtain m where m: "n = Suc m" using n(1) by (cases n) auto
  ultimately show ?thesis using n(2) upt_add_eq_append[of 0 "m * c" "s - m * c"] by simp
qed

section \<open>Properties\<close>

text \<open>C37. A repair works through the slices in chunks: the chunk size is a multiple of 16 and at least 16, never larger than the
  slice (or 16); one chunk for each data shard and each missing shard together stay within the memory limit, unless
  that is below 16 bytes per shard (the buffers of the recovery shards in use come on top of it); and the chunks cover
  every byte of a slice exactly once, in order.\<close>

theorem chunks_partition_slice:
  assumes "planRepair r d = (Ret p, d')" "0 \<le> memoryLimit d" "0 < sliceByteCount d" "sliceByteCount d < 2 ^ 62"
  defines "c \<equiv> chunkSize p"
  shows "16 dvd c \<and> 16 \<le> c \<and> c \<le> max 16 (int (sliceByteCount d)) \<and>
    c * int (totalDataShards p + UnusableDataShardCount (shardCountsLocked d)) \<le>
      max (memoryLimit d) (16 * int (totalDataShards p + UnusableDataShardCount (shardCountsLocked d))) \<and>
    concat (map (\<lambda>k. [k * nat c..<k * nat c + nat (currChunkSize (sliceByteCount d) c (numChunks p) (int k))])
      [0..<nat (numChunks p)]) = [0..<sliceByteCount d]"
proof -
  note p = planRepair_inv[OF assms(1), folded c_def]
  let ?s = "sliceByteCount d"
  have "0 < totalDataShards p + UnusableDataShardCount (shardCountsLocked d)"
    using p(3) by (auto simp: computeChunkSize_def Let_def split: if_splits)
  from computeChunkSize_bounds[OF this assms(2)] p(3)
  have c: "16 dvd c" "16 \<le> c" "c \<le> max 16 (int ?s)"
    "c * int (totalDataShards p + UnusableDataShardCount (shardCountsLocked d)) \<le>
      max (memoryLimit d) (16 * int (totalDataShards p + UnusableDataShardCount (shardCountsLocked d)))"
    by (metis res.inject(1))+
  define m where "m = nat c"
  have m: "c = int m" "0 < m" using c(2) by (simp_all add: m_def)
  let ?n = "(?s + m - 1) div m"
  have "int ?s + int m - 1 = int (?s + m - 1)" using m(2) by linarith
  then have "numChunks p = int ?n"
    using chunk_count_eq[of c ?s] c(2,3) assms(4) p(4) unfolding m(1) by (metis m(1) order_less_le_trans zdiv_int zero_less_numeral)
  moreover have "nat (currChunkSize ?s (int m) (int ?n) (int k)) = (if k = ?n - 1 then ?s - k * m else m)" if "k < ?n" for k
  proof -
    have "int k = int ?n - 1 \<longleftrightarrow> k = ?n - 1" using that by linarith
    moreover have "nat (int ?s - int k * int m) = ?s - k * m" by (metis nat_int nat_minus_as_int of_nat_mult)
    ultimately show ?thesis unfolding currChunkSize_def if_distrib[of nat] by (simp only: nat_int)
  qed
  ultimately have "concat (map (\<lambda>k. [k * nat c..<k * nat c + nat (currChunkSize ?s c (numChunks p) (int k))]) [0..<nat (numChunks p)]) =
      concat (map (\<lambda>k. [k * m..<k * m + (if k = ?n - 1 then ?s - k * m else m)]) [0..<?n])"
    unfolding m(1) nat_int by (intro arg_cong[of _ _ concat] map_cong) auto
  also have "\<dots> = [0..<?s]" using chunk_ranges_concat[OF m(2) assms(3)] .
  finally show ?thesis using c by simp
qed

definition planned_set :: Decoder where
  "planned_set = small_set\<lparr>sliceByteCount := 40, memoryLimit := 64, fileIntegrity := [(zeroID, fresh_state 40 ten_bytes)]\<rparr>"

lemma planned_set_plan:
  "\<exists>p. planRepair 0 planned_set = (Ret p, planned_set) \<and> chunkSize p = 32 \<and> numChunks p = 2"
proof -
  have "shardCount 10 40 = 1" by (simp add: shardCount_def)
  then have "map_of (fileIntegrity planned_set) zeroID = Some (fresh_state 40 ten_bytes)"
    "ShardLocations (fresh_state 40 ten_bytes) = [missingLocation]"
    by (simp_all add: planned_set_def fresh_state_def ten_bytes_def)
  moreover have "int64 71 = 71" "int64 (40 + 32 - 1) = 71" by (simp_all add: int64_id)
  moreover have "protectedFiles planned_set = [ten_bytes]" "Decoder.parityShards planned_set = []" "fd_FileID ten_bytes = zeroID"
    "sliceByteCount planned_set = 40" "memoryLimit planned_set = 64" "fileIntegrity planned_set = [(zeroID, fresh_state 40 ten_bytes)]"
    by (simp_all add: planned_set_def small_set_def ten_bytes_def)
  moreover have "(71 :: int) sdiv 32 = 2" "(64 :: int) sdiv 2 = 32" "(32 :: int) sdiv 16 = 2" by (simp_all add: sdiv_pos)
  ultimately show ?thesis
    by (simp add: planRepair_def go_basic getState_def validateParityShards_def computeChunkSize_def Let_def chunk_count_def
        buildFlatLocs_def buildNeedsWrite_def flatten_def shardCountsLocked_def count_state_def missingLocation_def)
qed

theorem chunks_partition_slice_witness:
  "\<exists>p. planRepair 0 planned_set = (Ret p, planned_set) \<and>
     concat (map (\<lambda>k. [k * 32..<k * 32 + nat (currChunkSize 40 32 2 (int k))]) [0..<2]) = [0..<40]"
proof -
  obtain p where p: "planRepair 0 planned_set = (Ret p, planned_set)" "chunkSize p = 32" "numChunks p = 2"
    using planned_set_plan by blast
  have "sliceByteCount planned_set = 40" "0 \<le> memoryLimit planned_set" by (simp_all add: planned_set_def)
  with chunks_partition_slice[OF p(1)] p show ?thesis by simp
qed

end
