(* ===== verification/Repair.thy ===== *)
theory Repair
  imports Repair_Plan
begin

text \<open>
  The pipeline of \<open>src/par2/repair.go\<close>: reading the located blocks of a chunk, reconstructing the missing ones, writing
  every block of the files to rebuild into temp files, and installing these once all of them have passed
  their hash. An open file is its inode. The goroutines of \<open>finishRebuiltFiles\<close> run interleaved by a schedule;
  \<open>wg.Wait\<close> lets the ones that are not finished run to their end. The schedule of the Reed-Solomon goroutines
  is given per chunk; a chunk whose goroutines are never scheduled to their end keeps \<open>Repair\<close> waiting.
\<close>

section \<open>State\<close>

record repairPipeline =
  pd :: Decoder
  plan :: repairPlan
  dataBuffers :: "bytes list"
  parityBuffers :: "bytes list"
  activeDataShards :: "shard list"
  activeParityShards :: "shard list"
  coder :: Coder
  sources :: "(bytes \<times> handle) list"
  outputs :: "(bytes \<times> handle) list"
  tempNames :: "(bytes \<times> bytes) list"

type_synonym 'a pipe = "(repairPipeline, 'a) go"

definition onDecoder :: "'a dec \<Rightarrow> 'a pipe" where
  "onDecoder m p = (case m (pd p) of (r, d) \<Rightarrow> (r, p\<lparr>pd := d\<rparr>))"

definition onDisk :: "(world, 'a) go \<Rightarrow> 'a pipe" where
  "onDisk m = onDecoder (onRoot m)"

definition repairTempMarker :: bytes where
  "repairTempMarker = ascii ''.par2engine-''"

definition repairTempExt :: bytes where
  "repairTempExt = ascii ''.tmp''"

text \<open>The buffers of one chunk for each shard.\<close>

definition make_buffers :: "nat \<Rightarrow> int \<Rightarrow> bytes list res" where
  "make_buffers n chunk = (if n = 0 then Ret [] else bindR (makeslice chunk) (\<lambda>_. Ret (replicate n (replicate (nat chunk) 0))))"

definition newRepairPipeline :: "Decoder \<Rightarrow> repairPlan \<Rightarrow> repairPipeline res" where
  "newRepairPipeline d pl =
     bindR (make_buffers (totalDataShards pl) (chunkSize pl)) (\<lambda>dbufs.
     bindR (make_buffers (totalParityShards pl) (chunkSize pl)) (\<lambda>pbufs.
     bindR (NewCoderPAR2Vandermonde (int (totalDataShards pl)) (int (totalParityShards pl))) (\<lambda>c.
       Ret \<lparr>pd = d, plan = pl,
         dataBuffers = dbufs, parityBuffers = pbufs,
         activeDataShards = replicate (totalDataShards pl) None,
         activeParityShards = replicate (totalParityShards pl) None,
         coder = c, sources = [], outputs = [], tempNames = []\<rparr>)))"

section \<open>Files\<close>

definition getSource :: "bytes \<Rightarrow> handle pipe" where
  "getSource name =
     bindG (getG (\<lambda>p. map_of (sources p) name)) (\<lambda>known.
       case known of
         Some f \<Rightarrow> retG f
       | None \<Rightarrow> bindG (onDisk (open_file name)) (\<lambda>f.
           bindG (modG (\<lambda>p. p\<lparr>sources := AList.update name f (sources p)\<rparr>)) (\<lambda>_. retG f)))"

definition tempName :: "bytes \<Rightarrow> bytes \<Rightarrow> bytes" where
  "tempName target text = target @ repairTempMarker @ take 16 text @ repairTempExt"

definition getOutput :: "bytes \<Rightarrow> handle pipe" where
  "getOutput target =
     bindG (getG (\<lambda>p. map_of (outputs p) target)) (\<lambda>known.
       case known of
         Some f \<Rightarrow> retG f
       | None \<Rightarrow> bindG (onDecoder (ensureParentDir target)) (\<lambda>_.
           bindG (getG (\<lambda>p. let w = root (pd p) in tempName target (randText w (ticks w)))) (\<lambda>tmp.
             tryG (onDisk (create_excl tmp)) (\<lambda>f.
               bindG (modG (\<lambda>p. p\<lparr>outputs := AList.update target f (outputs p),
                   tempNames := AList.update target tmp (tempNames p)\<rparr>)) (\<lambda>_. retG f))
               (\<lambda>_. errG ''failed to create temp file''))))"

text \<open>A call whose error is dropped.\<close>

definition ignoring :: "(world, unit) go \<Rightarrow> unit pipe" where
  "ignoring m = tryG (onDisk m) retG (\<lambda>_. retG ())"

definition pipeline_close :: "unit pipe" where
  "pipeline_close =
     bindG (bindG (getG sources) (forG (\<lambda>_. ignoring sysCall))) (\<lambda>_.
       bindG (bindG (getG outputs) (forG (\<lambda>_. ignoring sysCall))) (\<lambda>_.
         bindG (getG tempNames) (forG (\<lambda>(_, tmp). ignoring (remove_file tmp)))))"

section \<open>One chunk\<close>

text \<open>\<open>buf[:n]\<close>, and \<open>buf[i:j]\<close>, with \<open>int64\<close> bounds.\<close>

definition sliceTo :: "bytes \<Rightarrow> int \<Rightarrow> int \<Rightarrow> bytes res" where
  "sliceTo buf i j = (if i < 0 \<or> j < 0 then Panic ''slice bounds out of range'' else goSlice buf (nat i) (nat j))"

definition readAtOff :: "handle \<Rightarrow> int \<Rightarrow> int \<Rightarrow> (world, bytes) go" where
  "readAtOff f n off = (if off < 0 then errG ''negative offset'' else readAt f (nat n) (nat off))"

definition writeAtOff :: "handle \<Rightarrow> bytes \<Rightarrow> int \<Rightarrow> (world, unit) go" where
  "writeAtOff f bs off = (if off < 0 then errG ''negative offset'' else writeAt f bs (nat off))"

definition setDataShard :: "nat \<Rightarrow> shard \<Rightarrow> unit pipe" where
  "setDataShard i s =
     bindG (bindG (getG (\<lambda>p. goAssign (activeDataShards p) (int i) s)) liftR) (\<lambda>a.
       modG (\<lambda>p. p\<lparr>activeDataShards := a\<rparr>))"

definition read_shard :: "int \<Rightarrow> int \<Rightarrow> nat \<times> flattenedLocation \<Rightarrow> unit pipe" where
  "read_shard csize start = (\<lambda>(i, fl).
     if diskOffset fl \<noteq> -1 then
       bindG (getSource (fl_sourceFilename fl)) (\<lambda>f.
         bindG (bindG (getG (\<lambda>p. goIndex (dataBuffers p) (int i))) liftR) (\<lambda>buf.
           bindG (liftR (sliceTo buf 0 csize)) (\<lambda>_.
             bindG (onDisk (readAtOff f csize (diskOffset fl + start))) (\<lambda>bs.
               let part = bs @ replicate (nat csize - length bs) 0 in
               bindG (modG (\<lambda>p. p\<lparr>dataBuffers := (dataBuffers p)[i := part @ drop (nat csize) buf]\<rparr>)) (\<lambda>_.
                 setDataShard i (Some part))))))
     else setDataShard i None)"

definition read_parity :: "int \<Rightarrow> int \<Rightarrow> u16 \<times> bytes \<Rightarrow> unit pipe" where
  "read_parity csize start = (\<lambda>(exp, parityBytes).
     bindG (bindG (getG (\<lambda>p. goIndex (parityBuffers p) (uint exp))) liftR) (\<lambda>buf.
       bindG (liftR (sliceTo buf 0 csize)) (\<lambda>_.
         bindG (liftR (sliceTo parityBytes start (start + csize))) (\<lambda>part.
           bindG (bindG (getG (\<lambda>p. goAssign (activeParityShards p) (uint exp) (Some part))) liftR) (\<lambda>a.
             modG (\<lambda>p. p\<lparr>parityBuffers := (parityBuffers p)[unat exp := part @ drop (nat csize) buf],
               activeParityShards := a\<rparr>))))))"

text \<open>Waiting for goroutines that never end.\<close>

definition waits :: string where
  "waits = ''the goroutines do not end''"

definition reconstruct_chunk :: "env \<Rightarrow> action list \<Rightarrow> unit pipe" where
  "reconstruct_chunk e sched =
     bindG (onDisk ctxErr) (\<lambda>canc.
       bindG (bindG (getG (\<lambda>p. Reconstruct e sched canc (coder p) (activeDataShards p) (activeParityShards p)
             (numGoroutines (pd p)))) (\<lambda>r. case r of None \<Rightarrow> liftR (Panic waits) | Some r \<Rightarrow> liftR r)) (\<lambda>data.
         modG (\<lambda>p. p\<lparr>activeDataShards := data\<rparr>)))"

definition write_shard :: "int \<Rightarrow> nat \<times> flattenedLocation \<Rightarrow> unit pipe" where
  "write_shard start = (\<lambda>(i, fl).
     bindG (getG (\<lambda>p. (map_of (needsWrite (plan p)) (fl_targetFilename fl), sliceByteCount (pd p)))) (\<lambda>(needed, bs).
       if needed \<noteq> Some True then retG ()
       else bindG (getOutput (fl_targetFilename fl)) (\<lambda>f.
         bindG (bindG (getG (\<lambda>p. goIndex (activeDataShards p) (int i))) liftR) (\<lambda>s.
           onDisk (writeAtOff f (shard_bytes s) (int (fl_shardIndex fl * bs) + start))))))"

definition executeChunk :: "env \<Rightarrow> action list \<Rightarrow> int \<Rightarrow> unit pipe" where
  "executeChunk e sched chunkIdx =
     bindG (getG (\<lambda>p. (plan p, sliceByteCount (pd p)))) (\<lambda>(pl, bs).
       let csize = currChunkSize bs (chunkSize pl) (numChunks pl) chunkIdx; start = chunkIdx * chunkSize pl in
       bindG (modG (\<lambda>p. p\<lparr>activeDataShards := replicate (length (activeDataShards p)) None\<rparr>)) (\<lambda>_.
         bindG (forG (read_shard csize start) (enumerate 0 (flatLocs pl))) (\<lambda>_.
           bindG (modG (\<lambda>p. p\<lparr>activeParityShards := replicate (length (activeParityShards p)) None\<rparr>)) (\<lambda>_.
             bindG (bindG (getG (\<lambda>p. Decoder.parityShards (pd p))) (forG (read_parity csize start))) (\<lambda>_.
               bindG (reconstruct_chunk e sched) (\<lambda>_.
                 forG (write_shard start) (enumerate 0 (flatLocs pl))))))))"

section \<open>Finishing and installing\<close>

text \<open>A goroutine that finishes one file, call by call; its end is its error, if any.\<close>

datatype finishState = Truncating | Syncing | Hashing | Finished "string option"

fun finish_step :: "FileDescPacket \<Rightarrow> handle \<Rightarrow> finishState \<Rightarrow> (world, finishState) go" where
  "finish_step fd f Truncating =
     tryG (truncate_file f (ByteCount fd)) (\<lambda>_. retG Syncing) (\<lambda>_. retG (Finished (Some ''failed to truncate rebuilt file'')))"
| "finish_step fd f Syncing =
     tryG sysCall (\<lambda>_. retG Hashing) (\<lambda>_. retG (Finished (Some ''failed to sync rebuilt file'')))"
| "finish_step fd f Hashing =
     tryG (computeFileMD5 f)
       (\<lambda>got. retG (Finished (if got \<noteq> fd_Hash fd then Some ''rebuilt file failed hash verification'' else None)))
       (\<lambda>_. retG (Finished (Some ''failed to hash rebuilt file'')))"
| "finish_step fd f (Finished r) = retG (Finished r)"

text \<open>One scheduled step of the \<open>i\<close>-th goroutine.\<close>

definition run_finish :: "(FileDescPacket \<times> handle) list \<Rightarrow> nat \<Rightarrow> finishState list \<Rightarrow> (world, finishState list) go" where
  "run_finish js i sts =
     (if i < length js then
        bindG (finish_step (fst (js ! i)) (snd (js ! i)) (sts ! i)) (\<lambda>st. retG (sts[i := st]))
      else retG sts)"

fun failure :: "finishState \<Rightarrow> bool" where
  "failure (Finished None) = False"
| "failure _ = True"

text \<open>The schedule, then three steps of each goroutine, enough for each to end.\<close>

definition finish_all :: "nat list \<Rightarrow> (FileDescPacket \<times> handle) list \<Rightarrow> (world, unit) go" where
  "finish_all sched js =
     bindG (foldG (run_finish js) (sched @ concat (map (\<lambda>i. [i, i, i]) [0..<length js])) (replicate (length js) Truncating))
       (\<lambda>sts. if list_ex failure sts then errG ''rebuilt files failed'' else retG ())"

definition finishRebuiltFiles :: "nat list \<Rightarrow> FileDescPacket list \<Rightarrow> unit pipe" where
  "finishRebuiltFiles sched rebuilt =
     bindG (getG outputs) (\<lambda>outs.
       onDisk (finish_all sched (map (\<lambda>fd. (fd, the (map_of outs (Filename fd)))) rebuilt)))"

definition check_outputs :: "unit pipe" where
  "check_outputs =
     bindG (getG (\<lambda>p. needsWrite (plan p))) (forG (\<lambda>(target, _).
       bindG (getG (\<lambda>p. map_of (outputs p) target)) (\<lambda>known.
         if known = None then errG ''repair produced no output'' else retG ())))"

definition release_handles :: "unit pipe" where
  "release_handles =
     bindG (bindG (getG sources) (forG (\<lambda>(name, _).
         bindG (ignoring sysCall) (\<lambda>_. modG (\<lambda>p. p\<lparr>sources := AList.delete name (sources p)\<rparr>))))) (\<lambda>_.
       bindG (getG outputs) (forG (\<lambda>(target, _).
         bindG (modG (\<lambda>p. p\<lparr>outputs := AList.delete target (outputs p)\<rparr>)) (\<lambda>_.
           tryG (onDisk sysCall) retG (\<lambda>_. errG ''failed to close rebuilt file'')))))"

definition install_file :: "FileDescPacket \<Rightarrow> unit pipe" where
  "install_file fd =
     bindG (getG (\<lambda>p. case map_of (tempNames p) (Filename fd) of None \<Rightarrow> [] | Some n \<Rightarrow> n)) (\<lambda>tmp.
       bindG (tryG (onDisk (stat_name (Filename fd)))
           (\<lambda>_. tryG (onDisk sysCall) retG (\<lambda>_. errG ''failed to set permissions on rebuilt file''))
           (\<lambda>e. if e \<noteq> errNotExist then errG ''failed to stat file before replacing it'' else retG ())) (\<lambda>_.
         tryG (onDisk (rename_file tmp (Filename fd))) retG (\<lambda>_. errG ''failed to install rebuilt file'')))"

definition install :: "nat list \<Rightarrow> unit pipe" where
  "install sched =
     bindG check_outputs (\<lambda>_.
       bindG (getG (\<lambda>p. filter (\<lambda>fd. map_of (outputs p) (Filename fd) \<noteq> None) (protectedFiles (pd p)))) (\<lambda>rebuilt.
         bindG (finishRebuiltFiles sched rebuilt) (\<lambda>_.
           bindG release_handles (\<lambda>_. forG install_file rebuilt))))"

section \<open>Repair\<close>

record repair_sched =
  chunkSched :: "nat \<Rightarrow> action list"
  finishSched :: "nat list"

definition run_chunks :: "env \<Rightarrow> repair_sched \<Rightarrow> unit pipe" where
  "run_chunks e sc =
     bindG (getG (\<lambda>p. numChunks (plan p))) (\<lambda>n.
       forG (\<lambda>k. bindG (onDisk ctxErr) (\<lambda>canc.
         if canc then errG ''context canceled'' else executeChunk e (chunkSched sc k) (int k))) [0..<nat n])"

text \<open>\<open>defer pipeline.close()\<close> runs at every exit.\<close>

definition deferring :: "('s, 'a) go \<Rightarrow> ('s, unit) go \<Rightarrow> ('s, 'a) go" where
  "deferring m cleanup s = (case m s of (r, s') \<Rightarrow> (r, snd (cleanup s')))"

definition run_pipeline :: "env \<Rightarrow> repair_sched \<Rightarrow> unit pipe" where
  "run_pipeline e sc = deferring (bindG (run_chunks e sc) (\<lambda>_. install (finishSched sc))) pipeline_close"

definition withPipeline :: "unit pipe \<Rightarrow> repairPipeline \<Rightarrow> unit dec" where
  "withPipeline m p d = (case m (p\<lparr>pd := d\<rparr>) of (r, p') \<Rightarrow> (r, pd p'))"

definition Repair :: "env \<Rightarrow> repair_sched \<Rightarrow> unit dec" where
  "Repair e sc =
     bindG renameMisnamedFiles (\<lambda>renamed.
       bindG (getG shardCountsLocked) (\<lambda>counts.
         if \<not> RepairNeeded counts then retG ()
         else if \<not> RepairPossible counts then errG ''repair not possible''
         else bindG (planRepair renamed) (\<lambda>pl.
           bindG (bindG (getG (\<lambda>d. newRepairPipeline d pl)) liftR) (withPipeline (run_pipeline e sc)))))"

end
