(* ===== verification/Repair_Sound.thy ===== *)
theory Repair_Sound
  imports Repair
begin

text \<open>
  What a repair does to the disk, whatever fails. Until every rebuilt file has passed its hash the files that were there
  are not touched: all writes go to temp files created for this repair. A file that is replaced gets content
  with its recorded hash. A repair that returns no error leaves every protected file with its recorded hash.
\<close>

section \<open>Triples for every outcome\<close>

text \<open>\<open>post m Q J s\<close>: started in \<open>s\<close>, what \<open>m\<close> returns satisfies \<open>Q\<close> in the state it leaves, and if it fails or panics the
  state it leaves satisfies \<open>J\<close>.\<close>

definition post :: "('s, 'a) go \<Rightarrow> ('a \<Rightarrow> 's \<Rightarrow> bool) \<Rightarrow> ('s \<Rightarrow> bool) \<Rightarrow> 's \<Rightarrow> bool" where
  "post m Q J s = (case m s of (Ret x, s') \<Rightarrow> Q x s' | (_, s') \<Rightarrow> J s')"

lemma post_basic:
  "post (retG x) Q J s = Q x s" "post (errG e) Q J s = J s" "post (getG f) Q J s = Q (f s) s" "post (modG g) Q' J s = Q' () (g s)"
  by (simp_all add: post_def go_defs)

lemma post_ret: "post (retG x) Q J = Q x"
  by (rule ext) (simp add: post_basic)

lemma post_bind: "post (bindG m f) Q J s = post m (\<lambda>x. post (f x) Q J) J s"
  by (auto simp: post_def bindG_def split: prod.splits res.splits)

lemma post_try:
  assumes "post m (\<lambda>x. post (f x) Q J) J' s" "\<And>s'. J' s' \<Longrightarrow> J s'" "\<And>e s'. J' s' \<Longrightarrow> post (h e) Q J s'"
  shows "post (tryG m f h) Q J s"
proof -
  obtain r s' where m: "m s = (r, s')" by (cases "m s")
  then show ?thesis
    using assms(1) assms(2)[of s'] assms(3)[of s' "case r of Error e \<Rightarrow> e"] by (cases r) (simp_all add: post_def tryG_def)
qed

lemma post_mono:
  "post m Q J s \<Longrightarrow> (\<And>x s'. Q x s' \<Longrightarrow> Q' x s') \<Longrightarrow> (\<And>s'. J s' \<Longrightarrow> J' s') \<Longrightarrow> post m Q' J' s"
  by (auto simp: post_def split: prod.splits res.splits)

lemma post_keeps: "keeps I m \<Longrightarrow> I s \<Longrightarrow> post m (\<lambda>_. I) I s"
  by (cases "m s"; cases "fst (m s)") (auto simp: keeps_def post_def dest!: spec[of _ s])

lemma post_gives: "gives I m R \<Longrightarrow> I s \<Longrightarrow> post m (\<lambda>x s'. I s' \<and> R x) I s"
  by (cases "m s"; cases "fst (m s)") (auto simp: gives_def keeps_def post_def dest!: spec[of _ s])

lemma post_D: "post m Q J s \<Longrightarrow> m s = (Ret x, s') \<Longrightarrow> Q x s'" "post m Q J s \<Longrightarrow> (\<And>x s'. Q x s' \<Longrightarrow> J s') \<Longrightarrow> J (snd (m s))"
  by (auto simp: post_def split: prod.splits res.splits)

lemma post_for:
  assumes "I [] s"
    and "\<And>done x rest s. xs = done @ x # rest \<Longrightarrow> I done s \<Longrightarrow> post (body x) (\<lambda>_. I (done @ [x])) J s"
  shows "post (forG body xs) (\<lambda>_. I xs) J s"
proof -
  have "post (forG body rest) (\<lambda>_. I xs) J s" if "xs = pre @ rest" "I pre s" for pre rest s
    using that
  proof (induction rest arbitrary: pre s)
    case Nil
    then show ?case by (simp add: post_def)
  next
    case (Cons x rest)
    have "post (body x) (\<lambda>_. post (forG body rest) (\<lambda>_. I xs) J) J s"
      by (rule post_mono[OF assms(2)[OF Cons.prems]]) (use Cons in auto)
    then show ?case by (simp flip: post_bind add: post_def)
  qed
  then show ?thesis using assms(1) by fastforce
qed

section \<open>Calls on the disk\<close>

definition disk :: "repairPipeline \<Rightarrow> world" where
  "disk p = root (pd p)"

definition set_disk :: "world \<Rightarrow> repairPipeline \<Rightarrow> repairPipeline" where
  "set_disk w p = p\<lparr>pd := (pd p)\<lparr>root := w\<rparr>\<rparr>"

lemma disk_set [simp]: "disk (set_disk w p) = w" "outputs (set_disk w p) = outputs p" "tempNames (set_disk w p) = tempNames p"
  "sources (set_disk w p) = sources p" "plan (set_disk w p) = plan p" "set_disk w (set_disk w' p) = set_disk w p"
  "protectedFiles (pd (set_disk w p)) = protectedFiles (pd p)" "sliceByteCount (pd (set_disk w p)) = sliceByteCount (pd p)"
  by (simp_all add: disk_def set_disk_def)

lemma post_onDisk: "post (onDisk m) Q J p = post m (\<lambda>x w. Q x (set_disk w p)) (\<lambda>w. J (set_disk w p)) (disk p)"
  by (auto simp: post_def onDisk_def onDecoder_def onRoot_def disk_def set_disk_def split: prod.splits res.splits)

text \<open>Two worlds that agree but for the content of the files in \<open>H\<close>.\<close>

definition frame :: "handle set \<Rightarrow> world \<Rightarrow> world \<Rightarrow> bool" where
  "frame H w w' \<longleftrightarrow> dir w' = dir w \<and> nextInode w' = nextInode w \<and> randText w' = randText w \<and>
     separator w' = separator w \<and> (\<forall>i. i \<notin> H \<longrightarrow> inodes w' i = inodes w i)"

lemma frame_refl [simp]: "frame H w w" by (simp add: frame_def)

lemma frame_trans: "frame H u v \<Longrightarrow> frame H v w \<Longrightarrow> frame H u w" by (simp add: frame_def)

lemma frame_reads: "reads m \<Longrightarrow> frame H w (snd (m w))"
  by (auto simp: reads_def frame_def same_files_def)

lemma post_reads: "reads m \<Longrightarrow> post m (\<lambda>_. same_files w) (same_files w) w"
  by (cases "m w"; cases "fst (m w)") (auto simp: reads_def post_def dest!: spec[of _ w])

lemma frame_tick: "frame H w (tick w)" and frame_set_inode: "i \<in> H \<Longrightarrow> frame H w (set_inode i f w)"
  by (simp_all add: frame_def tick_def set_inode_def)

lemma post_writing:
  "i \<in> H \<Longrightarrow> post (writeAt i bs off) (\<lambda>_. frame H w) (frame H w) w"
  "i \<in> H \<Longrightarrow> post (truncate_file i n) (\<lambda>_. frame H w) (frame H w) w"
  using frame_trans[OF frame_tick[of H w] frame_set_inode]
  by (auto simp: post_def writeAt_def truncate_file_def sysWrite_def frame_tick split: option.splits)

lemma onDecoder_simps:
  "onDecoder (bindG m f) = bindG (onDecoder m) (\<lambda>x. onDecoder (f x))" "onDecoder (getG g) = getG (\<lambda>p. g (pd p))"
  "onDecoder (tryG m f h) = tryG (onDecoder m) (\<lambda>x. onDecoder (f x)) (\<lambda>e. onDecoder (h e))"
  "onDecoder (retG x) = retG x" "onDecoder (errG e) = errG e" "onDecoder (onRoot r) = onDisk r"
  by (auto simp: onDecoder_def onDisk_def go_basic fun_eq_iff split: prod.splits res.splits)

lemma onDecoder_if: "onDecoder (if b then m else m') = (if b then onDecoder m else onDecoder m')"
  by simp

section \<open>Building in temp files\<close>

definition wf_world :: "world \<Rightarrow> bool" where
  "wf_world w \<longleftrightarrow> (\<forall>n i. dir w n = Some i \<longrightarrow> i < nextInode w)"

text \<open>Everything that was there is as it was.\<close>

definition originals :: "world \<Rightarrow> world \<Rightarrow> bool" where
  "originals w0 w \<longleftrightarrow> nextInode w0 \<le> nextInode w \<and> randText w = randText w0 \<and>
     (\<forall>n i. dir w0 n = Some i \<longrightarrow> dir w n = Some i) \<and> (\<forall>i<nextInode w0. inodes w i = inodes w0 i)"

definition targets :: "repairPlan \<Rightarrow> bytes set" where
  "targets pl = {t. map_of (needsWrite pl) t = Some True}"

text \<open>An open temp file is a new inode under a new name of its own.\<close>

definition outputs_ok :: "world \<Rightarrow> repairPipeline \<Rightarrow> bool" where
  "outputs_ok w0 p \<longleftrightarrow> (\<forall>t f. map_of (outputs p) t = Some f \<longrightarrow>
     t \<in> targets (plan p) \<and> nextInode w0 \<le> f \<and> f < nextInode (disk p) \<and>
     (\<exists>tmp. map_of (tempNames p) t = Some tmp \<and> dir (disk p) tmp = Some f) \<and>
     (\<forall>t'. map_of (outputs p) t' = Some f \<longrightarrow> t' = t))"

definition temps_ok :: "world \<Rightarrow> repairPipeline \<Rightarrow> bool" where
  "temps_ok w0 p \<longleftrightarrow> distinct (map fst (tempNames p)) \<and> (\<forall>t tmp. map_of (tempNames p) t = Some tmp \<longrightarrow>
     dir w0 tmp = None \<and> (\<exists>k. tmp = tempName t (randText w0 k)))"

definition building :: "world \<Rightarrow> repairPlan \<Rightarrow> FileDescPacket list \<Rightarrow> repairPipeline \<Rightarrow> bool" where
  "building w0 pl fs p \<longleftrightarrow> plan p = pl \<and> protectedFiles (pd p) = fs \<and> originals w0 (disk p) \<and> outputs_ok w0 p \<and> temps_ok w0 p"

lemma building_frame:
  assumes "frame {i. nextInode w0 \<le> i} (disk p) w" "building w0 pl fs p"
  shows "building w0 pl fs (set_disk w p)"
proof -
  have "originals w0 w" using assms unfolding building_def originals_def frame_def by auto
  moreover have "outputs_ok w0 (set_disk w p)" "temps_ok w0 (set_disk w p)"
    using assms unfolding building_def outputs_ok_def temps_ok_def frame_def by auto
  ultimately show ?thesis using assms(2) by (simp add: building_def)
qed

lemma building_mod [simp]:
  "building w0 pl fs (p\<lparr>dataBuffers := a\<rparr>) = building w0 pl fs p"
  "building w0 pl fs (p\<lparr>parityBuffers := a\<rparr>) = building w0 pl fs p"
  "building w0 pl fs (p\<lparr>activeDataShards := b\<rparr>) = building w0 pl fs p"
  "building w0 pl fs (p\<lparr>activeParityShards := b\<rparr>) = building w0 pl fs p"
  "building w0 pl fs (p\<lparr>sources := c\<rparr>) = building w0 pl fs p"
  by (simp_all add: building_def outputs_ok_def temps_ok_def disk_def)

lemma keeps_onDisk:
  assumes "\<And>w. frame {i. nextInode w0 \<le> i} w (snd (m w))"
  shows "keeps (building w0 pl fs) (onDisk m)"
  unfolding keeps_def
proof (intro allI impI)
  fix p assume "building w0 pl fs p"
  moreover have "snd (onDisk m p) = set_disk (snd (m (disk p))) p"
    by (simp add: onDisk_def onDecoder_def onRoot_def disk_def set_disk_def split: prod.splits)
  ultimately show "building w0 pl fs (snd (onDisk m p))" using building_frame assms by simp
qed

lemma keeps_disk_reads: "reads m \<Longrightarrow> keeps (building w0 pl fs) (onDisk m)"
  by (rule keeps_onDisk) (rule frame_reads)

lemma frame_writes: "i \<in> H \<Longrightarrow> frame H w (snd (writeAt i bs off w))" "i \<in> H \<Longrightarrow> frame H w (snd (truncate_file i n w))"
  using frame_trans[OF frame_tick[of H w] frame_set_inode]
  by (auto simp: writeAt_def truncate_file_def sysWrite_def frame_tick split: option.splits)

lemma keeps_getSource: "keeps (building w0 pl fs) (getSource n)"
  unfolding getSource_def by (intro keeps keeps_disk_reads) simp_all

lemma keeps_ensureParentDir: "keeps (building w0 pl fs) (onDecoder (ensureParentDir n))"
  unfolding ensureParentDir_def onDecoder_simps onDecoder_if by (intro keeps keeps_disk_reads) simp_all

text \<open>Creating a temp file.\<close>

lemma building_create:
  assumes b: "building w0 pl fs p" and t: "t \<in> targets pl" "map_of (outputs p) t = None"
    and tmp: "dir (disk p) tmp = None" "tmp = tempName t (randText w0 k)"
    and w: "dir w = (dir (disk p))(tmp \<mapsto> nextInode (disk p))" "inodes w = (inodes (disk p))(nextInode (disk p) := [])"
      "nextInode w = nextInode (disk p) + 1" "randText w = randText (disk p)"
  shows "building w0 pl fs (set_disk w p\<lparr>outputs := AList.update t (nextInode (disk p)) (outputs p),
    tempNames := AList.update t tmp (tempNames p)\<rparr>)" (is "building _ _ _ ?p")
proof -
  let ?f = "nextInode (disk p)"
  have o: "originals w0 (disk p)" and oo: "outputs_ok w0 p" and tt: "temps_ok w0 p" and pl: "plan p = pl" "protectedFiles (pd p) = fs"
    using b by (simp_all add: building_def)
  have d: "disk ?p = w" "plan ?p = pl" "protectedFiles (pd ?p) = fs" using pl by (simp_all add: disk_def set_disk_def)
  have "dir w0 tmp = None" using o tmp(1) unfolding originals_def by (metis option.exhaust_sel option.simps(3))
  then have "temps_ok w0 ?p" using tt tmp(2) by (auto simp: temps_ok_def update_conv distinct_update)
  moreover have "originals w0 w" using o w tmp(1) by (auto simp: originals_def)
  moreover have "outputs_ok w0 ?p"
    unfolding outputs_ok_def d
  proof (intro allI impI)
    fix t' f assume "map_of (outputs ?p) t' = Some f"
    then have f: "if t' = t then f = ?f else map_of (outputs p) t' = Some f" by (auto simp: update_conv split: if_splits)
    have old: "map_of (outputs p) u \<noteq> Some ?f" for u using oo unfolding outputs_ok_def by blast
    show "t' \<in> targets pl \<and> nextInode w0 \<le> f \<and> f < nextInode w \<and>
        (\<exists>tmp. map_of (tempNames ?p) t' = Some tmp \<and> dir w tmp = Some f) \<and>
        (\<forall>u. map_of (outputs ?p) u = Some f \<longrightarrow> u = t')"
    proof (cases "t' = t")
      case True
      then show ?thesis using f t w old o by (auto simp: update_conv originals_def split: if_splits)
    next
      case False
      then have f': "map_of (outputs p) t' = Some f" using f by simp
      then obtain tmp' where g: "t' \<in> targets pl" "nextInode w0 \<le> f" "f < ?f" "map_of (tempNames p) t' = Some tmp'"
          "dir (disk p) tmp' = Some f" "\<forall>u. map_of (outputs p) u = Some f \<longrightarrow> u = t'"
        using oo pl unfolding outputs_ok_def by blast
      then have "tmp' \<noteq> tmp" using tmp(1) by auto
      then show ?thesis using g False w by (auto simp: update_conv split: if_splits)
    qed
  qed
  ultimately show ?thesis unfolding building_def d by simp
qed

lemma create_excl_cases:
  obtains e w' where "create_excl n w = (Error e, w')" "frame H w w'"
  | w' where "create_excl n w = (Ret (nextInode w), w')" "dir w n = None" "dir w' = (dir w)(n \<mapsto> nextInode w)"
    "inodes w' = (inodes w)(nextInode w := [])" "nextInode w' = nextInode w + 1" "randText w' = randText w"
proof -
  show thesis
  proof (cases "faults w (ticks w)")
    case (Some a)
    then show ?thesis using that(1)[of _ "tick w"] by (cases a) (simp add: create_excl_def sysWrite_def frame_tick)
  next
    case None
    show ?thesis
    proof (cases "dir w n")
      case (Some i)
      with None show ?thesis using that(1)[of _ "tick w"]
        by (simp add: create_excl_def sysWrite_def frame_tick) (simp add: tick_def)
    next
      case N: None
      with None show ?thesis using that(2) by (simp add: create_excl_def sysWrite_def tick_def)
    qed
  qed
qed

lemma keeps_conj: "keeps I m \<Longrightarrow> keeps J m \<Longrightarrow> keeps (\<lambda>s. I s \<and> J s) m"
  by (simp add: keeps_def)

lemma keeps_outputs: "keeps (\<lambda>p. P (outputs p) (tempNames p)) (onDisk m)"
  by (auto simp: keeps_def onDisk_def onDecoder_def onRoot_def split: prod.splits)

lemma bind_get: "bindG (getG f) k s = k (f s) s"
  by (simp add: go_basic)

lemma post_create:
  assumes b: "building w0 pl fs p" and t: "t \<in> targets pl" "map_of (outputs p) t = None"
    and tmp: "tmp = tempName t (randText (disk p) k)"
  shows "post (tryG (onDisk (create_excl tmp)) (\<lambda>f. bindG (modG (\<lambda>p. p\<lparr>outputs := AList.update t f (outputs p),
      tempNames := AList.update t tmp (tempNames p)\<rparr>)) (\<lambda>_. retG f)) (\<lambda>_. errG ''failed to create temp file''))
    (\<lambda>f p'. building w0 pl fs p' \<and> nextInode w0 \<le> f) (building w0 pl fs) p"
proof (rule post_try[where J' = "building w0 pl fs"])
  have r: "randText (disk p) = randText w0" "nextInode w0 \<le> nextInode (disk p)"
    using b unfolding building_def originals_def by auto
  show "post (onDisk (create_excl tmp)) (\<lambda>f. post (bindG (modG (\<lambda>p. p\<lparr>outputs := AList.update t f (outputs p),
      tempNames := AList.update t tmp (tempNames p)\<rparr>)) (\<lambda>_. retG f)) (\<lambda>f p'. building w0 pl fs p' \<and> nextInode w0 \<le> f)
      (building w0 pl fs)) (building w0 pl fs) p"
  proof (cases rule: create_excl_cases[of tmp "disk p" "{i. nextInode w0 \<le> i}"])
    case (1 e w')
    then show ?thesis unfolding post_onDisk unfolding post_def using b building_frame by simp
  next
    case (2 w')
    then show ?thesis
      unfolding post_onDisk post_bind post_basic unfolding post_def
      using building_create[of w0 pl fs p t tmp k w', OF b t] r tmp by simp
  qed
qed (simp_all add: post_basic)

lemma post_getOutput:
  assumes "building w0 pl fs p" "t \<in> targets pl"
  shows "post (getOutput t) (\<lambda>f p'. building w0 pl fs p' \<and> nextInode w0 \<le> f) (building w0 pl fs) p"
proof (cases "map_of (outputs p) t")
  case (Some f)
  then have "nextInode w0 \<le> f" using assms(1) unfolding building_def outputs_ok_def by blast
  then show ?thesis using assms(1) Some by (simp add: getOutput_def post_bind post_basic)
next
  case None
  let ?I = "\<lambda>p. building w0 pl fs p \<and> map_of (outputs p) t = None"
  let ?create = "\<lambda>tmp. tryG (onDisk (create_excl tmp)) (\<lambda>f. bindG (modG (\<lambda>p. p\<lparr>outputs := AList.update t f (outputs p),
    tempNames := AList.update t tmp (tempNames p)\<rparr>)) (\<lambda>_. retG f)) (\<lambda>_. errG ''failed to create temp file'')"
  define name where "name p = (let w = root (pd p) in tempName t (randText w (ticks w)))" for p :: repairPipeline
  have k: "keeps ?I (onDecoder (ensureParentDir t))"
    using keeps_outputs[of "\<lambda>a b. map_of a t = None"]
    by (intro keeps_conj keeps_ensureParentDir) (auto simp: ensureParentDir_def onDecoder_simps onDecoder_if intro!: keeps)
  have "post (bindG (onDecoder (ensureParentDir t)) (\<lambda>_. bindG (getG name) ?create))
      (\<lambda>f p'. building w0 pl fs p' \<and> nextInode w0 \<le> f) (building w0 pl fs) p"
    unfolding post_bind post_basic
    by (rule post_mono[OF post_keeps[OF k]])
      (use assms(1) None in \<open>auto simp: name_def Let_def disk_def intro!: post_create[OF _ assms(2)]\<close>)
  moreover have "getOutput t p = bindG (onDecoder (ensureParentDir t)) (\<lambda>_. bindG (getG name) ?create) p"
    by (simp only: getOutput_def bind_get None option.case name_def[abs_def])
  ultimately show ?thesis by (simp only: post_def)
qed

lemma gives_getOutput: "t \<in> targets pl \<Longrightarrow> gives (building w0 pl fs) (getOutput t) (\<lambda>f. nextInode w0 \<le> f)"
  unfolding gives_def keeps_def using post_D[OF post_getOutput] by blast

lemma reads_readAtOff: "reads (readAtOff f n off)"
  by (simp add: readAtOff_def) (simp add: reads_def go_basic)

lemma keeps_lookup: "keeps (building w0 pl fs) (bindG (getG g) liftR)"
  by (intro keeps)

lemma keeps_setDataShard: "keeps (building w0 pl fs) (setDataShard i s)"
  unfolding setDataShard_def by (intro keeps) simp

lemma keeps_read_shard: "keeps (building w0 pl fs) (read_shard n start x)"
  unfolding read_shard_def Let_def
  by (cases x, simp) (intro conjI impI keeps keeps_getSource keeps_setDataShard keeps_disk_reads reads_readAtOff; simp)

lemma keeps_read_parity: "keeps (building w0 pl fs) (read_parity n start y)"
  unfolding read_parity_def by (cases y, simp) (intro keeps; simp)

lemma keeps_reconstruct: "keeps (building w0 pl fs) (reconstruct_chunk e sched)"
  unfolding reconstruct_chunk_def by (intro keeps keeps_disk_reads) simp_all

lemma frame_writeAtOff: "i \<in> H \<Longrightarrow> frame H w (snd (writeAtOff i bs off w))"
  by (simp add: writeAtOff_def frame_writes errG_def)

lemma keeps_write_shard: "keeps (building w0 pl fs) (write_shard start x)"
proof (cases x)
  case (Pair i fl)
  have g: "gives (building w0 pl fs) (getG (\<lambda>p. (map_of (needsWrite (plan p)) (fl_targetFilename fl), sliceByteCount (pd p))))
      (\<lambda>y. fst y = map_of (needsWrite pl) (fl_targetFilename fl))"
    by (auto simp: gives_def keeps getG_def building_def)
  have w: "keeps (building w0 pl fs) (bindG (bindG (getG (\<lambda>p. goIndex (activeDataShards p) (int i))) liftR) (\<lambda>s.
      onDisk (writeAtOff f (shard_bytes s) off)))" if "nextInode w0 \<le> f" for f off
    using that by (intro keeps keeps_onDisk frame_writeAtOff) simp
  have w2: "keeps (building w0 pl fs) (bindG (getOutput (fl_targetFilename fl)) (\<lambda>f.
      bindG (bindG (getG (\<lambda>p. goIndex (activeDataShards p) (int i))) liftR) (\<lambda>s.
        onDisk (writeAtOff f (shard_bytes s) off))))" if "map_of (needsWrite pl) (fl_targetFilename fl) = Some True" for off
    using that by (intro keeps_bind_gives[OF gives_getOutput w]) (simp add: targets_def)
  show ?thesis
    unfolding write_shard_def Pair prod.case by (rule keeps_bind_gives[OF g]) (clarsimp simp: keeps w2)
qed

lemma keeps_executeChunk: "keeps (building w0 pl fs) (executeChunk e sched k)"
  unfolding executeChunk_def Let_def
  by (intro keeps_bind keeps_simple; simp split: prod.split)
    (intro allI impI keeps_bind keeps_simple keeps_mod keeps_for keeps_read_shard keeps_read_parity keeps_reconstruct keeps_write_shard; simp)

lemma keeps_run_chunks: "keeps (building w0 pl fs) (run_chunks e sc)"
  unfolding run_chunks_def by (intro keeps keeps_executeChunk keeps_disk_reads) simp_all

section \<open>Finishing\<close>

lemma wp_post: "wp m Q (\<lambda>_. J) s \<Longrightarrow> post m Q J s"
  by (auto simp: wp_def post_def split: prod.splits res.splits)

definition hashed :: "FileDescPacket \<times> handle \<Rightarrow> world \<Rightarrow> bool" where
  "hashed j w \<longleftrightarrow> md5 (inodes w (snd j)) = fd_Hash (fst j)"

text \<open>A step touches its own file only, and only a file whose hash was right ends without an error.\<close>

lemma finish_step_total:
  assumes "st = Finished None \<longrightarrow> hashed (fd, f) w"
  shows "\<exists>st' w'. finish_step fd f st w = (Ret st', w') \<and> frame {f} w w' \<and> (st' = Finished None \<longrightarrow> hashed (fd, f) w')"
proof (cases st)
  case Truncating
  obtain r w' where r: "truncate_file f (ByteCount fd) w = (r, w')" by (cases "truncate_file f (ByteCount fd) w")
  moreover have "frame {f} w w'" using frame_writes(2)[of f "{f}" w "ByteCount fd"] r by simp
  moreover have "r = Ret () \<or> (\<exists>e. r = Error e)"
    using r by (auto simp: truncate_file_def sysWrite_def split: option.splits)
  ultimately show ?thesis using Truncating by (auto simp: tryG_def retG_def)
next
  case Syncing
  then show ?thesis by (auto simp: tryG_def retG_def sysCall_def sysRead_def frame_tick split: option.splits)
next
  case Hashing
  have "frame {f} w (tick (tick w))" "frame {f} w (tick w)" using frame_trans frame_tick by blast+
  moreover have "hashed (fd, f) (tick (tick w))" if "md5 (inodes w f) = fd_Hash fd" using that by (simp add: hashed_def tick_def)
  moreover have "inodes (tick w) = inodes w" by (simp add: tick_def)
  ultimately show ?thesis
    using Hashing by (auto simp: tryG_def retG_def computeFileMD5_def bindG_def sysCall_def readAll_def sysRead_def split: option.splits)
next
  case (Finished r)
  then show ?thesis using assms by (simp add: retG_def)
qed

definition finishing :: "(FileDescPacket \<times> handle) list \<Rightarrow> world \<Rightarrow> finishState list \<Rightarrow> world \<Rightarrow> bool" where
  "finishing js w0 sts w \<longleftrightarrow> frame (snd ` set js) w0 w \<and> length sts = length js \<and>
     (\<forall>i<length js. sts ! i = Finished None \<longrightarrow> hashed (js ! i) w)"

lemma wp_run_finish:
  assumes "distinct (map snd js)" "finishing js w0 sts w"
  shows "wp (run_finish js i sts) (finishing js w0) (\<lambda>_ _. False) w"
proof (cases "i < length js")
  case True
  obtain st' w' where s: "finish_step (fst (js ! i)) (snd (js ! i)) (sts ! i) w = (Ret st', w')" "frame {snd (js ! i)} w w'"
      "st' = Finished None \<longrightarrow> hashed (js ! i) w'"
    using finish_step_total[of "sts ! i" "fst (js ! i)" "snd (js ! i)" w] assms(2) True by (auto simp: finishing_def)
  have "hashed (js ! k) w'" if "k < length js" "k \<noteq> i" "hashed (js ! k) w" for k
  proof -
    have "snd (js ! k) \<noteq> snd (js ! i)" using assms(1) that True by (simp add: distinct_conv_nth)
    then show ?thesis using that(3) s(2) by (simp add: hashed_def frame_def)
  qed
  moreover have "frame (snd ` set js) w0 w'"
    using assms(2) s(2) True unfolding finishing_def frame_def by (metis image_eqI nth_mem singletonD)
  ultimately have "finishing js w0 (sts[i := st']) w'"
    using assms(2) s(3) True by (auto simp: finishing_def nth_list_update split: if_splits)
  then show ?thesis using True s(1) by (simp add: run_finish_def wp_def bindG_def retG_def)
next
  case False
  then show ?thesis using assms(2) by (simp add: run_finish_def wp)
qed

lemma no_failure_hashed:
  assumes "finishing js w0 sts w" "\<not> list_ex failure sts" "j \<in> set js"
  shows "hashed j w"
proof -
  obtain i where i: "i < length js" "j = js ! i" using assms(3) by (metis in_set_conv_nth)
  have "length sts = length js" using assms(1) unfolding finishing_def by blast
  then have "\<not> failure (sts ! i)" using assms(2) i(1) by (metis list_ex_iff nth_mem)
  then have "sts ! i = Finished None" by (cases "sts ! i" rule: failure.cases) simp_all
  then show ?thesis using assms(1) i unfolding finishing_def by blast
qed

lemma post_finish_all:
  assumes "distinct (map snd js)"
  shows "post (finish_all sched js) (\<lambda>_ w'. frame (snd ` set js) w w' \<and> (\<forall>j\<in>set js. hashed j w')) (frame (snd ` set js) w) w"
proof (rule wp_post)
  let ?Q = "\<lambda>_ w'. frame (snd ` set js) w w' \<and> (\<forall>j\<in>set js. hashed j w')"
  have s: "finishing js w (replicate (length js) Truncating) w" by (simp add: finishing_def)
  have f: "frame (snd ` set js) w w'" if "finishing js w sts w'" for sts w' using that unfolding finishing_def by blast
  have e: "wp (if list_ex failure sts then errG x else retG ()) ?Q (\<lambda>_. frame (snd ` set js) w) w'"
    if "finishing js w sts w'" for sts w' x
    by (rule wp_ifI; unfold wp_basic) (use f[OF that] no_failure_hashed[OF that] in blast)+
  show "wp (finish_all sched js) ?Q (\<lambda>_. frame (snd ` set js) w) w"
    unfolding finish_all_def wp_bind
  proof (rule wp_mono)
    show "wp (foldG (run_finish js) (sched @ concat (map (\<lambda>i. [i, i, i]) [0..<length js])) (replicate (length js) Truncating))
      (finishing js w) (\<lambda>_ _. False) w"
      by (rule wp_fold[where I = "\<lambda>_. finishing js w", OF s wp_run_finish[OF assms]])
  qed (use e in blast)+
qed

section \<open>Installing\<close>

text \<open>The random part of a temp name, as drawn in this run, does not end the name of a protected file.\<close>

definition temps_apart :: "world \<Rightarrow> FileDescPacket list \<Rightarrow> bool" where
  "temps_apart w fs \<longleftrightarrow> (\<forall>t k. tempName t (randText w k) \<notin> Filename ` set fs)"

text \<open>What a repair owes to the files that were there: each is as it was, or it is a protected file that was
  to be rebuilt and now has its recorded hash.\<close>

definition preserved :: "world \<Rightarrow> FileDescPacket list \<Rightarrow> bytes set \<Rightarrow> world \<Rightarrow> bool" where
  "preserved w0 fs N w \<longleftrightarrow> (\<forall>n i. dir w0 n = Some i \<longrightarrow>
     dir w n = Some i \<and> inodes w i = inodes w0 i \<or>
     (\<exists>fd\<in>set fs. n = Filename fd \<and> n \<in> N \<and> content_hash w n = Some (fd_Hash fd)))"

text \<open>Between the renames: \<open>g\<close> gives the verified inode of each rebuilt file, those in \<open>now\<close> are installed and those
  in \<open>rest\<close> are still under their temp names.\<close>

definition installing ::
    "world \<Rightarrow> repairPlan \<Rightarrow> (FileDescPacket \<Rightarrow> handle) \<Rightarrow> FileDescPacket list \<Rightarrow> FileDescPacket list \<Rightarrow> repairPipeline \<Rightarrow> bool" where
  "installing w0 pl g now rest p \<longleftrightarrow> temps_ok w0 p \<and> (\<forall>i<nextInode w0. inodes (disk p) i = inodes w0 i) \<and>
     (\<forall>fd\<in>set (now @ rest). hashed (fd, g fd) (disk p) \<and> Filename fd \<in> targets pl) \<and>
     (\<forall>fd\<in>set now. dir (disk p) (Filename fd) = Some (g fd)) \<and>
     (\<forall>fd\<in>set rest. \<exists>tmp. map_of (tempNames p) (Filename fd) = Some tmp \<and> dir (disk p) tmp = Some (g fd)) \<and>
     (\<forall>n i. dir w0 n = Some i \<longrightarrow> n \<notin> Filename ` set now \<longrightarrow> dir (disk p) n = Some i)"

lemma installing_preserved:
  assumes "installing w0 pl g now rest p" "wf_world w0" "set now \<subseteq> set fs"
  shows "preserved w0 fs (targets pl) (disk p)"
  unfolding preserved_def
proof (intro allI impI)
  fix n i assume n: "dir w0 n = Some i"
  show "dir (disk p) n = Some i \<and> inodes (disk p) i = inodes w0 i \<or>
     (\<exists>fd\<in>set fs. n = Filename fd \<and> n \<in> targets pl \<and> content_hash (disk p) n = Some (fd_Hash fd))"
  proof (cases "n \<in> Filename ` set now")
    case True
    then show ?thesis using assms(1,3) by (fastforce simp: installing_def content_hash_def hashed_def)
  next
    case False
    then show ?thesis using n assms(1,2) unfolding installing_def wf_world_def by blast
  qed
qed

lemma installing_frame:
  assumes "frame {} (disk p) w" "installing w0 pl g now rest p"
  shows "installing w0 pl g now rest (set_disk w p)"
proof -
  have "dir w = dir (disk p)" "inodes w = inodes (disk p)" using assms(1) by (auto simp: frame_def fun_eq_iff)
  then show ?thesis using assms(2) by (simp add: installing_def hashed_def temps_ok_def del: map_of_eq_Some_iff)
qed

lemma keeps_installing_reads: "reads m \<Longrightarrow> keeps (installing w0 pl g now rest) (onDisk m)"
  unfolding keeps_def
proof (intro allI impI)
  fix p assume "reads m" "installing w0 pl g now rest p"
  moreover have "snd (onDisk m p) = set_disk (snd (m (disk p))) p"
    by (simp add: onDisk_def onDecoder_def onRoot_def disk_def set_disk_def split: prod.splits)
  ultimately show "installing w0 pl g now rest (snd (onDisk m p))"
    using installing_frame[OF frame_reads] by simp
qed

lemma rename_cases:
  obtains e w' where "rename_file a b w = (Error e, w')" "frame H w w'"
  | w' i where "rename_file a b w = (Ret (), w')" "dir w a = Some i" "dir w' = ((dir w)(a := None))(b \<mapsto> i)"
    "inodes w' = inodes w" "nextInode w' = nextInode w" "randText w' = randText w" "separator w' = separator w"
proof (cases "faults w (ticks w)")
  case (Some x)
  then show thesis using that(1)[of _ "tick w"] by (cases x) (simp add: rename_file_def sysWrite_def frame_tick)
next
  case None
  then show thesis
    using that(1)[of errNotExist "tick w"] that(2)
    by (cases "dir w a") (simp_all add: rename_file_def sysWrite_def frame_tick, simp_all add: tick_def)
qed

lemma installing_rename:
  assumes "installing w0 pl g now (fd # rest) p" "temps_apart w0 fs" "set (now @ fd # rest) \<subseteq> set fs"
    and "distinct (map Filename (now @ fd # rest))" "inj_on g (set (now @ fd # rest))"
    and tmp: "map_of (tempNames p) (Filename fd) = Some tmp"
    and w: "dir w = ((dir (disk p))(tmp := None))(Filename fd \<mapsto> g fd)" "inodes w = inodes (disk p)"
  shows "installing w0 pl g (now @ [fd]) rest (set_disk w p)"
proof -
  have ok: "temps_ok w0 p" using assms(1) by (simp add: installing_def)
  have apart: "tmp' \<noteq> Filename x" if "map_of (tempNames p) n = Some tmp'" "x \<in> set (now @ fd # rest)" for x n tmp'
    using ok that assms(2,3) unfolding temps_ok_def temps_apart_def by (metis imageI subsetD)
  have t0: "dir w0 tmp = None" using ok tmp unfolding temps_ok_def by blast
  have dtmp: "dir (disk p) tmp = Some (g fd)" using assms(1) tmp by (auto simp: installing_def)
  have nd: "Filename x \<noteq> Filename fd \<and> x \<noteq> fd" if "x \<in> set now \<or> x \<in> set rest" for x
    using that assms(4) by (metis (no_types, lifting) Un_iff distinct.simps(2) distinct_append image_eqI list.map(2)
        list.set_map map_append not_distinct_conv_prefix set_append disjoint_iff list.set_intros(1))
  have "\<exists>tmp'. map_of (tempNames p) (Filename x) = Some tmp' \<and> dir w tmp' = Some (g x)" if x: "x \<in> set rest" for x
  proof -
    obtain tmp' where t: "map_of (tempNames p) (Filename x) = Some tmp'" "dir (disk p) tmp' = Some (g x)"
      using assms(1) x by (auto simp: installing_def)
    have "g x \<noteq> g fd" using assms(5) x nd by (auto simp: inj_on_def)
    then have "tmp' \<noteq> tmp" using t(2) dtmp by auto
    moreover have "tmp' \<noteq> Filename fd" using apart[OF t(1), of fd] by simp
    ultimately show ?thesis using t w(1) by simp
  qed
  moreover have "dir w (Filename x) = Some (g x)" if "x \<in> set (now @ [fd])" for x
    using that assms(1) apart[OF tmp, of x] nd[of x] w(1) by (auto simp: installing_def)
  moreover have "dir w n = Some i" if "dir w0 n = Some i" "n \<notin> Filename ` set (now @ [fd])" for n i
    using that assms(1) t0 w(1) by (auto simp: installing_def)
  ultimately show ?thesis using assms(1) w(2) by (simp add: installing_def hashed_def temps_ok_def)
qed

lemma post_install_file:
  assumes "installing w0 pl g now (fd # rest) p" "temps_apart w0 fs" "set (now @ fd # rest) \<subseteq> set fs"
    and "distinct (map Filename (now @ fd # rest))" "inj_on g (set (now @ fd # rest))"
  shows "post (install_file fd) (\<lambda>_. installing w0 pl g (now @ [fd]) rest) (installing w0 pl g now (fd # rest)) p"
proof -
  let ?I = "installing w0 pl g now (fd # rest)"
  obtain tmp where tmp: "map_of (tempNames p) (Filename fd) = Some tmp" "dir (disk p) tmp = Some (g fd)"
    using assms(1) by (auto simp: installing_def)
  let ?J = "\<lambda>p. ?I p \<and> map_of (tempNames p) (Filename fd) = Some tmp"
  let ?checks = "tryG (onDisk (stat_name (Filename fd)))
     (\<lambda>_. tryG (onDisk sysCall) retG (\<lambda>_. errG ''failed to set permissions on rebuilt file''))
     (\<lambda>e. if e \<noteq> errNotExist then errG ''failed to stat file before replacing it'' else retG ())"
  have k: "keeps ?J ?checks"
    by (intro keeps_conj keeps keeps_installing_reads keeps_outputs[of "\<lambda>_ b. map_of b (Filename fd) = Some tmp"]) simp_all
  have r: "post (tryG (onDisk (rename_file tmp (Filename fd))) retG (\<lambda>_. errG ''failed to install rebuilt file''))
      (\<lambda>_. installing w0 pl g (now @ [fd]) rest) ?I p" if "?J p" for p
  proof (rule post_try[where J' = ?I])
    show "post (onDisk (rename_file tmp (Filename fd))) (\<lambda>x. post (retG x) (\<lambda>_. installing w0 pl g (now @ [fd]) rest) ?I) ?I p"
    proof (cases rule: rename_cases[of tmp "Filename fd" "disk p" "{}"])
      case (1 e w')
      then show ?thesis unfolding post_onDisk unfolding post_def using that installing_frame by simp
    next
      case (2 w' i)
      have "i = g fd" using 2(2) that by (auto simp: installing_def)
      then show ?thesis
        unfolding post_onDisk post_basic unfolding post_def
        using 2 that installing_rename[of w0 pl g now fd rest p fs tmp w', OF _ assms(2-5)] by simp
    qed
  qed (simp_all add: post_basic)
  have "post (bindG ?checks (\<lambda>_. tryG (onDisk (rename_file tmp (Filename fd))) retG (\<lambda>_. errG ''failed to install rebuilt file'')))
      (\<lambda>_. installing w0 pl g (now @ [fd]) rest) ?I p"
    unfolding post_bind by (rule post_mono[OF post_keeps[OF k]]) (use assms(1) tmp r in auto)
  then show ?thesis unfolding install_file_def post_bind[of "getG _"] post_basic tmp(1) option.case .
qed

lemma frame_mono: "frame H w w' \<Longrightarrow> H \<subseteq> K \<Longrightarrow> frame K w w'"
  by (auto simp: frame_def)

lemma post_check_outputs:
  "post check_outputs (\<lambda>_ p'. p' = p \<and> (\<forall>t\<in>fst ` set (needsWrite (plan p)). map_of (outputs p) t \<noteq> None)) (\<lambda>p'. p' = p) p"
proof -
  have "post (forG (\<lambda>(target, _). bindG (getG (\<lambda>p. map_of (outputs p) target)) (\<lambda>known.
       if known = None then errG ''repair produced no output'' else retG ())) (needsWrite (plan p)))
     (\<lambda>_ p'. p' = p \<and> (\<forall>t\<in>fst ` set (needsWrite (plan p)). map_of (outputs p) t \<noteq> None)) (\<lambda>p'. p' = p) p"
    by (rule post_for[where I = "\<lambda>done p'. p' = p \<and> (\<forall>t\<in>fst ` set done. map_of (outputs p) t \<noteq> None)"])
      (auto simp: post_bind post_basic split: prod.splits)
  then show ?thesis by (simp add: check_outputs_def post_bind post_basic)
qed

lemma keeps_release: "keeps (installing w0 pl g now rest) release_handles"
proof -
  have "keeps (installing w0 pl g now rest) (ignoring sysCall)"
    unfolding ignoring_def by (intro keeps keeps_installing_reads) simp
  moreover have "installing w0 pl g now rest (p\<lparr>sources := a\<rparr>) = installing w0 pl g now rest p"
    "installing w0 pl g now rest (p\<lparr>outputs := a\<rparr>) = installing w0 pl g now rest p" for p a
    by (simp_all add: installing_def temps_ok_def disk_def)
  ultimately show ?thesis
    unfolding release_handles_def by (auto intro!: keeps keeps_installing_reads split: prod.splits)
qed

lemma installing_start:
  assumes b: "building w0 pl fs p" and "set rebuilt \<subseteq> {fd. map_of (outputs p) (Filename fd) \<noteq> None}"
    and h: "\<forall>fd\<in>set rebuilt. hashed (fd, the (map_of (outputs p) (Filename fd))) w"
    and f: "frame {i. nextInode w0 \<le> i} (disk p) w"
  shows "installing w0 pl (\<lambda>fd. the (map_of (outputs p) (Filename fd))) [] rebuilt (set_disk w p)"
proof -
  have b': "building w0 pl fs (set_disk w p)" by (rule building_frame[OF f b])
  then have "temps_ok w0 (set_disk w p)" "originals w0 w" "plan p = pl" by (simp_all add: building_def)
  moreover have "Filename fd \<in> targets pl \<and> (\<exists>tmp. map_of (tempNames p) (Filename fd) = Some tmp \<and>
      dir w tmp = Some (the (map_of (outputs p) (Filename fd))))" if r: "fd \<in> set rebuilt" for fd
  proof -
    obtain i where "map_of (outputs (set_disk w p)) (Filename fd) = Some i"
      using subsetD[OF assms(2) r] by auto
    then show ?thesis using b' unfolding building_def outputs_ok_def by (metis disk_set(1,2,3,5) option.sel)
  qed
  ultimately show ?thesis using h by (simp add: installing_def originals_def)
qed

lemma post_install_files:
  assumes "installing w0 pl g [] rebuilt p" "temps_apart w0 fs" "set rebuilt \<subseteq> set fs"
    and "distinct (map Filename rebuilt)" "inj_on g (set rebuilt)"
  shows "post (forG install_file rebuilt) (\<lambda>_. installing w0 pl g rebuilt [])
    (\<lambda>p'. \<exists>now rest. rebuilt = now @ rest \<and> installing w0 pl g now rest p') p"
proof -
  let ?I = "\<lambda>now p'. \<exists>rest. rebuilt = now @ rest \<and> installing w0 pl g now rest p'"
  have "post (forG install_file rebuilt) (\<lambda>_. ?I rebuilt)
      (\<lambda>p'. \<exists>now rest. rebuilt = now @ rest \<and> installing w0 pl g now rest p') p"
  proof (rule post_for[where I = ?I])
    fix now fd rest p
    assume r: "rebuilt = now @ fd # rest" and "?I now p"
    then have i: "installing w0 pl g now (fd # rest) p" by simp
    show "post (install_file fd) (\<lambda>_. ?I (now @ [fd])) (\<lambda>p'. \<exists>now rest. rebuilt = now @ rest \<and> installing w0 pl g now rest p') p"
      by (rule post_mono[OF post_install_file[OF i assms(2)]]) (use r assms in auto)
  qed (use assms(1) in simp)
  then show ?thesis by simp
qed

text \<open>What holds at every exit, and after an installation that returned no error.\<close>

definition left_ok :: "world \<Rightarrow> FileDescPacket list \<Rightarrow> repairPlan \<Rightarrow> repairPipeline \<Rightarrow> bool" where
  "left_ok w0 fs pl p \<longleftrightarrow> temps_ok w0 p \<and> preserved w0 fs (targets pl) (disk p)"

definition installed_ok :: "FileDescPacket list \<Rightarrow> repairPlan \<Rightarrow> world \<Rightarrow> bool" where
  "installed_ok fs pl w \<longleftrightarrow>
     (\<forall>fd\<in>set fs. Filename fd \<in> targets pl \<longrightarrow> content_hash w (Filename fd) = Some (fd_Hash fd))"

lemma building_left:
  assumes "building w0 pl fs p" "wf_world w0"
  shows "left_ok w0 fs pl p"
  using assms unfolding left_ok_def building_def preserved_def originals_def wf_world_def by blast

text \<open>The files that a repair has rebuilt, and the temp file of each.\<close>

definition temp_of :: "repairPipeline \<Rightarrow> FileDescPacket \<Rightarrow> handle" where
  "temp_of p fd = the (map_of (outputs p) (Filename fd))"

definition rebuilt_of :: "repairPipeline \<Rightarrow> FileDescPacket list" where
  "rebuilt_of p = filter (\<lambda>fd. map_of (outputs p) (Filename fd) \<noteq> None) (protectedFiles (pd p))"

lemma rebuilt_facts:
  assumes b: "building w0 pl fs p" and "distinct (map Filename fs)"
  shows "set (rebuilt_of p) \<subseteq> set fs" "set (rebuilt_of p) \<subseteq> {fd. map_of (outputs p) (Filename fd) \<noteq> None}"
    "distinct (map Filename (rebuilt_of p))" "inj_on (temp_of p) (set (rebuilt_of p))"
    "distinct (map snd (map (\<lambda>fd. (fd, temp_of p fd)) (rebuilt_of p)))"
    "snd ` set (map (\<lambda>fd. (fd, temp_of p fd)) (rebuilt_of p)) \<subseteq> {i. nextInode w0 \<le> i}"
proof -
  have ok: "outputs_ok w0 p" "protectedFiles (pd p) = fs" using b by (simp_all add: building_def)
  show "set (rebuilt_of p) \<subseteq> set fs" "set (rebuilt_of p) \<subseteq> {fd. map_of (outputs p) (Filename fd) \<noteq> None}"
    using ok(2) by (auto simp: rebuilt_of_def)
  show dn: "distinct (map Filename (rebuilt_of p))" using assms(2) ok(2) by (auto simp: rebuilt_of_def distinct_map inj_on_def)
  have out: "map_of (outputs p) (Filename fd) = Some (temp_of p fd)" if "fd \<in> set (rebuilt_of p)" for fd
    using that by (auto simp: rebuilt_of_def temp_of_def)
  show inj: "inj_on (temp_of p) (set (rebuilt_of p))"
  proof (rule inj_onI)
    fix fd fd' assume h: "fd \<in> set (rebuilt_of p)" "fd' \<in> set (rebuilt_of p)" "temp_of p fd = temp_of p fd'"
    have "Filename fd = Filename fd'" using out h ok(1) unfolding outputs_ok_def by metis
    then show "fd = fd'" using dn h by (auto simp: distinct_map dest: inj_onD)
  qed
  then show "distinct (map snd (map (\<lambda>fd. (fd, temp_of p fd)) (rebuilt_of p)))" using dn by (simp add: comp_def distinct_map)
  have "nextInode w0 \<le> temp_of p fd" if "fd \<in> set (rebuilt_of p)" for fd using out[OF that] ok(1) unfolding outputs_ok_def by blast
  then show "snd ` set (map (\<lambda>fd. (fd, temp_of p fd)) (rebuilt_of p)) \<subseteq> {i. nextInode w0 \<le> i}" by auto
qed

lemma installing_left:
  assumes "installing w0 pl g now rest p" "wf_world w0" "set now \<subseteq> set fs"
  shows "left_ok w0 fs pl p"
  using installing_preserved[OF assms(1,2), of fs] assms by (auto simp: left_ok_def installing_def)

lemma installing_done:
  assumes i: "installing w0 pl (temp_of p) (rebuilt_of p) [] p'" and fs: "protectedFiles (pd p) = fs"
    and c: "\<forall>t\<in>fst ` set (needsWrite pl). map_of (outputs p) t \<noteq> None"
  shows "installed_ok fs pl (disk p')"
  unfolding installed_ok_def
proof (intro ballI impI)
  fix fd assume fd: "fd \<in> set fs" "Filename fd \<in> targets pl"
  then have "Filename fd \<in> fst ` set (needsWrite pl)" unfolding targets_def by (force dest: map_of_SomeD)
  from bspec[OF c this] have "fd \<in> set (rebuilt_of p)" using fd(1) fs by (simp add: rebuilt_of_def)
  then show "content_hash (disk p') (Filename fd) = Some (fd_Hash fd)"
    using i by (simp add: installing_def content_hash_def hashed_def)
qed

text \<open>Checking the temporaries, releasing the handles and renaming: every rebuilt file is installed, or what is left
  is in order.\<close>

lemma post_install_rebuilt:
  assumes b: "building w0 pl fs p" and w: "wf_world w0" "temps_apart w0 fs" "distinct (map Filename fs)"
  shows "post (bindG (finishRebuiltFiles sched (rebuilt_of p)) (\<lambda>_. bindG release_handles (\<lambda>_. forG install_file (rebuilt_of p))))
    (\<lambda>_. installing w0 pl (temp_of p) (rebuilt_of p) []) (left_ok w0 fs pl) p"
proof -
  define g where "g = temp_of p"
  define rebuilt where "rebuilt = rebuilt_of p"
  let ?js = "map (\<lambda>fd. (fd, g fd)) rebuilt"
  note reb = rebuilt_facts[OF b w(3), folded g_def rebuilt_def]
  have left: "left_ok w0 fs pl p'" if "installing w0 pl g now rest p'" "rebuilt = now @ rest" for now rest p'
    by (rule installing_left[OF that(1) w(1)]) (use that(2) reb(1) in auto)
  have fin: "finishRebuiltFiles sched rebuilt p = onDisk (finish_all sched ?js) p"
    by (simp only: finishRebuiltFiles_def bind_get g_def temp_of_def)
  have "post (onDisk (finish_all sched ?js)) (\<lambda>_. post (bindG release_handles (\<lambda>_. forG install_file rebuilt))
      (\<lambda>_. installing w0 pl g rebuilt []) (left_ok w0 fs pl)) (left_ok w0 fs pl) p"
    unfolding post_bind post_onDisk
  proof (rule post_mono[OF post_finish_all[OF reb(5)]])
    fix x w' assume "frame (snd ` set ?js) (disk p) w' \<and> (\<forall>j\<in>set ?js. hashed j w')"
    then have st: "installing w0 pl g [] rebuilt (set_disk w' p)"
      using installing_start[OF b reb(2), of w'] frame_mono[OF _ reb(6)] by (auto simp: g_def temp_of_def[abs_def])
    show "post release_handles (\<lambda>_. post (forG install_file rebuilt) (\<lambda>_. installing w0 pl g rebuilt []) (left_ok w0 fs pl))
        (left_ok w0 fs pl) (set_disk w' p)"
      by (rule post_mono[OF post_keeps[OF keeps_release st]],
        rule post_mono[OF post_install_files[OF _ w(2) reb(1,3,4)]]) (use left in auto)
  next
    fix w' assume "frame (snd ` set ?js) (disk p) w'"
    then show "left_ok w0 fs pl (set_disk w' p)"
      using building_left[OF building_frame[OF frame_mono[OF _ reb(6)] b] w(1)] by blast
  qed
  then show ?thesis unfolding post_bind[of "finishRebuiltFiles _ _"] g_def[symmetric] rebuilt_def[symmetric] using fin by (simp only: post_def)
qed

lemma post_install:
  assumes b: "building w0 pl fs p" and w: "wf_world w0" "temps_apart w0 fs" "distinct (map Filename fs)"
  shows "post (install sched) (\<lambda>_ p'. left_ok w0 fs pl p' \<and> installed_ok fs pl (disk p')) (left_ok w0 fs pl) p"
  unfolding install_def post_bind[of check_outputs]
proof (rule post_mono[OF post_check_outputs])
  fix x p'
  assume c: "p' = p \<and> (\<forall>t\<in>fst ` set (needsWrite (plan p)). map_of (outputs p) t \<noteq> None)"
  have ok: "plan p = pl" "protectedFiles (pd p) = fs" using b by (simp_all add: building_def)
  have "post (bindG (finishRebuiltFiles sched (rebuilt_of p)) (\<lambda>_. bindG release_handles (\<lambda>_. forG install_file (rebuilt_of p))))
    (\<lambda>_ p'. left_ok w0 fs pl p' \<and> installed_ok fs pl (disk p')) (left_ok w0 fs pl) p"
    by (rule post_mono[OF post_install_rebuilt[OF b w]])
      (use c ok rebuilt_facts(1)[OF b w(3)] installing_left[OF _ w(1)] installing_done[OF _ ok(2)] in auto)
  then show "post (bindG (getG (\<lambda>p. filter (\<lambda>fd. map_of (outputs p) (Filename fd) \<noteq> None) (protectedFiles (pd p))))
      (\<lambda>rebuilt. bindG (finishRebuiltFiles sched rebuilt) (\<lambda>_. bindG release_handles (\<lambda>_. forG install_file rebuilt))))
      (\<lambda>_ p'. left_ok w0 fs pl p' \<and> installed_ok fs pl (disk p')) (left_ok w0 fs pl) p'"
    using c by (simp only: post_bind[of "getG _"] post_basic rebuilt_of_def)
qed (use building_left[OF b w(1)] in simp)

section \<open>Closing\<close>

lemma remove_cases:
  obtains e w' where "remove_file n w = (Error e, w')" "frame H w w'"
  | w' where "remove_file n w = (Ret (), w')" "dir w' = (dir w)(n := None)" "inodes w' = inodes w"
proof (cases "faults w (ticks w)")
  case (Some x)
  then show thesis using that(1)[of _ "tick w"] by (cases x) (simp add: remove_file_def sysWrite_def frame_tick)
next
  case None
  then show thesis
    using that(1)[of errNotExist "tick w"] that(2)
    by (cases "dir w n") (simp_all add: remove_file_def sysWrite_def frame_tick, simp_all add: tick_def)
qed

text \<open>A predicate of the disk that does not look at temp names.\<close>

definition ignores_temps :: "world \<Rightarrow> FileDescPacket list \<Rightarrow> (world \<Rightarrow> bool) \<Rightarrow> bool" where
  "ignores_temps w0 fs P \<longleftrightarrow> (\<forall>w w'. P w \<longrightarrow> inodes w' = inodes w \<longrightarrow>
     (\<forall>n. dir w0 n \<noteq> None \<or> n \<in> Filename ` set fs \<longrightarrow> dir w' n = dir w n) \<longrightarrow> P w')"

lemma ignores_preserved: "ignores_temps w0 fs (preserved w0 fs N)"
  unfolding ignores_temps_def
proof (intro allI impI)
  fix w w' :: world
  assume p: "preserved w0 fs N w" and i: "inodes w' = inodes w"
    and d: "\<forall>n. dir w0 n \<noteq> None \<or> n \<in> Filename ` set fs \<longrightarrow> dir w' n = dir w n"
  show "preserved w0 fs N w'"
    unfolding preserved_def
  proof (intro allI impI)
    fix n k assume "dir w0 n = Some k"
    moreover from this have "dir w' n = dir w n" "content_hash w' n = content_hash w n"
      using d i by (simp_all add: content_hash_def)
    ultimately show "dir w' n = Some k \<and> inodes w' k = inodes w0 k \<or>
        (\<exists>fd\<in>set fs. n = Filename fd \<and> n \<in> N \<and> content_hash w' n = Some (fd_Hash fd))"
      using p i unfolding preserved_def by simp
  qed
qed

lemma ignores_installed: "ignores_temps w0 fs (installed_ok fs pl)"
  by (auto simp: ignores_temps_def installed_ok_def content_hash_def)

lemma post_ignoring:
  assumes "post (onDisk m) (\<lambda>_. I) I p"
  shows "post (ignoring m) (\<lambda>_. I) I p"
  unfolding ignoring_def by (rule post_try[where J' = I]) (use assms in \<open>simp_all add: post_basic post_ret\<close>)

lemma keeps_post: "(\<And>s. I s \<Longrightarrow> post m (\<lambda>_. I) I s) \<Longrightarrow> keeps I m"
  unfolding keeps_def by (intro allI impI) (rule post_D(2))

lemma keeps_close:
  assumes "ignores_temps w0 fs P" "temps_apart w0 fs"
  shows "keeps (\<lambda>p. temps_ok w0 p \<and> P (disk p)) pipeline_close"
proof (rule keeps_post)
  fix p assume p: "temps_ok w0 p \<and> P (disk p)"
  define I where "I p' \<longleftrightarrow> tempNames p' = tempNames p \<and> P (disk p')" for p' :: repairPipeline
  have step: "I (set_disk w' p')" if "I p'" "inodes w' = inodes (disk p')"
      "\<forall>n. dir w0 n \<noteq> None \<or> n \<in> Filename ` set fs \<longrightarrow> dir w' n = dir (disk p') n" for p' w'
    using that(1) assms(1)[unfolded ignores_temps_def, rule_format, OF _ that(2)] that(3) by (simp add: I_def)
  have fr: "I (set_disk w' p')" if "I p'" "frame {} (disk p') w'" for p' w'
    by (rule step[OF that(1)]) (use that(2) in \<open>auto simp: frame_def fun_eq_iff\<close>)
  have same: "same_files w w' \<Longrightarrow> frame {} w w'" for w w' by (simp add: frame_def same_files_def)
  have call: "keeps I (ignoring sysCall)"
    by (rule keeps_post, rule post_ignoring, unfold post_onDisk, rule post_mono[OF post_reads]) (use fr same in auto)
  have rem: "post (ignoring (remove_file tmp)) (\<lambda>_. I) I p'" if p': "I p'" and t: "(u, tmp) \<in> set (tempNames p)" for u tmp p'
  proof (rule post_ignoring)
    have "map_of (tempNames p) u = Some tmp" using p t by (simp add: temps_ok_def)
    then obtain k where "dir w0 tmp = None" "tmp = tempName u (randText w0 k)" using p unfolding temps_ok_def by blast
    then have tn: "dir w0 tmp = None" "tmp \<notin> Filename ` set fs" using assms(2) by (simp_all add: temps_apart_def)
    show "post (onDisk (remove_file tmp)) (\<lambda>_. I) I p'"
    proof (cases rule: remove_cases[of tmp "disk p'" "{}"])
      case (1 e w')
      then show ?thesis unfolding post_onDisk unfolding post_def using fr p' by simp
    next
      case (2 w')
      have "I (set_disk w' p')" by (rule step[OF p']) (use 2 tn in auto)
      then show ?thesis unfolding post_onDisk unfolding post_def using 2 by simp
    qed
  qed
  have rems: "post (bindG (getG tempNames) (forG (\<lambda>(_, tmp). ignoring (remove_file tmp)))) (\<lambda>_. I) I p'" if "I p'" for p'
    unfolding post_bind post_basic using that
    by (auto simp: I_def[of p'] intro!: post_for[where I = "\<lambda>_. I"] rem)
  have "keeps I pipeline_close"
    unfolding pipeline_close_def by (intro keeps_bind keeps_for keeps_simple call keeps_post[OF rems])
  from post_keeps[OF this, of p] have "post pipeline_close (\<lambda>_. I) I p" using p by (simp add: I_def)
  then show "post pipeline_close (\<lambda>_ p. temps_ok w0 p \<and> P (disk p)) (\<lambda>p. temps_ok w0 p \<and> P (disk p)) p"
    by (rule post_mono) (use p in \<open>auto simp: I_def temps_ok_def\<close>)
qed

lemma post_deferring:
  assumes "post m Q J s" "\<And>x. keeps (Q x) c" "keeps J c"
  shows "post (deferring m c) Q J s"
proof -
  obtain r s' where m: "m s = (r, s')" by (cases "m s")
  then show ?thesis using assms by (cases r) (auto simp: post_def deferring_def keeps_def)
qed

lemma post_run_pipeline:
  assumes "building w0 pl fs p" "wf_world w0" "temps_apart w0 fs" "distinct (map Filename fs)"
  shows "post (run_pipeline e sc) (\<lambda>_ p'. preserved w0 fs (targets pl) (disk p') \<and> installed_ok fs pl (disk p'))
    (\<lambda>p'. preserved w0 fs (targets pl) (disk p')) p"
proof -
  have "post (bindG (run_chunks e sc) (\<lambda>_. install (finishSched sc)))
      (\<lambda>_ p'. left_ok w0 fs pl p' \<and> installed_ok fs pl (disk p')) (left_ok w0 fs pl) p"
    unfolding post_bind
    by (rule post_mono[OF post_keeps[OF keeps_run_chunks assms(1)]])
      (use post_install[OF _ assms(2-4)] building_left[OF _ assms(2)] in auto)
  moreover have "ignores_temps w0 fs (\<lambda>w. preserved w0 fs (targets pl) w \<and> installed_ok fs pl w)"
    using ignores_preserved[of w0 fs "targets pl"] ignores_installed[of w0 fs pl] unfolding ignores_temps_def by blast
  ultimately have "post (run_pipeline e sc) (\<lambda>_ p'. left_ok w0 fs pl p' \<and> installed_ok fs pl (disk p')) (left_ok w0 fs pl) p"
    unfolding run_pipeline_def
    using keeps_close[OF _ assms(3)] keeps_close[OF ignores_preserved assms(3)]
    by (intro post_deferring) (simp_all add: left_ok_def[abs_def] conj_assoc)
  then show ?thesis by (rule post_mono) (auto simp: left_ok_def)
qed

end
