(* ===== verification/Repair_Files.thy ===== *)
theory Repair_Files
  imports Repair_Sound
begin

text \<open>
  A whole repair: renaming the misnamed files, then rebuilding the others. Whatever fails, a file of the sandbox is
  left as it was, or it is a protected file that now has its recorded hash, or it was moved to such a file;
  and a repair that reports success leaves every protected file with its recorded hash.
\<close>

section \<open>Renaming misnamed files\<close>

text \<open>\<open>S\<close> holds the names that may be moved. A file is settled before a repair, one marked intact has its
  recorded hash, and the file to move there has it too, unless it is gone.\<close>

definition state_ok :: "bytes set \<Rightarrow> world \<Rightarrow> FileDescPacket \<Rightarrow> fileIntegrityState \<Rightarrow> bool" where
  "state_ok S w fd st \<longleftrightarrow> Damage st \<noteq> damageUnchecked \<and>
     (Damage st = damageNone \<longrightarrow> content_hash w (Filename fd) = Some (fd_Hash fd)) \<and>
     (RenameSource st \<noteq> [] \<longrightarrow> RenameSource st \<in> S \<and>
        (dir w (RenameSource st) = None \<or> content_hash w (RenameSource st) = Some (fd_Hash fd)))"

text \<open>Each file that was there is as it was, or it is a protected file with its recorded hash, or it had the recorded hash of a
  protected file and was moved there.\<close>

definition restored :: "FileDescPacket \<Rightarrow> world \<Rightarrow> bool" where
  "restored fd w \<longleftrightarrow> content_hash w (Filename fd) = Some (fd_Hash fd)"

definition moved_only :: "bytes set \<Rightarrow> FileDescPacket list \<Rightarrow> world \<Rightarrow> world \<Rightarrow> bool" where
  "moved_only S fs w0 w \<longleftrightarrow> inodes w = inodes w0 \<and> nextInode w = nextInode w0 \<and> randText w = randText w0 \<and> wf_world w \<and>
     (\<forall>n i. dir w0 n = Some i \<longrightarrow> dir w n = Some i \<or>
        (\<exists>fd\<in>set fs. restored fd w \<and> (n = Filename fd \<or> n \<in> S \<and> md5 (inodes w0 i) = fd_Hash fd)))"

definition renaming :: "bytes set \<Rightarrow> world \<Rightarrow> FileDescPacket list \<Rightarrow> FileDescPacket list \<Rightarrow> Decoder \<Rightarrow> bool" where
  "renaming S w0 fs pre d \<longleftrightarrow> protectedFiles d = fs \<and> map fst (fileIntegrity d) = map fd_FileID fs \<and> moved_only S fs w0 (root d) \<and>
     (\<forall>fd\<in>set fs. \<exists>st. map_of (fileIntegrity d) (fd_FileID fd) = Some st \<and> state_ok S (root d) fd st \<and>
        (fd \<in> set pre \<longrightarrow> RenameSource st = []))"

lemma map_of_apsnd: "map_of (map (apsnd f) xs) k = map_option f (map_of xs k)"
  by (induction xs) auto

lemma same_frame: "same_files w w' \<Longrightarrow> frame H w w'"
  by (simp add: frame_def same_files_def)

lemma renaming_same:
  assumes "renaming S w0 fs pre d" "frame {} (root d) w"
  shows "renaming S w0 fs pre (d\<lparr>root := w\<rparr>)"
proof -
  have w: "dir w = dir (root d)" "inodes w = inodes (root d)" "nextInode w = nextInode (root d)" "randText w = randText (root d)"
    using assms(2) by (auto simp: frame_def)
  have "content_hash w n = content_hash (root d) n" for n by (simp add: content_hash_def w)
  then have "state_ok S w = state_ok S (root d)" "moved_only S fs w0 w = moved_only S fs w0 (root d)"
    by (simp_all add: fun_eq_iff state_ok_def moved_only_def restored_def wf_world_def w)
  then show ?thesis using assms(1) by (simp add: renaming_def del: map_of_eq_Some_iff not_None_eq)
qed

text \<open>Changing the state of one file, in a world where the states of the others still hold.\<close>

lemma renaming_update:
  assumes r: "renaming S w0 fs pre d" and ids: "distinct (map fd_FileID fs)" and fd: "fd \<in> set fs"
    and w: "moved_only S fs w0 w" "state_ok S w fd st" "RenameSource st = []"
    and others: "\<And>g s. g \<in> set fs \<Longrightarrow> g \<noteq> fd \<Longrightarrow> state_ok S (root d) g s \<Longrightarrow> state_ok S w g s"
    and al: "map fst al = map fst (fileIntegrity d)" "map_of al (fd_FileID fd) = Some st"
      "\<And>g. g \<noteq> fd_FileID fd \<Longrightarrow> map_of al g = map_option h (map_of (fileIntegrity d) g)"
      "\<And>s. Damage (h s) = Damage s \<and> RenameSource (h s) = RenameSource s"
  shows "renaming S w0 fs (pre @ [fd]) (d\<lparr>root := w, fileIntegrity := al\<rparr>)"
proof -
  have "\<exists>s. map_of al (fd_FileID g) = Some s \<and> state_ok S w g s \<and> (g \<in> set (pre @ [fd]) \<longrightarrow> RenameSource s = [])"
    if g: "g \<in> set fs" for g
  proof (cases "g = fd")
    case True
    then show ?thesis using al(2) w(2,3) by simp
  next
    case False
    then have "fd_FileID g \<noteq> fd_FileID fd" using ids g fd by (auto simp: distinct_map dest: inj_onD)
    moreover obtain s where s: "map_of (fileIntegrity d) (fd_FileID g) = Some s" "state_ok S (root d) g s" "g \<in> set pre \<longrightarrow> RenameSource s = []"
      using r g unfolding renaming_def by blast
    moreover have "state_ok S w g (h s)" using others[OF g False s(2)] al(4)[of s] by (simp add: state_ok_def)
    ultimately show ?thesis using al(3)[of "fd_FileID g"] al(4)[of s] False by simp
  qed
  then show ?thesis using r w(1) al(1) by (simp add: renaming_def)
qed

lemma moved_only_rename:
  assumes m: "moved_only S fs w0 w" and s: "src \<in> S" "fd \<in> set fs" "content_hash w src = Some (fd_Hash fd)" "dir w src = Some i"
    and w': "dir w' = ((dir w)(src := None))(Filename fd \<mapsto> i)" "inodes w' = inodes w" "nextInode w' = nextInode w" "randText w' = randText w"
    and S: "S \<inter> Filename ` set fs = {}" "distinct (map Filename fs)"
  shows "moved_only S fs w0 w'" "content_hash w' (Filename fd) = Some (fd_Hash fd)"
    "n \<noteq> Filename fd \<Longrightarrow> n \<noteq> src \<Longrightarrow> content_hash w' n = content_hash w n"
proof -
  show fd: "content_hash w' (Filename fd) = Some (fd_Hash fd)" using s(3,4) w' by (simp add: content_hash_def)
  show other: "content_hash w' n = content_hash w n" if "n \<noteq> Filename fd" "n \<noteq> src" for n
    using that w' by (simp add: content_hash_def)
  have keep: "restored g w'" if "g \<in> set fs" "restored g w" for g
  proof (cases "g = fd")
    case False
    then have "Filename g \<noteq> Filename fd" using S(2) that(1) s(2) by (auto simp: distinct_map dest: inj_onD)
    moreover have "Filename g \<noteq> src" using S(1) s(1) that(1) by (metis IntI empty_iff imageI)
    ultimately show ?thesis using other that(2) by (simp add: restored_def)
  qed (use fd in \<open>simp add: restored_def\<close>)
  have "dir w' n = Some j \<or> (\<exists>fd\<in>set fs. restored fd w' \<and> (n = Filename fd \<or> n \<in> S \<and> md5 (inodes w0 j) = fd_Hash fd))"
    if n: "dir w0 n = Some j" for n j
  proof -
    consider "dir w n = Some j" | g where "g \<in> set fs" "restored g w" "n = Filename g \<or> n \<in> S \<and> md5 (inodes w0 j) = fd_Hash g"
      using m n unfolding moved_only_def by blast
    then show ?thesis
    proof cases
      case 1
      have "md5 (inodes w0 i) = fd_Hash fd" using m s(3,4) by (simp add: moved_only_def content_hash_def)
      then show ?thesis using 1 w'(1) s fd unfolding restored_def by (cases "n = Filename fd"; cases "n = src") auto
    qed (use keep in blast)
  qed
  moreover have "wf_world w'" using m s(4) w' by (auto simp: moved_only_def wf_world_def split: if_splits)
  ultimately show "moved_only S fs w0 w'" using m w' by (simp add: moved_only_def)
qed

lemma update_keys_known: "map_of al k = Some v \<Longrightarrow> map fst (AList.update k x al) = map fst al"
  by (induction al) auto

lemma renaming_drop:
  assumes r: "renaming S w0 fs pre d" and ids: "distinct (map fd_FileID fs)" and fd: "fd \<in> set fs"
    and st: "map_of (fileIntegrity d) (fd_FileID fd) = Some st"
  shows "renaming S w0 fs (pre @ [fd]) (d\<lparr>fileIntegrity := AList.update (fd_FileID fd) (st\<lparr>RenameSource := []\<rparr>) (fileIntegrity d)\<rparr>)"
proof -
  have "state_ok S (root d) fd st" using r fd st unfolding renaming_def by fastforce
  then have "state_ok S (root d) fd (st\<lparr>RenameSource := []\<rparr>)" by (simp add: state_ok_def)
  moreover note update_keys_known[OF st]
  moreover have "moved_only S fs w0 (root d)" using r by (simp add: renaming_def)
  ultimately show ?thesis
    using renaming_update[OF r ids fd, of "root d" "st\<lparr>RenameSource := []\<rparr>" _ id]
    by (simp add: update_conv option.map_id)
qed

lemma renaming_done:
  assumes r: "renaming S w0 fs pre d" and ids: "distinct (map fd_FileID fs)" "distinct (map Filename fs)" and fd: "fd \<in> set fs"
    and st: "map_of (fileIntegrity d) (fd_FileID fd) = Some st" "RenameSource st \<noteq> []" and S: "S \<inter> Filename ` set fs = {}"
    and w': "dir (root d) (RenameSource st) = Some i" "dir w' = ((dir (root d))(RenameSource st := None))(Filename fd \<mapsto> i)"
      "inodes w' = inodes (root d)" "nextInode w' = nextInode (root d)" "randText w' = randText (root d)"
    and h: "\<And>s. Damage (h s) = Damage s \<and> RenameSource (h s) = RenameSource s"
  shows "renaming S w0 fs (pre @ [fd]) (d\<lparr>root := w', fileIntegrity := AList.update (fd_FileID fd)
    (setWhole fid bs ((h st)\<lparr>RenameSource := [], Damage := damageNone\<rparr>)) (map (apsnd h) (fileIntegrity d))\<rparr>)"
proof -
  let ?src = "RenameSource st" and ?st = "setWhole fid bs ((h st)\<lparr>RenameSource := [], Damage := damageNone\<rparr>)"
  have ok: "state_ok S (root d) fd st" using r fd st unfolding renaming_def by fastforce
  then have s: "?src \<in> S" "content_hash (root d) ?src = Some (fd_Hash fd)" using st(2) w'(1) by (auto simp: state_ok_def)
  have m: "moved_only S fs w0 (root d)" using r by (simp add: renaming_def)
  note mv = moved_only_rename[OF m s(1) fd s(2) w'(1-5) S ids(2)]
  have "state_ok S w' fd ?st" using mv(2) by (simp add: state_ok_def)
  moreover have "state_ok S w' g x" if g: "g \<in> set fs" "g \<noteq> fd" "state_ok S (root d) g x" for g x
  proof -
    have "Filename g \<noteq> Filename fd" using g fd ids(2) by (auto simp: distinct_map dest: inj_onD)
    moreover have "Filename g \<noteq> ?src" using s(1) S g(1) by (metis IntI empty_iff imageI)
    ultimately have "content_hash w' (Filename g) = content_hash (root d) (Filename g)" by (rule mv(3))
    moreover have "dir w' n = None \<or> content_hash w' n = Some (fd_Hash g)"
      if "n \<in> S" "dir (root d) n = None \<or> content_hash (root d) n = Some (fd_Hash g)" for n
    proof (cases "n = ?src")
      case True
      moreover have "?src \<noteq> Filename fd" using s(1) S fd by auto
      ultimately show ?thesis using w'(2) by simp
    next
      case False
      moreover have "n \<noteq> Filename fd" using that(1) S fd by auto
      ultimately show ?thesis using that(2) mv(3)[of n] w'(2) by auto
    qed
    ultimately show ?thesis using g(3) unfolding state_ok_def by metis
  qed
  moreover have "map_of (map (apsnd h) (fileIntegrity d)) (fd_FileID fd) = Some (h st)" using st(1) by (simp add: map_of_apsnd)
  from update_keys_known[OF this]
  have "map fst (AList.update (fd_FileID fd) ?st (map (apsnd h) (fileIntegrity d))) = map fst (fileIntegrity d)" by (simp add: comp_def)
  ultimately show ?thesis
    using renaming_update[OF r ids(1) fd mv(1), of ?st _ h] h by (simp add: update_conv map_of_apsnd)
qed

lemma wp_ensureParentDir:
  assumes "\<And>w. same_files (root d) w \<Longrightarrow> Q () (d\<lparr>root := w\<rparr>)" "\<And>e w. same_files (root d) w \<Longrightarrow> E e (d\<lparr>root := w\<rparr>)"
  shows "wp (ensureParentDir n) Q E d"
proof -
  have "Q () d" using assms(1)[of "root d"] by simp
  then show ?thesis
    using assms unfolding ensureParentDir_def sysCall_def by (auto simp: wp intro!: wp_sysRead)
qed

text \<open>The states after a rename: locations in the candidate now lie in the protected file.\<close>

definition repointed :: "FileDescPacket \<Rightarrow> bytes \<Rightarrow> Decoder \<Rightarrow> fileIntegrityState \<Rightarrow> fileIntegrityState" where
  "repointed fd src d = (case map_of (candidateFiles d) src of None \<Rightarrow> id | Some cid \<Rightarrow> repoint cid (fd_FileID fd))"

lemma repointed_fields: "Damage (repointed fd src d s) = Damage s \<and> RenameSource (repointed fd src d s) = RenameSource s"
  by (simp add: repointed_def repoint_def split: option.split)

lemma wp_after_rename:
  assumes "map_of (fileIntegrity d) (fd_FileID fd) = Some st"
  shows "wp (bindG (modG (\<lambda>d. case map_of (candidateFiles d) src of None \<Rightarrow> d
       | Some cid \<Rightarrow> d\<lparr>fileIntegrity := map (apsnd (repoint cid (fd_FileID fd))) (fileIntegrity d)\<rparr>)) (\<lambda>_.
      bindG (getG sliceByteCount) (\<lambda>bs. bindG (updState (fd_FileID fd) (\<lambda>st.
        setWhole (fd_FileID fd) bs (st\<lparr>RenameSource := [], Damage := damageNone\<rparr>))) (\<lambda>_. retG True)))) Q E d =
    Q True (d\<lparr>fileIntegrity := AList.update (fd_FileID fd) (setWhole (fd_FileID fd) (sliceByteCount d)
      ((repointed fd src d st)\<lparr>RenameSource := [], Damage := damageNone\<rparr>)) (map (apsnd (repointed fd src d)) (fileIntegrity d))\<rparr>)"
proof (cases "map_of (candidateFiles d) src")
  case None
  then have "(case map_of (candidateFiles d) src of None \<Rightarrow> d
      | Some cid \<Rightarrow> d\<lparr>fileIntegrity := map (apsnd (repoint cid (fd_FileID fd))) (fileIntegrity d)\<rparr>) = d"
    "repointed fd src d = id" by (simp_all add: repointed_def)
  moreover have "map (apsnd id) xs = xs" for xs :: "(FileID \<times> fileIntegrityState) list" by (induction xs) auto
  ultimately show ?thesis using assms by (simp add: wp wp_updState)
next
  case (Some cid)
  then show ?thesis using assms by (simp add: wp wp_updState map_of_apsnd repointed_def)
qed

lemma wp_rename_misnamed:
  assumes r: "renaming S w0 fs pre d" and ids: "distinct (map fd_FileID fs)" "distinct (map Filename fs)" and fd: "fd \<in> set fs"
    and S: "S \<inter> Filename ` set fs = {}"
  shows "wp (rename_misnamed fd) (\<lambda>_. renaming S w0 fs (pre @ [fd])) E d"
proof -
  let ?Q = "\<lambda>_. renaming S w0 fs (pre @ [fd])"
  obtain st where st: "map_of (fileIntegrity d) (fd_FileID fd) = Some st" using r fd unfolding renaming_def by blast
  let ?drop = "bindG (updState (fd_FileID fd) (\<lambda>st. st\<lparr>RenameSource := []\<rparr>)) (\<lambda>_. retG False)"
  have drop: "wp ?drop ?Q E (d\<lparr>root := w\<rparr>)" if "renaming S w0 fs pre (d\<lparr>root := w\<rparr>)" for w
    using renaming_drop[OF that ids(1) fd, of st] st by (simp add: wp wp_updState)
  show ?thesis
  proof (cases "RenameSource st = []")
    case True
    have "renaming S w0 fs (pre @ [fd]) d"
      using renaming_drop[OF r ids(1) fd st] True st by (simp add: update_triv)
    then show ?thesis using True st by (simp add: rename_misnamed_def wp wp_updState)
  next
    case False
    let ?move = "tryG (onRoot (rename_file (RenameSource st) (Filename fd))) (\<lambda>_.
      bindG (modG (\<lambda>d. case map_of (candidateFiles d) (RenameSource st) of None \<Rightarrow> d
        | Some candidateID \<Rightarrow> d\<lparr>fileIntegrity := map (apsnd (repoint candidateID (fd_FileID fd))) (fileIntegrity d)\<rparr>)) (\<lambda>_.
        bindG (getG sliceByteCount) (\<lambda>bs. bindG (updState (fd_FileID fd) (\<lambda>st.
          setWhole (fd_FileID fd) bs (st\<lparr>RenameSource := [], Damage := damageNone\<rparr>))) (\<lambda>_. retG True)))) (\<lambda>_. ?drop)"
    have move: "wp ?move ?Q E (d\<lparr>root := w\<rparr>)" if w: "renaming S w0 fs pre (d\<lparr>root := w\<rparr>)" for w
    proof (cases rule: rename_cases[of "RenameSource st" "Filename fd" w "{}"])
      case (1 e w')
      then have "renaming S w0 fs pre (d\<lparr>root := w'\<rparr>)" using renaming_same[OF w, of w'] by simp
      then show ?thesis unfolding wp_try wp_onRoot using 1(1) drop by (simp add: wp_def)
    next
      case (2 w' i)
      have "renaming S w0 fs (pre @ [fd]) (d\<lparr>root := w', fileIntegrity := AList.update (fd_FileID fd) (setWhole (fd_FileID fd) (sliceByteCount d)
          ((repointed fd (RenameSource st) d st)\<lparr>RenameSource := [], Damage := damageNone\<rparr>))
          (map (apsnd (repointed fd (RenameSource st) d)) (fileIntegrity d))\<rparr>)"
        using renaming_done[OF w ids fd, of st i w' "repointed fd (RenameSource st) d"] 2 st False S repointed_fields by simp
      then show ?thesis
        unfolding wp_try wp_onRoot using 2(1) wp_after_rename[of "d\<lparr>root := w'\<rparr>" fd st "RenameSource st"] st
        by (simp add: wp_def[of "rename_file _ _"] repointed_def)
    qed
    have "wp (tryG (ensureParentDir (Filename fd)) (\<lambda>_. ?move) (\<lambda>_. ?drop)) ?Q E d"
      unfolding wp_try[of "ensureParentDir _"] by (rule wp_ensureParentDir) (intro move drop renaming_same[OF r] same_frame, assumption)+
    then show ?thesis using False by (simp only: rename_misnamed_def wp_bind wp_updState(2)[OF st] if_False)
  qed
qed

lemma wp_renameMisnamedFiles:
  assumes r: "renaming S w0 fs [] d" and ids: "distinct (map fd_FileID fs)" "distinct (map Filename fs)"
    and S: "S \<inter> Filename ` set fs = {}"
  shows "wp renameMisnamedFiles (\<lambda>_. renaming S w0 fs fs) E d"
proof -
  have "protectedFiles d = fs" using r by (simp add: renaming_def)
  moreover have "wp (foldG (\<lambda>fd n. bindG (rename_misnamed fd) (\<lambda>r. retG (if r then n + 1 else n))) fs (0 :: nat)) (\<lambda>_. renaming S w0 fs fs) E d"
  proof (rule wp_fold[where I = "\<lambda>pre _. renaming S w0 fs pre"])
    fix pre fd rest and n :: nat and d
    assume f: "fs = pre @ fd # rest" and d: "renaming S w0 fs pre d"
    have "fd \<in> set fs" by (simp add: f)
    from wp_rename_misnamed[OF d ids this S, of E]
    show "wp (bindG (rename_misnamed fd) (\<lambda>r. retG (if r then n + 1 else n))) (\<lambda>_. renaming S w0 fs (pre @ [fd])) E d"
      unfolding wp_bind by (rule wp_mono) (simp_all add: wp)
  qed (rule r)
  ultimately show ?thesis by (simp add: renameMisnamedFiles_def wp)
qed

section \<open>The whole repair\<close>

text \<open>After a verification: the disk is that of \<open>w\<close>, every file is settled, and the rename sources lie in \<open>S\<close>, apart from
  the protected names.\<close>

definition verified :: "bytes set \<Rightarrow> FileDescPacket list \<Rightarrow> Decoder \<Rightarrow> bool" where
  "verified S fs d \<longleftrightarrow> protectedFiles d = fs \<and> distinct (map fd_FileID fs) \<and> distinct (map Filename fs) \<and>
     S \<inter> Filename ` set fs = {} \<and> wf_world (root d) \<and> temps_apart (root d) fs \<and>
     map fst (fileIntegrity d) = map fd_FileID fs \<and>
     (\<forall>fd\<in>set fs. \<exists>st. map_of (fileIntegrity d) (fd_FileID fd) = Some st \<and> state_ok S (root d) fd st)"

lemma verified_renaming: "verified S fs d \<Longrightarrow> renaming S (root d) fs [] d"
  unfolding verified_def renaming_def moved_only_def by auto

text \<open>Nothing that was there is lost.\<close>

definition kept_safe :: "bytes set \<Rightarrow> FileDescPacket list \<Rightarrow> world \<Rightarrow> world \<Rightarrow> bool" where
  "kept_safe S fs w0 w \<longleftrightarrow> (\<forall>n i. dir w0 n = Some i \<longrightarrow>
     dir w n = Some i \<and> inodes w i = inodes w0 i \<or>
     (\<exists>fd\<in>set fs. restored fd w \<and> (n = Filename fd \<or> n \<in> S \<and> md5 (inodes w0 i) = fd_Hash fd)))"

definition all_hashed :: "FileDescPacket list \<Rightarrow> world \<Rightarrow> bool" where
  "all_hashed fs w \<longleftrightarrow> (\<forall>fd\<in>set fs. restored fd w)"

lemma restored_preserved:
  assumes "preserved w1 fs N w2" "distinct (map Filename fs)" "fd \<in> set fs" "restored fd w1"
  shows "restored fd w2"
proof -
  obtain j where j: "dir w1 (Filename fd) = Some j" "md5 (inodes w1 j) = fd_Hash fd"
    using assms(4) by (auto simp: restored_def content_hash_def)
  then consider "dir w2 (Filename fd) = Some j" "inodes w2 j = inodes w1 j"
    | g where "g \<in> set fs" "Filename fd = Filename g" "content_hash w2 (Filename fd) = Some (fd_Hash g)"
    using assms(1) unfolding preserved_def by blast
  then show ?thesis
  proof cases
    case 2
    then have "g = fd" using assms(2,3) by (auto simp: distinct_map dest: inj_onD)
    then show ?thesis using 2(3) by (simp add: restored_def)
  qed (use j in \<open>simp add: restored_def content_hash_def\<close>)
qed

lemma moved_then_preserved:
  assumes "moved_only S fs w0 w1" "preserved w1 fs N w2" "distinct (map Filename fs)"
  shows "kept_safe S fs w0 w2"
  unfolding kept_safe_def
proof (intro allI impI)
  fix n i assume n: "dir w0 n = Some i"
  then consider "dir w1 n = Some i"
    | fd where "fd \<in> set fs" "restored fd w1" "n = Filename fd \<or> n \<in> S \<and> md5 (inodes w0 i) = fd_Hash fd"
    using assms(1) unfolding moved_only_def by blast
  then show "dir w2 n = Some i \<and> inodes w2 i = inodes w0 i \<or>
      (\<exists>fd\<in>set fs. restored fd w2 \<and> (n = Filename fd \<or> n \<in> S \<and> md5 (inodes w0 i) = fd_Hash fd))"
  proof cases
    case 1
    moreover have "inodes w1 = inodes w0" using assms(1) by (simp add: moved_only_def)
    ultimately show ?thesis using assms(2) unfolding preserved_def restored_def by metis
  qed (use restored_preserved[OF assms(2,3)] in blast)
qed

lemma building_new:
  assumes "newRepairPipeline d pl = Ret p"
  shows "building (root d) pl (protectedFiles d) (p\<lparr>pd := d\<rparr>)"
  using assms by (auto simp: newRepairPipeline_def res_iff building_def originals_def outputs_ok_def temps_ok_def disk_def)

lemma post_withPipeline: "post (withPipeline m p) Q J d = post m (\<lambda>x p'. Q x (pd p')) (\<lambda>p'. J (pd p')) (p\<lparr>pd := d\<rparr>)"
  by (auto simp: post_def withPipeline_def split: prod.splits res.splits)

lemma state_of: "renaming S w0 fs pre d \<Longrightarrow> fd \<in> set fs \<Longrightarrow> \<exists>st. map_of (fileIntegrity d) (fd_FileID fd) = Some st \<and>
    state_ok S (root d) fd st \<and> (fd \<in> set pre \<longrightarrow> RenameSource st = [])"
  unfolding renaming_def by blast

text \<open>A file that is neither missing, nor of the wrong size, nor of the wrong hash has its recorded hash.\<close>

lemma not_rebuilt_hashed:
  assumes "renaming S w0 fs pre d" "fd \<in> set fs" "map_of (fileIntegrity d) (fd_FileID fd) = Some st" "\<not> needsRebuild st"
  shows "restored fd (root d)"
proof -
  have "state_ok S (root d) fd st" using state_of[OF assms(1,2)] assms(3) by auto
  then show ?thesis using assms(4) unfolding state_ok_def needsRebuild_def restored_def by (cases "Damage st") auto
qed

lemma nothing_needed:
  assumes "renaming S w0 fs pre d" "\<not> RepairNeeded (shardCountsLocked d)"
  shows "all_hashed fs (root d)"
  unfolding all_hashed_def
proof
  fix fd assume fd: "fd \<in> set fs"
  then obtain st where st: "map_of (fileIntegrity d) (fd_FileID fd) = Some st" using state_of[OF assms(1)] by blast
  then have "st \<in> set (map snd (fileIntegrity d))" by (force dest: map_of_SomeD)
  then have "\<not> needsRebuild st" using assms(2) unfolding RepairNeeded_iff by blast
  from not_rebuilt_hashed[OF assms(1) fd st this] show "restored fd (root d)" .
qed

lemma pipeline_complete:
  assumes r: "renaming S w0 fs pre d" and pl: "planRepair n d = (Ret pl, d')"
    and w: "preserved (root d) fs (targets pl) w" "installed_ok fs pl w" and dist: "distinct (map Filename fs)"
  shows "all_hashed fs w"
  unfolding all_hashed_def
proof
  fix fd assume fd: "fd \<in> set fs"
  show "restored fd w"
  proof (cases "Filename fd \<in> targets pl")
    case True
    then show ?thesis using w(2) fd by (simp add: installed_ok_def restored_def)
  next
    case False
    have needs: "map_of (needsWrite pl) m = (if \<exists>f\<in>set fs. Filename f = m \<and> rebuilds d f then Some True else None)" for m
      using buildNeedsWrite_eq(1)[OF planRepair_inv(8)[OF pl]] r by (simp add: renaming_def)
    obtain st where st: "map_of (fileIntegrity d) (fd_FileID fd) = Some st" using state_of[OF r fd] by blast
    have "\<not> rebuilds d fd" using False fd needs[of "Filename fd"] by (auto simp: targets_def split: if_splits)
    then have "\<not> needsRebuild st" using st by (simp add: rebuilds_def)
    from restored_preserved[OF w(1) dist fd not_rebuilt_hashed[OF r fd st this]] show ?thesis .
  qed
qed

lemma post_Repair:
  assumes v: "verified S fs d"
  shows "post (Repair e sc) (\<lambda>_ d'. kept_safe S fs (root d) (root d') \<and> all_hashed fs (root d')) (\<lambda>d'. kept_safe S fs (root d) (root d')) d"
proof -
  let ?w = "root d"
  have ids: "distinct (map fd_FileID fs)" "distinct (map Filename fs)" "S \<inter> Filename ` set fs = {}" "temps_apart ?w fs"
    using v by (simp_all add: verified_def)
  let ?Q = "\<lambda>_ d'. kept_safe S fs ?w (root d') \<and> all_hashed fs (root d')" and ?J = "\<lambda>d'. kept_safe S fs ?w (root d')"
  have safe1: "?J d1" if "renaming S ?w fs fs d1" for d1
    using that by (auto simp: kept_safe_def renaming_def moved_only_def)
  have pipe: "post (withPipeline (run_pipeline e sc) p) ?Q ?J d1"
    if r: "renaming S ?w fs fs d1" and pl: "planRepair n d1 = (Ret pl, d1)" and p: "newRepairPipeline d1 pl = Ret p" for d1 n pl p
  proof -
    have m: "moved_only S fs ?w (root d1)" "protectedFiles d1 = fs" using r by (simp_all add: renaming_def)
    then have "temps_apart (root d1) fs" "wf_world (root d1)" using ids(4) by (simp_all add: moved_only_def temps_apart_def)
    from post_run_pipeline[OF building_new[OF p, unfolded m(2)] this(2,1) ids(2)]
    show ?thesis unfolding post_withPipeline
      by (rule post_mono) (use moved_then_preserved[OF m(1) _ ids(2)] pipeline_complete[OF r pl _ _ ids(2)] in \<open>auto simp: disk_def\<close>)
  qed
  have rest: "post (bindG (getG shardCountsLocked) (\<lambda>counts. if \<not> RepairNeeded counts then retG ()
      else if \<not> RepairPossible counts then errG ''repair not possible''
      else bindG (planRepair n) (\<lambda>pl. bindG (bindG (getG (\<lambda>d. newRepairPipeline d pl)) liftR) (withPipeline (run_pipeline e sc))))) ?Q ?J d1"
    if r: "renaming S ?w fs fs d1" for d1 n
  proof -
    have "post (bindG (planRepair n) (\<lambda>pl. bindG (bindG (getG (\<lambda>d. newRepairPipeline d pl)) liftR) (withPipeline (run_pipeline e sc)))) ?Q ?J d1"
      unfolding post_bind[of "planRepair n"]
    proof (rule post_mono[OF post_gives[OF gives_value[OF planning_reads(3)] refl]])
      fix pl d' assume "d' = d1 \<and> planRepair n d1 = (Ret pl, d1)"
      then show "post (bindG (bindG (getG (\<lambda>d. newRepairPipeline d pl)) liftR) (withPipeline (run_pipeline e sc))) ?Q ?J d'"
        using pipe[OF r, of n pl] safe1[OF r] by (cases "newRepairPipeline d1 pl") (simp_all add: post_def go_basic)
    qed (use safe1[OF r] in simp)
    then show ?thesis
      using nothing_needed[OF r] safe1[OF r] by (simp add: post_bind[of "getG _"] post_basic)
  qed
  show ?thesis
    unfolding Repair_def post_bind[of renameMisnamedFiles]
    by (rule post_mono[OF wp_post[OF wp_renameMisnamedFiles[OF verified_renaming[OF v] ids(1-3), where E = "\<lambda>_ _. False"]]])
      (use rest in auto)
qed

end
