(* ===== verification/Verify_Repair.thy ===== *)
theory Verify_Repair
  imports Verify_Complete Repair_Files
begin

text \<open>
  Verification followed by repair. After \<open>VerifyScans\<close> every file is settled and a rename source is a registered
  candidate, which is what \<open>Repair\<close> needs to know of the states it starts from.
\<close>

section \<open>Rename sources are candidates\<close>

definition all_states :: "(FileID \<Rightarrow> fileIntegrityState \<Rightarrow> bool) \<Rightarrow> Decoder \<Rightarrow> bool" where
  "all_states P d \<longleftrightarrow> (\<forall>fid st. map_of (fileIntegrity d) fid = Some st \<longrightarrow> P fid st)"

definition candidate_names :: "Decoder \<Rightarrow> bytes set" where
  "candidate_names d = fst ` set (candidateFiles d) \<union> snd ` set (candidateByID d)"

definition rename_ok :: "bytes set \<Rightarrow> FileID set \<Rightarrow> FileID \<Rightarrow> fileIntegrityState \<Rightarrow> bool" where
  "rename_ok S M fid st \<longleftrightarrow> (RenameSource st \<noteq> [] \<longrightarrow> Damage st \<noteq> damageUnchecked \<and> RenameSource st \<in> S) \<and>
     (fid \<in> M \<longrightarrow> Damage st = damageMissing)"

text \<open>The configuration of \<open>d0\<close>, with the files in \<open>M\<close> known to be missing.\<close>

definition tracked :: "Decoder \<Rightarrow> FileID set \<Rightarrow> Decoder \<Rightarrow> bool" where
  "tracked d0 M d \<longleftrightarrow> candidateFiles d = candidateFiles d0 \<and> candidateByID d = candidateByID d0 \<and>
     sliceByteCount d = sliceByteCount d0 \<and> all_states (rename_ok (candidate_names d0) M) d"

lemma keeps_tracked_root [keeps]: "keeps (tracked d0 M) (onRoot m)"
  by (auto simp: keeps_def onRoot_def tracked_def all_states_def split: prod.splits)

lemma keeps_tracked_update:
  assumes "\<And>st. rename_ok (candidate_names d0) M fid st \<Longrightarrow> rename_ok (candidate_names d0) M fid (f st)"
  shows "keeps (tracked d0 M) (updState fid f)"
  using assms by (auto simp: keeps_def updState_def tracked_def all_states_def update_conv split: option.splits)

lemma keeps_tracked_damage: "dm \<noteq> damageUnchecked \<Longrightarrow> keeps (tracked d0 {}) (setDamage fid dm)"
  unfolding setDamage_def by (rule keeps_tracked_update) (auto simp: rename_ok_def)

lemma tracked_weaken: "tracked d0 M d \<Longrightarrow> tracked d0 {} d"
  by (auto simp: tracked_def all_states_def rename_ok_def)

lemma tracked_init:
  assumes "initFileIntegrity d = (Ret u, d')" "distinct (map fd_FileID (protectedFiles d))"
  shows "tracked d {} d'"
proof -
  have "d' = d\<lparr>fileIntegrity := map (\<lambda>f. (fd_FileID f, fresh_state (sliceByteCount d) f)) (protectedFiles d)\<rparr>"
    using initFileIntegrity_cases[OF assms(2)] assms(1) by (auto split: if_splits)
  then show ?thesis
    by (auto simp: tracked_def all_states_def rename_ok_def fresh_state_def dest!: map_of_SomeD)
qed

lemma keeps_check_exists_tracked: "keeps (tracked d0 {}) (check_exists fd)"
  unfolding check_exists_def by (intro keeps keeps_tracked_damage) simp

section \<open>The prescans\<close>

lemma prescan_candidate_tracked:
  assumes "path \<in> candidate_names d0" "fd_FileID ` snd ` set missing \<subseteq> M"
  shows "keeps (tracked d0 M) (prescan_candidate missing path cid)"
proof -
  have "keeps (tracked d0 M) (updState (fd_FileID fd) (\<lambda>st. setWhole cid bs (st\<lparr>RenameSource := path\<rparr>)))"
    if "map_of missing k = Some fd" for fd k bs
  proof (rule keeps_tracked_update)
    have "fd_FileID fd \<in> M" using map_of_SomeD[OF that] assms(2) by force
    then show "rename_ok (candidate_names d0) M (fd_FileID fd) (setWhole cid bs (st\<lparr>RenameSource := path\<rparr>))"
      if "rename_ok (candidate_names d0) M (fd_FileID fd) st" for st
      using that assms(1) by (simp add: rename_ok_def)
  qed
  then show ?thesis unfolding prescan_candidate_def by (intro keeps)
qed

lemma prescan_loop_tracked:
  assumes "fd_FileID ` snd ` set missing \<subseteq> M"
  shows "fst ` set cs \<subseteq> candidate_names d0 \<Longrightarrow> keeps (tracked d0 M) (prescan_loop missing cs resolved)"
  using assms by (induction cs arbitrary: resolved) (auto intro!: keeps prescan_candidate_tracked split: if_splits)

lemma gives_missing_damage:
  "gives (\<lambda>d'. d' = d) missingByQuickKey
     (\<lambda>m. \<forall>fd\<in>snd ` set m. \<exists>st. map_of (fileIntegrity d) (fd_FileID fd) = Some st \<and> Damage st = damageMissing)"
  (is "gives ?I _ ?R")
proof -
  have u: "snd ` set (AList.update k v al) \<subseteq> insert v (snd ` set al)" for k and v :: FileDescPacket and al
    by (induction al) (auto split: if_splits)
  have g: "gives ?I (getState fid) (\<lambda>st. map_of (fileIntegrity d) fid = Some st)" for fid
    by (auto simp: gives_def keeps getState_def split: option.splits)
  have "gives ?I (getG protectedFiles) (\<lambda>_. True)" by (simp add: gives_keeps keeps)
  then show ?thesis
    unfolding missingByQuickKey_def
  proof (rule gives_bind, intro gives_fold gives_bind[OF g] gives_ret)
    fix fd :: FileDescPacket and m st
    assume "?R m" "map_of (fileIntegrity d) (fd_FileID fd) = Some st"
    then show "?R (if Damage st = damageMissing then AList.update (ByteCount fd, SixteenKHash fd) fd m else m)"
      using u[of "(ByteCount fd, SixteenKHash fd)" fd m] by (smt (verit, best) insertE subsetD)
  qed simp
qed

lemma prescanCandidateMatches_tracked: "keeps (tracked d0 {}) prescanCandidateMatches"
proof (rule keeps_post)
  fix d assume d: "tracked d0 {} d"
  have loop: "post (if missing = [] then retG [] else prescan_loop missing (candidateFiles d) []) (\<lambda>_. tracked d0 {}) (tracked d0 {}) d"
    if m: "\<forall>fd\<in>snd ` set missing. \<exists>st. map_of (fileIntegrity d) (fd_FileID fd) = Some st \<and> Damage st = damageMissing" for missing
  proof -
    let ?M = "fd_FileID ` snd ` set missing"
    have "tracked d0 ?M d" using d m by (fastforce simp: tracked_def all_states_def rename_ok_def)
    moreover have "fst ` set (candidateFiles d) \<subseteq> candidate_names d0" using d by (simp add: tracked_def candidate_names_def)
    ultimately have "post (prescan_loop missing (candidateFiles d) []) (\<lambda>_. tracked d0 ?M) (tracked d0 ?M) d"
      by (intro post_keeps prescan_loop_tracked order_refl)
    then have "post (prescan_loop missing (candidateFiles d) []) (\<lambda>_. tracked d0 {}) (tracked d0 {}) d"
      by (rule post_mono) (rule tracked_weaken, assumption)+
    then show ?thesis using d by (simp add: post_basic)
  qed
  have "post (bindG missingByQuickKey (\<lambda>missing. if missing = [] then retG [] else prescan_loop missing (candidateFiles d) []))
      (\<lambda>_. tracked d0 {}) (tracked d0 {}) d"
    unfolding post_bind by (rule post_mono[OF post_gives[OF gives_missing_damage refl]]) (use loop d in auto)
  then show "post prescanCandidateMatches (\<lambda>_. tracked d0 {}) (tracked d0 {}) d"
    using d unfolding prescanCandidateMatches_def post_bind[of "getG _"] post_basic by (simp add: post_basic)
qed

lemma prescanProtectedMatches_tracked: "keeps (tracked d0 {}) prescanProtectedMatches"
proof -
  have "keeps (tracked d0 {}) (prescan_protected fd)" for fd
    unfolding prescan_protected_def by (intro keeps keeps_tracked_update) (auto simp: rename_ok_def)
  then have "keeps (tracked d0 {}) (prescan_protected_loop fds)" for fds
    by (induction fds) (auto intro!: keeps)
  then show ?thesis unfolding prescanProtectedMatches_def by (intro keeps)
qed

section \<open>The scan and the hash verification\<close>

lemma scan_tracked:
  assumes "newCRC32Window (int (sliceByteCount (sd s))) = Ret (window s)"
  shows "keeps (tracked d0 {}) (scan s envs sched)"
proof -
  have marks: "keeps (tracked d0 {}) (case m of (fid, dm) \<Rightarrow> setDamage fid dm)"
    if "m \<in> set (concat (map jobMarks (job_runs s envs w js)))" for m w js
  proof -
    have "snd m \<noteq> damageUnchecked" using job_runs_marks[OF assms that] job_mark_damaged by blast
    then show ?thesis by (cases m) (auto intro: keeps_tracked_damage)
  qed
  have "keeps (tracked d0 {}) (collect m)" for m
    unfolding collect_def by (intro keeps keeps_tracked_update) (simp add: rename_ok_def)
  then show ?thesis unfolding scan_def Let_def job_runs_def[symmetric] by (intro marks keeps)
qed

lemma gives_detect_candidate:
  "gives (tracked d0 M) (detectRenameCandidate fd st) (\<lambda>p. p \<noteq> [] \<longrightarrow> p \<in> candidate_names d0)"
proof (cases "ShardLocations st")
  case (Cons l ls)
  have g: "gives (tracked d0 M) (getG (\<lambda>d. (map_of (candidateByID d) (loc_FileID l), sliceByteCount d)))
      (\<lambda>x. \<forall>q. fst x = Some q \<longrightarrow> q \<in> candidate_names d0)"
    by (force simp: gives_def keeps getG_def tracked_def candidate_names_def dest!: map_of_SomeD)
  have k: "gives (tracked d0 M) (onRoot m) (\<lambda>_. True)" for m by (simp add: gives_keeps keeps)
  show ?thesis
    unfolding detectRenameCandidate_def Cons list.case
    by (intro gives_if gives_ret gives_bind[OF g]; (simp split: prod.split)?)
      (auto simp: Let_def intro!: gives_if gives_ret gives_try[OF k] split: option.splits)
qed (simp add: detectRenameCandidate_def gives_ret)

lemma verify_file_tracked: "keeps (tracked d0 {}) (verify_file fd)"
proof (rule keeps_post)
  fix d assume d: "tracked d0 {} d"
  let ?fid = "fd_FileID fd"
  have detect: "keeps (tracked d0 M) (bindG (detectRenameCandidate fd st) (\<lambda>rename. if rename \<noteq> [] then updState ?fid (f rename) else g))"
    if "\<And>p st. p \<in> candidate_names d0 \<Longrightarrow> rename_ok (candidate_names d0) M ?fid st \<Longrightarrow> rename_ok (candidate_names d0) M ?fid (f p st)"
      "keeps (tracked d0 M) g" for M st f g
    by (rule keeps_bind_gives[OF gives_detect_candidate]) (use that in \<open>auto intro!: keeps keeps_tracked_update\<close>)
  have hash: "keeps (tracked d0 {}) (verifySingleFileHash fd)"
    unfolding verifySingleFileHash_def by (intro keeps keeps_tracked_damage) simp_all
  show "post (verify_file fd) (\<lambda>_. tracked d0 {}) (tracked d0 {}) d"
  proof (cases "map_of (fileIntegrity d) ?fid")
    case None
    then show ?thesis using d by (simp add: verify_file_def post_def bindG_def getState_def)
  next
    case (Some st)
    have miss: "post (bindG (detectRenameCandidate fd st) (\<lambda>rename. if rename \<noteq> [] then
        updState ?fid (\<lambda>st. st\<lparr>RenameSource := rename\<rparr>) else retG ())) (\<lambda>_. tracked d0 {}) (tracked d0 {}) d"
      if "Damage st = damageMissing"
    proof -
      have "tracked d0 {?fid} d" using d Some that by (auto simp: tracked_def all_states_def rename_ok_def)
      from post_keeps[OF detect this, of "\<lambda>p st. st\<lparr>RenameSource := p\<rparr>" "retG ()"]
      show ?thesis by (rule post_mono[OF _ tracked_weaken tracked_weaken]) (auto simp: rename_ok_def keeps)
    qed
    have wrong: "keeps (tracked d0 {}) (bindG (getG (\<lambda>d. isAllShardsConsecutive d fd st)) (\<lambda>all.
         if all then verifySingleFileHash fd
         else bindG (detectRenameCandidate fd st) (\<lambda>rename.
           if rename \<noteq> [] then updState ?fid (\<lambda>st. st\<lparr>Damage := damageWrongHash, RenameSource := rename\<rparr>)
           else setDamage ?fid damageWrongHash)))"
      by (intro keeps_bind[OF keeps_simple(4)] keeps_if hash detect keeps_tracked_damage) (auto simp: rename_ok_def)
    have "post (getState ?fid) Q J d = Q st d" for Q J using Some by (simp add: post_def getState_def)
    then show ?thesis
      unfolding verify_file_def post_bind[of "getState _"] using miss post_keeps[OF wrong d] d by (simp add: post_basic)
  qed
qed

lemma verifyHashes_tracked: "keeps (tracked d0 {}) verifyProtectedFilesHashes"
  unfolding verifyProtectedFilesHashes_def by (intro keeps verify_file_tracked)

section \<open>After a verification\<close>

lemma VerifyScans_tracked:
  assumes "distinct (map fd_FileID (protectedFiles d))" "VerifyScans envs sched d = (Ret u, d')"
  shows "tracked d {} d'"
proof -
  have init: "ends (\<lambda>d1. d1 = d) initFileIntegrity (\<lambda>_. tracked d {})"
    unfolding ends_def using tracked_init assms(1) by blast
  have exist: "keeps (tracked d {}) checkFileExistence"
    unfolding checkFileExistence_def by (intro keeps keeps_check_exists_tracked)
  have static: "gives (tracked d {}) (getG sliceByteCount) (\<lambda>s. s = sliceByteCount d)"
    "gives (tracked d {}) (getG (\<lambda>d. d)) (\<lambda>d1. sliceByteCount d1 = sliceByteCount d)"
    by (simp_all add: gives_def keeps go_defs tracked_def)
  have fin: "ends (tracked d {}) (bindG (onRoot ctxErr) (\<lambda>canc. if canc then errG ''context canceled'' else retG ())) (\<lambda>_. tracked d {})"
    by (rule ends_bind_keeps[OF keeps_tracked_root]) (simp add: ends_simple ends_if)
  have "ends (\<lambda>d1. d1 = d) (VerifyScans envs sched) (\<lambda>_. tracked d {})"
    unfolding VerifyScans_def
    by (rule ends_bind[OF init], rule ends_bind_keeps[OF exist],
        rule ends_bind_keeps[OF prescanCandidateMatches_tracked], rule ends_bind_keeps[OF prescanProtectedMatches_tracked],
        rule ends_bind_keeps[OF keeps_calculateBytesToScan], rule ends_bind_gives[OF static(1)],
        rule ends_bind_gives[OF gives_liftR], rule ends_bind_keeps[OF keeps_buildLookupTable],
        rule ends_bind_gives[OF static(2)], rule ends_bind_keeps[OF keeps_simple(3)], rule ends_bind_keeps[OF scan_tracked], simp,
        rule ends_bind_keeps[OF verifyHashes_tracked fin])
  then show ?thesis using assms(2) unfolding ends_def by blast
qed

text \<open>What is asked of a set before it is verified and repaired: its files have distinct identifiers and names, no
  candidate goes by the name of a protected file, and temp names cannot be protected names.\<close>

definition repairable_set :: "Decoder \<Rightarrow> bool" where
  "repairable_set d \<longleftrightarrow> distinct (map fd_FileID (protectedFiles d)) \<and> distinct (map Filename (protectedFiles d)) \<and>
     candidate_names d \<inter> Filename ` set (protectedFiles d) = {} \<and> wf_world (root d) \<and> temps_apart (root d) (protectedFiles d)"

lemma VerifyScans_verified:
  assumes "repairable_set d" "VerifyScans envs sched d = (Ret u, d')"
  shows "verified (candidate_names d) (protectedFiles d) d'" "same_files (root d) (root d')"
proof -
  have ids: "distinct (map fd_FileID (protectedFiles d))" using assms(1) by (simp add: repairable_set_def)
  have s: "sound (root d) (protectedFiles d) (sliceByteCount d) d'" "decided (protectedFiles d) d'" and t: "tracked d {} d'"
    using VerifyScans_sound[OF ids assms(2)] VerifyScans_tracked[OF ids assms(2)] by blast+
  show w: "same_files (root d) (root d')" using s(1) by (simp add: sound_def)
  have "state_ok (candidate_names d) (root d') fd st"
    if "fd \<in> set (protectedFiles d)" "map_of (fileIntegrity d') (fd_FileID fd) = Some st" "state_sound (root d) fd st" for fd st
  proof -
    have "rename_ok (candidate_names d) {} (fd_FileID fd) st" using t that(2) by (simp add: tracked_def all_states_def)
    moreover have "settled st" using s(2) that(1,2) unfolding decided_def by blast
    moreover have "content_hash (root d') n = content_hash (root d) n" for n using w by (simp add: content_hash_def same_files_def)
    ultimately show ?thesis using that(3) by (auto simp: state_ok_def rename_ok_def settled_def state_sound_def)
  qed
  moreover have "protectedFiles d' = protectedFiles d" "map fst (fileIntegrity d') = map fd_FileID (protectedFiles d)"
    using s(1) by (simp_all add: sound_def)
  moreover have "wf_world (root d')" "temps_apart (root d') (protectedFiles d)"
    using assms(1) w by (simp_all add: repairable_set_def wf_world_def temps_apart_def same_files_def)
  ultimately show "verified (candidate_names d) (protectedFiles d) d'"
    using s(1) assms(1) unfolding verified_def sound_def repairable_set_def by blast
qed

section \<open>A set without renames\<close>

lemma no_renames:
  assumes "\<forall>fd\<in>set (protectedFiles d). \<exists>st. map_of (fileIntegrity d) (fd_FileID fd) = Some st \<and> RenameSource st = []"
  shows "renameMisnamedFiles d = (Ret 0, d)"
proof -
  have "foldG (\<lambda>fd n. bindG (rename_misnamed fd) (\<lambda>r. retG (if r then n + 1 else n))) fs n d = (Ret n, d)"
    if "set fs \<subseteq> set (protectedFiles d)" for fs and n :: nat
    using that
  proof (induction fs)
    case (Cons fd fs)
    then obtain st where "map_of (fileIntegrity d) (fd_FileID fd) = Some st" "RenameSource st = []" using assms by auto
    then have "rename_misnamed fd d = (Ret False, d)" by (simp add: rename_misnamed_def bindG_def getState_def retG_def)
    then show ?case using Cons by (simp add: bindG_def retG_def)
  qed simp
  then show ?thesis by (simp add: renameMisnamedFiles_def bindG_def getG_def)
qed

section \<open>Properties\<close>

text \<open>C5. A repair that reports success has repaired, on a set whose names do not clash (\<open>repairable_set\<close>: the protected files have
  different identifiers and names, no candidate goes by the name of a protected file, and no temporary name drawn in
  this run is the name of a protected file): when \<open>Repair\<close> after \<open>VerifyScans\<close> returns no error, every protected file is there
  under its own name with the recorded MD5, whichever calls failed on the way and whatever the schedule.\<close>

theorem repaired_files_are_intact:
  assumes "repairable_set d" "VerifyScans envs sched d = (Ret (), d1)" "Repair e sc d1 = (Ret (), d2)"
  shows "\<forall>fd\<in>set (protectedFiles d). \<exists>i. dir (root d2) (Filename fd) = Some i \<and> md5 (inodes (root d2) i) = fd_Hash fd"
proof -
  have "all_hashed (protectedFiles d) (root d2)"
    using post_D(1)[OF post_Repair[OF VerifyScans_verified(1)[OF assms(1,2)]] assms(3)] by blast
  then show ?thesis by (auto simp: all_hashed_def restored_def content_hash_def)
qed

text \<open>C6. A repair loses nothing, on a set whose names do not clash (\<open>repairable_set\<close>: the protected files have different identifiers
  and names, no candidate goes by the name of a protected file, and no temporary name drawn in this run is the name of
  a protected file). Whether it succeeds, fails, panics or is cancelled at any point, each file that was in the directory before is
  afterwards there with the same bytes, or it is a protected file that now has its recorded MD5, or it was a
  candidate with the recorded MD5 of a protected file that is now under its own name.\<close>

theorem repair_loses_nothing:
  assumes "repairable_set d" "VerifyScans envs sched d = (Ret (), d1)" "Repair e sc d1 = (r, d2)" "dir (root d) n = Some i"
  shows "dir (root d2) n = Some i \<and> inodes (root d2) i = inodes (root d) i \<or>
    (\<exists>fd\<in>set (protectedFiles d). content_hash (root d2) (Filename fd) = Some (fd_Hash fd) \<and>
      (n = Filename fd \<or> n \<in> candidate_names d \<and> md5 (inodes (root d) i) = fd_Hash fd))"
proof -
  note v = VerifyScans_verified[OF assms(1,2)]
  have "kept_safe (candidate_names d) (protectedFiles d) (root d1) (root d2)"
    using post_D(2)[OF post_Repair[OF v(1)], of e sc] assms(3) by (metis (no_types, lifting) snd_conv)
  moreover have "dir (root d1) n = Some i" "inodes (root d1) = inodes (root d)" using v(2) assms(4) by (simp_all add: same_files_def)
  ultimately show ?thesis unfolding kept_safe_def restored_def by metis
qed

end
