(* ===== verification/Verify_Locations.thy ===== *)
theory Verify_Locations
  imports Verify_Repair
begin

text \<open>
  Every location that a verification reports is genuine: the file named by its identifier is there, and it holds at the
  reported offset bytes with the recorded MD5 of the block, or it has as a whole the recorded MD5 of the protected file.
\<close>

section \<open>Genuine locations\<close>

definition found_at :: "Decoder \<Rightarrow> FileDescPacket \<Rightarrow> nat \<Rightarrow> shardLocation \<Rightarrow> bool" where
  "found_at d fd j loc \<longleftrightarrow> 0 \<le> Offset loc \<and>
     (\<exists>jb\<in>jobs_of (protectedFiles d) (candidateFiles d). job_id jb = loc_FileID loc \<and> (\<exists>i. dir (root d) (job_name jb) = Some i \<and>
        (let data = inodes (root d) i; off = nat (Offset loc); s = sliceByteCount d
         in off = j * s \<and> md5 data = fd_Hash fd \<or>
            (\<exists>n pair. n \<le> s \<and> (n = s \<or> job_limit jb data \<le> off + n) \<and> wants d (fd_FileID fd) j pair \<and>
               MD5 pair = md5 (block_at s n data off)))))"

definition truthful :: "Decoder \<Rightarrow> FileDescPacket \<Rightarrow> fileIntegrityState \<Rightarrow> bool" where
  "truthful d fd st \<longleftrightarrow> (\<forall>j<length (ShardLocations st). Offset (ShardLocations st ! j) \<noteq> -1 \<longrightarrow> found_at d fd j (ShardLocations st ! j))"

definition traced :: "Decoder \<Rightarrow> Decoder \<Rightarrow> bool" where
  "traced d0 d \<longleftrightarrow> sound (root d0) (protectedFiles d0) (sliceByteCount d0) d \<and> fileChecksums d = fileChecksums d0 \<and>
     candidateFiles d = candidateFiles d0 \<and> numGoroutines d = numGoroutines d0 \<and> states_pred (protectedFiles d0) (truthful d0) d"

lemma traced_sound: "traced d0 d \<Longrightarrow> sound (root d0) (protectedFiles d0) (sliceByteCount d0) d"
  by (simp add: traced_def)

lemma traced_verifying: "traced d0 d \<Longrightarrow> verifying (root d0) d0 False {} d"
  by (simp add: traced_def verifying_def calm_world_def)

lemma file_pred_traced: "file_pred (traced d0)"
  using file_pred_sound unfolding file_pred_def traced_def by simp

lemma in_world_traced: "in_world (root d0) (traced d0)"
  using in_world_sound[of "root d0" "protectedFiles d0" "sliceByteCount d0"] unfolding in_world_def traced_def by simp

lemma traced_root: "reads m \<Longrightarrow> keeps (traced d0) (onRoot m)"
  by (rule keeps_onRoot[OF file_pred_traced])

lemma gives_traced:
  "gives (traced d0) (getG protectedFiles) (\<lambda>x. x = protectedFiles d0)"
  "gives (traced d0) (getG sliceByteCount) (\<lambda>x. x = sliceByteCount d0)"
  "gives (traced d0) (getG candidateFiles) (\<lambda>x. x = candidateFiles d0)"
  "gives (traced d0) (getG root) (\<lambda>w. same_files (root d0) w)"
  "gives (traced d0) (getG (\<lambda>d. d)) (\<lambda>d. sliceByteCount d = sliceByteCount d0)"
  by (simp_all add: gives_def keeps go_defs traced_def sound_def)

text \<open>Changing the state of a file.\<close>

lemma traced_update:
  assumes "\<And>fd st. fd \<in> set (protectedFiles d0) \<Longrightarrow> fd_FileID fd = fid \<Longrightarrow>
      state_sound (root d0) fd st \<Longrightarrow> state_shape (sliceByteCount d0) fd st \<Longrightarrow>
      state_sound (root d0) fd (f st) \<and> state_shape (sliceByteCount d0) fd (f st)"
    and "\<And>fd st. fd \<in> set (protectedFiles d0) \<Longrightarrow> fd_FileID fd = fid \<Longrightarrow> truthful d0 fd st \<Longrightarrow> truthful d0 fd (f st)"
  shows "keeps (traced d0) (updState fid f)"
proof -
  have "keeps (sound (root d0) (protectedFiles d0) (sliceByteCount d0)) (updState fid f)"
    by (rule sound_updState_any) (rule assms(1))
  moreover have "keeps (states_pred (protectedFiles d0) (truthful d0)) (updState fid f)"
    by (rule keeps_states_update) (rule assms(2))
  moreover have "fileChecksums (snd (updState fid f d)) = fileChecksums d" "candidateFiles (snd (updState fid f d)) = candidateFiles d"
    "numGoroutines (snd (updState fid f d)) = numGoroutines d" for d
    by (simp_all add: updState_def split: option.splits)
  ultimately show ?thesis unfolding keeps_def traced_def by simp
qed

lemma traced_setDamage:
  assumes "dm = damageNone \<longrightarrow> (\<forall>fd\<in>set (protectedFiles d0). fd_FileID fd = fid \<longrightarrow> content_hash (root d0) (Filename fd) = Some (fd_Hash fd))"
  shows "keeps (traced d0) (setDamage fid dm)"
  unfolding setDamage_def by (rule traced_update) (use assms in \<open>auto simp: state_sound_def state_shape_def truthful_def\<close>)

lemma truthful_whole:
  assumes "jb \<in> jobs_of (protectedFiles d0) (candidateFiles d0)" "dir (root d0) (job_name jb) = Some i" "md5 (inodes (root d0) i) = fd_Hash fd"
  shows "truthful d0 fd (setWhole (job_id jb) (sliceByteCount d0) st)"
proof -
  have "found_at d0 fd j \<lparr>loc_FileID = job_id jb, Offset = int (j * sliceByteCount d0)\<rparr>" for j
    unfolding found_at_def Let_def using assms by (simp del: of_nat_mult) blast
  then show ?thesis by (simp add: truthful_def setWhole_def wholeLocations_def)
qed

section \<open>The phases before the scan\<close>

lemma traced_init:
  assumes "initFileIntegrity d = (Ret u, d')" "distinct (map fd_FileID (protectedFiles d))"
  shows "traced d d'"
proof -
  have d': "d' = d\<lparr>fileIntegrity := map (\<lambda>f. (fd_FileID f, fresh_state (sliceByteCount d) f)) (protectedFiles d)\<rparr>"
    using initFileIntegrity_cases[OF assms(2)] assms(1) by (auto split: if_splits)
  then have "states_pred (protectedFiles d) (truthful d) d'"
    by (auto simp: states_pred_def truthful_def fresh_state_def missingLocation_def dest!: map_of_SomeD)
  then show ?thesis using init_sound[OF assms] d' by (simp add: traced_def)
qed

lemma traced_exist: "keeps (traced d0) checkFileExistence"
  unfolding checkFileExistence_def check_exists_def by (intro keeps traced_root reads_ops traced_setDamage) simp

lemma traced_prescan_protected:
  assumes "distinct (map fd_FileID (protectedFiles d0))" "fd \<in> set (protectedFiles d0)"
  shows "keeps (traced d0) (prescan_protected fd)"
proof -
  have "keeps (traced d0) (updState (fd_FileID fd) (\<lambda>st. setWhole (fd_FileID fd) (sliceByteCount d0) (st\<lparr>Damage := damageNone\<rparr>)))"
    if "dir (root d0) (Filename fd) = Some i" "md5 (inodes (root d0) i) = fd_Hash fd" for i
  proof (rule traced_update)
    fix fd' st assume f: "fd' \<in> set (protectedFiles d0)" "fd_FileID fd' = fd_FileID fd"
    then have e: "fd' = fd" using assms by (metis distinct_map inj_onD)
    show "truthful d0 fd' (setWhole (fd_FileID fd) (sliceByteCount d0) (st\<lparr>Damage := damageNone\<rparr>))"
      using truthful_whole[of "ScanProtected fd" d0 i fd] that assms(2) e by (simp add: jobs_of_def)
    show "state_sound (root d0) fd' (setWhole (fd_FileID fd) (sliceByteCount d0) (st\<lparr>Damage := damageNone\<rparr>)) \<and>
        state_shape (sliceByteCount d0) fd' (setWhole (fd_FileID fd) (sliceByteCount d0) (st\<lparr>Damage := damageNone\<rparr>))"
      if "state_sound (root d0) fd' st" "state_shape (sliceByteCount d0) fd' st"
      using that \<open>dir (root d0) (Filename fd) = Some i\<close> \<open>md5 (inodes (root d0) i) = fd_Hash fd\<close> e
      by (simp add: state_sound_def state_shape_def content_hash_def)
  qed
  note upd = this
  show ?thesis
    unfolding prescan_protected_def
    by (intro keeps_bind keeps_getState keeps_if keeps_simple keeps_try_gives[OF gives_open[OF in_world_traced]]
        keeps_try_gives[OF gives_size[OF in_world_traced]] keeps_try_gives[OF gives_quick[OF in_world_traced]]
        keeps_try_gives[OF gives_md5[OF in_world_traced]] keeps_bind_gives[OF gives_traced(2)]) (use upd in simp)
qed

lemma traced_prescan_candidate:
  assumes "distinct (map fd_FileID (protectedFiles d0))" "snd ` set missing \<subseteq> set (protectedFiles d0)" "(path, cid) \<in> set (candidateFiles d0)"
  shows "keeps (traced d0) (prescan_candidate missing path cid)"
proof -
  have "keeps (traced d0) (updState (fd_FileID fd) (\<lambda>st. setWhole cid (sliceByteCount d0) (st\<lparr>RenameSource := path\<rparr>)))"
    if "map_of missing k = Some fd" "dir (root d0) path = Some i" "md5 (inodes (root d0) i) = fd_Hash fd" for i k fd
  proof (rule traced_update)
    have fd: "fd \<in> set (protectedFiles d0)" using map_of_SomeD[OF that(1)] assms(2) by force
    fix fd' st assume f: "fd' \<in> set (protectedFiles d0)" "fd_FileID fd' = fd_FileID fd"
    then have e: "fd' = fd" using assms(1) fd by (metis distinct_map inj_onD)
    have "ScanCandidate path cid \<in> jobs_of (protectedFiles d0) (candidateFiles d0)" using assms(3) by (force simp: jobs_of_def)
    then show "truthful d0 fd' (setWhole cid (sliceByteCount d0) (st\<lparr>RenameSource := path\<rparr>))"
      using truthful_whole[of "ScanCandidate path cid" d0 i fd] that e by simp
    show "state_sound (root d0) fd' (setWhole cid (sliceByteCount d0) (st\<lparr>RenameSource := path\<rparr>)) \<and>
        state_shape (sliceByteCount d0) fd' (setWhole cid (sliceByteCount d0) (st\<lparr>RenameSource := path\<rparr>))"
      if "state_sound (root d0) fd' st" "state_shape (sliceByteCount d0) fd' st"
      using that \<open>dir (root d0) path = Some i\<close> \<open>md5 (inodes (root d0) i) = fd_Hash fd\<close> e
      by (simp add: state_sound_def state_shape_def content_hash_def)
  qed
  note upd = this
  show ?thesis
    unfolding prescan_candidate_def
    by (intro keeps_simple keeps_try_gives[OF gives_open[OF in_world_traced]] keeps_try_gives[OF gives_size[OF in_world_traced]]
        keeps_try_gives[OF gives_quick[OF in_world_traced]] keeps_option keeps_if keeps_try_gives[OF gives_md5[OF in_world_traced]]
        keeps_bind_gives[OF gives_traced(2)] keeps_bind) (use upd in auto)
qed

lemma traced_prescans:
  assumes "distinct (map fd_FileID (protectedFiles d0))"
  shows "keeps (traced d0) prescanCandidateMatches" "keeps (traced d0) prescanProtectedMatches"
proof -
  have loop: "keeps (traced d0) (prescan_loop missing cs resolved)"
    if "snd ` set missing \<subseteq> set (protectedFiles d0)" "set cs \<subseteq> set (candidateFiles d0)" for missing cs resolved
    using that
    by (induction cs arbitrary: resolved) (auto intro!: keeps traced_root reads_ops traced_prescan_candidate[OF assms] split: if_splits)
  have m: "gives (traced d0) missingByQuickKey (\<lambda>m. snd ` set m \<subseteq> set (protectedFiles d0))"
    using gives_missing[of "root d0" "protectedFiles d0" "sliceByteCount d0"] unfolding gives_def
    by (auto simp: missingByQuickKey_def traced_def intro!: keeps)
  show "keeps (traced d0) prescanCandidateMatches"
    unfolding prescanCandidateMatches_def
    by (rule keeps_bind_gives[OF gives_traced(3)]) (auto intro!: keeps keeps_bind_gives[OF m] loop)
  have "keeps (traced d0) (prescan_protected_loop fds)" if "set fds \<subseteq> set (protectedFiles d0)" for fds
    using that by (induction fds) (auto intro!: keeps traced_root reads_ops traced_prescan_protected[OF assms])
  then show "keeps (traced d0) prescanProtectedMatches"
    unfolding prescanProtectedMatches_def by (intro keeps_bind_gives[OF gives_traced(1)]) simp
qed

section \<open>The scan\<close>

definition event_true :: "Decoder \<Rightarrow> matchEvent \<Rightarrow> bool" where
  "event_true d e \<longleftrightarrow> (\<forall>fd\<in>set (protectedFiles d). fd_FileID fd = targetFileID e \<longrightarrow>
     found_at d fd (ev_shardIndex e) \<lparr>loc_FileID = sourceFileID e, Offset = int (ev_offset e)\<rparr>)"

lemma genuine_event_true:
  assumes "genuine_in s w j e" "same_files (root d0) w" "j \<in> jobs_of (protectedFiles d0) (candidateFiles d0)"
    "table_of d0 (lookupTable s)" "sliceByteCount (sd s) = sliceByteCount d0"
  shows "event_true d0 e"
proof -
  have w: "dir w = dir (root d0)" "inodes w = inodes (root d0)" using assms(2) by (simp_all add: same_files_def)
  obtain i where i: "dir (root d0) (job_name j) = Some i"
      and g: "genuine s (job_limit j (inodes (root d0) i)) (inodes (root d0) i) (job_id j) e"
    using assms(1) unfolding genuine_in_def w by blast
  obtain n loc where n: "n \<le> sliceByteCount d0" "n = sliceByteCount d0 \<or> job_limit j (inodes (root d0) i) \<le> ev_offset e + n"
      "hits s (ChecksumIEEE (block_at (sliceByteCount d0) n (inodes (root d0) i) (ev_offset e)))
        (block_at (sliceByteCount d0) n (inodes (root d0) i) (ev_offset e)) loc"
      and e: "e = event_of (job_id j) (ev_offset e) loc"
    using g unfolding genuine_def Let_def assms(5) by blast
  have t: "targetFileID e = fileID loc" "ev_shardIndex e = shardIndex loc" "sourceFileID e = job_id j"
    by (subst e, simp add: event_of_def)+
  obtain pair where "wants d0 (fileID loc) (shardIndex loc) pair" "MD5 pair = md5 (block_at (sliceByteCount d0) n (inodes (root d0) i) (ev_offset e))"
    using assms(4) n(3) unfolding table_of_def by blast
  then have "found_at d0 fd (ev_shardIndex e) \<lparr>loc_FileID = sourceFileID e, Offset = int (ev_offset e)\<rparr>"
    if "fd_FileID fd = targetFileID e" for fd
    unfolding found_at_def Let_def using that assms(3) i n t by (intro conjI bexI[of _ j]) auto
  then show ?thesis by (simp add: event_true_def)
qed

lemma truthful_set:
  assumes "truthful d fd st" "found_at d fd k loc"
  shows "truthful d fd (st\<lparr>ShardLocations := (ShardLocations st)[k := loc]\<rparr>)"
proof -
  have "found_at d fd j ((ShardLocations st)[k := loc] ! j)"
    if "j < length (ShardLocations st)" "Offset ((ShardLocations st)[k := loc] ! j) \<noteq> -1" for j
    using that assms by (cases "j = k") (auto simp: truthful_def)
  then show ?thesis by (simp add: truthful_def)
qed

lemma traced_collect: "event_true d0 e \<Longrightarrow> keeps (traced d0) (collect e)"
  unfolding collect_def
  by (intro keeps traced_update truthful_set) (auto simp: state_sound_def state_shape_def event_true_def)

lemma gives_jobs:
  "gives (traced d0) (protected_jobs fds) (\<lambda>js. set js \<subseteq> ScanProtected ` set fds)"
  "gives (traced d0) (candidate_jobs resolved names cs) (\<lambda>js. set js \<subseteq> (\<lambda>(p, fid). ScanCandidate p fid) ` set cs)"
proof -
  have c: "gives (traced d0) (onRoot ctxErr) (\<lambda>_. True)" by (intro gives_keeps traced_root reads_ops)
  have st: "gives (traced d0) (getState fid) (\<lambda>_. True)" for fid by (intro gives_keeps keeps_getState)
  show "gives (traced d0) (protected_jobs fds) (\<lambda>js. set js \<subseteq> ScanProtected ` set fds)"
  proof (induction fds)
    case (Cons fd fds)
    then have "gives (traced d0) (protected_jobs fds) (\<lambda>js. set js \<subseteq> ScanProtected ` set (fd # fds))"
      by (auto simp: gives_def)
    then show ?case unfolding protected_jobs.simps
      by (intro gives_bind[OF c] gives_if gives_ret gives_bind[OF st] gives_bind[OF Cons]) auto
  qed (simp add: gives_ret)
  show "gives (traced d0) (candidate_jobs resolved names cs) (\<lambda>js. set js \<subseteq> (\<lambda>(p, fid). ScanCandidate p fid) ` set cs)"
  proof (induction cs)
    case (Cons x cs)
    obtain p fid where x: "x = (p, fid)" by (cases x)
    have "gives (traced d0) (candidate_jobs resolved names cs) (\<lambda>js. set js \<subseteq> (\<lambda>(p, fid). ScanCandidate p fid) ` set ((p, fid) # cs))"
      using Cons by (auto simp: gives_def)
    then show ?case unfolding x candidate_jobs.simps
      by (intro gives_bind[OF c] gives_if gives_ret gives_bind[OF Cons]) auto
  qed (simp add: gives_ret)
qed

lemma traced_scan:
  assumes win: "newCRC32Window (int (sliceByteCount (sd s))) = Ret (window s)" and tab: "table_of d0 (lookupTable s)"
    and bs: "sliceByteCount (sd s) = sliceByteCount d0"
  shows "keeps (traced d0) (scan s envs sched)"
proof -
  have rest: "keeps (traced d0) (bindG (forG (\<lambda>(fid, dm). setDamage fid dm) (concat (map jobMarks (job_runs s envs w js))))
      (\<lambda>_. bindG (forG collect (merge sched (concat (map jobSent (job_runs s envs w js))))) (\<lambda>_. liftR (waitAll (map jobRes (job_runs s envs w js))))))"
    if w: "same_files (root d0) w" and js: "set js \<subseteq> jobs_of (protectedFiles d0) (candidateFiles d0)" for w js
  proof -
    have "keeps (traced d0) (collect e)" if "e \<in> set (merge sched (concat (map jobSent (job_runs s envs w js))))" for e
      using job_runs_events[OF win that] genuine_event_true[OF _ w _ tab bs] js traced_collect by blast
    moreover have "keeps (traced d0) (case m of (fid, dm) \<Rightarrow> setDamage fid dm)" if "m \<in> set (concat (map jobMarks (job_runs s envs w js)))" for m
    proof -
      have "snd m \<noteq> damageNone" using job_runs_marks[OF win that] job_mark_damaged by blast
      then show ?thesis by (cases m) (auto intro: traced_setDamage)
    qed
    ultimately show ?thesis by (intro keeps_bind keeps_for keeps_simple)
  qed
  have jobs: "ScanProtected ` set (protectedFiles d0) \<subseteq> jobs_of (protectedFiles d0) (candidateFiles d0)"
    "(\<lambda>(p, fid). ScanCandidate p fid) ` set (candidateFiles d0) \<subseteq> jobs_of (protectedFiles d0) (candidateFiles d0)"
    by (auto simp: jobs_of_def)
  show ?thesis
    unfolding scan_def Let_def job_runs_def[symmetric]
    by (intro keeps_bind_gives[OF gives_traced(1)] keeps_bind_gives[OF gives_jobs(1)] keeps_bind_gives[OF gives_traced(3)]
        keeps_bind_gives[OF gives_jobs(2)] keeps_bind_gives[OF gives_traced(4)] rest) (use jobs in \<open>auto 0 3\<close>)
qed

section \<open>The whole verification\<close>

lemma traced_hashes: "keeps (traced d0) verifyProtectedFilesHashes"
proof -
  have "keeps (states_pred (protectedFiles d0) (truthful d0)) (setDamage fid dm)" for fid dm
    unfolding setDamage_def by (rule keeps_states_update) (simp add: truthful_def)
  moreover have "keeps (states_pred (protectedFiles d0) (truthful d0)) (detectRenameCandidate fd st)" for fd st
    unfolding detectRenameCandidate_def Let_def by (auto intro!: keeps split: list.split prod.split)
  ultimately have "keeps (states_pred (protectedFiles d0) (truthful d0)) verifyProtectedFilesHashes"
    unfolding verifyProtectedFilesHashes_def verify_file_def verifySingleFileHash_def
    by (intro keeps keeps_states_update) (simp_all add: truthful_def)
  moreover have "keeps (verifying (root d0) d0 False {}) verifyProtectedFilesHashes"
    by (rule safe_keeps[OF safe_verifyProtectedFilesHashes])
  ultimately show ?thesis unfolding keeps_def by (simp add: traced_def verifying_def calm_world_def)
qed

lemma VerifyScans_traced:
  assumes "distinct (map fd_FileID (protectedFiles d))" "pair_count d \<le> 2 ^ 28" "VerifyScans envs sched d = (Ret u, d')"
  shows "traced d d'"
proof -
  have init: "ends (\<lambda>d1. d1 = d) initFileIntegrity (\<lambda>_. traced d)"
    unfolding ends_def using traced_init assms(1) by blast
  have tab: "gives (traced d) buildLookupTable (table_of d)"
    unfolding gives_def using build_table[OF traced_verifying assms(2)] keeps_buildLookupTable by fastforce
  have fin: "ends (traced d) (bindG (onRoot ctxErr) (\<lambda>canc. if canc then errG ''context canceled'' else retG ())) (\<lambda>_. traced d)"
    by (rule ends_bind_keeps[OF traced_root[OF reads_ops(2)]]) (simp add: ends_simple ends_if)
  have "ends (\<lambda>d1. d1 = d) (VerifyScans envs sched) (\<lambda>_. traced d)"
    unfolding VerifyScans_def
    by (rule ends_bind[OF init], rule ends_bind_keeps[OF traced_exist],
        rule ends_bind_keeps[OF traced_prescans(1)[OF assms(1)]], rule ends_bind_keeps[OF traced_prescans(2)[OF assms(1)]],
        rule ends_bind_keeps[OF keeps_calculateBytesToScan], rule ends_bind_gives[OF gives_traced(2)],
        rule ends_bind_gives[OF gives_liftR], rule ends_bind_gives[OF tab],
        rule ends_bind_gives[OF gives_traced(5)], rule ends_bind_keeps[OF keeps_simple(3)], rule ends_bind_keeps[OF traced_scan], simp, simp, simp,
        rule ends_bind_keeps[OF traced_hashes fin])
  then show ?thesis using assms(3) unfolding ends_def by blast
qed

section \<open>Property\<close>

text \<open>C9. What a verification reports is there: when \<open>VerifyScans\<close> returns without an error, every location that it recorded for
  a block names a protected file or a candidate that exists, at whose offset lie bytes with the MD5 that the checksum packet
  gives for the block (padded with zeros where the file ends, by its recorded length if it is protected), or which as a
  whole has the MD5 of the protected file with the block at its own offset. This holds under every fault, cancellation and interleaving.\<close>

theorem reported_locations_are_genuine:
  assumes "distinct (map fd_FileID (protectedFiles d))" "pair_count d \<le> 2 ^ 28" "VerifyScans envs sched d = (Ret (), d')"
    and "fd \<in> set (protectedFiles d)" "map_of (fileIntegrity d') (fd_FileID fd) = Some st"
    and "j < length (ShardLocations st)" "Offset (ShardLocations st ! j) \<noteq> -1"
  shows "found_at d fd j (ShardLocations st ! j)"
proof -
  have "truthful d fd st" using VerifyScans_traced[OF assms(1-3)] assms(4,5) by (simp add: traced_def states_pred_def)
  then show ?thesis using assms(6,7) by (simp add: truthful_def)
qed

theorem reported_locations_are_genuine_witness:
  "\<exists>d' st. VerifyScans (\<lambda>_ _. quiet_genv) [] sample_set = (Ret (), d') \<and> map_of (fileIntegrity d') (replicate 16 1) = Some st \<and>
     found_at sample_set sample_file 0 (ShardLocations st ! 0)"
proof -
  obtain d' where d': "VerifyScans (\<lambda>_ _. quiet_genv) [] sample_set = (Ret (), d')" "\<not> RepairNeeded (shardCountsLocked d')"
    using sample_verifies by blast
  have m: "sample_file \<in> set (protectedFiles sample_set)" "fd_FileID sample_file = replicate 16 1"
    by (simp_all add: sample_set_def sample_file_def)
  then obtain st where st: "map_of (fileIntegrity d') (replicate 16 1) = Some st" "state_shape (sliceByteCount sample_set) sample_file st"
    using VerifyScans_sound[OF sample_ok(2) d'(1)] unfolding sound_def by force
  then have l: "0 < length (ShardLocations st)" by (simp add: state_shape_def sample_set_def sample_file_def shardCount_def)
  then have "ShardLocations st ! 0 \<in> set (ShardLocations st)" by (rule nth_mem)
  then have "ShardLocations st ! 0 \<in> set (all_locations d')" using map_of_SomeD[OF st(1)] by (force simp: all_locations_def)
  then have "Offset (ShardLocations st ! 0) \<noteq> -1" using d'(2) unfolding RepairNeeded_iff by blast
  then show ?thesis
    using reported_locations_are_genuine[OF sample_ok(2,5) d'(1) m(1), of st 0] m(2) st(1) l d'(1) by auto
qed

end
