(* ===== verification/Repair_Chunks.thy ===== *)
theory Repair_Chunks
  imports Repair_Files
begin

text \<open>
  The bytes that flow through a repair: part of a padded block read from its source, chunks of a codeword, blocks
  written chunk by chunk at their offsets in a temp file, and the file that truncation leaves.
\<close>

section \<open>Parts of blocks\<close>

text \<open>The \<open>n\<close> bytes of a slice from \<open>m\<close> on.\<close>

definition piece :: "nat \<Rightarrow> nat \<Rightarrow> bytes \<Rightarrow> bytes" where
  "piece m n bs = take n (drop m bs)"

text \<open>A block read at an offset, zero past the end of its file.\<close>

definition padded :: "nat \<Rightarrow> bytes \<Rightarrow> bytes" where
  "padded n bs = take n bs @ replicate (n - length bs) 0"

lemma length_padded [simp]: "length (padded n bs) = n"
  by (simp add: padded_def)

lemma length_piece: "m + n \<le> length bs \<Longrightarrow> length (piece m n bs) = n"
  by (simp add: piece_def)

lemma nth_padded: "i < n \<Longrightarrow> padded n bs ! i = (if i < length bs then bs ! i else 0)"
  by (simp add: padded_def nth_append)

lemma nth_piece: "i < n \<Longrightarrow> m + n \<le> length bs \<Longrightarrow> piece m n bs ! i = bs ! (m + i)"
  by (simp add: piece_def)

text \<open>Reading part of a block at its offset on disk.\<close>

lemma read_part:
  assumes "m + n \<le> s"
  shows "padded n (piece (off + m) n bs) = piece m n (padded s (drop off bs))"
proof (rule nth_equalityI)
  show "length (padded n (piece (off + m) n bs)) = length (piece m n (padded s (drop off bs)))"
    using assms by (simp add: length_piece)
  fix i assume "i < length (padded n (piece (off + m) n bs))"
  then have i: "i < n" by simp
  then have "piece m n (padded s (drop off bs)) ! i = padded s (drop off bs) ! (m + i)" using assms by (simp add: nth_piece)
  also have "\<dots> = (if off + m + i < length bs then bs ! (off + m + i) else 0)"
    using i assms by (auto simp: nth_padded algebra_simps)
  finally show "padded n (piece (off + m) n bs) ! i = piece m n (padded s (drop off bs)) ! i"
    using i by (auto simp: nth_padded piece_def)
qed

section \<open>Chunks of a codeword\<close>

lemma elems_piece: "even m \<Longrightarrow> even n \<Longrightarrow> elems (piece m n bs) = take (n div 2) (drop (m div 2) (elems bs))"
  using elems_take[of "n div 2" "drop m bs"] elems_drop[of "m div 2" bs] by (simp add: piece_def)

lemma codeword_piece:
  assumes "codeword c s D P" "even m" "even n" "m + n \<le> s" "coder_ok c"
  shows "codeword c n (map (piece m n) D) (map (piece m n) P)"
proof -
  have cw: "length D = dataShards c" "length P = Coder.parityShards c" "uniform s D" "uniform s P"
    "\<And>i k. i < Coder.parityShards c \<Longrightarrow> k < s div 2 \<Longrightarrow> GF (elems (P ! i) ! k) = mv (parityMatrix c) (\<lambda>l. GF (elems (D ! l) ! k)) i"
    using assms(1) unfolding codeword_def by blast+
  have u: "uniform n (map (piece m n) X)" if "uniform s X" for X
    using that assms(4) by (auto simp: uniform_def length_piece)
  have el: "elems (piece m n (X ! i)) ! k = elems (X ! i) ! (m div 2 + k)" if "uniform s X" "i < length X" "k < n div 2" for X i k
  proof -
    have "length (X ! i) = s" using that by (simp add: uniform_nth)
    moreover have "m div 2 + k < s div 2" using that(3) assms(2-4) by auto
    ultimately show ?thesis using that(3) by (simp add: elems_piece[OF assms(2,3)])
  qed
  have "GF (elems (map (piece m n) P ! i) ! k) = mv (parityMatrix c) (\<lambda>l. GF (elems (map (piece m n) D ! l) ! k)) i"
    if "i < Coder.parityShards c" "k < n div 2" for i k
  proof -
    have "GF (elems (P ! i) ! (m div 2 + k)) = mv (parityMatrix c) (\<lambda>l. GF (elems (D ! l) ! (m div 2 + k))) i"
      using cw(5)[OF that(1), of "m div 2 + k"] that(2) assms(2-4) by auto
    moreover have "mv (parityMatrix c) (\<lambda>l. GF (elems (map (piece m n) D ! l) ! k)) i =
        mv (parityMatrix c) (\<lambda>l. GF (elems (D ! l) ! (m div 2 + k))) i"
      by (rule mv_cong) (use el[OF cw(3)] that(2) cw(1) assms(5) in \<open>simp add: coder_ok_def\<close>)
    ultimately show ?thesis using el[OF cw(4)] that cw(2) by simp
  qed
  then show ?thesis using cw(1,2) u[OF cw(3)] u[OF cw(4)] assms(3) unfolding codeword_def by simp
qed

section \<open>Blocks written chunk by chunk\<close>

text \<open>\<open>filled B s h bs\<close>: of each block \<open>j\<close> in \<open>B\<close> the first \<open>h j\<close> bytes are in the file \<open>bs\<close> at its offset, and the file has nothing
  past the last block.\<close>

definition filled :: "bytes list \<Rightarrow> nat \<Rightarrow> (nat \<Rightarrow> nat) \<Rightarrow> bytes \<Rightarrow> bool" where
  "filled B s h bs \<longleftrightarrow> length bs \<le> length B * s \<and>
     (\<forall>j<length B. \<forall>x<h j. j * s + x < length bs \<and> bs ! (j * s + x) = B ! j ! x)"

lemma nth_write_bytes:
  assumes "i < length (write_bytes new off old)" "new \<noteq> []"
  shows "write_bytes new off old ! i =
    (if off \<le> i \<and> i < off + length new then new ! (i - off) else if i < length old then old ! i else 0)"
  using assms by (auto simp: write_bytes_def nth_append min_def)

lemma filled_write:
  assumes f: "filled B s h bs" and j: "j < length B" "m \<le> h j" "m + n \<le> s" "length (B ! j) = s" "\<forall>k. h k \<le> s"
  shows "filled B s (h(j := max (h j) (m + n))) (write_bytes (piece m n (B ! j)) (j * s + m) bs)"
proof (cases "n = 0")
  case True
  then have "max (h j) (m + n) = h j" using j(2) by simp
  then show ?thesis using f True by (simp add: write_bytes_def piece_def)
next
  case False
  let ?new = "piece m n (B ! j)" and ?off = "j * s + m"
  let ?bs = "write_bytes ?new ?off bs"
  have ln: "length ?new = n" using j(3,4) by (simp add: length_piece)
  then have ne: "?new \<noteq> []" using False by auto
  have len: "length ?bs = max (?off + n) (length bs)" using ne ln by (simp add: length_write_bytes)
  have "?off + n \<le> Suc j * s" using j(3) by simp
  also have "\<dots> \<le> length B * s" using j(1) by (intro mult_le_mono1) simp
  finally have "length ?bs \<le> length B * s" using f len by (simp add: filled_def)
  moreover have "k * s + x < length ?bs \<and> ?bs ! (k * s + x) = B ! k ! x"
    if k: "k < length B" and x: "x < (h(j := max (h j) (m + n))) k" for k x
  proof -
    have xs: "x < s" using x j(3,5) by (auto split: if_splits simp: less_le_trans)
    show ?thesis
    proof (cases "k = j \<and> m \<le> x \<and> x < m + n")
      case True
      then have "k * s + x < length ?bs" unfolding len by (simp add: less_max_iff_disj)
      moreover have "?new ! (x - m) = B ! j ! x" using nth_piece[of "x - m" n m "B ! j"] True j(3,4) by auto
      ultimately show ?thesis using True ne ln by (simp add: nth_write_bytes)
    next
      case False
      have out: "\<not> (?off \<le> k * s + x \<and> k * s + x < ?off + n)"
      proof (cases "k = j")
        case False
        then consider "Suc k \<le> j" | "Suc j \<le> k" by linarith
        then show ?thesis
        proof cases
          case 1
          then have "Suc k * s \<le> j * s" by (intro mult_le_mono1)
          then show ?thesis using xs by simp
        next
          case 2
          then have "Suc j * s \<le> k * s" by (intro mult_le_mono1)
          then show ?thesis using j(3) by simp
        qed
      qed (use False in auto)
      have "x < h k" using False x j(2) by (auto split: if_splits)
      then have "k * s + x < length bs" "bs ! (k * s + x) = B ! k ! x" using f k unfolding filled_def by blast+
      moreover from this have "k * s + x < length ?bs" unfolding len by (simp add: less_max_iff_disj)
      ultimately show ?thesis using nth_write_bytes[OF _ ne] out ln by auto
    qed
  qed
  ultimately show ?thesis unfolding filled_def by blast
qed

text \<open>A file whose blocks are all there is their concatenation.\<close>

lemma nth_concat_uniform:
  "uniform s B \<Longrightarrow> j < length B \<Longrightarrow> x < s \<Longrightarrow> concat B ! (j * s + x) = B ! j ! x"
proof (induction B arbitrary: j)
  case (Cons b B)
  then have "length b = s" "uniform s B" by (auto simp: uniform_def)
  then show ?case using Cons by (cases j) (simp_all add: nth_append)
qed simp

lemma length_concat_blocks: "uniform s B \<Longrightarrow> length (concat B) = length B * s"
  by (induction B) (simp_all add: uniform_def)

lemma filled_all:
  assumes "filled B s (\<lambda>_. s) bs" "uniform s B" "0 < s" "B \<noteq> []"
  shows "bs = concat B"
proof (rule nth_equalityI)
  have "length B - 1 < length B" "s - 1 < s" using assms(3,4) by auto
  then have "(length B - 1) * s + (s - 1) < length bs" using assms(1) unfolding filled_def by blast
  moreover have "(length B - 1) * s + s = length B * s" using assms(4) by (cases B) simp_all
  ultimately have "length bs = length B * s" using assms(1,3) unfolding filled_def by linarith
  then show l: "length bs = length (concat B)" using length_concat_blocks[OF assms(2)] by simp
  fix i assume "i < length bs"
  then have i: "i < length B * s" using l length_concat_blocks[OF assms(2)] by simp
  have "i div s < length B" "i mod s < s" "i div s * s + i mod s = i" using i assms(3) by (simp_all add: less_mult_imp_div_less)
  then show "bs ! i = concat B ! i" using assms(1) nth_concat_uniform[OF assms(2), of "i div s" "i mod s"] unfolding filled_def by metis
qed

end
