(* ===== verification/Repair_Run.thy ===== *)
theory Repair_Run
  imports Repair_Chunks
begin

text \<open>
  The chunks of a repair when no call fails: each chunk reads its part of every located block, reconstructs that of
  the missing ones, and writes all of them to their places in the temp files, so that in the end every temp file
  holds the original blocks of its target.
\<close>

section \<open>A repair that can succeed\<close>

text \<open>The decoder and the plan at the start, the coder, the original blocks of each file by its name, and the original parity.\<close>

record repair_run =
  rd :: Decoder
  rpl :: repairPlan
  rcoder :: Coder
  rblocks :: "bytes \<Rightarrow> bytes list"
  rparity :: "bytes list"

definition rworld :: "repair_run \<Rightarrow> world" where
  "rworld R = root (rd R)"

definition rslice :: "repair_run \<Rightarrow> nat" where
  "rslice R = sliceByteCount (rd R)"

definition rchunk :: "repair_run \<Rightarrow> nat" where
  "rchunk R = nat (chunkSize (rpl R))"

definition block_of :: "repair_run \<Rightarrow> flattenedLocation \<Rightarrow> bytes" where
  "block_of R fl = rblocks R (fl_targetFilename fl) ! fl_shardIndex fl"

text \<open>The block a location stands for.\<close>

definition key :: "flattenedLocation \<Rightarrow> bytes \<times> nat" where
  "key fl = (fl_targetFilename fl, fl_shardIndex fl)"

definition rdata :: "repair_run \<Rightarrow> bytes list" where
  "rdata R = map (block_of R) (flatLocs (rpl R))"

text \<open>A located block can be read where the plan says.\<close>

definition locates :: "repair_run \<Rightarrow> flattenedLocation \<Rightarrow> bool" where
  "locates R fl \<longleftrightarrow> diskOffset fl \<noteq> -1 \<longrightarrow> 0 \<le> diskOffset fl \<and>
     (\<exists>i. dir (rworld R) (fl_sourceFilename fl) = Some i \<and>
        block_of R fl = padded (rslice R) (drop (nat (diskOffset fl)) (inodes (rworld R) i)))"

definition missing_blocks :: "repair_run \<Rightarrow> nat" where
  "missing_blocks R = length (filter (\<lambda>fl. diskOffset fl = -1) (flatLocs (rpl R)))"

definition exponents :: "repair_run \<Rightarrow> nat list" where
  "exponents R = sort (map (unat \<circ> fst) (Decoder.parityShards (rd R)))"

definition run_ok :: "repair_run \<Rightarrow> bool" where
  "run_ok R \<longleftrightarrow> 0 < rslice R \<and> even (rslice R) \<and> chunkSize (rpl R) = int (rchunk R) \<and> even (rchunk R) \<and> 0 < rchunk R \<and>
     numChunks (rpl R) = int ((rslice R + rchunk R - 1) div rchunk R) \<and>
     coder_ok (rcoder R) \<and> codeword (rcoder R) (rslice R) (rdata R) (rparity R) \<and>
     totalDataShards (rpl R) = length (flatLocs (rpl R)) \<and> totalParityShards (rpl R) = Coder.parityShards (rcoder R) \<and>
     (\<forall>(e, bs)\<in>set (Decoder.parityShards (rd R)). unat e < totalParityShards (rpl R) \<and> bs = rparity R ! unat e) \<and>
     distinct (map fst (Decoder.parityShards (rd R))) \<and>
     (\<forall>fl\<in>set (flatLocs (rpl R)). locates R fl \<and> fl_shardIndex fl < length (rblocks R (fl_targetFilename fl))) \<and>
     (\<forall>t\<in>targets (rpl R). rblocks R t \<noteq> [] \<and> uniform (rslice R) (rblocks R t) \<and> (\<forall>j<length (rblocks R t). (t, j) \<in> key ` set (flatLocs (rpl R)))) \<and>
     missing_blocks R \<le> length (exponents R) \<and> consecutive (take (missing_blocks R) (exponents R)) \<and>
     wf_world (rworld R) \<and>
     (\<forall>t\<in>targets (rpl R). \<forall>k. dir (rworld R) (tempName t (randText (rworld R) k)) = None) \<and>
     (\<forall>k. 16 \<le> length (randText (rworld R) k))"

section \<open>The state between the steps\<close>

definition steady :: "repair_run \<Rightarrow> repairPipeline \<Rightarrow> bool" where
  "steady R p \<longleftrightarrow> building (rworld R) (rpl R) (protectedFiles (rd R)) p \<and> quiet (disk p) \<and>
     sliceByteCount (pd p) = rslice R \<and> Decoder.parityShards (pd p) = Decoder.parityShards (rd R) \<and>
     numGoroutines (pd p) = numGoroutines (rd R) \<and> coder p = rcoder R \<and>
     (\<forall>n f. map_of (sources p) n = Some f \<longrightarrow> dir (rworld R) n = Some f) \<and>
     (\<forall>t\<in>targets (rpl R). map_of (outputs p) t = None \<longrightarrow> (\<forall>k. dir (disk p) (tempName t (randText (rworld R) k)) = None))"

definition sized :: "repair_run \<Rightarrow> repairPipeline \<Rightarrow> bool" where
  "sized R p \<longleftrightarrow> length (dataBuffers p) = totalDataShards (rpl R) \<and> (\<forall>b\<in>set (dataBuffers p). length b = rchunk R) \<and>
     length (parityBuffers p) = totalParityShards (rpl R) \<and> (\<forall>b\<in>set (parityBuffers p). length b = rchunk R) \<and>
     length (activeDataShards p) = totalDataShards (rpl R) \<and> length (activeParityShards p) = totalParityShards (rpl R)"

text \<open>What has been rebuilt of a target so far.\<close>

definition bytes_of :: "repairPipeline \<Rightarrow> bytes \<Rightarrow> bytes" where
  "bytes_of p t = (case map_of (outputs p) t of None \<Rightarrow> [] | Some f \<Rightarrow> inodes (disk p) f)"

definition content :: "repair_run \<Rightarrow> (bytes \<Rightarrow> nat \<Rightarrow> nat) \<Rightarrow> repairPipeline \<Rightarrow> bool" where
  "content R h p \<longleftrightarrow> (\<forall>t\<in>targets (rpl R). filled (rblocks R t) (rslice R) (h t) (bytes_of p t))"

lemma wp_onDisk: "wp (onDisk m) Q E p = wp m (\<lambda>x w. Q x (set_disk w p)) (\<lambda>e w. E e (set_disk w p)) (disk p)"
  by (auto simp: wp_def onDisk_def onDecoder_def onRoot_def disk_def set_disk_def split: prod.splits res.splits)

lemma quiet_tick: "quiet (tick w) = quiet w"
  by (simp add: quiet_def tick_def)

lemma wp_quiet_read: "quiet w \<Longrightarrow> f w = Ret x \<Longrightarrow> Q x (tick w) \<Longrightarrow> wp (sysRead f) Q E w"
  by (simp add: wp_def sysRead_def quiet_def)

text \<open>A call that reads leaves the state as it was, but for the clock.\<close>

lemma steady_tick: "steady R p \<Longrightarrow> steady R (set_disk (tick (disk p)) p)"
proof -
  assume s: "steady R p"
  then have "building (rworld R) (rpl R) (protectedFiles (rd R)) (set_disk (tick (disk p)) p)"
    using building_frame[OF frame_tick] by (simp add: steady_def)
  moreover have "dir (tick (disk p)) = dir (disk p)" by (simp add: tick_def)
  ultimately show ?thesis using s by (simp add: steady_def quiet_tick) (simp add: set_disk_def)
qed

lemma same_tick: "sized R (set_disk w p) = sized R p" "inodes w = inodes (disk p) \<Longrightarrow> bytes_of (set_disk w p) t = bytes_of p t"
  by (simp_all add: sized_def bytes_of_def set_disk_def disk_def split: option.split)

lemma wp_steady_read:
  assumes "steady R p" "f (disk p) = Ret x" "steady R (set_disk (tick (disk p)) p) \<Longrightarrow> Q x (set_disk (tick (disk p)) p)"
  shows "wp (onDisk (sysRead f)) Q E p"
  unfolding wp_onDisk using assms steady_tick[OF assms(1)] by (intro wp_quiet_read) (simp_all add: steady_def)

lemma steady_mod [simp]:
  "steady R (p\<lparr>dataBuffers := a\<rparr>) = steady R p" "steady R (p\<lparr>parityBuffers := a\<rparr>) = steady R p"
  "steady R (p\<lparr>activeDataShards := b\<rparr>) = steady R p" "steady R (p\<lparr>activeParityShards := b\<rparr>) = steady R p"
  by (simp_all add: steady_def disk_def)

lemma disk_mod [simp]:
  "disk (p\<lparr>dataBuffers := a\<rparr>) = disk p" "disk (p\<lparr>parityBuffers := a\<rparr>) = disk p" "disk (p\<lparr>sources := s\<rparr>) = disk p"
  "disk (p\<lparr>activeDataShards := b\<rparr>) = disk p" "disk (p\<lparr>activeParityShards := b\<rparr>) = disk p"
  by (simp_all add: disk_def)

lemma set_disk_fields [simp]:
  "dataBuffers (set_disk w p) = dataBuffers p" "parityBuffers (set_disk w p) = parityBuffers p"
  "activeDataShards (set_disk w p) = activeDataShards p" "activeParityShards (set_disk w p) = activeParityShards p"
  "coder (set_disk w p) = coder p" "numGoroutines (pd (set_disk w p)) = numGoroutines (pd p)"
  "Decoder.parityShards (pd (set_disk w p)) = Decoder.parityShards (pd p)"
  by (simp_all add: set_disk_def)

section \<open>Reading\<close>

text \<open>\<open>stays p p'\<close>: the temp files and the buffers are as they were.\<close>

definition files_stay :: "repairPipeline \<Rightarrow> repairPipeline \<Rightarrow> bool" where
  "files_stay p p' \<longleftrightarrow> outputs p' = outputs p \<and> inodes (disk p') = inodes (disk p)"

lemma files_stay_refl [simp]: "files_stay p p"
  by (simp add: files_stay_def)

lemma files_stay_trans: "files_stay p q \<Longrightarrow> files_stay q r \<Longrightarrow> files_stay p r"
  by (simp add: files_stay_def)

lemma content_stays: "files_stay p p' \<Longrightarrow> bytes_of p' t = bytes_of p t" "files_stay p p' \<Longrightarrow> content R h p' = content R h p"
proof -
  show b: "files_stay p p' \<Longrightarrow> bytes_of p' t = bytes_of p t" for t
    by (simp add: files_stay_def bytes_of_def split: option.split)
  show "files_stay p p' \<Longrightarrow> content R h p' = content R h p" by (simp add: content_def b)
qed

definition buffers_stay :: "repairPipeline \<Rightarrow> repairPipeline \<Rightarrow> bool" where
  "buffers_stay p p' \<longleftrightarrow> dataBuffers p' = dataBuffers p \<and> parityBuffers p' = parityBuffers p \<and>
     activeDataShards p' = activeDataShards p \<and> activeParityShards p' = activeParityShards p"

lemma sized_stays: "buffers_stay p p' \<Longrightarrow> sized R p' = sized R p"
  by (simp add: buffers_stay_def sized_def)

lemma wp_getSource:
  assumes s: "steady R p" and d: "dir (rworld R) n = Some i"
  shows "wp (getSource n) (\<lambda>f p'. f = i \<and> steady R p' \<and> buffers_stay p p' \<and> files_stay p p') E p"
proof (cases "map_of (sources p) n")
  case (Some f)
  then have "f = i" using s d unfolding steady_def by (metis option.inject)
  then show ?thesis using Some s by (simp add: getSource_def wp buffers_stay_def)
next
  case None
  let ?p = "set_disk (tick (disk p)) p"
  have "dir (disk p) n = Some i" using s d by (simp add: steady_def building_def originals_def)
  moreover have "steady R (?p\<lparr>sources := AList.update n i (sources p)\<rparr>)" if "steady R ?p"
    using that d by (auto simp: steady_def update_conv)
  ultimately show ?thesis
    using None by (simp add: getSource_def wp open_file_def)
      (rule wp_steady_read[OF s], simp, simp add: wp buffers_stay_def files_stay_def tick_def)
qed

text \<open>The part of shard \<open>i\<close> that a chunk needs.\<close>

definition shard_part :: "repair_run \<Rightarrow> nat \<Rightarrow> nat \<Rightarrow> flattenedLocation \<Rightarrow> shard" where
  "shard_part R m n fl = (if diskOffset fl = -1 then None else Some (piece m n (block_of R fl)))"

text \<open>The read that fills a shard gives the wanted part of its block, the zeros past the end of the file included.\<close>

lemma wp_read_part:
  assumes R: "run_ok R" and s: "steady R p" and off: "0 \<le> off" "dir (rworld R) f = Some j"
    and B: "B = padded (rslice R) (drop (nat off) (inodes (rworld R) j))" and n: "m + n \<le> rslice R"
  shows "wp (onDisk (readAtOff j (int n) (off + int m))) (\<lambda>bs p'. steady R p' \<and> buffers_stay p p' \<and> files_stay p p' \<and>
    bs @ replicate (nat (int n) - length bs) 0 = piece m n B) E p"
proof -
  let ?bs = "take n (drop (nat off + m) (inodes (disk p) j))"
  have "j < nextInode (rworld R)" using R off(2) by (auto simp: run_ok_def wf_world_def)
  then have "inodes (disk p) j = inodes (rworld R) j" using s by (simp add: steady_def building_def originals_def)
  then have "padded n (piece (nat off + m) n (inodes (disk p) j)) = piece m n B" using read_part[OF n] B by simp
  then have "?bs @ replicate (n - length ?bs) 0 = piece m n B" by (simp add: padded_def piece_def)
  moreover have "nat (off + int m) = nat off + m" "\<not> off + int m < 0" using off(1) by simp_all
  ultimately show ?thesis
    unfolding readAtOff_def readAt_def
    by simp (rule wp_steady_read[OF s], simp, simp add: buffers_stay_def files_stay_def tick_def)
qed

text \<open>Storing it in the buffer of the shard keeps the sizes of all buffers.\<close>

lemma wp_store_part:
  assumes s: "steady R p" "sized R p" and i: "i < length (dataBuffers p)" "i < length (activeDataShards p)"
    and n: "length bs = n" "n \<le> rchunk R"
  shows "wp (bindG (modG (\<lambda>p'. p'\<lparr>dataBuffers := (dataBuffers p')[i := bs @ drop n (dataBuffers p ! i)]\<rparr>)) (\<lambda>_. setDataShard i (Some bs)))
    (\<lambda>_ p'. steady R p' \<and> sized R p' \<and> files_stay p p' \<and> activeParityShards p' = activeParityShards p \<and>
      activeDataShards p' = (activeDataShards p)[i := Some bs]) E p"
proof -
  have "length (bs @ drop n (dataBuffers p ! i)) = rchunk R" using s(2) i n by (simp add: sized_def)
  then have "sized R (p\<lparr>dataBuffers := (dataBuffers p)[i := bs @ drop n (dataBuffers p ! i)], activeDataShards := a\<rparr>)"
    if "length a = length (activeDataShards p)" for a
    using s(2) that by (auto simp: sized_def dest!: set_update_subset_insert[THEN subsetD])
  then show ?thesis using s(1) i by (simp add: setDataShard_def wp wp_liftR files_stay_def)
qed

lemma wp_read_shard:
  assumes R: "run_ok R" and s: "steady R p" "sized R p" and i: "i < length (flatLocs (rpl R))" "fl = flatLocs (rpl R) ! i"
    and n: "n \<le> rchunk R" "m + n \<le> rslice R"
  shows "wp (read_shard (int n) (int m) (i, fl)) (\<lambda>_ p'. steady R p' \<and> sized R p' \<and> files_stay p p' \<and>
    activeParityShards p' = activeParityShards p \<and> activeDataShards p' = (activeDataShards p)[i := shard_part R m n fl]) E p" (is "wp _ ?Q _ _")
proof (cases "diskOffset fl = -1")
  case True
  then show ?thesis
    using s i R by (simp add: read_shard_def setDataShard_def wp wp_liftR sized_def shard_part_def files_stay_def run_ok_def)
next
  case False
  have "fl \<in> set (flatLocs (rpl R))" using i by simp
  then have "locates R fl" using R unfolding run_ok_def by blast
  then obtain j where j: "0 \<le> diskOffset fl" "dir (rworld R) (fl_sourceFilename fl) = Some j"
      "block_of R fl = padded (rslice R) (drop (nat (diskOffset fl)) (inodes (rworld R) j))"
    using False by (auto simp: locates_def)
  have rest: "wp (bindG (bindG (getG (\<lambda>p. goIndex (dataBuffers p) (int i))) liftR) (\<lambda>buf.
        bindG (liftR (sliceTo buf 0 (int n))) (\<lambda>_.
          bindG (onDisk (readAtOff j (int n) (diskOffset fl + int m))) (\<lambda>bs.
            let part = bs @ replicate (nat (int n) - length bs) 0 in
            bindG (modG (\<lambda>p. p\<lparr>dataBuffers := (dataBuffers p)[i := part @ drop (nat (int n)) buf]\<rparr>)) (\<lambda>_.
              setDataShard i (Some part)))))) ?Q E p1"
    if s1: "steady R p1" "buffers_stay p p1" "files_stay p p1" for p1
  proof -
    have z: "sized R p1" using s s1 sized_stays by blast
    have i1: "i < length (dataBuffers p1)" using z i R by (simp add: sized_def run_ok_def)
    then have "length (dataBuffers p1 ! i) = rchunk R" using z by (simp add: sized_def)
    then have sl: "sliceTo (dataBuffers p1 ! i) 0 (int n) = Ret (take n (dataBuffers p1 ! i))"
      using n by (simp add: sliceTo_def goSlice_def)
    have gi: "goIndex (dataBuffers p1) (int i) = Ret (dataBuffers p1 ! i)" using i1 by (simp add: goIndex_def)
    have "wp (bindG (modG (\<lambda>p. p\<lparr>dataBuffers := (dataBuffers p)[i := part @ drop n (dataBuffers p1 ! i)]\<rparr>)) (\<lambda>_.
        setDataShard i (Some part))) ?Q E p2"
      if "steady R p2" "buffers_stay p1 p2" "files_stay p1 p2" "part = piece m n (block_of R fl)" for part p2
    proof -
      have z2: "sized R p2" using z that(2) sized_stays by blast
      have eq: "dataBuffers p2 = dataBuffers p1" "activeDataShards p2 = activeDataShards p" "activeParityShards p2 = activeParityShards p"
        using s1(2) that(2) by (simp_all add: buffers_stay_def)
      have "length part = n" using that(4) n j(3) by (simp add: length_piece)
      moreover have "i < length (activeDataShards p2)" using z2 i R by (simp add: sized_def run_ok_def)
      ultimately show ?thesis
        using wp_mono[OF wp_store_part[OF that(1) z2 i1[folded eq(1)] _ _ n(1)]] that(3,4) s1(3) False eq
        by (auto simp: shard_part_def files_stay_def)
    qed
    then show ?thesis
      unfolding wp_bind wp_basic wp_liftR gi sl res.case Let_def nat_int
      by (rule wp_mono[OF wp_read_part[OF R s1(1) j n(2)]]) simp_all
  qed
  show ?thesis
    by (simp only: read_shard_def prod.case False simp_thms if_True wp_bind[of "getSource _"])
      (rule wp_mono[OF wp_getSource[OF s(1) j(2)]], use rest in blast, simp)
qed

lemma enumerate_split:
  assumes "enumerate 0 xs = pre @ x # rest"
  shows "length pre < length xs" "x = (length pre, xs ! length pre)"
proof -
  have "length (enumerate 0 xs) = length (pre @ x # rest)" using assms by simp
  then show l: "length pre < length xs" by simp
  have "enumerate 0 xs ! length pre = x" using assms by simp
  then show "x = (length pre, xs ! length pre)" using l by (simp add: nth_enumerate_eq)
qed

lemma fill_step:
  assumes "k < length xs" "length a = length xs"
  shows "(map f (take k xs) @ drop k a)[k := f (xs ! k)] = map f (take (Suc k) xs) @ drop (Suc k) a"
proof -
  have "drop k a = a ! k # drop (Suc k) a" using assms by (simp add: Cons_nth_drop_Suc)
  then show ?thesis using assms by (simp add: list_update_append take_Suc_conv_app_nth)
qed

lemma wp_read_data:
  assumes R: "run_ok R" and s: "steady R p" "sized R p" and n: "n \<le> rchunk R" "m + n \<le> rslice R"
  shows "wp (forG (read_shard (int n) (int m)) (enumerate 0 (flatLocs (rpl R)))) (\<lambda>_ p'. steady R p' \<and> sized R p' \<and>
    files_stay p p' \<and> activeDataShards p' = map (shard_part R m n) (flatLocs (rpl R))) E p"
proof -
  let ?fl = "flatLocs (rpl R)"
  let ?I = "\<lambda>pre p'. steady R p' \<and> sized R p' \<and> files_stay p p' \<and>
    activeDataShards p' = map (shard_part R m n) (take (length pre) ?fl) @ drop (length pre) (activeDataShards p)"
  have len: "length (activeDataShards p) = length ?fl" using s(2) R by (simp add: sized_def run_ok_def)
  have "wp (forG (read_shard (int n) (int m)) (enumerate 0 ?fl)) (\<lambda>_. ?I (enumerate 0 ?fl)) E p"
  proof (rule wp_for[where I = ?I])
    fix pre x rest q assume split: "enumerate 0 ?fl = pre @ x # rest" and q: "?I pre q"
    note x = enumerate_split[OF split]
    show "wp (read_shard (int n) (int m) x) (\<lambda>_. ?I (pre @ [x])) E q"
      unfolding x(2)
      by (rule wp_mono[OF wp_read_shard[OF R _ _ x(1) refl n]])
        (use q fill_step[OF x(1) len] files_stay_trans in \<open>auto simp: x(2)\<close>)
  qed (use s in simp)
  then show ?thesis by (rule wp_mono) (use len in simp_all)
qed

text \<open>The parity shards that are there.\<close>

definition parity_part :: "repair_run \<Rightarrow> nat \<Rightarrow> nat \<Rightarrow> nat set \<Rightarrow> nat \<Rightarrow> shard" where
  "parity_part R m n S r = (if r \<in> S then Some (piece m n (rparity R ! r)) else None)"

lemma parity_part_update:
  assumes "u < N"
  shows "(map (parity_part R m n S) [0..<N])[u := Some (piece m n (rparity R ! u))] = map (parity_part R m n (insert u S)) [0..<N]"
  using assms by (intro nth_equalityI) (auto simp: parity_part_def nth_list_update)

lemma wp_read_parity:
  assumes R: "run_ok R" and s: "steady R p" "sized R p" and n: "n \<le> rchunk R" "m + n \<le> rslice R"
    and e: "(e, bs) \<in> set (Decoder.parityShards (rd R))"
    and a: "activeParityShards p = map (parity_part R m n S) [0..<totalParityShards (rpl R)]"
  shows "wp (read_parity (int n) (int m) (e, bs)) (\<lambda>_ p'. steady R p' \<and> sized R p' \<and> files_stay p p' \<and>
    activeDataShards p' = activeDataShards p \<and>
    activeParityShards p' = map (parity_part R m n (insert (unat e) S)) [0..<totalParityShards (rpl R)]) E p"
proof -
  let ?u = "unat e"
  have u: "?u < totalParityShards (rpl R)" "bs = rparity R ! ?u" using R e unfolding run_ok_def by auto
  have "length (rparity R) = totalParityShards (rpl R)" "uniform (rslice R) (rparity R)" using R by (simp_all add: run_ok_def codeword_def)
  then have lb: "length bs = rslice R" using u by (simp add: uniform_nth)
  have b: "?u < length (parityBuffers p)" "length (parityBuffers p ! ?u) = rchunk R" using s(2) u by (simp_all add: sized_def)
  have r: "goIndex (parityBuffers p) (uint e) = Ret (parityBuffers p ! ?u)" using goIndex_Ret[OF b(1)] by (simp only: uint_nat)
  have sl: "sliceTo (parityBuffers p ! ?u) 0 (int n) = Ret (take n (parityBuffers p ! ?u))" using b n by (simp add: sliceTo_def)
  have sb: "sliceTo bs (int m) (int m + int n) = Ret (piece m n bs)"
    using n lb by (simp add: sliceTo_def piece_def nat_add_distrib)
  have as: "goAssign (activeParityShards p) (uint e) x = Ret ((activeParityShards p)[?u := x])" for x
    using goAssign_Ret[of ?u "activeParityShards p" x] u(1) a by (simp only: uint_nat length_map length_upt diff_zero)
  have "sized R (p\<lparr>parityBuffers := (parityBuffers p)[?u := piece m n bs @ drop n (parityBuffers p ! ?u)], activeParityShards := c\<rparr>)"
    if "length c = length (activeParityShards p)" for c
    using s(2) that b n lb by (auto simp: sized_def length_piece dest!: set_update_subset_insert[THEN subsetD])
  then show ?thesis
    using s a u parity_part_update[OF u(1), of R m n S]
    by (simp add: read_parity_def wp wp_liftR r sl sb[unfolded u(2)] as[unfolded a] files_stay_def)
qed

lemma wp_read_parities:
  assumes R: "run_ok R" and s: "steady R p" "sized R p" and n: "n \<le> rchunk R" "m + n \<le> rslice R"
    and a: "activeParityShards p = replicate (totalParityShards (rpl R)) None"
  shows "wp (bindG (getG (\<lambda>p. Decoder.parityShards (pd p))) (forG (read_parity (int n) (int m)))) (\<lambda>_ p'. steady R p' \<and> sized R p' \<and>
    files_stay p p' \<and> activeDataShards p' = activeDataShards p \<and>
    activeParityShards p' = map (parity_part R m n (set (exponents R))) [0..<totalParityShards (rpl R)]) E p"
proof -
  let ?ps = "Decoder.parityShards (rd R)" and ?N = "totalParityShards (rpl R)"
  let ?I = "\<lambda>pre p'. steady R p' \<and> sized R p' \<and> files_stay p p' \<and> activeDataShards p' = activeDataShards p \<and>
    activeParityShards p' = map (parity_part R m n ((unat \<circ> fst) ` set pre)) [0..<?N]"
  have "wp (forG (read_parity (int n) (int m)) ?ps) (\<lambda>_. ?I ?ps) E p"
  proof (rule wp_for[where I = ?I])
    have "replicate ?N None = map (parity_part R m n {}) [0..<?N]" by (rule nth_equalityI) (simp_all add: parity_part_def)
    then show "?I [] p" using s a by simp
    fix pre x rest q assume split: "?ps = pre @ x # rest" and q: "?I pre q"
    obtain e bs where x: "x = (e, bs)" by (cases x)
    have e: "(e, bs) \<in> set ?ps" using split x by simp
    show "wp (read_parity (int n) (int m) x) (\<lambda>_. ?I (pre @ [x])) E q"
      unfolding x by (rule wp_mono[OF wp_read_parity[OF R _ _ n e]]) (use q files_stay_trans in auto)
  qed
  moreover have "Decoder.parityShards (pd p) = ?ps" using s by (simp add: steady_def)
  ultimately show ?thesis by (simp add: wp exponents_def)
qed

section \<open>Reconstruction\<close>

text \<open>Each chunk of the shards lets the coder restore that chunk of every block.\<close>

lemma absent_parts: "length (absent (map (shard_part R m n) (flatLocs (rpl R)))) = missing_blocks R"
proof -
  have "absent (map (shard_part R m n) fls) = filter (\<lambda>i. diskOffset (fls ! i) = -1) [0..<length fls]" for fls
    by (auto simp: absent_def shard_part_def split: if_splits intro!: filter_cong)
  moreover have "length (filter (\<lambda>i. P (xs ! i)) [0..<length xs]) = length (filter P xs)" for P and xs :: "flattenedLocation list"
    using length_filter_map[of P "(!) xs" "[0..<length xs]"] by (simp add: map_nth comp_def)
  ultimately show ?thesis by (simp add: missing_blocks_def)
qed

lemma present_parts:
  assumes "run_ok R"
  shows "present (map (parity_part R m n (set (exponents R))) [0..<totalParityShards (rpl R)]) = exponents R"
proof -
  let ?N = "totalParityShards (rpl R)" and ?S = "set (exponents R)"
  have d: "distinct (map fst (Decoder.parityShards (rd R)))" using assms unfolding run_ok_def by blast
  have "distinct (map unat (map fst (Decoder.parityShards (rd R))))" by (subst distinct_map) (use d in \<open>simp add: inj_on_def word_unat_eq_iff\<close>)
  then have "distinct (exponents R)" "sorted (exponents R)" unfolding exponents_def by (simp_all del: map_map flip: map_map)
  moreover have "?S \<subseteq> {0..<?N}" using assms by (auto simp: exponents_def run_ok_def)
  ultimately have "exponents R = filter (\<lambda>r. r \<in> ?S) [0..<?N]"
    by (intro sorted_distinct_set_unique) (auto simp: sorted_wrt_filter)
  moreover have "present (map (parity_part R m n ?S) [0..<?N]) = filter (\<lambda>r. r \<in> ?S) [0..<?N]"
    by (auto simp: present_def parity_part_def split: if_splits intro!: filter_cong)
  ultimately show ?thesis by simp
qed

text \<open>The schedule of a chunk lets every goroutine finish.\<close>

definition sched_ok :: "repair_run \<Rightarrow> env \<Rightarrow> nat \<Rightarrow> action list \<Rightarrow> bool" where
  "sched_ok R e n sched \<longleftrightarrow> Cancel \<notin> set sched \<and>
     fair (length (chunk_ranges e n (numGoroutines (rd R)))) (missing_blocks R * totalDataShards (rpl R) + 1) sched"

lemma Reconstruct_chunk:
  assumes R: "run_ok R" and e: "env_ok e" "sched_ok R e n sched" and n: "even m" "even n" "m + n \<le> rslice R"
  shows "Reconstruct e sched False (rcoder R) (map (shard_part R m n) (flatLocs (rpl R)))
      (map (parity_part R m n (set (exponents R))) [0..<totalParityShards (rpl R)]) (numGoroutines (rd R)) =
    Some (Ret (map Some (map (piece m n) (rdata R))))" (is "Reconstruct _ _ _ ?c ?data ?parity _ = _")
proof -
  let ?D = "map (piece m n) (rdata R)" and ?P = "map (piece m n) (rparity R)"
  have r: "coder_ok ?c" "codeword ?c (rslice R) (rdata R) (rparity R)" "totalDataShards (rpl R) = length (flatLocs (rpl R))"
      "totalParityShards (rpl R) = Coder.parityShards ?c" "missing_blocks R \<le> length (exponents R)"
      "consecutive (take (missing_blocks R) (exponents R))"
    using R unfolding run_ok_def by blast+
  have l: "length (rdata R) = dataShards ?c" "length (rparity R) = Coder.parityShards ?c" using r(2) unfolding codeword_def by blast+
  have cw: "codeword ?c n ?D ?P" by (rule codeword_piece[OF r(2) n r(1)])
  have er: "erased ?data ?D" "erased ?parity ?P"
    using l r(4) by (auto simp: erased_def shard_part_def parity_part_def rdata_def)
  have len: "length ?data = dataShards ?c" "length ?parity \<le> Coder.parityShards ?c" using l r(4) by (simp_all add: rdata_def)
  have ab: "length (absent ?data) = missing_blocks R" by (rule absent_parts)
  have pr: "present ?parity = exponents R" by (rule present_parts[OF R])
  show ?thesis
  proof (cases "absent ?data = []")
    case True
    then show ?thesis using Reconstruct_none_missing[OF cw er len] by simp
  next
    case False
    have en: "length (absent ?data) \<le> length (present ?parity)" using ab pr r(5) by simp
    have "consecutive (used_rows ?data ?parity)" using r(6) ab pr by (simp only: used_rows_def)
    then have "\<not> sub_singular (parityMatrix ?c) (absent ?data) (used_rows ?data ?parity)"
      by (rule used_consecutive_not_singular[OF r(1) len en])
    moreover have "length (absent ?data) * dataShards ?c + 1 = missing_blocks R * totalDataShards (rpl R) + 1"
      using ab len r(3) by simp
    ultimately show ?thesis
      using Reconstruct_enough[OF e(1) r(1) cw er len False en, of sched "numGoroutines (rd R)"] e(2)
      unfolding sched_ok_def by auto
  qed
qed

lemma wp_reconstruct:
  assumes R: "run_ok R" and e: "env_ok e" "sched_ok R e n sched" and n: "even m" "even n" "m + n \<le> rslice R"
    and s: "steady R p" "sized R p" and a: "activeDataShards p = map (shard_part R m n) (flatLocs (rpl R))"
      "activeParityShards p = map (parity_part R m n (set (exponents R))) [0..<totalParityShards (rpl R)]"
  shows "wp (reconstruct_chunk e sched) (\<lambda>_ p'. steady R p' \<and> sized R p' \<and> files_stay p p' \<and>
    activeDataShards p' = map Some (map (piece m n) (rdata R))) E p"
proof -
  let ?p = "set_disk (tick (disk p)) p"
  have q: "quiet (disk p)" "coder p = rcoder R" "numGoroutines (pd p) = numGoroutines (rd R)" using s(1) by (simp_all add: steady_def)
  have "ctxErr (disk p) = (Ret False, tick (disk p))" using q(1) by (simp add: ctxErr_def quiet_def)
  moreover have "sized R (?p\<lparr>activeDataShards := map Some (map (piece m n) (rdata R))\<rparr>)"
    using s(2) R by (simp add: sized_def rdata_def run_ok_def)
  moreover have "files_stay p (?p\<lparr>activeDataShards := x\<rparr>)" for x by (simp add: files_stay_def tick_def)
  ultimately show ?thesis
    unfolding reconstruct_chunk_def wp_bind wp_onDisk unfolding wp_def[of ctxErr]
    using steady_tick[OF s(1)] q(2,3) a Reconstruct_chunk[OF R e n] by (simp add: wp wp_liftR)
qed

section \<open>Writing\<close>

lemma tempName_inj:
  assumes "tempName t a = tempName u b" "16 \<le> length a" "16 \<le> length b"
  shows "t = u"
proof -
  have "length (repairTempMarker @ take 16 a @ repairTempExt) = length (repairTempMarker @ take 16 b @ repairTempExt)"
    using assms(2,3) by simp
  then show ?thesis using assms(1) by (simp add: tempName_def append_eq_append_conv)
qed

lemma wp_parent:
  assumes "steady R p"
  shows "wp (onDecoder (ensureParentDir t)) (\<lambda>_ p'. steady R p' \<and> buffers_stay p p' \<and> files_stay p p') E p"
proof -
  have "wp (onDisk sysCall) (\<lambda>_ p'. steady R p' \<and> buffers_stay p p' \<and> files_stay p p') E' p" for E'
    unfolding sysCall_def by (rule wp_steady_read[OF assms]) (simp_all add: buffers_stay_def files_stay_def tick_def)
  then show ?thesis
    using assms unfolding ensureParentDir_def onDecoder_simps onDecoder_if by (simp add: wp) (simp add: buffers_stay_def)
qed

text \<open>The temp file of a target is there, or is created empty.\<close>

lemma steady_create:
  assumes R: "run_ok R" and s: "steady R p" and t: "t \<in> targets (rpl R)" "map_of (outputs p) t = None"
    and tmp: "tmp = tempName t (randText (rworld R) k)" "dir (disk p) tmp = None"
    and w: "dir w = (dir (disk p))(tmp \<mapsto> nextInode (disk p))" "inodes w = (inodes (disk p))(nextInode (disk p) := [])"
      "nextInode w = nextInode (disk p) + 1" "randText w = randText (disk p)" "quiet w"
  shows "steady R (set_disk w p\<lparr>outputs := AList.update t (nextInode (disk p)) (outputs p),
    tempNames := AList.update t tmp (tempNames p)\<rparr>)" (is "steady R ?p")
proof -
  have "building (rworld R) (rpl R) (protectedFiles (rd R)) p" using s by (simp add: steady_def)
  from building_create[OF this t tmp(2,1) w(1-4)]
  have b: "building (rworld R) (rpl R) (protectedFiles (rd R)) ?p" .
  have d: "disk ?p = w" by (simp add: disk_def set_disk_def)
  have f: "\<forall>n f. map_of (sources ?p) n = Some f \<longrightarrow> dir (rworld R) n = Some f" "sliceByteCount (pd ?p) = rslice R"
      "Decoder.parityShards (pd ?p) = Decoder.parityShards (rd R)" "numGoroutines (pd ?p) = numGoroutines (rd R)" "coder ?p = rcoder R"
    using s by (simp_all add: steady_def)
  have "dir w (tempName u (randText (rworld R) l)) = None" if "u \<in> targets (rpl R)" "map_of (outputs ?p) u = None" for u l
  proof -
    have u: "u \<noteq> t" "map_of (outputs p) u = None" using that(2) by (auto simp: update_conv split: if_splits)
    then have "dir (disk p) (tempName u (randText (rworld R) l)) = None" using s that(1) unfolding steady_def by blast
    moreover have "tempName u (randText (rworld R) l) \<noteq> tmp" using tempName_inj u(1) R unfolding tmp run_ok_def by blast
    ultimately show ?thesis using w(1) by simp
  qed
  then show ?thesis using b f w(5) unfolding steady_def d by blast
qed

lemma wp_getOutput:
  assumes R: "run_ok R" and s: "steady R p" and t: "t \<in> targets (rpl R)"
  shows "wp (getOutput t) (\<lambda>f p'. steady R p' \<and> buffers_stay p p' \<and> map_of (outputs p') t = Some f \<and>
    (\<forall>u. bytes_of p' u = bytes_of p u)) E p"
proof (cases "map_of (outputs p) t")
  case (Some f)
  then show ?thesis using s by (simp add: getOutput_def wp buffers_stay_def)
next
  case None
  let ?Q = "\<lambda>f p'. steady R p' \<and> buffers_stay p p' \<and> map_of (outputs p') t = Some f \<and> (\<forall>u. bytes_of p' u = bytes_of p u)"
  have create: "wp (tryG (onDisk (create_excl tmp)) (\<lambda>f. bindG (modG (\<lambda>p. p\<lparr>outputs := AList.update t f (outputs p),
      tempNames := AList.update t tmp (tempNames p)\<rparr>)) (\<lambda>_. retG f)) (\<lambda>_. errG ''failed to create temp file'')) ?Q E p1"
    if p1: "steady R p1" "buffers_stay p p1" "files_stay p p1" and tmp: "tmp = tempName t (randText (disk p1) k)" for p1 tmp k
  proof -
    let ?w = "(tick (disk p1))\<lparr>dir := (dir (disk p1))(tmp \<mapsto> nextInode (disk p1)),
      inodes := (inodes (disk p1))(nextInode (disk p1) := []), nextInode := nextInode (disk p1) + 1\<rparr>"
    let ?p2 = "set_disk ?w p1\<lparr>outputs := AList.update t (nextInode (disk p1)) (outputs p1), tempNames := AList.update t tmp (tempNames p1)\<rparr>"
    have q: "quiet (disk p1)" "randText (disk p1) = randText (rworld R)" and n: "map_of (outputs p1) t = None"
      using p1 None by (simp_all add: steady_def building_def originals_def files_stay_def)
    then have fresh: "dir (disk p1) tmp = None" using p1(1) t tmp by (simp add: steady_def)
    then have "create_excl tmp (disk p1) = (Ret (nextInode (disk p1)), ?w)"
      using q(1) by (simp add: create_excl_def sysWrite_def quiet_def tick_def)
    moreover have "steady R ?p2"
      by (rule steady_create[OF R p1(1) t n _ fresh, of k]) (use q tmp in \<open>simp_all add: tick_def quiet_def\<close>)
    moreover have "bytes_of ?p2 u = bytes_of p1 u" for u
    proof (cases "map_of (outputs p1) u")
      case (Some f)
      then have "f < nextInode (disk p1)" "u \<noteq> t" using p1(1) n by (auto simp: steady_def building_def outputs_ok_def)
      then show ?thesis using Some by (simp add: bytes_of_def update_conv disk_def set_disk_def)
    qed (use n in \<open>simp add: bytes_of_def update_conv disk_def set_disk_def\<close>)
    moreover have "buffers_stay p ?p2" using p1(2) by (simp add: buffers_stay_def)
    ultimately show ?thesis
      unfolding wp_try wp_onDisk unfolding wp_def[of "create_excl _"]
      using content_stays(1)[OF p1(3)] by (simp add: wp update_conv)
  qed
  show ?thesis
    by (simp only: getOutput_def wp_bind wp_basic None option.case)
      (rule wp_mono[OF wp_parent[OF s]], use create[OF _ _ _ refl] in \<open>simp only: wp_bind[of "getG _"] wp_basic(3) Let_def disk_def\<close>, simp)
qed

lemma steady_frame:
  assumes "steady R p" "frame {i. nextInode (rworld R) \<le> i} (disk p) w" "quiet w"
  shows "steady R (set_disk w p)"
  using assms building_frame[OF assms(2)] by (simp add: steady_def) (simp add: frame_def)

lemma wp_write_at:
  assumes s: "steady R p" and f: "map_of (outputs p) t = Some f"
  shows "wp (onDisk (writeAtOff f bs (int off))) (\<lambda>_ p'. steady R p' \<and> buffers_stay p p' \<and>
    (\<forall>u. bytes_of p' u = (if u = t then write_bytes bs off (bytes_of p t) else bytes_of p u))) E p"
proof -
  let ?w = "set_inode f (write_bytes bs off) (tick (disk p))"
  have q: "quiet (disk p)" using s by (simp add: steady_def)
  have o: "nextInode (rworld R) \<le> f" "\<And>u. map_of (outputs p) u = Some f \<Longrightarrow> u = t"
  proof -
    have oo: "outputs_ok (rworld R) p" using s by (simp add: steady_def building_def)
    show "nextInode (rworld R) \<le> f" using oo f by (simp add: outputs_ok_def)
    show "map_of (outputs p) u = Some f \<Longrightarrow> u = t" for u using oo f by (simp add: outputs_ok_def)
  qed
  have "writeAtOff f bs (int off) (disk p) = (Ret (), ?w)"
    using q by (simp add: writeAtOff_def writeAt_def sysWrite_def quiet_def)
  moreover have "steady R (set_disk ?w p)"
  proof (rule steady_frame[OF s])
    show "frame {i. nextInode (rworld R) \<le> i} (disk p) ?w"
      by (rule frame_trans[OF frame_tick frame_set_inode]) (use o(1) in simp)
    show "quiet ?w" using q by (simp add: quiet_def set_inode_def tick_def)
  qed
  moreover have "bytes_of (set_disk ?w p) u = (if u = t then write_bytes bs off (bytes_of p t) else bytes_of p u)" for u
  proof (cases "map_of (outputs p) u")
    case (Some g)
    then have "u = t \<longleftrightarrow> g = f" using f o(2)[of u] by (metis option.inject)
    then show ?thesis using f Some by (simp add: bytes_of_def set_inode_def tick_def)
  qed (use f in \<open>auto simp: bytes_of_def\<close>)
  moreover have "buffers_stay p (set_disk ?w p)" by (simp add: buffers_stay_def)
  ultimately have fin: "steady R (set_disk ?w p) \<and> buffers_stay p (set_disk ?w p) \<and>
    (\<forall>u. bytes_of (set_disk ?w p) u = (if u = t then write_bytes bs off (bytes_of p t) else bytes_of p u))"
    "writeAtOff f bs (int off) (disk p) = (Ret (), ?w)" by simp_all
  show ?thesis unfolding wp_onDisk unfolding wp_def fin(2) prod.case res.case by (rule fin(1))
qed

text \<open>The blocks of which this chunk is written, and how much is there of each block.\<close>

definition level :: "nat \<Rightarrow> nat \<Rightarrow> (bytes \<times> nat) set \<Rightarrow> bytes \<Rightarrow> nat \<Rightarrow> nat" where
  "level m n K t j = (if (t, j) \<in> K then m + n else m)"

text \<open>Writing a part of a block at its place raises the level of that block and of no other.\<close>

lemma content_written:
  assumes c: "content R (level m n K) p" and n: "m + n \<le> rslice R" and key: "key fl = (t, j)"
    and j: "j < length (rblocks R t)" "uniform (rslice R) (rblocks R t)"
    and p': "\<forall>u. bytes_of p' u = (if u = t then write_bytes (piece m n (rblocks R t ! j)) (j * rslice R + m) (bytes_of p t) else bytes_of p u)"
  shows "content R (level m n (insert (key fl) K)) p'"
  unfolding content_def
proof
  fix u assume u: "u \<in> targets (rpl R)"
  then have f: "filled (rblocks R u) (rslice R) (level m n K u) (bytes_of p u)" using c by (simp add: content_def)
  show "filled (rblocks R u) (rslice R) (level m n (insert (key fl) K) u) (bytes_of p' u)"
  proof (cases "u = t")
    case True
    have "(level m n K u)(j := max (level m n K u j) (m + n)) = level m n (insert (key fl) K) u"
      using True key by (auto simp: level_def fun_eq_iff)
    moreover have "length (rblocks R u ! j) = rslice R" using j True by (simp add: uniform_nth)
    ultimately show ?thesis using filled_write[OF f, of j m n] j(1) n p' True by (simp add: level_def)
  next
    case False
    then have "level m n (insert (key fl) K) u = level m n K u" using key by (auto simp: level_def fun_eq_iff)
    then show ?thesis using f p' False by simp
  qed
qed

lemma wp_write_shard:
  assumes R: "run_ok R" and s: "steady R p" "sized R p" and i: "i < length (flatLocs (rpl R))" "fl = flatLocs (rpl R) ! i"
    and n: "m + n \<le> rslice R" and a: "activeDataShards p = map Some (map (piece m n) (rdata R))" and c: "content R (level m n K) p"
  shows "wp (write_shard (int m) (i, fl)) (\<lambda>_ p'. steady R p' \<and> sized R p' \<and> activeDataShards p' = activeDataShards p \<and>
    content R (level m n (insert (key fl) K)) p') E p" (is "wp _ ?Q _ _")
proof (cases "fl_targetFilename fl \<in> targets (rpl R)")
  case False
  then have "content R (level m n (insert (key fl) K)) p" using c by (auto simp: content_def level_def key_def filled_def)
  moreover have "plan p = rpl R" using s by (simp add: steady_def building_def)
  ultimately show ?thesis using False s by (simp add: write_shard_def wp targets_def)
next
  case True
  let ?t = "fl_targetFilename fl" and ?j = "fl_shardIndex fl"
  have p: "plan p = rpl R" "sliceByteCount (pd p) = rslice R" using s by (simp_all add: steady_def building_def)
  have "fl \<in> set (flatLocs (rpl R))" using i by simp
  then have j: "?j < length (rblocks R ?t)" "uniform (rslice R) (rblocks R ?t)" using R True unfolding run_ok_def by blast+
  have shard: "activeDataShards p ! i = Some (piece m n (rblocks R ?t ! ?j))" using a i by (simp add: rdata_def block_of_def)
  have key: "key fl = (?t, ?j)" by (simp add: key_def)
  have writing: "wp (bindG (bindG (getG (\<lambda>p. goIndex (activeDataShards p) (int i))) liftR) (\<lambda>x.
      onDisk (writeAtOff f (shard_bytes x) (int (?j * rslice R) + int m)))) ?Q E p1"
    if p1: "steady R p1" "buffers_stay p p1" "map_of (outputs p1) ?t = Some f" "\<forall>u. bytes_of p1 u = bytes_of p u" for f p1
  proof -
    have "activeDataShards p1 = activeDataShards p" using p1(2) by (simp add: buffers_stay_def)
    then have g: "goIndex (activeDataShards p1) (int i) = Ret (Some (piece m n (rblocks R ?t ! ?j)))"
      using i a shard by (simp add: rdata_def)
    have "content R (level m n K) p1" using c p1(4) by (simp add: content_def)
    note written = content_written[OF this n key j]
    have "sized R p2 \<and> activeDataShards p2 = activeDataShards p" if "buffers_stay p1 p2" for p2
      using that s(2) p1(2) sized_stays[of p p2 R] by (simp add: buffers_stay_def)
    moreover have "int (?j * rslice R) + int m = int (?j * rslice R + m)" by simp
    ultimately show ?thesis
      unfolding wp_bind wp_basic g wp_liftR res.case shard_bytes_def option.case
      by (simp only:) (rule wp_mono[OF wp_write_at[OF p1(1,3)]]; use written in blast)
  qed
  have "map_of (needsWrite (plan p)) ?t = Some True" using True p(1) by (simp add: targets_def)
  then show ?thesis
    by (simp only: write_shard_def prod.case wp_bind[of "getG _"] wp_basic(3) p(2) simp_thms if_False wp_bind[of "getOutput _"])
      (rule wp_mono[OF wp_getOutput[OF R s(1) True]]; use writing in blast)
qed

lemma wp_write_all:
  assumes R: "run_ok R" and s: "steady R p" "sized R p"
    and n: "m + n \<le> rslice R" and a: "activeDataShards p = map Some (map (piece m n) (rdata R))" and c: "content R (\<lambda>_ _. m) p"
  shows "wp (forG (write_shard (int m)) (enumerate 0 (flatLocs (rpl R)))) (\<lambda>_ p'. steady R p' \<and> sized R p' \<and>
    content R (\<lambda>_ _. m + n) p') E p"
proof -
  let ?fl = "flatLocs (rpl R)"
  let ?I = "\<lambda>pre p'. steady R p' \<and> sized R p' \<and> activeDataShards p' = activeDataShards p \<and>
    content R (level m n (key ` snd ` set pre)) p'"
  have "wp (forG (write_shard (int m)) (enumerate 0 ?fl)) (\<lambda>_. ?I (enumerate 0 ?fl)) E p"
  proof (rule wp_for[where I = ?I])
    show "?I [] p" using s c by (simp add: content_def level_def[abs_def])
    fix pre x rest q assume split: "enumerate 0 ?fl = pre @ x # rest" and q: "?I pre q"
    note x = enumerate_split[OF split]
    have "activeDataShards q = map Some (map (piece m n) (rdata R))" using q a by simp
    with q show "wp (write_shard (int m) x) (\<lambda>_. ?I (pre @ [x])) E q"
      unfolding x(2) by (intro wp_mono[OF wp_write_shard[OF R _ _ x(1) refl n]]) (auto simp: x(2))
  qed
  then show ?thesis
  proof (rule wp_mono)
    fix q assume q: "?I (enumerate 0 ?fl) q"
    have "filled (rblocks R t) (rslice R) (\<lambda>_. m + n) (bytes_of q t)" if t: "t \<in> targets (rpl R)" for t
    proof -
      have "(t, j) \<in> key ` snd ` set (enumerate 0 ?fl)" if "j < length (rblocks R t)" for j
      proof -
        have "(t, j) \<in> key ` set ?fl" using R t that unfolding run_ok_def by blast
        then show ?thesis by (metis enumerate_eq_zip list.set_map map_snd_zip length_upt diff_add_inverse)
      qed
      then show ?thesis using q t by (simp add: content_def filled_def level_def)
    qed
    then show "steady R q \<and> sized R q \<and> content R (\<lambda>_ _. m + n) q" using q by (simp add: content_def)
  qed simp
qed

section \<open>One chunk, and all chunks\<close>

lemma chunk_bounds:
  assumes R: "run_ok R" and k: "int k < numChunks (rpl R)"
  defines "m \<equiv> k * rchunk R" and "n \<equiv> min (rchunk R) (rslice R - k * rchunk R)"
  shows "currChunkSize (rslice R) (chunkSize (rpl R)) (numChunks (rpl R)) (int k) = int n" "int k * chunkSize (rpl R) = int m"
    "m + n = min (rslice R) (Suc k * rchunk R)" "m + n \<le> rslice R" "n \<le> rchunk R" "even m" "even n"
proof -
  let ?s = "rslice R" and ?c = "rchunk R"
  have r: "0 < ?s" "0 < ?c" "even ?s" "even ?c" "chunkSize (rpl R) = int ?c" "numChunks (rpl R) = int ((?s + ?c - 1) div ?c)"
    using R unfolding run_ok_def by blast+
  let ?K = "(?s + ?c - 1) div ?c"
  have kK: "k < ?K" using k r(6) by simp
  have ms: "m < ?s"
  proof -
    have "(k + 1) * ?c \<le> ?K * ?c" using kK by (intro mult_le_mono1) simp
    also have "\<dots> \<le> ?s + ?c - 1" by simp
    finally show ?thesis using r(2) by (simp add: m_def)
  qed
  have last: "k + 1 = ?K \<longleftrightarrow> ?s \<le> Suc k * ?c"
  proof -
    have "?K \<le> k + 1 \<longleftrightarrow> ?s + ?c - 1 < (k + 2) * ?c" using less_mult_imp_div_less[of "?s + ?c - 1" "k + 2" ?c] div_less_iff_less_mult[OF r(2), of "?s + ?c - 1" "k + 2"] by auto
    also have "\<dots> \<longleftrightarrow> ?s \<le> Suc k * ?c" using r(2) by (auto simp: algebra_simps)
    finally show ?thesis using kK by auto
  qed
  have n: "n = (if k + 1 = ?K then ?s - m else ?c)" using last r(2) by (auto simp: n_def m_def min_def algebra_simps)
  have "int k = numChunks (rpl R) - 1 \<longleftrightarrow> k + 1 = ?K" using r(6) by linarith
  then show "currChunkSize ?s (chunkSize (rpl R)) (numChunks (rpl R)) (int k) = int n"
    using n r(5) ms by (auto simp: currChunkSize_def m_def)
  show "int k * chunkSize (rpl R) = int m" using r(5) by (simp add: m_def)
  show "m + n = min ?s (Suc k * ?c)" using ms by (auto simp: n_def m_def min_def)
  then show "m + n \<le> ?s" by simp
  show "n \<le> ?c" by (simp add: n_def)
  show "even m" using r(4) by (simp add: m_def)
  then show "even n" using r(3,4) n ms by (auto simp: even_diff_nat)
qed

lemma wp_executeChunk:
  assumes R: "run_ok R" and e: "env_ok e" and k: "int k < numChunks (rpl R)"
    and sched: "sched_ok R e (min (rchunk R) (rslice R - k * rchunk R)) sched"
    and s: "steady R p" "sized R p" "content R (\<lambda>_ _. min (rslice R) (k * rchunk R)) p"
  shows "wp (executeChunk e sched (int k)) (\<lambda>_ p'. steady R p' \<and> sized R p' \<and>
    content R (\<lambda>_ _. min (rslice R) (Suc k * rchunk R)) p') E p"
proof -
  define m n where "m = k * rchunk R" and "n = min (rchunk R) (rslice R - m)"
  note b = chunk_bounds[OF R k, folded m_def, folded n_def]
  have p: "plan p = rpl R" "sliceByteCount (pd p) = rslice R" using s(1) by (simp_all add: steady_def building_def)
  let ?p1 = "p\<lparr>activeDataShards := replicate (length (activeDataShards p)) None\<rparr>"
  let ?I = "\<lambda>q. steady R q \<and> sized R q \<and> files_stay p q"
  have 1: "?I ?p1" using s by (simp add: sized_def files_stay_def)
  have 3: "?I (q\<lparr>activeParityShards := replicate (length (activeParityShards q)) None\<rparr>)" if "?I q" for q
    using that by (simp add: sized_def files_stay_def)
  have "content R (\<lambda>_ _. m) p" using s(3) b(3,4) by (simp add: m_def)
  then have c: "content R (\<lambda>_ _. m) q" if "?I q" for q using that content_stays(2) by blast
  let ?fl = "flatLocs (rpl R)" and ?Q = "\<lambda>_ p'. steady R p' \<and> sized R p' \<and> content R (\<lambda>_ _. min (rslice R) (Suc k * rchunk R)) p'"
  let ?out = "forG (write_shard (int m)) (enumerate 0 ?fl)"
  have w: "wp ?out ?Q E q" if "?I q" "activeDataShards q = map Some (map (piece m n) (rdata R))" for q
    using wp_write_all[OF R _ _ b(4) that(2) c[OF that(1)]] that(1) unfolding b(3) by blast
  have r: "wp (bindG (reconstruct_chunk e sched) (\<lambda>_. ?out)) ?Q E q"
    if "?I q" "activeDataShards q = map (shard_part R m n) ?fl"
      "activeParityShards q = map (parity_part R m n (set (exponents R))) [0..<totalParityShards (rpl R)]" for q
    unfolding wp_bind
    by (rule wp_mono[OF wp_reconstruct[OF R e sched[folded m_def, folded n_def] b(6,7,4) _ _ that(2,3)]])
      (use that(1) in simp, use that(1) in simp, use that(1) files_stay_trans w in blast, simp)
  have q: "wp (bindG (bindG (getG (\<lambda>p. Decoder.parityShards (pd p))) (forG (read_parity (int n) (int m))))
      (\<lambda>_. bindG (reconstruct_chunk e sched) (\<lambda>_. ?out))) ?Q E q"
    if "?I q" "activeDataShards q = map (shard_part R m n) ?fl" "activeParityShards q = replicate (totalParityShards (rpl R)) None" for q
    by (subst wp_bind, rule wp_mono[OF wp_read_parities[OF R _ _ b(5,4) that(3)]])
      (use that(1) in simp, use that(1) in simp, use that(1,2) files_stay_trans r in auto)
  show ?thesis
    unfolding executeChunk_def wp_bind wp_basic prod.case p b(1,2) Let_def
    by (rule wp_mono[OF wp_read_data[OF R _ _ b(5,4)]])
      (use 1 in simp, use 1 in simp, rule q[unfolded wp_bind wp_basic], use 1 3 files_stay_trans in blast, simp_all add: sized_def)
qed

definition scheds_ok :: "repair_run \<Rightarrow> env \<Rightarrow> repair_sched \<Rightarrow> bool" where
  "scheds_ok R e sc \<longleftrightarrow> env_ok e \<and> (\<forall>k. int k < numChunks (rpl R) \<longrightarrow>
     sched_ok R e (min (rchunk R) (rslice R - k * rchunk R)) (chunkSched sc k))"

text \<open>After all chunks every temp file is the concatenation of the blocks of its target.\<close>

definition rebuilt_all :: "repair_run \<Rightarrow> repairPipeline \<Rightarrow> bool" where
  "rebuilt_all R p \<longleftrightarrow> (\<forall>t\<in>targets (rpl R). \<exists>f. map_of (outputs p) t = Some f \<and> inodes (disk p) f = concat (rblocks R t))"

lemma rebuilt_content:
  assumes R: "run_ok R" and c: "content R (\<lambda>_ _. rslice R) p"
  shows "rebuilt_all R p"
  unfolding rebuilt_all_def
proof
  fix t assume t: "t \<in> targets (rpl R)"
  then have u: "uniform (rslice R) (rblocks R t)" "rblocks R t \<noteq> []" "0 < rslice R" using R unfolding run_ok_def by blast+
  have f: "bytes_of p t = concat (rblocks R t)" using filled_all[OF _ u(1,3,2)] c t by (simp add: content_def)
  then have "length (bytes_of p t) = length (rblocks R t) * rslice R" using length_concat_blocks[OF u(1)] by simp
  then have "bytes_of p t \<noteq> []" using u(2,3) by auto
  then show "\<exists>f. map_of (outputs p) t = Some f \<and> inodes (disk p) f = concat (rblocks R t)"
    using f by (auto simp: bytes_of_def split: option.splits)
qed

lemma wp_run_chunks:
  assumes R: "run_ok R" and sc: "scheds_ok R e sc" and s: "steady R p" "sized R p" "outputs p = []"
  shows "wp (run_chunks e sc) (\<lambda>_ p'. steady R p' \<and> rebuilt_all R p') E p"
proof -
  let ?K = "nat (numChunks (rpl R))"
  let ?I = "\<lambda>pre p'. steady R p' \<and> sized R p' \<and> content R (\<lambda>_ _. min (rslice R) (length pre * rchunk R)) p'"
  let ?body = "\<lambda>k. bindG (onDisk ctxErr) (\<lambda>canc. if canc then errG ''context canceled'' else executeChunk e (chunkSched sc k) (int k))"
  have "wp (forG ?body [0..<?K]) (\<lambda>_. ?I [0..<?K]) E p"
  proof (rule wp_for[where I = ?I])
    show "?I [] p" using s by (simp add: content_def filled_def bytes_of_def)
    fix pre k rest q assume split: "[0..<?K] = pre @ k # rest" and q: "?I pre q"
    have "length pre < ?K" using arg_cong[OF split, of length] by simp
    moreover from this have "[0..<?K] ! length pre = length pre" by simp
    ultimately have k: "k = length pre" "k < ?K" using split by simp_all
    then have kn: "int k < numChunks (rpl R)" by simp
    let ?q = "set_disk (tick (disk q)) q"
    have st: "steady R ?q" "sized R ?q" "files_stay q ?q"
      using q steady_tick same_tick(1) by (simp_all add: files_stay_def tick_def)
    have "ctxErr (disk q) = (Ret False, tick (disk q))" using q by (simp add: ctxErr_def steady_def quiet_def)
    moreover have "wp (executeChunk e (chunkSched sc k) (int k)) (\<lambda>_. ?I (pre @ [k])) E ?q"
      using wp_executeChunk[OF R _ kn _ st(1,2), of e "chunkSched sc k"] sc kn content_stays(2)[OF st(3)] q
      by (simp add: scheds_ok_def k(1))
    ultimately show "wp (?body k) (\<lambda>_. ?I (pre @ [k])) E q"
      unfolding wp_bind wp_onDisk unfolding wp_def[of ctxErr] by simp
  qed
  moreover have "rslice R \<le> ?K * rchunk R"
  proof -
    have "0 < rchunk R" "0 < rslice R" "numChunks (rpl R) = int ((rslice R + rchunk R - 1) div rchunk R)"
      using R unfolding run_ok_def by blast+
    then show ?thesis using ceil_count(3) by simp
  qed
  moreover have "plan p = rpl R" using s(1) by (simp add: steady_def building_def)
  ultimately show ?thesis
    unfolding run_chunks_def wp_bind wp_basic by (simp only:) (erule wp_mono, simp_all add: rebuilt_content[OF R])
qed

end
