(* ===== verification/Repair_Finish.thy ===== *)
theory Repair_Finish
  imports Repair_Run
begin

text \<open>
  Finishing and installing the rebuilt files when no call fails: every goroutine of \<open>finishRebuiltFiles\<close> truncates its file and
  finds the right hash, under every schedule, and every temp file is renamed over its target. A pipeline that can
  succeed returns no error and leaves every file it was to rebuild with its original bytes.
\<close>

section \<open>Finishing without faults\<close>

lemma wp_post_conj: "wp m Q E s \<Longrightarrow> post m Q' J s \<Longrightarrow> wp m (\<lambda>x s'. Q x s' \<and> Q' x s') E s"
  by (auto simp: wp_def post_def split: prod.splits res.splits)

text \<open>The content a rebuilt file ends with.\<close>

definition cut_to :: "nat \<Rightarrow> bytes \<Rightarrow> bytes" where
  "cut_to n bs = take n bs @ replicate (n - length bs) 0"

lemma cut_to_idem [simp]: "cut_to n (cut_to n bs) = cut_to n bs"
  by (auto simp: cut_to_def min_def)

fun rank :: "finishState \<Rightarrow> nat" where
  "rank Truncating = 0"
| "rank Syncing = 1"
| "rank Hashing = 2"
| "rank (Finished None) = 3"
| "rank (Finished (Some _)) = 0"

definition progressing :: "FileDescPacket \<times> handle \<Rightarrow> finishState \<Rightarrow> world \<Rightarrow> bool" where
  "progressing j st w \<longleftrightarrow> st \<in> {Truncating, Syncing, Hashing, Finished None} \<and>
     md5 (cut_to (ByteCount (fst j)) (inodes w (snd j))) = fd_Hash (fst j) \<and>
     (st \<noteq> Truncating \<longrightarrow> inodes w (snd j) = cut_to (ByteCount (fst j)) (inodes w (snd j)))"

lemma quiet_steps: "quiet (tick w) = quiet w" "quiet (set_inode i f w) = quiet w"
  by (simp_all add: quiet_def tick_def set_inode_def)

text \<open>A step without a fault makes progress and leaves the final content of its file as it is.\<close>

lemma finish_step_calm:
  assumes "quiet w" "progressing (fd, f) st w"
  shows "\<exists>st' w'. finish_step fd f st w = (Ret st', w') \<and> quiet w' \<and> frame {f} w w' \<and> progressing (fd, f) st' w' \<and>
    min 3 (rank st + 1) \<le> rank st' \<and> cut_to (ByteCount fd) (inodes w' f) = cut_to (ByteCount fd) (inodes w f)"
proof -
  have fl: "faults w k = None" for k using assms(1) by (simp add: quiet_def)
  have fr: "frame {f} w (tick (tick w))" "frame {f} w (tick w)" using frame_trans frame_tick by blast+
  have t: "inodes (tick v) = inodes v" "faults (tick v) = faults v" for v by (simp_all add: tick_def)
  consider "st = Truncating" | "st = Syncing" | "st = Hashing" | "st = Finished None" using assms(2) by (auto simp: progressing_def)
  then show ?thesis
  proof cases
    case 1
    let ?w = "set_inode f (\<lambda>bs. take (ByteCount fd) bs @ replicate (ByteCount fd - length bs) 0) (tick w)"
    have "finish_step fd f st w = (Ret Syncing, ?w)" using 1 fl by (simp add: tryG_def retG_def truncate_file_def sysWrite_def)
    moreover have "frame {f} w ?w" by (rule frame_trans[OF fr(2) frame_set_inode]) simp
    moreover have i: "inodes ?w f = cut_to (ByteCount fd) (inodes w f)" by (simp add: set_inode_def tick_def cut_to_def)
    ultimately show ?thesis using assms 1 by (auto simp: progressing_def quiet_steps)
  next
    case 2
    then show ?thesis
      using assms fl fr t by (auto simp: tryG_def retG_def sysCall_def sysRead_def progressing_def quiet_steps)
  next
    case 3
    then show ?thesis
      using assms fl fr t
      by (auto simp: tryG_def retG_def sysCall_def sysRead_def progressing_def quiet_steps computeFileMD5_def bindG_def readAll_def)
  next
    case 4
    then show ?thesis using assms by (auto simp: retG_def)
  qed
qed

definition calm_finishing :: "(FileDescPacket \<times> handle) list \<Rightarrow> world \<Rightarrow> nat list \<Rightarrow> finishState list \<Rightarrow> world \<Rightarrow> bool" where
  "calm_finishing js w0 pre sts w \<longleftrightarrow> quiet w \<and> length sts = length js \<and>
     (\<forall>i<length js. progressing (js ! i) (sts ! i) w \<and> min 3 (count_list pre i) \<le> rank (sts ! i) \<and>
        cut_to (ByteCount (fst (js ! i))) (inodes w (snd (js ! i))) = cut_to (ByteCount (fst (js ! i))) (inodes w0 (snd (js ! i))))"

lemma wp_run_finish_calm:
  assumes d: "distinct (map snd js)" and c: "calm_finishing js w0 pre sts w"
  shows "wp (run_finish js i sts) (calm_finishing js w0 (pre @ [i])) (\<lambda>_ _. False) w"
proof (cases "i < length js")
  case True
  obtain st' w' where s: "finish_step (fst (js ! i)) (snd (js ! i)) (sts ! i) w = (Ret st', w')" "quiet w'" "frame {snd (js ! i)} w w'"
      "progressing (js ! i) st' w'" "min 3 (rank (sts ! i) + 1) \<le> rank st'"
      "cut_to (ByteCount (fst (js ! i))) (inodes w' (snd (js ! i))) = cut_to (ByteCount (fst (js ! i))) (inodes w (snd (js ! i)))"
    using finish_step_calm[of w "fst (js ! i)" "snd (js ! i)" "sts ! i"] c True by (auto simp: calm_finishing_def)
  have "calm_finishing js w0 (pre @ [i]) (sts[i := st']) w'"
    unfolding calm_finishing_def
  proof (intro conjI allI impI)
    fix k assume k: "k < length js"
    have old: "progressing (js ! k) (sts ! k) w" "min 3 (count_list pre k) \<le> rank (sts ! k)"
        "cut_to (ByteCount (fst (js ! k))) (inodes w (snd (js ! k))) = cut_to (ByteCount (fst (js ! k))) (inodes w0 (snd (js ! k)))"
      using c k by (simp_all add: calm_finishing_def)
    have same: "inodes w' (snd (js ! k)) = inodes w (snd (js ! k))" if "k \<noteq> i"
    proof -
      have "snd (js ! k) \<noteq> snd (js ! i)" using d that k True by (simp add: distinct_conv_nth)
      then show ?thesis using s(3) by (simp add: frame_def)
    qed
    have len: "length sts = length js" using c by (simp add: calm_finishing_def)
    show "progressing (js ! k) (sts[i := st'] ! k) w'" using old s(4) same len k by (cases "k = i") (simp_all add: progressing_def)
    show "min 3 (count_list (pre @ [i]) k) \<le> rank (sts[i := st'] ! k)" using old s(5) len k by (cases "k = i") simp_all
    show "cut_to (ByteCount (fst (js ! k))) (inodes w' (snd (js ! k))) = cut_to (ByteCount (fst (js ! k))) (inodes w0 (snd (js ! k)))"
      using old s(6) same by (cases "k = i") simp_all
  qed (use s(2) c in \<open>simp_all add: calm_finishing_def\<close>)
  then show ?thesis using True s(1) by (simp add: run_finish_def wp_def bindG_def retG_def)
next
  case False
  then show ?thesis using c by (simp add: run_finish_def wp calm_finishing_def)
qed

lemma count_thrice: "i < n \<Longrightarrow> count_list (concat (map (\<lambda>i. [i, i, i]) [0..<n])) i = 3"
  by (induction n) (auto simp: count_list_0_iff less_Suc_eq)

lemma wp_finish_calm:
  assumes d: "distinct (map snd js)" and q: "quiet w"
    and h: "\<And>fd f. (fd, f) \<in> set js \<Longrightarrow> md5 (cut_to (ByteCount fd) (inodes w f)) = fd_Hash fd"
  shows "wp (finish_all sched js) (\<lambda>_ w'. quiet w' \<and> (\<forall>(fd, f)\<in>set js. inodes w' f = cut_to (ByteCount fd) (inodes w f))) (\<lambda>_ _. False) w"
proof -
  let ?xs = "sched @ concat (map (\<lambda>i. [i, i, i]) [0..<length js])"
  have "calm_finishing js w [] (replicate (length js) Truncating) w"
    using q h by (auto simp: calm_finishing_def progressing_def)
  then have run: "wp (foldG (run_finish js) ?xs (replicate (length js) Truncating)) (calm_finishing js w ?xs) (\<lambda>_ _. False) w"
    by (rule wp_fold[where I = "calm_finishing js w"]) (rule wp_run_finish_calm[OF d])
  have fin: "sts ! i = Finished None \<and> inodes w' (snd (js ! i)) = cut_to (ByteCount (fst (js ! i))) (inodes w (snd (js ! i)))"
    if "calm_finishing js w ?xs sts w'" "i < length js" for sts w' i
  proof -
    have "3 \<le> rank (sts ! i)" "progressing (js ! i) (sts ! i) w'"
      "cut_to (ByteCount (fst (js ! i))) (inodes w' (snd (js ! i))) = cut_to (ByteCount (fst (js ! i))) (inodes w (snd (js ! i)))"
      using that count_thrice[OF that(2)] by (auto simp: calm_finishing_def min_def)
    then show ?thesis by (auto simp: progressing_def)
  qed
  show ?thesis
    unfolding finish_all_def wp_bind
  proof (rule wp_mono[OF run])
    fix sts w' assume c: "calm_finishing js w ?xs sts w'"
    then have "\<not> list_ex failure sts" "quiet w'" using fin[OF c] by (auto simp: list_ex_iff in_set_conv_nth calm_finishing_def)
    moreover have "inodes w' f = cut_to (ByteCount fd) (inodes w f)" if "(fd, f) \<in> set js" for fd f
      using that fin[OF c] by (metis fst_conv in_set_conv_nth snd_conv)
    ultimately show "wp (if list_ex failure sts then errG ''rebuilt files failed'' else retG ()) (\<lambda>_ w'. quiet w' \<and>
        (\<forall>(fd, f)\<in>set js. inodes w' f = cut_to (ByteCount fd) (inodes w f))) (\<lambda>_ _. False) w'"
      by (auto simp: wp)
  qed simp
qed

section \<open>Installing without faults\<close>

definition calm :: "(handle \<Rightarrow> bytes) \<Rightarrow> repairPipeline \<Rightarrow> bool" where
  "calm B p \<longleftrightarrow> quiet (disk p) \<and> inodes (disk p) = B"

lemma calm_mod [simp]: "calm B (p\<lparr>sources := a\<rparr>) = calm B p" "calm B (p\<lparr>outputs := b\<rparr>) = calm B p"
  by (simp_all add: calm_def disk_def)

lemma wp_calm: "calm B p \<Longrightarrow> f (disk p) = Ret x \<Longrightarrow> Q x (set_disk (tick (disk p)) p) \<Longrightarrow> wp (onDisk (sysRead f)) Q E p"
  unfolding wp_onDisk by (rule wp_quiet_read) (simp_all add: calm_def)

lemma calm_tick: "calm B p \<Longrightarrow> calm B (set_disk (tick (disk p)) p)"
  by (simp add: calm_def quiet_steps) (simp add: tick_def)

lemma wp_calm_call: "calm B p \<Longrightarrow> wp (onDisk sysCall) (\<lambda>_. calm B) E p"
  unfolding sysCall_def by (rule wp_calm) (simp_all add: calm_tick)

lemma wp_calm_ignoring: "calm B p \<Longrightarrow> wp (ignoring sysCall) (\<lambda>_. calm B) E p"
  unfolding ignoring_def wp_try by (rule wp_mono[OF wp_calm_call]) (simp_all add: wp)

lemma wp_release:
  assumes "calm B p"
  shows "wp release_handles (\<lambda>_. calm B) E p"
proof -
  have src: "wp (forG (\<lambda>(name, _). bindG (ignoring sysCall) (\<lambda>_. modG (\<lambda>p. p\<lparr>sources := AList.delete name (sources p)\<rparr>))) xs)
      (\<lambda>_. calm B) E p" if "calm B p" for xs and p :: repairPipeline
    by (rule wp_for[where I = "\<lambda>_. calm B", OF that])
      (clarsimp simp: wp, rule wp_mono[OF wp_calm_ignoring], assumption, simp_all add: wp)
  have out: "wp (forG (\<lambda>(target, _). bindG (modG (\<lambda>p. p\<lparr>outputs := AList.delete target (outputs p)\<rparr>)) (\<lambda>_.
      tryG (onDisk sysCall) retG (\<lambda>_. errG ''failed to close rebuilt file''))) xs) (\<lambda>_. calm B) E p" if "calm B p" for xs p
    by (rule wp_for[where I = "\<lambda>_. calm B", OF that]) (clarsimp simp: wp, rule wp_mono[OF wp_calm_call], simp_all)
  show ?thesis
    unfolding release_handles_def wp_bind wp_basic
    by (rule wp_mono[OF src[OF assms]]) (simp_all add: wp out)
qed

lemma wp_install_file:
  assumes c: "calm B p" and tmp: "map_of (tempNames p) (Filename fd) = Some tmp" "dir (disk p) tmp = Some i"
  shows "wp (install_file fd) (\<lambda>_. calm B) E p"
proof -
  let ?I = "\<lambda>q. calm B q \<and> dir (disk q) tmp = Some i"
  have st: "wp (onDisk (sysRead f)) (\<lambda>_. ?I) E' q" if "?I q" "f (disk q) = Ret x" for f x q E'
    by (rule wp_calm[of B], use that in blast, rule that(2), use that calm_tick in \<open>simp add: tick_def\<close>)
  have ren: "wp (tryG (onDisk (rename_file tmp (Filename fd))) retG (\<lambda>_. errG ''failed to install rebuilt file'')) (\<lambda>_. calm B) E q"
    if "?I q" for q
  proof -
    let ?w = "(tick (disk q))\<lparr>dir := ((dir (disk q))(tmp := None))(Filename fd \<mapsto> i)\<rparr>"
    have "rename_file tmp (Filename fd) (disk q) = (Ret (), ?w)"
      using that by (simp add: rename_file_def sysWrite_def calm_def quiet_def tick_def)
    moreover have "calm B (set_disk ?w q)" using that by (simp add: calm_def quiet_def tick_def)
    ultimately show ?thesis unfolding wp_try wp_onDisk unfolding wp_def[of "rename_file _ _"] by (simp add: wp)
  qed
  have chk: "wp (tryG (onDisk (stat_name (Filename fd)))
      (\<lambda>_. tryG (onDisk sysCall) retG (\<lambda>_. errG ''failed to set permissions on rebuilt file''))
      (\<lambda>e. if e \<noteq> errNotExist then errG ''failed to stat file before replacing it'' else retG ())) (\<lambda>_. ?I) E p"
  proof (cases "dir (disk p) (Filename fd)")
    case None
    then have "stat_name (Filename fd) (disk p) = (Error errNotExist, tick (disk p))"
      using c by (simp add: stat_name_def sysRead_def calm_def quiet_def)
    then show ?thesis
      unfolding wp_try wp_onDisk unfolding wp_def[of "stat_name _"]
      using calm_tick[OF c] tmp(2) by (simp add: wp) (simp add: tick_def)
  next
    case (Some k)
    show ?thesis
      unfolding wp_try stat_name_def sysCall_def
      by (rule wp_mono[OF st[of _ _ "()"]], use c tmp(2) Some in simp, use Some in simp, rule wp_mono[OF st], assumption)
        (simp_all add: wp)
  qed
  show ?thesis
    unfolding install_file_def wp_bind wp_basic tmp(1) option.case by (rule wp_mono[OF chk]) (use ren in simp_all)
qed

lemma wp_install_files:
  assumes i: "installing w0 pl g [] rebuilt p" "calm B p" and "temps_apart w0 fs" "set rebuilt \<subseteq> set fs"
    and "distinct (map Filename rebuilt)" "inj_on g (set rebuilt)"
  shows "wp (forG install_file rebuilt) (\<lambda>_ p'. installing w0 pl g rebuilt [] p' \<and> calm B p') E p"
proof -
  let ?I = "\<lambda>now p'. \<exists>rest. rebuilt = now @ rest \<and> installing w0 pl g now rest p' \<and> calm B p'"
  have "wp (forG install_file rebuilt) (\<lambda>_. ?I rebuilt) E p"
  proof (rule wp_for[where I = ?I])
    fix now fd rest q assume r: "rebuilt = now @ fd # rest" and "?I now q"
    then have q: "installing w0 pl g now (fd # rest) q" "calm B q" by simp_all
    then obtain tmp where tmp: "map_of (tempNames q) (Filename fd) = Some tmp" "dir (disk q) tmp = Some (g fd)"
      by (auto simp: installing_def)
    have "wp (install_file fd) (\<lambda>_. calm B) E q" by (rule wp_install_file[OF q(2) tmp])
    moreover have "post (install_file fd) (\<lambda>_. installing w0 pl g (now @ [fd]) rest) (installing w0 pl g now (fd # rest)) q"
      by (rule post_install_file[OF q(1) assms(3)]) (use r assms in auto)
    ultimately have "wp (install_file fd) (\<lambda>_ p'. calm B p' \<and> installing w0 pl g (now @ [fd]) rest p') E q"
      by (rule wp_post_conj)
    then show "wp (install_file fd) (\<lambda>_. ?I (now @ [fd])) E q" by (rule wp_mono) (use r in auto)
  qed (use i in simp)
  then show ?thesis by simp
qed

lemma wp_check_outputs:
  assumes "fst ` set (needsWrite (plan p)) \<subseteq> {t. map_of (outputs p) t \<noteq> None}"
  shows "wp check_outputs (\<lambda>_ p'. p' = p) E p"
  unfolding check_outputs_def wp_bind wp_basic
  by (rule wp_for[where I = "\<lambda>_ p'. p' = p"]) (use assms in \<open>auto simp: wp\<close>)

lemma wp_install:
  assumes b: "building w0 pl fs p" "quiet (disk p)" and w: "temps_apart w0 fs" "distinct (map Filename fs)"
    and out: "fst ` set (needsWrite pl) \<subseteq> {t. map_of (outputs p) t \<noteq> None}"
    and h: "\<And>fd. fd \<in> set (rebuilt_of p) \<Longrightarrow> md5 (cut_to (ByteCount fd) (inodes (disk p) (temp_of p fd))) = fd_Hash fd"
  shows "wp (install sched) (\<lambda>_ p'. temps_ok w0 p' \<and> (\<forall>fd\<in>set (rebuilt_of p). dir (disk p') (Filename fd) = Some (temp_of p fd) \<and>
    inodes (disk p') (temp_of p fd) = cut_to (ByteCount fd) (inodes (disk p) (temp_of p fd)))) E p" (is "wp _ ?Q _ _")
proof -
  let ?js = "map (\<lambda>fd. (fd, temp_of p fd)) (rebuilt_of p)"
  note reb = rebuilt_facts[OF b(1) w(2)]
  have hash: "wp (finish_all sched ?js) (\<lambda>_ w'. quiet w' \<and> (\<forall>(fd, f)\<in>set ?js. inodes w' f = cut_to (ByteCount fd) (inodes (disk p) f)))
      (\<lambda>_ _. False) (disk p)"
    by (rule wp_finish_calm[OF reb(5) b(2)]) (use h in auto)
  have fin: "wp (bindG release_handles (\<lambda>_. forG install_file (rebuilt_of p))) ?Q E (set_disk w' p)"
    if w': "quiet w'" "\<forall>(fd, f)\<in>set ?js. inodes w' f = cut_to (ByteCount fd) (inodes (disk p) f)"
      "frame (snd ` set ?js) (disk p) w'" "\<forall>j\<in>set ?js. hashed j w'" for w'
  proof -
    have st: "installing w0 pl (temp_of p) [] (rebuilt_of p) (set_disk w' p)"
      using installing_start[OF b(1) reb(2), of w'] frame_mono[OF w'(3) reb(6)] w'(4) by (auto simp: temp_of_def[abs_def])
    have "wp release_handles (\<lambda>_. calm (inodes w')) E (set_disk w' p)" by (rule wp_release) (use w'(1) in \<open>simp add: calm_def\<close>)
    from wp_keeps[OF this keeps_release st]
    show ?thesis
      unfolding wp_bind
    proof (rule wp_mono)
      fix q assume q: "calm (inodes w') q \<and> installing w0 pl (temp_of p) [] (rebuilt_of p) q"
      have "wp (forG install_file (rebuilt_of p)) (\<lambda>_ p'. installing w0 pl (temp_of p) (rebuilt_of p) [] p' \<and> calm (inodes w') p') E q"
        using wp_install_files[OF _ _ w(1) reb(1,3,4)] q by blast
      then show "wp (forG install_file (rebuilt_of p)) ?Q E q"
        by (rule wp_mono) (use w'(2) in \<open>auto simp: installing_def calm_def\<close>)
    qed
  qed
  have "wp (bindG (onDisk (finish_all sched ?js)) (\<lambda>_. bindG release_handles (\<lambda>_. forG install_file (rebuilt_of p)))) ?Q E p"
    unfolding wp_bind[of "onDisk _"] wp_onDisk
    by (rule wp_mono[OF wp_post_conj[OF hash post_finish_all[OF reb(5)]]]) (use fin in blast)+
  then have "wp (bindG (finishRebuiltFiles sched (rebuilt_of p)) (\<lambda>_. bindG release_handles (\<lambda>_. forG install_file (rebuilt_of p)))) ?Q E p"
    by (simp add: finishRebuiltFiles_def wp temp_of_def)
  moreover have "plan p = pl" using b(1) by (simp add: building_def)
  ultimately show ?thesis
    unfolding install_def wp_bind[of check_outputs]
    by (intro wp_mono[OF wp_check_outputs]) (use out in \<open>simp_all add: wp_bind[of "getG _"] wp_basic rebuilt_of_def\<close>)
qed

section \<open>The pipeline without faults\<close>

text \<open>The bytes a rebuilt file has to end with.\<close>

definition roriginal :: "repair_run \<Rightarrow> FileDescPacket \<Rightarrow> bytes" where
  "roriginal R fd = cut_to (ByteCount fd) (concat (rblocks R (Filename fd)))"

definition files_ok :: "repair_run \<Rightarrow> bool" where
  "files_ok R \<longleftrightarrow> distinct (map Filename (protectedFiles (rd R))) \<and> temps_apart (rworld R) (protectedFiles (rd R)) \<and>
     fst ` set (needsWrite (rpl R)) \<subseteq> targets (rpl R) \<and>
     (\<forall>fd\<in>set (protectedFiles (rd R)). Filename fd \<in> targets (rpl R) \<longrightarrow> md5 (roriginal R fd) = fd_Hash fd)"

definition has_originals :: "repair_run \<Rightarrow> world \<Rightarrow> bool" where
  "has_originals R w \<longleftrightarrow> (\<forall>fd\<in>set (protectedFiles (rd R)). Filename fd \<in> targets (rpl R) \<longrightarrow>
     (\<exists>i. dir w (Filename fd) = Some i \<and> inodes w i = roriginal R fd))"

lemma wp_install_rebuilt:
  assumes R: "files_ok R" and s: "steady R p" "rebuilt_all R p"
  shows "wp (install sched) (\<lambda>_ p'. temps_ok (rworld R) p' \<and> has_originals R (disk p')) E p"
proof -
  let ?fs = "protectedFiles (rd R)"
  have b: "building (rworld R) (rpl R) ?fs p" "quiet (disk p)" using s(1) by (simp_all add: steady_def)
  then have fs: "protectedFiles (pd p) = ?fs" "outputs_ok (rworld R) p" "plan p = rpl R" by (simp_all add: building_def)
  have t: "fd \<in> set (rebuilt_of p) \<longleftrightarrow> fd \<in> set ?fs \<and> Filename fd \<in> targets (rpl R)" for fd
  proof -
    have "map_of (outputs p) (Filename fd) \<noteq> None \<longleftrightarrow> Filename fd \<in> targets (rpl R)"
      using s(2) fs(2,3) unfolding rebuilt_all_def outputs_ok_def by (metis not_None_eq)
    then show ?thesis using fs(1) by (simp add: rebuilt_of_def)
  qed
  have c: "inodes (disk p) (temp_of p fd) = concat (rblocks R (Filename fd))" if "fd \<in> set (rebuilt_of p)" for fd
    using bspec[OF s(2)[unfolded rebuilt_all_def], of "Filename fd"] that unfolding t temp_of_def by auto
  have "wp (install sched) (\<lambda>_ p'. temps_ok (rworld R) p' \<and> (\<forall>fd\<in>set (rebuilt_of p). dir (disk p') (Filename fd) = Some (temp_of p fd) \<and>
      inodes (disk p') (temp_of p fd) = cut_to (ByteCount fd) (inodes (disk p) (temp_of p fd)))) E p"
  proof (rule wp_install[OF b])
    show "temps_apart (rworld R) ?fs" "distinct (map Filename ?fs)" using R by (simp_all add: files_ok_def)
    show "fst ` set (needsWrite (rpl R)) \<subseteq> {t. map_of (outputs p) t \<noteq> None}"
      using R s(2) unfolding files_ok_def rebuilt_all_def by (metis (mono_tags, lifting) mem_Collect_eq option.simps(3) subset_iff)
    show "md5 (cut_to (ByteCount fd) (inodes (disk p) (temp_of p fd))) = fd_Hash fd" if "fd \<in> set (rebuilt_of p)" for fd
      using R c[OF that] that unfolding t files_ok_def roriginal_def by simp
  qed
  then show ?thesis by (rule wp_mono) (use c t in \<open>auto simp: has_originals_def roriginal_def\<close>)
qed

lemma run_pipeline_restores:
  assumes R: "run_ok R" "files_ok R" and sc: "scheds_ok R e sc" and s: "steady R p" "sized R p" "outputs p = []"
  shows "\<exists>p'. run_pipeline e sc p = (Ret (), p') \<and> has_originals R (disk p') \<and>
    preserved (rworld R) (protectedFiles (rd R)) (targets (rpl R)) (disk p')"
proof -
  have apart: "temps_apart (rworld R) (protectedFiles (rd R))" "distinct (map Filename (protectedFiles (rd R)))"
    using R(2) by (simp_all add: files_ok_def)
  have "wp (bindG (run_chunks e sc) (\<lambda>_. install (finishSched sc))) (\<lambda>_ p'. temps_ok (rworld R) p' \<and> has_originals R (disk p')) (\<lambda>_ _. False) p"
    unfolding wp_bind by (rule wp_mono[OF wp_run_chunks[OF R(1) sc s]]) (use wp_install_rebuilt[OF R(2)] in blast)+
  from wp_total[OF this] obtain q where q: "bindG (run_chunks e sc) (\<lambda>_. install (finishSched sc)) p = (Ret (), q)"
      "temps_ok (rworld R) q" "has_originals R (disk q)"
    by (elim exE conjE) simp
  have "ignores_temps (rworld R) (protectedFiles (rd R)) (has_originals R)"
    by (auto simp: ignores_temps_def has_originals_def)
  from keeps_close[OF this apart(1)] have "has_originals R (disk (snd (pipeline_close q)))"
    using q(2,3) unfolding keeps_def by blast
  moreover have run: "run_pipeline e sc p = (Ret (), snd (pipeline_close q))" by (simp add: run_pipeline_def deferring_def q(1))
  moreover have "building (rworld R) (rpl R) (protectedFiles (rd R)) p" "wf_world (rworld R)"
    using s(1) R(1) by (simp_all add: steady_def run_ok_def)
  from post_D(1)[OF post_run_pipeline[OF this apart] run]
  have "preserved (rworld R) (protectedFiles (rd R)) (targets (rpl R)) (disk (snd (pipeline_close q)))" by blast
  ultimately show ?thesis by blast
qed

end
