(* ===== verification/Repair_Restores.thy ===== *)
theory Repair_Restores
  imports Verify_Repair Repair_Finish
begin

text \<open>
  A repair that can succeed succeeds. When no call fails, the located blocks read as blocks of the original files, the
  recovery blocks are the Reed-Solomon parity of the original blocks and there are enough of them, \<open>Repair\<close> returns no
  error and every protected file has its original bytes under its own name.
\<close>

section \<open>The blocks of a file\<close>

definition file_blocks :: "nat \<Rightarrow> bytes \<Rightarrow> bytes list" where
  "file_blocks s bs = map (\<lambda>j. padded s (drop (j * s) bs)) [0..<(length bs + s - 1) div s]"

lemma uniform_blocks: "uniform s (file_blocks s bs)"
  by (auto simp: uniform_def file_blocks_def)

lemma length_blocks: "length (file_blocks s bs) = (length bs + s - 1) div s"
  by (simp add: file_blocks_def)

lemma blocks_nonempty: "0 < s \<Longrightarrow> bs \<noteq> [] \<Longrightarrow> file_blocks s bs \<noteq> []"
  using ceil_count(1)[of s "length bs"] by (simp add: file_blocks_def)

lemma cut_blocks:
  assumes "0 < s" "bs \<noteq> []"
  shows "cut_to (length bs) (concat (file_blocks s bs)) = bs"
proof (rule nth_equalityI)
  let ?B = "file_blocks s bs"
  have len: "length bs \<le> length (concat ?B)"
    using ceil_count(3)[of s "length bs"] assms length_concat_blocks[OF uniform_blocks, of s bs] by (simp add: length_blocks)
  then show "length (cut_to (length bs) (concat ?B)) = length bs" by (simp add: cut_to_def)
  fix i assume "i < length (cut_to (length bs) (concat ?B))"
  then have i: "i < length bs" using len by (simp add: cut_to_def)
  have "i < length ?B * s" using i len length_concat_blocks[OF uniform_blocks, of s bs] by simp
  then have j: "i div s < length ?B" "i mod s < s" "i div s * s + i mod s = i" using assms(1) by (simp_all add: less_mult_imp_div_less)
  have "concat ?B ! i = ?B ! (i div s) ! (i mod s)" using nth_concat_uniform[OF uniform_blocks j(1,2)] j(3) by simp
  also have "?B ! (i div s) = padded s (drop (i div s * s) bs)" using j(1) by (simp add: file_blocks_def)
  also have "\<dots> ! (i mod s) = bs ! i"
  proof -
    have "i mod s < length (drop (i div s * s) bs)" using j(3) i by (simp add: less_diff_conv)
    then show ?thesis using j(2,3) by (simp add: nth_padded)
  qed
  finally show "cut_to (length bs) (concat ?B) ! i = bs ! i" using i len by (simp add: cut_to_def)
qed

section \<open>Sets that can be repaired\<close>

definition original_blocks :: "(bytes \<Rightarrow> bytes) \<Rightarrow> Decoder \<Rightarrow> bytes list" where
  "original_blocks orig d = concat (map (\<lambda>fd. file_blocks (sliceByteCount d) (orig (Filename fd))) (protectedFiles d))"

definition state_of :: "Decoder \<Rightarrow> FileDescPacket \<Rightarrow> fileIntegrityState" where
  "state_of d fd = the (map_of (fileIntegrity d) (fd_FileID fd))"

text \<open>A location that is set can be read, and what is read there is the block.\<close>

definition location_ok :: "Decoder \<Rightarrow> shardLocation \<Rightarrow> bytes \<Rightarrow> bool" where
  "location_ok d loc block \<longleftrightarrow> (Offset loc \<noteq> -1 \<longrightarrow> 0 \<le> Offset loc \<and>
     (\<exists>n i. map_of (buildFileIDToFilenameMap d) (loc_FileID loc) = Some n \<and> dir (root d) n = Some i \<and>
        padded (sliceByteCount d) (drop (nat (Offset loc)) (inodes (root d) i)) = block))"

text \<open>The state of a file after a verification, given its original bytes.\<close>

definition file_known :: "(bytes \<Rightarrow> bytes) \<Rightarrow> Decoder \<Rightarrow> FileDescPacket \<Rightarrow> bool" where
  "file_known orig d fd \<longleftrightarrow> orig (Filename fd) \<noteq> [] \<and> ByteCount fd = length (orig (Filename fd)) \<and> fd_Hash fd = md5 (orig (Filename fd)) \<and>
     map_of (fileIntegrity d) (fd_FileID fd) = Some (state_of d fd) \<and> RenameSource (state_of d fd) = [] \<and>
     list_all2 (location_ok d) (ShardLocations (state_of d fd)) (file_blocks (sliceByteCount d) (orig (Filename fd))) \<and>
     Damage (state_of d fd) \<noteq> damageUnchecked \<and> (Damage (state_of d fd) = damageNone \<longrightarrow>
        (\<exists>i. dir (root d) (Filename fd) = Some i \<and> inodes (root d) i = orig (Filename fd)))"

text \<open>The recovery blocks that were loaded are parity of the original blocks, and the ones the coder uses suffice.\<close>

definition parity_known :: "(bytes \<Rightarrow> bytes) \<Rightarrow> Decoder \<Rightarrow> bool" where
  "parity_known orig d \<longleftrightarrow> distinct (map fst (Decoder.parityShards d)) \<and>
     (\<exists>c P. NewCoderPAR2Vandermonde (int (length (original_blocks orig d)))
          (int (fold max (map (unat \<circ> fst) (Decoder.parityShards d)) 0 + 1)) = Ret c \<and>
        codeword c (sliceByteCount d) (original_blocks orig d) P \<and>
        (\<forall>(e, bs)\<in>set (Decoder.parityShards d). bs = P ! unat e)) \<and>
     RepairPossible (shardCountsLocked d) \<and>
     consecutive (take (UnusableDataShardCount (shardCountsLocked d)) (sort (map (unat \<circ> fst) (Decoder.parityShards d))))"

definition disk_ready :: "Decoder \<Rightarrow> bool" where
  "disk_ready d \<longleftrightarrow> quiet (root d) \<and> wf_world (root d) \<and> temps_apart (root d) (protectedFiles d) \<and>
     (\<forall>fd\<in>set (protectedFiles d). \<forall>k. dir (root d) (tempName (Filename fd) (randText (root d) k)) = None) \<and>
     (\<forall>k. 16 \<le> length (randText (root d) k))"

definition recoverable :: "(bytes \<Rightarrow> bytes) \<Rightarrow> Decoder \<Rightarrow> bool" where
  "recoverable orig d \<longleftrightarrow> disk_ready d \<and> 0 < sliceByteCount d \<and> even (sliceByteCount d) \<and> int (sliceByteCount d) \<le> maxAlloc \<and> 0 \<le> memoryLimit d \<and>
     distinct (map fd_FileID (protectedFiles d)) \<and> distinct (map Filename (protectedFiles d)) \<and>
     map fst (fileIntegrity d) = map fd_FileID (protectedFiles d) \<and>
     (\<forall>fd\<in>set (protectedFiles d). file_known orig d fd) \<and> parity_known orig d"

section \<open>Planning succeeds\<close>

definition flat_all :: "Decoder \<Rightarrow> flattenedLocation list" where
  "flat_all d = concat (map (\<lambda>f. flatten (buildFileIDToFilenameMap d) f (ShardLocations (state_of d f))) (protectedFiles d))"

lemma fold_states:
  assumes "\<forall>f\<in>set fs. map_of (fileIntegrity d) (fd_FileID f) = Some (state_of d f)"
  shows "foldG (\<lambda>f a. bindG (getState (fd_FileID f)) (\<lambda>st. retG (g f st a))) fs a d = (Ret (fold (\<lambda>f. g f (state_of d f)) fs a), d)"
  using assms by (induction fs arbitrary: a) (simp_all add: go_basic getState_def)

lemma length_flatten [simp]: "length (flatten names f ls) = length ls"
  by (simp add: flatten_def)

lemma fold_lengths: "fold (\<lambda>f n. n + length (h f)) fs a = a + length (concat (map h fs))"
  by (induction fs arbitrary: a) simp_all

lemma flat_locs:
  assumes "\<forall>f\<in>set (protectedFiles d). map_of (fileIntegrity d) (fd_FileID f) = Some (state_of d f)"
  shows "buildFlatLocs (buildFileIDToFilenameMap d) (length (flat_all d)) d = (Ret (flat_all d), d)"
proof -
  let ?h = "\<lambda>f. flatten (buildFileIDToFilenameMap d) f (ShardLocations (state_of d f))"
  have "foldG (\<lambda>f acc. bindG (getState (fd_FileID f)) (\<lambda>st.
      let acc' = acc @ flatten (buildFileIDToFilenameMap d) f (ShardLocations st)
      in if n < length acc' then liftR (Panic ''index out of range'') else retG acc')) fs acc d = (Ret (acc @ concat (map ?h fs)), d)"
    if "\<forall>f\<in>set fs. map_of (fileIntegrity d) (fd_FileID f) = Some (state_of d f)" "length (acc @ concat (map ?h fs)) \<le> n" for fs acc n
    using that
  proof (induction fs arbitrary: acc)
    case (Cons f fs)
    then show ?case using Cons.IH[of "acc @ ?h f"] by (simp add: go_basic getState_def Let_def)
  qed (simp add: go_basic)
  from this[of "protectedFiles d" "[]" "length (flat_all d)"] assms
  show ?thesis by (simp add: buildFlatLocs_def flat_all_def bindG_def getG_def)
qed

lemma list_all2_lengths: "list_all2 P xs ys \<Longrightarrow> length xs = length ys"
  by (rule list_all2_lengthD)

lemma fold_checks: "(\<And>x. x \<in> set xs \<Longrightarrow> f x () = Ret ()) \<Longrightarrow> foldR f xs () = Ret ()"
  by (induction xs) simp_all

lemma length_flat_all:
  assumes "recoverable orig d"
  shows "length (flat_all d) = length (original_blocks orig d)"
proof -
  have "length (ShardLocations (state_of d f)) = length (file_blocks (sliceByteCount d) (orig (Filename f)))"
    if "f \<in> set (protectedFiles d)" for f
    using assms that by (auto simp: recoverable_def file_known_def dest: list_all2_lengths)
  then show ?thesis by (auto simp: flat_all_def original_blocks_def length_concat comp_def intro!: arg_cong[of _ _ sum_list])
qed

lemma flat_all_nonempty:
  assumes "recoverable orig d" "protectedFiles d \<noteq> []"
  shows "original_blocks orig d \<noteq> []"
proof -
  obtain f where f: "f \<in> set (protectedFiles d)" using assms(2) by (cases "protectedFiles d") auto
  then have "file_blocks (sliceByteCount d) (orig (Filename f)) \<noteq> []"
    using assms(1) blocks_nonempty by (simp add: recoverable_def file_known_def)
  then show ?thesis using f by (auto simp: original_blocks_def)
qed

text \<open>The coder of the repair, and the original parity.\<close>

lemma fold_max_upper: "x \<in> set ys \<or> x \<le> a \<Longrightarrow> x \<le> fold max ys (a :: nat)"
proof (induction ys arbitrary: a)
  case (Cons y ys)
  from Cons.prems have "x \<in> set ys \<or> x \<le> max y a" by (auto simp: le_max_iff_disj)
  then show ?case using Cons.IH by simp
qed simp

lemma max_exponent: "(e, bs) \<in> set xs \<Longrightarrow> unat e \<le> fold max (map (unat \<circ> fst) xs) (0 :: nat)"
  by (rule fold_max_upper) force

lemma NewCoder_inv:
  assumes "NewCoderPAR2Vandermonde (int ds) (int ps) = Ret c"
  shows "coder_ok c \<and> dataShards c = ds \<and> Coder.parityShards c = ps"
proof -
  have "0 < ds" "ds \<le> 32768" "0 < ps" "ps \<le> 65535"
    using assms by (simp_all add: NewCoderPAR2Vandermonde_def length_generators split: if_splits)
  from NewCoder_Ret[OF this] show ?thesis using assms by auto
qed

lemma parity_knownD:
  assumes r: "recoverable orig d"
  obtains c P where "NewCoderPAR2Vandermonde (int (length (original_blocks orig d)))
      (int (fold max (map (unat \<circ> fst) (Decoder.parityShards d)) 0 + 1)) = Ret c"
    "coder_ok c" "Coder.parityShards c = fold max (map (unat \<circ> fst) (Decoder.parityShards d)) 0 + 1"
    "codeword c (sliceByteCount d) (original_blocks orig d) P"
    "\<And>e bs. (e, bs) \<in> set (Decoder.parityShards d) \<Longrightarrow>
      bs = P ! unat e \<and> unat e < Coder.parityShards c \<and> length bs = sliceByteCount d"
proof -
  let ?N = "fold max (map (unat \<circ> fst) (Decoder.parityShards d)) 0 + 1"
  obtain c P where c: "NewCoderPAR2Vandermonde (int (length (original_blocks orig d))) (int ?N) = Ret c"
      "codeword c (sliceByteCount d) (original_blocks orig d) P" "\<forall>(e, bs)\<in>set (Decoder.parityShards d). bs = P ! unat e"
    using r unfolding recoverable_def parity_known_def by blast
  have ok: "coder_ok c" "Coder.parityShards c = ?N" using NewCoder_inv[OF c(1)] by simp_all
  moreover have "bs = P ! unat e \<and> unat e < Coder.parityShards c \<and> length bs = sliceByteCount d"
    if "(e, bs) \<in> set (Decoder.parityShards d)" for e bs
  proof -
    have "unat e < Coder.parityShards c" using max_exponent[OF that] ok(2) by simp
    moreover have "uniform (sliceByteCount d) P" "length P = Coder.parityShards c" using c(2) by (simp_all add: codeword_def)
    ultimately show ?thesis using c(3) that by (auto simp: uniform_nth)
  qed
  ultimately show thesis using that c(1,2) by blast
qed

lemma planRepair_succeeds:
  assumes r: "recoverable orig d" and ne: "protectedFiles d \<noteq> []"
  obtains pl where "planRepair n d = (Ret pl, d)" "totalDataShards pl = length (flat_all d)" "flatLocs pl = flat_all d"
proof -
  have st: "\<forall>f\<in>set (protectedFiles d). map_of (fileIntegrity d) (fd_FileID f) = Some (state_of d f)"
    using r by (simp add: recoverable_def file_known_def)
  have "length bs = sliceByteCount d" if "(e, bs) \<in> set (Decoder.parityShards d)" for e bs
    by (rule parity_knownD[OF r]) (use that in simp)
  then have v: "validateParityShards d = Ret ()" unfolding validateParityShards_def by (intro fold_checks) (clarsimp split: prod.splits)
  let ?u = "UnusableDataShardCount (shardCountsLocked d)"
  have "0 < length (flat_all d) + ?u" using length_flat_all[OF r] flat_all_nonempty[OF r ne] by simp
  then obtain c where c: "computeChunkSize d (length (flat_all d)) ?u = Ret c"
    using computeChunkSize_bounds[of "length (flat_all d)" ?u d] r by (auto simp: recoverable_def)
  have tot: "foldG (\<lambda>f n. bindG (getState (fd_FileID f)) (\<lambda>st. retG (n + length (ShardLocations st)))) (protectedFiles d) 0 d =
      (Ret (length (flat_all d)), d)"
    using fold_states[OF st, of "\<lambda>f st n. n + length (ShardLocations st)" 0]
    by (simp add: fold_lengths flat_all_def length_concat comp_def)
  obtain m where m: "buildNeedsWrite d = (Ret m, d)"
    using fold_states[OF st, of "\<lambda>f st m. if needsRebuild st \<or> misplaced (sliceByteCount d) (fd_FileID f) (ShardLocations st)
      then AList.update (Filename f) True m else m" "[]"]
    by (simp add: buildNeedsWrite_def bindG_def[of "getG _"] getG_def)
  show thesis
    by (rule that, simp add: planRepair_def bindG_def getG_def liftR_def retG_def v tot c flat_locs[OF st] m) simp_all
qed

section \<open>The run of a set that can be repaired\<close>

definition run_of :: "(bytes \<Rightarrow> bytes) \<Rightarrow> Decoder \<Rightarrow> repairPlan \<Rightarrow> Coder \<Rightarrow> bytes list \<Rightarrow> repair_run" where
  "run_of orig d pl c P = \<lparr>rd = d, rpl = pl, rcoder = c, rblocks = (\<lambda>n. file_blocks (sliceByteCount d) (orig n)), rparity = P\<rparr>"

lemma run_of_sel [simp]:
  "rd (run_of orig d pl c P) = d" "rpl (run_of orig d pl c P) = pl" "rcoder (run_of orig d pl c P) = c"
  "rparity (run_of orig d pl c P) = P" "rblocks (run_of orig d pl c P) n = file_blocks (sliceByteCount d) (orig n)"
  "rslice (run_of orig d pl c P) = sliceByteCount d" "rworld (run_of orig d pl c P) = root d"
  "rchunk (run_of orig d pl c P) = nat (chunkSize pl)"
  by (simp_all add: run_of_def rslice_def rworld_def rchunk_def)

lemma known_locations:
  assumes "recoverable orig d" "f \<in> set (protectedFiles d)"
  shows "length (ShardLocations (state_of d f)) = length (file_blocks (sliceByteCount d) (orig (Filename f)))"
    "j < length (ShardLocations (state_of d f)) \<Longrightarrow>
      location_ok d (ShardLocations (state_of d f) ! j) (file_blocks (sliceByteCount d) (orig (Filename f)) ! j)"
  using assms by (auto simp: recoverable_def file_known_def dest: list_all2_lengths list_all2_nthD)

lemma nth_flatten:
  assumes "j < length ls"
  shows "flatten names f ls ! j = \<lparr>fl_targetFileID = fd_FileID f, fl_targetFilename = Filename f, fl_shardIndex = j,
    fl_sourceFileID = loc_FileID (ls ! j),
    fl_sourceFilename = (if Offset (ls ! j) \<noteq> -1
      then (case map_of names (loc_FileID (ls ! j)) of None \<Rightarrow> [] | Some n \<Rightarrow> n) else []),
    diskOffset = Offset (ls ! j)\<rparr>"
  using assms by (simp add: flatten_def nth_enumerate_eq)

lemma in_flat_all:
  assumes "fl \<in> set (flat_all d)"
  obtains f j where "f \<in> set (protectedFiles d)" "j < length (ShardLocations (state_of d f))"
    "fl = flatten (buildFileIDToFilenameMap d) f (ShardLocations (state_of d f)) ! j"
  using assms by (fastforce simp: flat_all_def in_set_conv_nth)

lemma rdata_run_of:
  assumes r: "recoverable orig d" and "flatLocs pl = flat_all d"
  shows "rdata (run_of orig d pl c P) = original_blocks orig d"
proof -
  let ?R = "run_of orig d pl c P"
  have "map (block_of ?R) (flatten (buildFileIDToFilenameMap d) f (ShardLocations (state_of d f))) =
      file_blocks (sliceByteCount d) (orig (Filename f))" if "f \<in> set (protectedFiles d)" for f
    by (rule nth_equalityI) (simp_all add: known_locations(1)[OF r that] block_of_def nth_flatten)
  then show ?thesis
    using assms(2) by (auto simp: rdata_def flat_all_def original_blocks_def map_concat comp_def intro!: arg_cong[of _ _ concat])
qed

lemma run_locates:
  assumes r: "recoverable orig d" and "fl \<in> set (flat_all d)"
  shows "locates (run_of orig d pl c P) fl \<and> fl_shardIndex fl < length (file_blocks (sliceByteCount d) (orig (fl_targetFilename fl)))"
proof -
  obtain f j where f: "f \<in> set (protectedFiles d)" "j < length (ShardLocations (state_of d f))"
      "fl = flatten (buildFileIDToFilenameMap d) f (ShardLocations (state_of d f)) ! j"
    by (rule in_flat_all[OF assms(2)])
  note k = known_locations[OF r f(1)]
  show ?thesis
    using k(2)[OF f(2)] f(2) unfolding f(3) nth_flatten[OF f(2)] k(1)
    by (auto simp: locates_def location_ok_def block_of_def)
qed

lemma run_covers:
  assumes r: "recoverable orig d" and f: "f \<in> set (protectedFiles d)" and j: "j < length (file_blocks (sliceByteCount d) (orig (Filename f)))"
  shows "(Filename f, j) \<in> key ` set (flat_all d)"
proof -
  let ?ls = "ShardLocations (state_of d f)"
  have j': "j < length ?ls" using j known_locations(1)[OF r f] by simp
  have "flatten (buildFileIDToFilenameMap d) f ?ls ! j \<in> set (flatten (buildFileIDToFilenameMap d) f ?ls)" using j' by simp
  then have "flatten (buildFileIDToFilenameMap d) f ?ls ! j \<in> set (flat_all d)" using f by (auto simp: flat_all_def)
  moreover have "key (flatten (buildFileIDToFilenameMap d) f ?ls ! j) = (Filename f, j)" using j' by (simp add: key_def nth_flatten)
  ultimately show ?thesis by (metis imageI)
qed

lemma integrity_list:
  assumes "recoverable orig d"
  shows "fileIntegrity d = map (\<lambda>f. (fd_FileID f, state_of d f)) (protectedFiles d)"
proof (rule nth_equalityI)
  let ?fi = "fileIntegrity d" and ?fs = "protectedFiles d"
  have ids: "map fst ?fi = map fd_FileID ?fs" "distinct (map fst ?fi)" using assms by (simp_all add: recoverable_def)
  have l: "length ?fi = length ?fs" using arg_cong[OF ids(1), of length] by simp
  then show "length ?fi = length (map (\<lambda>f. (fd_FileID f, state_of d f)) ?fs)" by simp
  fix i assume i: "i < length ?fi"
  then have fst: "fst (?fi ! i) = fd_FileID (?fs ! i)" using arg_cong[OF ids(1), of "\<lambda>xs. xs ! i"] l by simp
  have "(fst (?fi ! i), snd (?fi ! i)) \<in> set ?fi" using i by simp
  from map_of_is_SomeI[OF ids(2) this] have "state_of d (?fs ! i) = snd (?fi ! i)" by (simp add: state_of_def fst)
  then show "?fi ! i = map (\<lambda>f. (fd_FileID f, state_of d f)) ?fs ! i" using i l fst by (simp add: prod_eq_iff)
qed

lemma missing_run_of:
  assumes r: "recoverable orig d" and "flatLocs pl = flat_all d"
  shows "missing_blocks (run_of orig d pl c P) = UnusableDataShardCount (shardCountsLocked d)"
proof -
  have "all_locations d = concat (map (\<lambda>f. ShardLocations (state_of d f)) (protectedFiles d))"
    unfolding all_locations_def integrity_list[OF r] by (simp add: comp_def case_prod_beta)
  moreover have "map diskOffset (flatten names f ls) = map Offset ls" for names f ls
    by (rule nth_equalityI) (simp_all add: nth_flatten)
  ultimately have "map diskOffset (flat_all d) = map Offset (all_locations d)" by (simp add: flat_all_def map_concat comp_def)
  then have "length (filter (\<lambda>x. x = -1) (map diskOffset (flat_all d))) = length (filter (\<lambda>x. x = -1) (map Offset (all_locations d)))"
    by simp
  then show ?thesis using assms(2) by (simp add: missing_blocks_def counts_fields(2) filter_map comp_def)
qed

text \<open>What the plan, the coder and the parity of a repair have to be.\<close>

definition run_plan :: "(bytes \<Rightarrow> bytes) \<Rightarrow> Decoder \<Rightarrow> repairPlan \<Rightarrow> Coder \<Rightarrow> bytes list \<Rightarrow> bool" where
  "run_plan orig d pl c P \<longleftrightarrow> planRepair 0 d = (Ret pl, d) \<and> totalDataShards pl = length (flat_all d) \<and> flatLocs pl = flat_all d \<and>
     NewCoderPAR2Vandermonde (int (totalDataShards pl)) (int (totalParityShards pl)) = Ret c \<and>
     coder_ok c \<and> Coder.parityShards c = totalParityShards pl \<and> codeword c (sliceByteCount d) (original_blocks orig d) P \<and>
     (\<forall>(e, bs)\<in>set (Decoder.parityShards d). unat e < totalParityShards pl \<and> bs = P ! unat e)"

lemma run_plan_exists:
  assumes r: "recoverable orig d" and ne: "protectedFiles d \<noteq> []"
  obtains pl c P where "run_plan orig d pl c P"
proof -
  obtain pl where pl: "planRepair 0 d = (Ret pl, d)" "totalDataShards pl = length (flat_all d)" "flatLocs pl = flat_all d"
    by (rule planRepair_succeeds[OF r ne])
  note inv = planRepair_inv[OF pl(1)]
  show thesis
  proof (rule parity_knownD[OF r])
    fix c P
    assume c: "NewCoderPAR2Vandermonde (int (length (original_blocks orig d)))
        (int (fold max (map (unat \<circ> fst) (Decoder.parityShards d)) 0 + 1)) = Ret c"
      and "coder_ok c" "Coder.parityShards c = fold max (map (unat \<circ> fst) (Decoder.parityShards d)) 0 + 1"
        "codeword c (sliceByteCount d) (original_blocks orig d) P"
      and p: "\<And>e bs. (e, bs) \<in> set (Decoder.parityShards d) \<Longrightarrow>
        bs = P ! unat e \<and> unat e < Coder.parityShards c \<and> length bs = sliceByteCount d"
    then have "run_plan orig d pl c P"
      using pl inv(5) length_flat_all[OF r] by (auto simp: run_plan_def)
    then show thesis by (rule that)
  qed
qed

lemma run_targets:
  assumes "run_plan orig d pl c P"
  shows "targets pl = {Filename f |f. f \<in> set (protectedFiles d) \<and> rebuilds d f}" "fst ` set (needsWrite pl) \<subseteq> targets pl"
proof -
  have "buildNeedsWrite d = (Ret (needsWrite pl), d)" using planRepair_inv(8) assms unfolding run_plan_def by blast
  note eq = buildNeedsWrite_eq(1)[OF this]
  show "targets pl = {Filename f |f. f \<in> set (protectedFiles d) \<and> rebuilds d f}" by (auto simp: targets_def eq split: if_splits)
  show "fst ` set (needsWrite pl) \<subseteq> targets pl"
  proof
    fix t assume "t \<in> fst ` set (needsWrite pl)"
    then have "map_of (needsWrite pl) t \<noteq> None" by (simp add: map_of_eq_None_iff)
    then show "t \<in> targets pl" by (auto simp: targets_def eq split: if_splits)
  qed
qed

lemma run_chunking:
  assumes r: "recoverable orig d" and p: "run_plan orig d pl c P" and ne: "protectedFiles d \<noteq> []"
  defines "k \<equiv> nat (chunkSize pl)"
  shows "chunkSize pl = int k" "even k" "0 < k" "repairPlan.numChunks pl = int ((sliceByteCount d + k - 1) div k)"
    "makeslice (chunkSize pl) = Ret ()"
proof -
  have pl: "planRepair 0 d = (Ret pl, d)" "totalDataShards pl = length (flat_all d)" using p unfolding run_plan_def by blast+
  let ?u = "UnusableDataShardCount (shardCountsLocked d)"
  have "0 < totalDataShards pl + ?u" using pl(2) length_flat_all[OF r] flat_all_nonempty[OF r ne] by simp
  moreover have "0 \<le> memoryLimit d" "sliceByteCount d < 2 ^ 62" using r by (simp_all add: recoverable_def maxAlloc_def)
  ultimately have c: "16 dvd chunkSize pl" "16 \<le> chunkSize pl" "chunkSize pl \<le> max 16 (int (sliceByteCount d))"
    using computeChunkSize_bounds[of "totalDataShards pl" ?u d] planRepair_inv(3)[OF pl(1)] by auto
  show k: "chunkSize pl = int k" "0 < k" using c(2) by (simp_all add: k_def)
  show "makeslice (chunkSize pl) = Ret ()" using c r by (intro make_Ret(1)) (auto simp: recoverable_def maxAlloc_def)
  have "2 dvd chunkSize pl" using c(1) by presburger
  then show "even k" unfolding k(1) by simp
  have "repairPlan.numChunks pl = (int (sliceByteCount d) + int k - 1) div int k"
    using chunk_count_eq[of "chunkSize pl" "sliceByteCount d"] c(2,3) \<open>sliceByteCount d < 2 ^ 62\<close> planRepair_inv(4)[OF pl(1)] unfolding k(1) by simp
  also have "int (sliceByteCount d) + int k - 1 = int (sliceByteCount d + k - 1)" using k(2) by simp
  finally show "repairPlan.numChunks pl = int ((sliceByteCount d + k - 1) div k)" by (simp add: zdiv_int)
qed

lemma run_of_ok:
  assumes r: "recoverable orig d" and p: "run_plan orig d pl c P" and ne: "protectedFiles d \<noteq> []"
  shows "run_ok (run_of orig d pl c P)"
proof -
  let ?R = "run_of orig d pl c P"
  have pl: "totalDataShards pl = length (flat_all d)" "flatLocs pl = flat_all d" "coder_ok c" "Coder.parityShards c = totalParityShards pl"
      "codeword c (sliceByteCount d) (original_blocks orig d) P"
      "\<forall>(e, bs)\<in>set (Decoder.parityShards d). unat e < totalParityShards pl \<and> bs = P ! unat e"
    using p unfolding run_plan_def by blast+
  have d: "0 < sliceByteCount d" "even (sliceByteCount d)" "disk_ready d" "parity_known orig d" using r by (simp_all add: recoverable_def)
  have ex: "exponents ?R = sort (map (unat \<circ> fst) (Decoder.parityShards d))" by (simp add: exponents_def)
  have m: "missing_blocks ?R \<le> length (exponents ?R)" "consecutive (take (missing_blocks ?R) (exponents ?R))"
    using d(4) unfolding missing_run_of[OF r pl(2)] ex by (simp_all add: parity_known_def RepairPossible_def counts_fields(3))
  have t: "file_blocks (sliceByteCount d) (orig t) \<noteq> []" "\<forall>j<length (file_blocks (sliceByteCount d) (orig t)). (t, j) \<in> key ` set (flat_all d)"
      "\<forall>k. dir (root d) (tempName t (randText (root d) k)) = None"
    if target: "t \<in> targets pl" for t
  proof -
    obtain f where f: "t = Filename f" "f \<in> set (protectedFiles d)" using target unfolding run_targets[OF p] by blast
    show "file_blocks (sliceByteCount d) (orig t) \<noteq> []"
      using r f blocks_nonempty by (simp add: recoverable_def file_known_def)
    show "\<forall>j<length (file_blocks (sliceByteCount d) (orig t)). (t, j) \<in> key ` set (flat_all d)" using run_covers[OF r f(2)] f(1) by blast
    show "\<forall>k. dir (root d) (tempName t (randText (root d) k)) = None" using d(3) f by (simp add: disk_ready_def)
  qed
  have w: "wf_world (root d)" "\<forall>k. 16 \<le> length (randText (root d) k)" using d(3) by (simp_all add: disk_ready_def)
  have "distinct (map fst (Decoder.parityShards d))" using d(4) by (simp add: parity_known_def)
  then show ?thesis
    unfolding run_ok_def run_of_sel rdata_run_of[OF r pl(2)] pl(2)
    using d(1,2) run_chunking[OF r p ne] pl m t run_locates[OF r] uniform_blocks w
    by (intro conjI) auto
qed

lemma run_files_ok:
  assumes r: "recoverable orig d" and p: "run_plan orig d pl c P"
  shows "files_ok (run_of orig d pl c P)"
    "fd \<in> set (protectedFiles d) \<Longrightarrow> roriginal (run_of orig d pl c P) fd = orig (Filename fd)"
proof -
  have known: "file_known orig d fd" if "fd \<in> set (protectedFiles d)" for fd using r that by (simp add: recoverable_def)
  show orig: "roriginal (run_of orig d pl c P) fd = orig (Filename fd)" if "fd \<in> set (protectedFiles d)" for fd
    using known[OF that] r cut_blocks by (simp add: file_known_def roriginal_def recoverable_def)
  show "files_ok (run_of orig d pl c P)"
    using r run_targets(2)[OF p] orig known by (simp add: files_ok_def recoverable_def disk_ready_def file_known_def)
qed

section \<open>Repair\<close>

text \<open>The schedules let the goroutines of every chunk end, and the context is not cancelled.\<close>

definition fair_repair :: "env \<Rightarrow> repair_sched \<Rightarrow> Decoder \<Rightarrow> bool" where
  "fair_repair e sc d \<longleftrightarrow> env_ok e \<and> (\<forall>k. Cancel \<notin> set (chunkSched sc k) \<and>
     (\<forall>n. n \<le> sliceByteCount d \<longrightarrow> fair (length (chunk_ranges e n (numGoroutines d)))
        (UnusableDataShardCount (shardCountsLocked d) * length (all_locations d) + 1) (chunkSched sc k)))"

lemma run_scheds_ok:
  assumes r: "recoverable orig d" and p: "run_plan orig d pl c P" and f: "fair_repair e sc d"
  shows "scheds_ok (run_of orig d pl c P) e sc"
proof -
  have pl: "totalDataShards pl = length (flat_all d)" "flatLocs pl = flat_all d" using p unfolding run_plan_def by blast+
  have "length (flat_all d) = length (all_locations d)"
    unfolding all_locations_def integrity_list[OF r] by (simp add: flat_all_def length_concat comp_def)
  then show ?thesis
    using f pl by (simp add: scheds_ok_def sched_ok_def fair_repair_def missing_run_of[OF r pl(2)])
qed

text \<open>The pipeline that \<open>newRepairPipeline\<close> makes.\<close>

definition fresh_pipeline :: "Decoder \<Rightarrow> repairPlan \<Rightarrow> Coder \<Rightarrow> repairPipeline" where
  "fresh_pipeline d pl c = \<lparr>pd = d, plan = pl,
     dataBuffers = replicate (totalDataShards pl) (replicate (nat (chunkSize pl)) 0),
     parityBuffers = replicate (totalParityShards pl) (replicate (nat (chunkSize pl)) 0),
     activeDataShards = replicate (totalDataShards pl) None, activeParityShards = replicate (totalParityShards pl) None,
     coder = c, sources = [], outputs = [], tempNames = []\<rparr>"

lemma fresh_steady:
  assumes r: "recoverable orig d" and p: "run_plan orig d pl c P" and ne: "protectedFiles d \<noteq> []"
  shows "steady (run_of orig d pl c P) (fresh_pipeline d pl c)" "sized (run_of orig d pl c P) (fresh_pipeline d pl c)"
    "outputs (fresh_pipeline d pl c) = []"
proof -
  have "\<forall>t\<in>targets pl. \<forall>k. dir (root d) (tempName t (randText (root d) k)) = None" using run_of_ok[OF assms] by (simp add: run_ok_def)
  moreover have "quiet (root d)" using r by (simp add: recoverable_def disk_ready_def)
  ultimately show "steady (run_of orig d pl c P) (fresh_pipeline d pl c)"
    by (simp add: steady_def building_def originals_def outputs_ok_def temps_ok_def fresh_pipeline_def disk_def)
qed (simp_all add: sized_def fresh_pipeline_def)

lemma Repair_run:
  assumes r: "recoverable orig d" and p: "run_plan orig d pl c P" and "RepairNeeded (shardCountsLocked d)" and ne: "protectedFiles d \<noteq> []"
  shows "Repair e sc d = withPipeline (run_pipeline e sc) (fresh_pipeline d pl c) d"
proof -
  have "\<forall>fd\<in>set (protectedFiles d). \<exists>st. map_of (fileIntegrity d) (fd_FileID fd) = Some st \<and> RenameSource st = []"
    using r by (auto simp: recoverable_def file_known_def)
  then have "renameMisnamedFiles d = (Ret 0, d)" by (rule no_renames)
  moreover have "planRepair 0 d = (Ret pl, d)" "NewCoderPAR2Vandermonde (int (totalDataShards pl)) (int (totalParityShards pl)) = Ret c"
    using p unfolding run_plan_def by blast+
  moreover have "RepairPossible (shardCountsLocked d)" using r by (simp add: recoverable_def parity_known_def)
  ultimately show ?thesis
    using assms(3) run_chunking(5)[OF r p ne]
    by (simp add: Repair_def bindG_def getG_def liftR_def newRepairPipeline_def make_buffers_def fresh_pipeline_def)
qed

text \<open>A file that is not rebuilt was marked as intact.\<close>

lemma intact_content:
  assumes "recoverable orig d" "fd \<in> set (protectedFiles d)" "\<not> needsRebuild (state_of d fd)"
  shows "\<exists>i. dir (root d) (Filename fd) = Some i \<and> inodes (root d) i = orig (Filename fd)"
proof -
  have k: "file_known orig d fd" using assms(1,2) by (simp add: recoverable_def)
  then have "Damage (state_of d fd) = damageNone"
    using assms(3) by (cases "Damage (state_of d fd)") (simp_all add: file_known_def needsRebuild_def)
  then show ?thesis using k by (simp add: file_known_def)
qed

lemma Repair_pipeline_restores:
  assumes r: "recoverable orig d" and f: "fair_repair e sc d" and need: "RepairNeeded (shardCountsLocked d)"
  shows "\<exists>d'. Repair e sc d = (Ret (), d') \<and> (\<forall>fd\<in>set (protectedFiles d).
    \<exists>i. dir (root d') (Filename fd) = Some i \<and> inodes (root d') i = orig (Filename fd))"
proof -
  have ne: "protectedFiles d \<noteq> []"
    using need integrity_list[OF r] by (auto simp: RepairNeeded_iff all_locations_def)
  obtain pl c P where p: "run_plan orig d pl c P" by (rule run_plan_exists[OF r ne])
  let ?R = "run_of orig d pl c P" and ?p = "fresh_pipeline d pl c"
  obtain p' where p': "run_pipeline e sc ?p = (Ret (), p')" "has_originals ?R (disk p')"
      "preserved (root d) (protectedFiles d) (targets pl) (disk p')"
    using run_pipeline_restores[OF run_of_ok[OF r p ne] run_files_ok(1)[OF r p] run_scheds_ok[OF r p f] fresh_steady[OF r p ne]]
    by auto
  have "?p\<lparr>pd := d\<rparr> = ?p" by (simp add: fresh_pipeline_def)
  then have run: "Repair e sc d = (Ret (), pd p')" using Repair_run[OF r p need ne] p'(1) by (simp add: withPipeline_def)
  have "\<exists>i. dir (disk p') (Filename fd) = Some i \<and> inodes (disk p') i = orig (Filename fd)" if fd: "fd \<in> set (protectedFiles d)" for fd
  proof (cases "Filename fd \<in> targets pl")
    case True
    then show ?thesis using p'(2) fd run_files_ok(2)[OF r p fd] by (auto simp: has_originals_def)
  next
    case False
    then have "\<not> rebuilds d fd" using fd unfolding run_targets(1)[OF p] by blast
    then have "\<not> needsRebuild (state_of d fd)" using r fd by (simp add: rebuilds_def recoverable_def file_known_def)
    then obtain i where "dir (root d) (Filename fd) = Some i" "inodes (root d) i = orig (Filename fd)"
      using intact_content[OF r fd] by blast
    then show ?thesis using p'(3) False unfolding preserved_def by metis
  qed
  then show ?thesis using run by (auto simp: disk_def)
qed

lemma Repair_restores:
  assumes "recoverable orig d" "fair_repair e sc d"
  shows "\<exists>d'. Repair e sc d = (Ret (), d') \<and> (\<forall>fd\<in>set (protectedFiles d).
    \<exists>i. dir (root d') (Filename fd) = Some i \<and> inodes (root d') i = orig (Filename fd))"
proof (cases "RepairNeeded (shardCountsLocked d)")
  case True
  then show ?thesis by (rule Repair_pipeline_restores[OF assms])
next
  case False
  have "\<not> needsRebuild (state_of d fd)" if "fd \<in> set (protectedFiles d)" for fd
    using False that unfolding RepairNeeded_iff integrity_list[OF assms(1)] by auto
  moreover have "renameMisnamedFiles d = (Ret 0, d)"
    using assms(1) by (intro no_renames) (auto simp: recoverable_def file_known_def)
  ultimately show ?thesis
    using False intact_content[OF assms(1)] by (simp add: Repair_def bindG_def getG_def retG_def)
qed

section \<open>A sample\<close>

text \<open>The file \<open>a\<close> of four bytes is lost; the recovery block with exponent 0 is there.\<close>

definition lost_world :: world where
  "lost_world = sample_world\<lparr>dir := Map.empty, nextInode := 0, randText := (\<lambda>_. replicate 16 0x41)\<rparr>"

definition lost_state :: fileIntegrityState where
  "lost_state = \<lparr>fis_FileID = replicate 16 1, fis_Filename = ascii ''a'', Damage = damageMissing, RenameSource = [],
     ShardLocations = [\<lparr>loc_FileID = zeroID, Offset = -1\<rparr>]\<rparr>"

definition lost_set :: Decoder where
  "lost_set = sample_set\<lparr>root := lost_world, parityShards := [(0, [1, 2, 3, 4])], fileIntegrity := [(replicate 16 1, lost_state)]\<rparr>"

definition lost_sched :: repair_sched where
  "lost_sched = \<lparr>chunkSched = (\<lambda>_. [Run 0, Run 0]), finishSched = []\<rparr>"

lemma lost_fields:
  "protectedFiles lost_set = [sample_file]" "sliceByteCount lost_set = 4" "root lost_set = lost_world" "memoryLimit lost_set = 16"
  "Decoder.parityShards lost_set = [(0, [1, 2, 3, 4])]" "fileIntegrity lost_set = [(replicate 16 1, lost_state)]" "numGoroutines lost_set = 1"
  "state_of lost_set sample_file = lost_state" "original_blocks (\<lambda>_. [1, 2, 3, 4]) lost_set = [[1, 2, 3, 4]]"
  "UnusableDataShardCount (shardCountsLocked lost_set) = 1" "UsableParityShardCount (shardCountsLocked lost_set) = 1"
  "length (all_locations lost_set) = 1"
proof -
  show f: "protectedFiles lost_set = [sample_file]" "sliceByteCount lost_set = 4" "root lost_set = lost_world" "memoryLimit lost_set = 16"
    "Decoder.parityShards lost_set = [(0, [1, 2, 3, 4])]" "fileIntegrity lost_set = [(replicate 16 1, lost_state)]" "numGoroutines lost_set = 1"
    by (simp_all add: lost_set_def sample_set_def)
  then show "state_of lost_set sample_file = lost_state" by (simp add: state_of_def sample_file_def)
  show "original_blocks (\<lambda>_. [1, 2, 3, 4]) lost_set = [[1, 2, 3, 4]]"
    by (simp add: original_blocks_def f file_blocks_def padded_def)
  have a: "all_locations lost_set = [\<lparr>loc_FileID = zeroID, Offset = -1\<rparr>]" by (simp add: all_locations_def f lost_state_def)
  show "UnusableDataShardCount (shardCountsLocked lost_set) = 1" "UsableParityShardCount (shardCountsLocked lost_set) = 1"
    by (simp_all add: counts_fields f a)
  show "length (all_locations lost_set) = 1" by (simp add: a)
qed

lemma one_block_code: "\<exists>c. NewCoderPAR2Vandermonde (int 1) (int 1) = Ret c \<and> codeword c 4 [[1, 2, 3, 4]] [[1, 2, 3, 4]]"
proof -
  obtain c where c: "NewCoderPAR2Vandermonde (int 1) (int 1) = Ret c" "coder_ok c" "dataShards c = 1" "Coder.parityShards c = 1"
    using NewCoder_Ret[of 1 1] by auto
  have "ent (parityMatrix c) 0 0 = 1" "cols (parityMatrix c) = 1" using c by (simp_all add: coder_ok_def)
  then show ?thesis using c by (auto simp: codeword_def uniform_def mv_def)
qed

lemma lost_parity: "parity_known (\<lambda>_. [1, 2, 3, 4]) lost_set"
  using one_block_code by (force simp: parity_known_def lost_fields RepairPossible_def consecutive_def)

lemma lost_recoverable: "recoverable (\<lambda>_. [1, 2, 3, 4]) lost_set"
proof -
  have "length (tempName t x) > 1" for t x by (simp add: tempName_def repairTempMarker_def ascii_def)
  moreover have "length (Filename sample_file) = 1" by (simp add: sample_file_def ascii_def)
  ultimately have "temps_apart lost_world [sample_file]" unfolding temps_apart_def by (metis empty_set image_empty image_insert list.simps(15) less_irrefl singletonD)
  then have "disk_ready lost_set" by (simp add: disk_ready_def lost_fields) (simp add: lost_world_def sample_world_def quiet_def wf_world_def)
  moreover have "file_known (\<lambda>_. [1, 2, 3, 4]) lost_set sample_file"
    by (simp add: file_known_def lost_fields) (simp add: lost_state_def sample_file_def file_blocks_def location_ok_def)
  ultimately show ?thesis using lost_parity by (simp add: recoverable_def lost_fields maxAlloc_def) (simp add: sample_file_def)
qed

lemma one_range: "n \<le> 4 \<Longrightarrow> length (chunk_ranges small_env n 1) = 1"
proof -
  assume "n \<le> 4"
  then consider "n = 0" | "n = 1" | "n = 2" | "n = 3" | "n = 4" by linarith
  then show ?thesis
    by cases (simp_all add: small_env_def num_goroutines_def goroutine_ranges_def perGoroutineSplit_def
      splitForBlock_def KernelBlockBytes_def elementBytes_def minSplitBytes_def Let_def)
qed

lemma lost_fair: "fair_repair small_env lost_sched lost_set"
  using small_env_ok(1) one_range by (simp add: fair_repair_def lost_fields lost_sched_def fair_def)

section \<open>Properties\<close>

text \<open>C2. A repair that can succeed succeeds, when it is a matter of rebuilding only: no rename is planned for any file (so
  that \<open>renameMisnamedFiles\<close> finds nothing to do), no call fails, every located block reads as the block of the original file it
  stands for, the files that count as intact have their original bytes, and the recovery blocks are Reed-Solomon parity of the original
  blocks, at least as many of them as blocks are missing and with consecutive exponents. Then under every fair
  schedule without a cancellation \<open>Repair\<close> returns no error, and afterwards every protected file is there under its own name with its original bytes. The
  files have different names and identifiers and are not empty, slices are even and at most \<open>2 ^ 48\<close> bytes long, and the
  names of temporary files are free and are no names of protected files.\<close>

theorem repair_restores_originals:
  assumes "recoverable orig d" "fair_repair e sc d"
  shows "\<exists>d'. Repair e sc d = (Ret (), d') \<and> (\<forall>fd\<in>set (protectedFiles d).
    \<exists>i. dir (root d') (Filename fd) = Some i \<and> inodes (root d') i = orig (Filename fd))"
  using assms by (rule Repair_restores)

theorem repair_restores_originals_witness:
  "\<exists>d'. Repair small_env lost_sched lost_set = (Ret (), d') \<and>
     (\<exists>i. dir (root d') (ascii ''a'') = Some i \<and> inodes (root d') i = [1, 2, 3, 4])"
  using repair_restores_originals[OF lost_recoverable lost_fair] by (simp add: lost_fields) (simp add: sample_file_def)

end
