(* ===== verification/Verify_Restores.thy ===== *)
theory Verify_Restores
  imports Verify_Locations Repair_Restores
begin

text \<open>
  Verification and repair together: from the loaded set and the damaged files on disk to the original files. Blocks that
  survive in their place are found, what is found reads as original blocks, and with enough recovery blocks for the rest
  \<open>VerifyScans\<close> followed by \<open>Repair\<close> restores every file.
\<close>

section \<open>Verification changes the states only\<close>

definition same_set :: "Decoder \<Rightarrow> Decoder \<Rightarrow> bool" where
  "same_set d0 d \<longleftrightarrow> numGoroutines d = numGoroutines d0 \<and> memoryLimit d = memoryLimit d0 \<and> sliceByteCount d = sliceByteCount d0 \<and>
     protectedFiles d = protectedFiles d0 \<and> Decoder.parityShards d = Decoder.parityShards d0 \<and> candidateFiles d = candidateFiles d0"

lemma keeps_set_root [keeps]: "keeps (same_set d0) (onRoot m)"
  by (auto simp: keeps_def onRoot_def same_set_def split: prod.splits)

lemma keeps_set_state [keeps]: "keeps (same_set d0) (updState fid f)" "keeps (same_set d0) (setDamage fid dm)"
  by (auto simp: keeps_def updState_def setDamage_def same_set_def split: option.splits)

lemma keeps_set_VerifyScans: "keeps (same_set d0) (VerifyScans envs sched)"
proof -
  have "keeps (same_set d0) (prescan_candidate missing path cid)" for missing path cid
    unfolding prescan_candidate_def by (intro keeps)
  then have "keeps (same_set d0) (prescan_loop missing cs resolved)" for missing cs resolved
    by (induction cs arbitrary: resolved) (auto intro!: keeps split: if_splits)
  moreover have "keeps (same_set d0) missingByQuickKey" unfolding missingByQuickKey_def by (intro keeps)
  ultimately have "keeps (same_set d0) prescanCandidateMatches" unfolding prescanCandidateMatches_def by (intro keeps)
  moreover have "keeps (same_set d0) (prescan_protected fd)" for fd unfolding prescan_protected_def by (intro keeps)
  then have "keeps (same_set d0) (prescan_protected_loop fds)" for fds by (induction fds) (auto intro!: keeps)
  then have "keeps (same_set d0) prescanProtectedMatches" unfolding prescanProtectedMatches_def by (intro keeps)
  moreover have "keeps (same_set d0) (scan s envs sched)" for s
    unfolding scan_def collect_def Let_def by (intro keeps)
  moreover have "keeps (same_set d0) (detectRenameCandidate fd st)" for fd st
    unfolding detectRenameCandidate_def Let_def by (auto intro!: keeps split: list.split prod.split)
  then have "keeps (same_set d0) verifyProtectedFilesHashes"
    unfolding verifyProtectedFilesHashes_def verify_file_def verifySingleFileHash_def by (intro keeps)
  moreover have "keeps (same_set d0) initFileIntegrity"
    unfolding initFileIntegrity_def init_file_def Let_def by (intro keeps) (auto simp: same_set_def)
  moreover have "keeps (same_set d0) checkFileExistence" unfolding checkFileExistence_def check_exists_def by (intro keeps)
  ultimately show ?thesis unfolding VerifyScans_def by (intro keeps)
qed

section \<open>Damaged sets\<close>

text \<open>Block \<open>k\<close> of a file survives: the bytes of the original are in their place in the file on disk.\<close>

definition block_len :: "nat \<Rightarrow> nat \<Rightarrow> nat \<Rightarrow> nat" where
  "block_len s n k = min s (n - k * s)"

definition survives :: "(bytes \<Rightarrow> bytes) \<Rightarrow> Decoder \<Rightarrow> FileDescPacket \<Rightarrow> nat \<Rightarrow> bool" where
  "survives orig d fd k \<longleftrightarrow> (\<exists>i. dir (root d) (Filename fd) = Some i \<and>
     (let s = sliceByteCount d; n = block_len s (ByteCount fd) k; data = inodes (root d) i
      in k * s + n \<le> length data \<and> take n (drop (k * s) data) = take n (drop (k * s) (orig (Filename fd)))))"

definition block_count :: "Decoder \<Rightarrow> FileDescPacket \<Rightarrow> nat" where
  "block_count d fd = (ByteCount fd + sliceByteCount d - 1) div sliceByteCount d"

definition lost_blocks :: "(bytes \<Rightarrow> bytes) \<Rightarrow> Decoder \<Rightarrow> nat" where
  "lost_blocks orig d = sum_list (map (\<lambda>fd. length (filter (\<lambda>k. \<not> survives orig d fd k) [0..<block_count d fd])) (protectedFiles d))"

text \<open>The packets of the set describe the original files.\<close>

definition describes :: "(bytes \<Rightarrow> bytes) \<Rightarrow> Decoder \<Rightarrow> FileDescPacket \<Rightarrow> bool" where
  "describes orig d fd \<longleftrightarrow> orig (Filename fd) \<noteq> [] \<and> length (orig (Filename fd)) < 2 ^ 63 \<and> ByteCount fd = length (orig (Filename fd)) \<and>
     fd_Hash fd = md5 (orig (Filename fd)) \<and>
     (\<exists>ifsc. map_of (fileChecksums d) (fd_FileID fd) = Some ifsc \<and>
        ChecksumPairs ifsc = map (\<lambda>b. \<lparr>MD5 = md5 b, CRC32 = le_bytes 4 (ChecksumIEEE b)\<rparr>) (file_blocks (sliceByteCount d) (orig (Filename fd))))"

text \<open>No file on disk is longer than recorded, and none has by chance the MD5 of an original block or file: at no
  offset of a file lies another block with the MD5 of an original one.\<close>

definition no_chance :: "(bytes \<Rightarrow> bytes) \<Rightarrow> Decoder \<Rightarrow> FileDescPacket \<Rightarrow> bool" where
  "no_chance orig d fd \<longleftrightarrow> (\<forall>i. dir (root d) (Filename fd) = Some i \<longrightarrow>
     length (inodes (root d) i) \<le> ByteCount fd \<and>
     (\<forall>fd'\<in>set (protectedFiles d).
        (md5 (inodes (root d) i) = md5 (orig (Filename fd')) \<longrightarrow> inodes (root d) i = orig (Filename fd')) \<and>
        (\<forall>off. \<forall>b\<in>set (file_blocks (sliceByteCount d) (orig (Filename fd'))).
           md5 (padded (sliceByteCount d) (drop off (inodes (root d) i))) = md5 b \<longrightarrow>
           padded (sliceByteCount d) (drop off (inodes (root d) i)) = b)))"

definition enough_parity :: "(bytes \<Rightarrow> bytes) \<Rightarrow> Decoder \<Rightarrow> bool" where
  "enough_parity orig d \<longleftrightarrow> distinct (map fst (Decoder.parityShards d)) \<and>
     (\<exists>c P. NewCoderPAR2Vandermonde (int (length (original_blocks orig d)))
          (int (fold max (map (unat \<circ> fst) (Decoder.parityShards d)) 0 + 1)) = Ret c \<and>
        codeword c (sliceByteCount d) (original_blocks orig d) P \<and>
        (\<forall>(e, bs)\<in>set (Decoder.parityShards d). bs = P ! unat e)) \<and>
     lost_blocks orig d \<le> length (Decoder.parityShards d) \<and> consecutive (sort (map (unat \<circ> fst) (Decoder.parityShards d)))"

definition damaged_set :: "(bytes \<Rightarrow> bytes) \<Rightarrow> Decoder \<Rightarrow> bool" where
  "damaged_set orig d \<longleftrightarrow> disk_ready d \<and> verifiable d \<and> even (sliceByteCount d) \<and> scan_limits d \<and> 0 \<le> memoryLimit d \<and>
     distinct (map fd_FileID (protectedFiles d)) \<and> distinct (map Filename (protectedFiles d)) \<and>
     distinct (map fst (fileChecksums d)) \<and> pair_count d \<le> 2 ^ 28 \<and>
     candidateFiles d = [] \<and> candidateByID d = [] \<and>
     (\<forall>fd\<in>set (protectedFiles d). describes orig d fd \<and> no_chance orig d fd) \<and> enough_parity orig d"

lemma damaged_facts:
  assumes "damaged_set orig d"
  shows "0 < sliceByteCount d" "4 \<le> sliceByteCount d" "calm_world True (root d)" "distinct (map fd_FileID (protectedFiles d))" "verifiable d"
    "distinct (map fst (fileChecksums d))"
    "fd \<in> set (protectedFiles d) \<Longrightarrow> describes orig d fd" "fd \<in> set (protectedFiles d) \<Longrightarrow> no_chance orig d fd"
    "scan_limits d" "int (sliceByteCount d) \<le> maxAlloc" "sliceByteCount d < 2 ^ 63"
  using assms by (auto simp: damaged_set_def verifiable_def disk_ready_def quiet_def calm_world_def scan_limits_def maxAlloc_def)

section \<open>Blocks and checksums\<close>

lemma shards_of:
  assumes "damaged_set orig d" "fd \<in> set (protectedFiles d)"
  shows "unat (shardCount (ByteCount fd) (sliceByteCount d)) = block_count d fd"
    "length (file_blocks (sliceByteCount d) (orig (Filename fd))) = block_count d fd"
proof -
  have "ByteCount fd < 2 ^ 63" "sliceByteCount d < 2 ^ 63" "ByteCount fd = length (orig (Filename fd))"
    using damaged_facts(11)[OF assms(1)] damaged_facts(7)[OF assms] by (auto simp: describes_def)
  then show "unat (shardCount (ByteCount fd) (sliceByteCount d)) = block_count d fd"
      "length (file_blocks (sliceByteCount d) (orig (Filename fd))) = block_count d fd"
    using shardCount_exact[of "ByteCount fd" "sliceByteCount d"] damaged_facts(1)[OF assms(1)] by (simp_all add: block_count_def length_blocks)
qed

lemma checksums_of:
  assumes "damaged_set orig d" "fd \<in> set (protectedFiles d)" "(fd_FileID fd, ifsc) \<in> set (fileChecksums d)"
  shows "ChecksumPairs ifsc = map (\<lambda>b. \<lparr>MD5 = md5 b, CRC32 = le_bytes 4 (ChecksumIEEE b)\<rparr>) (file_blocks (sliceByteCount d) (orig (Filename fd)))"
proof -
  have "map_of (fileChecksums d) (fd_FileID fd) = Some ifsc" using damaged_facts(6)[OF assms(1)] assms(3) by (rule map_of_is_SomeI)
  then show ?thesis using damaged_facts(7)[OF assms(1,2)] unfolding describes_def by (metis option.inject)
qed

lemma wanted_block:
  assumes "damaged_set orig d" "fd \<in> set (protectedFiles d)"
  shows "wants d (fd_FileID fd) k pair \<longleftrightarrow> k < block_count d fd \<and>
    pair = \<lparr>MD5 = md5 (file_blocks (sliceByteCount d) (orig (Filename fd)) ! k),
      CRC32 = le_bytes 4 (ChecksumIEEE (file_blocks (sliceByteCount d) (orig (Filename fd)) ! k))\<rparr>" (is "_ \<longleftrightarrow> ?R")
proof
  show "wants d (fd_FileID fd) k pair \<Longrightarrow> ?R"
    unfolding wants_def using checksums_of[OF assms] shards_of(2)[OF assms] by auto
  obtain ifsc where "(fd_FileID fd, ifsc) \<in> set (fileChecksums d)"
    using damaged_facts(7)[OF assms] map_of_SomeD unfolding describes_def by metis
  then show "?R \<Longrightarrow> wants d (fd_FileID fd) k pair"
    unfolding wants_def using checksums_of[OF assms] shards_of(2)[OF assms] assms(2) by force
qed

lemma damaged_fits: "damaged_set orig d \<Longrightarrow> ifsc_fits d"
  unfolding ifsc_fits_def using checksums_of shards_of by auto

text \<open>Reading at an offset of a file.\<close>

lemma block_at_padded:
  assumes "n \<le> s" "n = s \<or> length data \<le> off + n"
  shows "block_at s n data off = padded s (drop off data)"
  using assms by (auto simp: block_at_def padded_def Let_def min_def)

lemma padded_take: "n \<le> s \<Longrightarrow> length bs \<le> n \<Longrightarrow> padded s bs = take n bs @ replicate (s - length bs) 0"
  by (simp add: padded_def)

text \<open>A block that survives is in its place, with the checksums of its packet.\<close>

lemma survives_present:
  assumes D: "damaged_set orig d" and fd: "fd \<in> set (protectedFiles d)" and k: "k < block_count d fd" and sv: "survives orig d fd k"
  shows "present d (fd_FileID fd) k"
proof -
  let ?s = "sliceByteCount d" and ?n = "ByteCount fd" and ?o = "orig (Filename fd)"
  obtain i where i: "dir (root d) (Filename fd) = Some i" "k * ?s + block_len ?s ?n k \<le> length (inodes (root d) i)"
      "take (block_len ?s ?n k) (drop (k * ?s) (inodes (root d) i)) = take (block_len ?s ?n k) (drop (k * ?s) ?o)"
    using sv unfolding survives_def Let_def by blast
  let ?data = "inodes (root d) i" and ?b = "file_blocks ?s ?o ! k"
  have s: "0 < ?s" by (rule damaged_facts(1)[OF D])
  have o: "?n = length ?o" "?o \<noteq> []" using damaged_facts(7)[OF D fd] by (auto simp: describes_def)
  have len: "length ?data \<le> ?n" using damaged_facts(8)[OF D fd] i(1) by (simp add: no_chance_def)
  have ks: "k * ?s < ?n"
  proof -
    have "k * ?s \<le> (block_count d fd - 1) * ?s" using k by (intro mult_le_mono1) simp
    also have "\<dots> < ?n" using ceil_count(2)[of ?s ?n] s o by (simp add: block_count_def)
    finally show ?thesis .
  qed
  have b: "?b = padded ?s (drop (k * ?s) ?o)" using k shards_of(2)[OF D fd] by (simp add: file_blocks_def)
  have "in_place ?s ?n ?data k ?b"
  proof (cases "k * ?s + ?s \<le> ?n")
    case True
    then have bl: "block_len ?s ?n k = ?s" by (simp add: block_len_def)
    have le: "k * ?s + ?s \<le> length ?data" using i(2) unfolding bl .
    then have ne: "?data \<noteq> []" using s unfolding length_greater_0_conv[symmetric] by linarith
    have "?b = take ?s (drop (k * ?s) ?o)" using True o(1) unfolding b padded_def by simp
    then have "?b = take ?s (drop (k * ?s) ?data)" using i(3) unfolding bl by (simp only:)
    then show ?thesis unfolding in_place_def by (intro conjI disjI1 ne le)
  next
    case False
    then have q: "?n div ?s = k" using ks s by (intro div_nat_eqI) (simp_all add: mult.commute)
    then have m: "?n mod ?s = ?n - k * ?s" by (simp add: minus_mult_div_eq_mod[symmetric] mult.commute)
    have bl: "block_len ?s ?n k = ?n - k * ?s" using False by (simp add: block_len_def)
    have "block_at ?s (?n mod ?s) ?data (k * ?s) = padded ?s (drop (k * ?s) ?data)"
      by (rule block_at_padded) (use m ks len False in auto)
    also have "drop (k * ?s) ?data = drop (k * ?s) ?o" using i(3) len o(1) unfolding bl by simp
    finally have blk: "?b = block_at ?s (?n mod ?s) ?data (k * ?s)" unfolding b by (rule sym)
    have ne: "?data \<noteq> []" using i(2) ks unfolding bl length_greater_0_conv[symmetric] by linarith
    have "?n mod ?s \<noteq> 0" using ks unfolding m by linarith
    then show ?thesis unfolding in_place_def by (intro conjI disjI2 ne q[symmetric] blk)
  qed
  moreover have "le_word (le_bytes 4 (ChecksumIEEE ?b)) = ChecksumIEEE ?b" by (simp add: le_word_le_bytes)
  moreover have "wants d (fd_FileID fd) k \<lparr>MD5 = md5 ?b, CRC32 = le_bytes 4 (ChecksumIEEE ?b)\<rparr>" using wanted_block[OF D fd] k by simp
  ultimately show ?thesis
    unfolding present_def using fd i(1) by (metis ChecksumPair.select_convs(1,2))
qed

section \<open>After the verification\<close>

lemma names_of_protected:
  assumes "candidateFiles d = []" "distinct (map fd_FileID (protectedFiles d))" "fd \<in> set (protectedFiles d)"
  shows "map_of (buildFileIDToFilenameMap d) (fd_FileID fd) = Some (Filename fd)"
proof -
  have "map_of (fold (\<lambda>f m. AList.update (fd_FileID f) (Filename f) m) fs al) (fd_FileID fd) = Some (Filename fd)"
    if "distinct (map fd_FileID fs)" "fd \<in> set fs \<or> fd_FileID fd \<notin> fd_FileID ` set fs \<and> map_of al (fd_FileID fd) = Some (Filename fd)" for fs al
    using that
  proof (induction fs arbitrary: al)
    case (Cons f fs)
    show ?case using Cons.prems by (simp, intro Cons.IH) (auto simp: update_conv)
  qed simp
  then show ?thesis using assms by (simp add: buildFileIDToFilenameMap_def)
qed

text \<open>What was found reads as the block.\<close>

lemma found_block:
  assumes D: "damaged_set orig d" and fd: "fd \<in> set (protectedFiles d)" and f: "found_at d fd j loc" and j: "j < block_count d fd"
    and d': "same_set d d'" "same_files (root d) (root d')"
  shows "location_ok d' loc (file_blocks (sliceByteCount d) (orig (Filename fd)) ! j)"
proof -
  let ?s = "sliceByteCount d" and ?o = "orig (Filename fd)"
  have c: "candidateFiles d = []" using D by (simp add: damaged_set_def)
  obtain g i where g: "g \<in> set (protectedFiles d)" "fd_FileID g = loc_FileID loc" "dir (root d) (Filename g) = Some i" "0 \<le> Offset loc"
    and r: "nat (Offset loc) = j * ?s \<and> md5 (inodes (root d) i) = fd_Hash fd \<or>
      (\<exists>n pair. n \<le> ?s \<and> (n = ?s \<or> ByteCount g \<le> nat (Offset loc) + n) \<and> wants d (fd_FileID fd) j pair \<and>
        MD5 pair = md5 (block_at ?s n (inodes (root d) i) (nat (Offset loc))))"
    using f unfolding found_at_def Let_def jobs_of_def c by auto
  let ?data = "inodes (root d) i" and ?b = "file_blocks ?s ?o ! j"
  have bl: "?b \<in> set (file_blocks ?s ?o)" "?b = padded ?s (drop (j * ?s) ?o)"
    using j shards_of(2)[OF D fd] by (simp_all add: file_blocks_def)
  have len: "length ?data \<le> ByteCount g" and same_content: "md5 ?data = md5 ?o \<Longrightarrow> ?data = ?o"
    and block: "\<And>off. md5 (padded ?s (drop off ?data)) = md5 ?b \<Longrightarrow> padded ?s (drop off ?data) = ?b"
    using damaged_facts(8)[OF D g(1)] g(3) fd bl(1) unfolding no_chance_def by blast+
  consider (whole) "nat (Offset loc) = j * ?s" "md5 ?data = fd_Hash fd"
    | (window) n pair where "n \<le> ?s" "n = ?s \<or> ByteCount g \<le> nat (Offset loc) + n" "wants d (fd_FileID fd) j pair"
      "MD5 pair = md5 (block_at ?s n ?data (nat (Offset loc)))" using r by blast
  then have "padded ?s (drop (nat (Offset loc)) ?data) = ?b"
  proof cases
    case whole
    then show ?thesis using same_content bl(2) damaged_facts(7)[OF D fd] by (simp add: describes_def)
  next
    case n: window
    have "block_at ?s n ?data (nat (Offset loc)) = padded ?s (drop (nat (Offset loc)) ?data)"
      by (rule block_at_padded) (use n len in auto)
    then have "md5 (padded ?s (drop (nat (Offset loc)) ?data)) = md5 ?b"
      using n(3,4) wanted_block[OF D fd, of j pair] by simp
    then show ?thesis by (rule block)
  qed
  moreover have "map_of (buildFileIDToFilenameMap d') (loc_FileID loc) = Some (Filename g)"
    using names_of_protected[of d' g] d'(1) c g damaged_facts(4)[OF D] by (simp add: same_set_def)
  moreover have "dir (root d') = dir (root d)" "inodes (root d') = inodes (root d)" "sliceByteCount d' = ?s"
    using d' by (simp_all add: same_files_def same_set_def)
  ultimately show ?thesis using g(3,4) unfolding location_ok_def by (intro impI conjI exI[of _ "Filename g"] exI[of _ i]) simp_all
qed

lemma prefix_consecutive: "consecutive us \<Longrightarrow> consecutive (take n us)"
  by (simp add: consecutive_def)

text \<open>The verification of a damaged set, in one step.\<close>

definition found_well :: "(bytes \<Rightarrow> bytes) \<Rightarrow> Decoder \<Rightarrow> Decoder \<Rightarrow> bool" where
  "found_well orig d d' \<longleftrightarrow> same_set d d' \<and> calm_world True (root d') \<and> traced d d' \<and> decided (protectedFiles d) d' \<and> tracked d {} d' \<and>
     (\<forall>fd\<in>set (protectedFiles d). \<forall>k<block_count d fd. survives orig d fd k \<longrightarrow> located d' (fd_FileID fd) k)"

lemma damaged_verifies:
  assumes D: "damaged_set orig d" and q: "\<forall>i k. quiet_env (envs i k)"
  obtains d' where "VerifyScans envs sched d = (Ret (), d')" "found_well orig d d'"
proof -
  note facts = damaged_facts[OF D]
  have pc: "pair_count d \<le> 2 ^ 28" using D by (simp add: damaged_set_def)
  have "wp (VerifyScans envs sched) (\<lambda>_ d'. verifying (root d) d True {(fid, k). True \<and> present d fid k} d' \<and> decided (protectedFiles d) d')
      (\<lambda>_ _. \<not> True) d"
    by (rule wp_VerifyScans) (use facts pc damaged_fits[OF D] q in simp_all)
  then obtain d' where d': "VerifyScans envs sched d = (Ret (), d')" "verifying (root d) d True {(fid, k). present d fid k} d'"
      "decided (protectedFiles d) d'"
    unfolding wp_def by (auto split: prod.splits res.splits)
  have "same_set d d'" by (rule keeps_D[OF keeps_set_VerifyScans _ d'(1)]) (simp add: same_set_def)
  moreover have "located d' (fd_FileID fd) k" if "fd \<in> set (protectedFiles d)" "k < block_count d fd" "survives orig d fd k" for fd k
    using survives_present[OF D that] d'(2) by (auto simp: verifying_def)
  ultimately have "found_well orig d d'"
    using d'(2,3) VerifyScans_traced[OF facts(4) pc d'(1)] VerifyScans_tracked[OF facts(4) d'(1)]
    by (simp add: found_well_def verifying_def)
  then show thesis using that d'(1) by blast
qed

lemma found_state:
  assumes D: "damaged_set orig d" and F: "found_well orig d d'" and fd: "fd \<in> set (protectedFiles d)"
  shows "file_known orig d' fd" "length (ShardLocations (state_of d' fd)) = block_count d fd"
proof -
  let ?st = "state_of d' fd"
  have tr: "traced d d'" and same: "same_set d d'" using F by (simp_all only: found_well_def)
  then have same: "same_set d d'" "same_files (root d) (root d')" using traced_sound[OF tr] by (simp_all add: sound_def)
  obtain st where st: "map_of (fileIntegrity d') (fd_FileID fd) = Some st" "state_sound (root d) fd st" "state_shape (sliceByteCount d) fd st"
    using traced_sound[OF tr] fd unfolding sound_def by blast
  have s: "?st = st" using st(1) by (simp add: state_of_def)
  show len: "length (ShardLocations ?st) = block_count d fd" using st(3) shards_of(1)[OF D fd] by (simp add: s state_shape_def)
  have ren: "RenameSource ?st = []"
  proof -
    have "rename_ok (candidate_names d) {} (fd_FileID fd) st" using F st(1) by (simp add: found_well_def tracked_def all_states_def)
    moreover have "candidate_names d = {}" using D by (simp add: damaged_set_def candidate_names_def)
    ultimately show ?thesis by (simp add: rename_ok_def s)
  qed
  moreover have "settled st" using F fd st(1) unfolding found_well_def decided_def by blast
  ultimately have dmg: "Damage ?st \<noteq> damageUnchecked" by (simp add: settled_def s)
  have "truthful d fd st" using tr fd st(1) by (simp add: traced_def states_pred_def)
  then have "location_ok d' (ShardLocations ?st ! j) (file_blocks (sliceByteCount d) (orig (Filename fd)) ! j)" if "j < block_count d fd" for j
    using found_block[OF D fd _ that same] that len unfolding truthful_def s by (cases "Offset (ShardLocations st ! j) = -1") (auto simp: location_ok_def)
  then have locs: "list_all2 (location_ok d') (ShardLocations ?st) (file_blocks (sliceByteCount d) (orig (Filename fd)))"
    using len shards_of(2)[OF D fd] by (simp add: list_all2_conv_all_nth)
  have "\<exists>i. dir (root d') (Filename fd) = Some i \<and> inodes (root d') i = orig (Filename fd)" if none: "Damage ?st = damageNone"
  proof -
    obtain i where i: "dir (root d) (Filename fd) = Some i" "md5 (inodes (root d) i) = fd_Hash fd"
      using st(2) none s by (auto simp: state_sound_def content_hash_def)
    then have "inodes (root d) i = orig (Filename fd)"
      using damaged_facts(7,8)[OF D fd] fd by (simp add: describes_def no_chance_def)
    then show ?thesis using i(1) same(2) by (simp add: same_files_def)
  qed
  moreover have "sliceByteCount d' = sliceByteCount d" using same(1) by (simp add: same_set_def)
  ultimately show "file_known orig d' fd"
    using damaged_facts(7)[OF D fd] st(1) s ren dmg locs unfolding file_known_def describes_def by (simp del: map_of_eq_Some_iff)
qed

section \<open>Counting\<close>

lemma integrity_states:
  assumes "map fst (fileIntegrity d) = map fd_FileID (protectedFiles d)" "distinct (map fd_FileID (protectedFiles d))"
  shows "map snd (fileIntegrity d) = map (state_of d) (protectedFiles d)"
proof (rule nth_equalityI)
  have l: "length (fileIntegrity d) = length (protectedFiles d)" using arg_cong[OF assms(1), of length] by simp
  then show "length (map snd (fileIntegrity d)) = length (map (state_of d) (protectedFiles d))" by simp
  fix i assume "i < length (map snd (fileIntegrity d))"
  then have i: "i < length (fileIntegrity d)" by simp
  have "fst (fileIntegrity d ! i) = fd_FileID (protectedFiles d ! i)" using arg_cong[OF assms(1), of "\<lambda>l. l ! i"] i l by simp
  then have "(fd_FileID (protectedFiles d ! i), snd (fileIntegrity d ! i)) \<in> set (fileIntegrity d)" using i by (metis nth_mem prod.collapse)
  moreover have "distinct (map fst (fileIntegrity d))" using assms by simp
  ultimately have "map_of (fileIntegrity d) (fd_FileID (protectedFiles d ! i)) = Some (snd (fileIntegrity d ! i))" by simp
  then show "map snd (fileIntegrity d) ! i = map (state_of d) (protectedFiles d) ! i" using i l by (simp add: state_of_def)
qed

lemma missing_by_file:
  assumes "map snd (fileIntegrity d) = map (state_of d) (protectedFiles d)"
  shows "all_locations d = concat (map (\<lambda>fd. ShardLocations (state_of d fd)) (protectedFiles d))"
proof -
  have "map (ShardLocations \<circ> snd) (fileIntegrity d) = map ShardLocations (map snd (fileIntegrity d))" by simp
  then show ?thesis unfolding all_locations_def assms by (simp add: comp_def)
qed

lemma length_filter_nth: "length (filter P xs) = length (filter (\<lambda>k. P (xs ! k)) [0..<length xs])"
proof -
  have "filter P xs = filter P (map ((!) xs) [0..<length xs])" by (simp add: map_nth)
  then show ?thesis by (simp add: filter_map comp_def)
qed

lemma length_filter_le: "(\<And>x. x \<in> set xs \<Longrightarrow> P x \<Longrightarrow> Q x) \<Longrightarrow> length (filter P xs) \<le> length (filter Q xs)"
  by (induction xs) auto

lemma few_missing:
  assumes D: "damaged_set orig d" and F: "found_well orig d d'"
  shows "UnusableDataShardCount (shardCountsLocked d') \<le> lost_blocks orig d"
    "length (all_locations d') = sum_list (map (block_count d) (protectedFiles d))"
proof -
  have tr: "traced d d'" and p: "protectedFiles d' = protectedFiles d" using F by (simp_all add: found_well_def same_set_def)
  have "map fst (fileIntegrity d') = map fd_FileID (protectedFiles d')" using traced_sound[OF tr] p by (simp add: sound_def)
  then have all: "all_locations d' = concat (map (\<lambda>fd. ShardLocations (state_of d' fd)) (protectedFiles d))"
    using missing_by_file[OF integrity_states] damaged_facts(4)[OF D] p by metis
  have "length (filter (\<lambda>l. Offset l = -1) (ShardLocations (state_of d' fd))) \<le> length (filter (\<lambda>k. \<not> survives orig d fd k) [0..<block_count d fd])"
    if fd: "fd \<in> set (protectedFiles d)" for fd
    unfolding length_filter_nth[of _ "ShardLocations (state_of d' fd)"] found_state(2)[OF D F fd]
  proof (rule length_filter_le)
    fix k assume k: "k \<in> set [0..<block_count d fd]" "Offset (ShardLocations (state_of d' fd) ! k) = -1"
    then have "\<not> located d' (fd_FileID fd) k" by (auto simp: located_def state_of_def)
    then show "\<not> survives orig d fd k" using F fd k(1) by (auto simp: found_well_def)
  qed
  then show "UnusableDataShardCount (shardCountsLocked d') \<le> lost_blocks orig d"
    unfolding counts_fields all filter_concat length_concat map_map comp_def lost_blocks_def by (intro sum_list_mono) simp
  show "length (all_locations d') = sum_list (map (block_count d) (protectedFiles d))"
    unfolding all length_concat map_map comp_def using found_state(2)[OF D F] by (intro arg_cong[of _ _ sum_list] map_cong) simp_all
qed

section \<open>The set can be repaired\<close>

lemma found_recoverable:
  assumes D: "damaged_set orig d" and F: "found_well orig d d'"
  shows "recoverable orig d'"
proof -
  have tr: "traced d d'" and same: "same_set d d'" and calm: "calm_world True (root d')" using F by (simp_all only: found_well_def)
  note eq = same[unfolded same_set_def]
  have sf: "same_files (root d) (root d')" and ids: "map fst (fileIntegrity d') = map fd_FileID (protectedFiles d)"
    using traced_sound[OF tr] by (simp_all add: sound_def)
  have "disk_ready d'"
    using D calm sf eq by (simp add: damaged_set_def disk_ready_def quiet_def calm_world_def same_files_def wf_world_def temps_apart_def)
  moreover have "original_blocks orig d' = original_blocks orig d" using eq by (simp add: original_blocks_def)
  then have "parity_known orig d'"
    using D few_missing(1)[OF D F] prefix_consecutive eq
    by (simp add: damaged_set_def enough_parity_def parity_known_def RepairPossible_def counts_fields(3))
  ultimately show ?thesis
    using D found_state(1)[OF D F] eq ids damaged_facts(1,10)[OF D] by (simp add: recoverable_def damaged_set_def)
qed

text \<open>Schedules that run every goroutine of the reconstruction often enough for all the recovery blocks.\<close>

definition fair_schedules :: "env \<Rightarrow> repair_sched \<Rightarrow> Decoder \<Rightarrow> bool" where
  "fair_schedules e sc d \<longleftrightarrow> env_ok e \<and> (\<forall>k. Cancel \<notin> set (chunkSched sc k) \<and>
     (\<forall>n. n \<le> sliceByteCount d \<longrightarrow> fair (length (chunk_ranges e n (numGoroutines d)))
        (length (Decoder.parityShards d) * sum_list (map (block_count d) (protectedFiles d)) + 1) (chunkSched sc k)))"

lemma fair_mono: "fair n b sched \<Longrightarrow> b' \<le> b \<Longrightarrow> fair n b' sched"
  by (auto simp: fair_def)

lemma found_fair:
  assumes D: "damaged_set orig d" and F: "found_well orig d d'" and f: "fair_schedules e sc d"
  shows "fair_repair e sc d'"
proof -
  have "UnusableDataShardCount (shardCountsLocked d') \<le> length (Decoder.parityShards d)"
    using few_missing(1)[OF D F] D by (simp add: damaged_set_def enough_parity_def)
  then have "UnusableDataShardCount (shardCountsLocked d') * length (all_locations d') + 1 \<le>
      length (Decoder.parityShards d) * sum_list (map (block_count d) (protectedFiles d)) + 1"
    unfolding few_missing(2)[OF D F] by simp
  moreover have "sliceByteCount d' = sliceByteCount d" "numGoroutines d' = numGoroutines d"
    using F by (simp_all add: found_well_def same_set_def)
  moreover have "fair g b' (chunkSched sc k)" if "fair g b (chunkSched sc k)" "b' \<le> b" for g b b' k using that by (rule fair_mono)
  ultimately show ?thesis using f unfolding fair_repair_def fair_schedules_def by (simp only:) blast
qed

text \<open>Verification and repair of a damaged set.\<close>

lemma damaged_restored:
  assumes "damaged_set orig d" "\<forall>i k. quiet_env (envs i k)" "fair_schedules e sc d"
  shows "\<exists>d1 d2. VerifyScans envs sched d = (Ret (), d1) \<and> Repair e sc d1 = (Ret (), d2) \<and>
    (\<forall>fd\<in>set (protectedFiles d). \<exists>i. dir (root d2) (Filename fd) = Some i \<and> inodes (root d2) i = orig (Filename fd))"
proof -
  obtain d1 where d1: "VerifyScans envs sched d = (Ret (), d1)" "found_well orig d d1" using damaged_verifies[OF assms(1,2)] .
  have "protectedFiles d1 = protectedFiles d" using d1(2) by (simp add: found_well_def same_set_def)
  then show ?thesis
    using Repair_restores[OF found_recoverable[OF assms(1) d1(2)] found_fair[OF assms(1) d1(2) assms(3)]] d1(1) by auto
qed

section \<open>Samples\<close>

text \<open>Any set with one file of one block, damaged, and the recovery block with exponent 0.\<close>

lemma one_block_damaged:
  assumes files: "protectedFiles d = [fd]" "ByteCount fd = 4" "fd_Hash fd = md5 [1, 2, 3, 4]"
    and packets: "sliceByteCount d = 4" "fileChecksums d = [(fd_FileID fd, ifsc)]" "ChecksumPairs ifsc = [sample_pair]"
      "Decoder.parityShards d = [(0, [1, 2, 3, 4])]"
    and rest: "candidateFiles d = []" "candidateByID d = []" "0 \<le> memoryLimit d" "0 < numGoroutines d"
    and disk: "disk_ready d" "no_chance (\<lambda>_. [1, 2, 3, 4]) d fd"
  shows "damaged_set (\<lambda>_. [1, 2, 3, 4]) d"
proof -
  have blocks: "file_blocks 4 [1, 2, 3, 4] = [[1, 2, 3, 4]]" by (simp add: file_blocks_def padded_def)
  then have "original_blocks (\<lambda>_. [1, 2, 3, 4]) d = [[1, 2, 3, 4]]" by (simp add: original_blocks_def files packets)
  moreover have "block_count d fd = 1" by (simp add: block_count_def files packets)
  then have "lost_blocks (\<lambda>_. [1, 2, 3, 4]) d \<le> 1" by (simp add: lost_blocks_def files)
  ultimately have "enough_parity (\<lambda>_. [1, 2, 3, 4]) d"
    using one_block_code by (force simp: enough_parity_def packets consecutive_def)
  moreover have "describes (\<lambda>_. [1, 2, 3, 4]) d fd" using blocks by (simp add: describes_def files packets sample_pair_def)
  moreover have "verifiable d" by (simp add: verifiable_def files packets shard_total_def sample_shards)
  moreover have "scan_limits d" using rest by (simp add: scan_limits_def packets scanChunkSize_def maxAlloc_def)
  moreover have "pair_count d \<le> 2 ^ 28" by (simp add: pair_count_def packets)
  ultimately show ?thesis using rest disk by (simp add: damaged_set_def files packets)
qed

lemma one_block_schedules:
  assumes "protectedFiles d = [fd]" "ByteCount fd = 4" "sliceByteCount d = 4" "Decoder.parityShards d = [(0, [1, 2, 3, 4])]" "numGoroutines d = 1"
  shows "fair_schedules small_env lost_sched d"
  using small_env_ok(1) one_range assms by (simp add: fair_schedules_def lost_sched_def fair_def block_count_def)

text \<open>The file \<open>a\<close> is lost; another file \<open>b\<close> is in the directory, which the set does not know.\<close>

definition spare_world :: world where
  "spare_world = lost_world\<lparr>dir := [ascii ''b'' \<mapsto> 0], nextInode := 1\<rparr>"

definition spare_set :: Decoder where
  "spare_set = lost_set\<lparr>root := spare_world\<rparr>"

lemma spare_fields:
  "protectedFiles spare_set = [sample_file]" "sliceByteCount spare_set = 4" "root spare_set = spare_world"
  "Decoder.parityShards spare_set = [(0, [1, 2, 3, 4])]"
  "numGoroutines spare_set = 1" "candidateFiles spare_set = []" "candidateByID spare_set = []" "0 \<le> memoryLimit spare_set"
  "fileChecksums spare_set = [(fd_FileID sample_file, \<lparr>ifsc_FileID = replicate 16 1, ChecksumPairs = [sample_pair]\<rparr>)]"
  by (simp_all add: spare_set_def lost_set_def sample_set_def sample_file_def)

lemma spare_disk: "disk_ready spare_set" "repairable_set spare_set" "no_chance (\<lambda>_. [1, 2, 3, 4]) spare_set sample_file"
proof -
  have long: "length (tempName t x) > 1" for t x by (simp add: tempName_def repairTempMarker_def ascii_def)
  moreover have f: "length (Filename sample_file) = 1" "length (ascii ''b'') = 1" "Filename sample_file \<noteq> ascii ''b''"
    by (simp_all add: sample_file_def ascii_def)
  ultimately have n: "tempName t x \<noteq> Filename sample_file" "tempName t x \<noteq> ascii ''b''" for t x by (metis less_irrefl)+
  then have t: "temps_apart spare_world [sample_file]" by (simp add: temps_apart_def)
  have d: "dir spare_world = [ascii ''b'' \<mapsto> 0]" "nextInode spare_world = 1" by (simp_all add: spare_world_def)
  have "quiet spare_world" "16 \<le> length (randText spare_world k)" for k
    by (simp_all add: spare_world_def lost_world_def sample_world_def quiet_def)
  then show "disk_ready spare_set" using t n by (simp add: disk_ready_def spare_fields wf_world_def d)
  show "repairable_set spare_set" using t by (simp add: repairable_set_def spare_fields candidate_names_def wf_world_def d)
  show "no_chance (\<lambda>_. [1, 2, 3, 4]) spare_set sample_file" using f(3) by (simp add: no_chance_def spare_fields d)
qed

lemma spare_damaged: "damaged_set (\<lambda>_. [1, 2, 3, 4]) spare_set" "fair_schedules small_env lost_sched spare_set"
proof -
  have f: "ByteCount sample_file = 4" "fd_Hash sample_file = md5 [1, 2, 3, 4]" by (simp_all add: sample_file_def)
  show "damaged_set (\<lambda>_. [1, 2, 3, 4]) spare_set"
    by (rule one_block_damaged[OF spare_fields(1) f spare_fields(2,9) _ spare_fields(4,6-8) _ spare_disk(1,3)]) (simp_all add: spare_fields)
  show "fair_schedules small_env lost_sched spare_set" by (rule one_block_schedules[OF spare_fields(1) f(1) spare_fields(2,4,5)])
qed

section \<open>Property\<close>

text \<open>C1. The engine does what it is for, on a set without candidates (\<open>damaged_set\<close>): the packets describe the original files, the files on
  disk are damaged in any way, shortened or gone, but none is longer than recorded, and as many recovery blocks with
  consecutive exponents are there as blocks of the originals do not survive in their place. Then, when no call fails,
  \<open>VerifyScans\<close> and after it \<open>Repair\<close> return no error, under every interleaving of the scan and every fair schedule of the
  repair without a cancellation, and every protected file has its original bytes. Further conditions: no bytes on disk have by chance the MD5 of another
  block or file; the files have different names and identifiers and are not empty; slices are even and at least four bytes and fit,
  with the read buffer, an allocation of \<open>2 ^ 48\<close> bytes; there are at most 32768 blocks and \<open>2 ^ 28\<close> recorded
  checksums; the names of temporary files are free and are no names of protected files.\<close>

theorem damaged_files_are_restored:
  assumes "damaged_set orig d" "\<forall>i k. quiet_env (envs i k)" "fair_schedules e sc d"
  shows "\<exists>d1 d2. VerifyScans envs sched d = (Ret (), d1) \<and> Repair e sc d1 = (Ret (), d2) \<and>
    (\<forall>fd\<in>set (protectedFiles d). \<exists>i. dir (root d2) (Filename fd) = Some i \<and> inodes (root d2) i = orig (Filename fd))"
  using assms by (rule damaged_restored)

theorem damaged_files_are_restored_witness:
  "\<exists>d1 d2. VerifyScans (\<lambda>_ _. quiet_genv) [] spare_set = (Ret (), d1) \<and> Repair small_env lost_sched d1 = (Ret (), d2) \<and>
     (\<exists>i. dir (root d2) (ascii ''a'') = Some i \<and> inodes (root d2) i = [1, 2, 3, 4])"
proof -
  have "Filename sample_file = ascii ''a''" by (simp add: sample_file_def)
  then show ?thesis
    using damaged_files_are_restored[OF spare_damaged(1) _ spare_damaged(2), of "\<lambda>_ _. quiet_genv" "[]"] sample_ok(8)
    by (auto simp: spare_fields)
qed

text \<open>The repair of the lost file, for the properties of \<open>Repair\<close>.\<close>

lemma spare_repaired:
  obtains d1 d2 where "VerifyScans (\<lambda>_ _. quiet_genv) [] spare_set = (Ret (), d1)" "Repair small_env lost_sched d1 = (Ret (), d2)"
  using damaged_restored[OF spare_damaged(1) _ spare_damaged(2), of "\<lambda>_ _. quiet_genv" "[]"] sample_ok(8) by auto

theorem repaired_files_are_intact_witness:
  "\<exists>d1 d2. VerifyScans (\<lambda>_ _. quiet_genv) [] spare_set = (Ret (), d1) \<and> Repair small_env lost_sched d1 = (Ret (), d2) \<and>
     (\<exists>i. dir (root d2) (ascii ''a'') = Some i \<and> md5 (inodes (root d2) i) = md5 [1, 2, 3, 4])"
proof -
  obtain d1 d2 where d: "VerifyScans (\<lambda>_ _. quiet_genv) [] spare_set = (Ret (), d1)" "Repair small_env lost_sched d1 = (Ret (), d2)"
    using spare_repaired .
  have "sample_file \<in> set (protectedFiles spare_set)" "Filename sample_file = ascii ''a''" "fd_Hash sample_file = md5 [1, 2, 3, 4]"
    by (simp_all add: spare_fields) (simp_all add: sample_file_def)
  then show ?thesis using bspec[OF repaired_files_are_intact[OF spare_disk(2) d]] d by metis
qed

theorem repair_loses_nothing_witness:
  "\<exists>d1 d2. VerifyScans (\<lambda>_ _. quiet_genv) [] spare_set = (Ret (), d1) \<and> Repair small_env lost_sched d1 = (Ret (), d2) \<and>
     dir (root d2) (ascii ''b'') = Some 0 \<and> inodes (root d2) 0 = [1, 2, 3, 4]"
proof -
  obtain d1 d2 where d: "VerifyScans (\<lambda>_ _. quiet_genv) [] spare_set = (Ret (), d1)" "Repair small_env lost_sched d1 = (Ret (), d2)"
    using spare_repaired .
  have "dir (root spare_set) (ascii ''b'') = Some 0" "inodes (root spare_set) 0 = [1, 2, 3, 4]" "Filename sample_file \<noteq> ascii ''b''"
    "candidate_names spare_set = {}"
    by (simp_all add: spare_fields candidate_names_def) (simp_all add: spare_world_def lost_world_def sample_world_def sample_file_def ascii_def)
  then show ?thesis using repair_loses_nothing[OF spare_disk(2) d, of "ascii ''b''" 0] d by (auto simp: spare_fields)
qed

end
