(* ===== verification/Sample_Run.thy ===== *)
theory Sample_Run
  imports Verify_Restores
begin

text \<open>
  A PAR2 set as bytes: an index file with a main packet, the description and the checksums of one file of one block, and the recovery
  block with exponent 0. Loading it gives a set in the sense of \<open>damaged_set\<close>, with the file missing. The program is run on it
  in \<open>CLI\<close>.
\<close>

section \<open>Packets\<close>

definition packet_of :: "bytes \<Rightarrow> bytes \<Rightarrow> bytes \<Rightarrow> Header \<times> bytes" where
  "packet_of sid t body =
     (\<lparr>Magic = expectedMagic, Length = of_nat (64 + length body), Hash = ComputePacketHash sid t body, RecoverySetID = sid, Type = t\<rparr>, body)"

lemma packet_types:
  "length MainPacketType = 16" "length FileDescPacketType = 16" "length IFSCPacketType = 16" "length RecoveryPacketType = 16"
  "FileDescPacketType \<noteq> MainPacketType" "IFSCPacketType \<noteq> MainPacketType" "RecoveryPacketType \<noteq> MainPacketType"
  "IFSCPacketType \<noteq> FileDescPacketType" "RecoveryPacketType \<noteq> FileDescPacketType" "RecoveryPacketType \<noteq> IFSCPacketType"
  by (simp_all add: MainPacketType_def FileDescPacketType_def IFSCPacketType_def RecoveryPacketType_def pad16_def ascii_def)

lemma packet_of_authentic:
  assumes "length sid = 16" "length t = 16" "length body mod 4 = 0" "length body < 2 ^ 32"
  shows "authentic (fst (packet_of sid t body)) (snd (packet_of sid t body))"
proof -
  have u: "unat (of_nat (64 + length body) :: u64) = 64 + length body" using assms(4) by (intro unat_of_nat_u64) simp
  moreover have "64 \<le> (of_nat (64 + length body) :: u64)" unfolding word_le_nat_alt u by simp
  moreover have "(of_nat (64 + length body) :: u64) mod 4 = 0" unfolding unat_mod_4[symmetric] u using assms(3) by presburger
  ultimately show ?thesis using assms(1,2) by (simp add: packet_of_def authentic_def header_ok_def ComputePacketHash_def)
qed

lemma packet_of_fields [simp]:
  "RecoverySetID (fst (packet_of sid t body)) = sid" "Type (fst (packet_of sid t body)) = t" "snd (packet_of sid t body) = body"
  by (simp_all add: packet_of_def)

lemma length_packet: "length (packet_bytes (packet_of sid t body)) = 8 + 8 + 16 + length sid + length t + length body"
  by (simp add: packet_bytes_def packet_of_def header_bytes_def length_expectedMagic ComputePacketHash_def)

section \<open>The set\<close>

definition run_id :: FileID where
  "run_id = computeFileID (md5 [1, 2, 3, 4]) 4 [0x61]"

definition run_file :: FileDescPacket where
  "run_file = \<lparr>fd_FileID = run_id, fd_Hash = md5 [1, 2, 3, 4], SixteenKHash = md5 [1, 2, 3, 4], ByteCount = 4, Filename = [0x61]\<rparr>"

definition run_main :: mainPacket where
  "run_main = \<lparr>SliceByteCount = 4, RecoverySet = [run_id], NonRecoverySet = []\<rparr>"

definition run_ifsc :: IFSCPacket where
  "run_ifsc = \<lparr>ifsc_FileID = run_id, ChecksumPairs = [sample_pair]\<rparr>"

definition run_recovery :: recoveryPacket where
  "run_recovery = \<lparr>Exponent = 0, Data = [1, 2, 3, 4]\<rparr>"

definition file_body :: bytes where
  "file_body = run_id @ md5 [1, 2, 3, 4] @ md5 [1, 2, 3, 4] @ le_bytes 8 (4 :: u64) @ [0x61, 0, 0, 0]"

definition run_sid :: bytes where
  "run_sid = replicate 16 1"

definition run_packets :: "(Header \<times> bytes) list" where
  "run_packets =
     [packet_of run_sid MainPacketType (main_body run_main), packet_of run_sid FileDescPacketType file_body,
      packet_of run_sid IFSCPacketType (ifsc_body run_ifsc), packet_of run_sid RecoveryPacketType (recovery_body run_recovery)]"

definition run_index :: name where
  "run_index = ascii ''s.par2''"

definition run_world :: world where
  "run_world = \<lparr>dir = [run_index \<mapsto> 0], inodes = (\<lambda>_. concat (map packet_bytes run_packets)), nextInode = 1, listing = [run_index],
     separator = slash, randText = (\<lambda>_. replicate 16 0x41), ticks = 0, faults = (\<lambda>_. None), cancelAt = None\<rparr>"

lemma length_run_id [simp]: "length run_id = 16"
  by (simp add: run_id_def computeFileID_def)

lemma run_parses:
  "ParseMainPacket (main_body run_main) = Ret run_main" "ParseFileDescPacket slash file_body = Ret (Some run_file)"
  "ParseIFSCPacket (ifsc_body run_ifsc) = Ret run_ifsc" "ParseRecoveryPacket (recovery_body run_recovery) = Ret run_recovery"
proof -
  show "ParseMainPacket (main_body run_main) = Ret run_main"
    by (rule ParseMainPacket_body) (simp add: main_ok_def run_main_def)
  show "ParseIFSCPacket (ifsc_body run_ifsc) = Ret run_ifsc"
    by (rule ParseIFSCPacket_body) (simp add: ifsc_ok_def run_ifsc_def sample_pair_def)
  show "ParseRecoveryPacket (recovery_body run_recovery) = Ret run_recovery"
    by (rule ParseRecoveryPacket_body) (simp add: recovery_ok_def run_recovery_def)
  have "DefangPath slash (DecodeNullPaddedASCIIString [0x61, 0, 0, 0]) = Ret [0x61]" by code_simp
  moreover have "le_word (le_bytes 8 (4 :: u64)) = (4 :: u64)" by (simp add: le_word_le_bytes)
  moreover have "\<not> maxInt < 4" "unat (4 :: u64) = 4" by (simp_all add: maxInt_def)
  ultimately show "ParseFileDescPacket slash file_body = Ret (Some run_file)"
    by (simp add: ParseFileDescPacket_def file_body_def run_file_def Let_def) (simp add: run_id_def)
qed

lemma run_lengths:
  "length (main_body run_main) = 28" "length file_body = 60" "length (ifsc_body run_ifsc) = 36" "length (recovery_body run_recovery) = 8"
  by (simp_all add: main_body_def run_main_def file_body_def ifsc_body_def run_ifsc_def pair_bytes_def sample_pair_def recovery_body_def run_recovery_def)

lemma run_good: "60 \<le> limit \<Longrightarrow> good_packets run_sid limit run_packets"
  using packet_of_authentic[of run_sid]
  by (simp add: good_packets_def run_packets_def case_prod_beta packet_types run_lengths) (simp add: run_sid_def zeroID_def packet_types run_lengths)

lemma run_file_size: "length (concat (map packet_bytes run_packets)) = 388"
  by (simp add: run_packets_def length_packet packet_types run_lengths run_sid_def)

section \<open>Loading\<close>

text \<open>What loading gives, up to the clock of the machine.\<close>

definition run_set_of :: "Decoder \<Rightarrow> Decoder" where
  "run_set_of d = d\<lparr>recoverySetID := run_sid, sliceByteCount := 4, protectedFiles := [run_file], fileChecksums := [(run_id, run_ifsc)],
     parityShards := [(0, [1, 2, 3, 4])], parityFileBlocks := [(run_index, 1)]\<rparr>"

lemma run_handled:
  assumes "separator (root d) = slash" "protectedFiles d = []" "fileChecksums d = []" "Decoder.parityShards d = []" "parityFileBlocks d = []"
  shows "forG (\<lambda>(h, body). handlePacket run_index h body) run_packets (d\<lparr>recoverySetID := run_sid\<rparr>) = (Ret (), run_set_of d)"
proof -
  have f: "SliceByteCount run_main = 4" "fd_FileID run_file = run_id" "ifsc_FileID run_ifsc = run_id" "Exponent run_recovery = 0" "Data run_recovery = [1, 2, 3, 4]"
    by (simp_all add: run_file_def run_main_def run_ifsc_def run_recovery_def)
  show ?thesis
    using assms
    by (simp add: run_packets_def case_prod_beta handlePacket_def packet_types run_parses go_basic run_set_of_def storeRecovery_def count_of_def f)
qed

lemma run_loads:
  assumes "60 \<le> MaxPacketSize opts" "388 \<le> MaxFileSize opts"
  obtains n where "NewDecoder e opts run_index run_world = Ret (later n (run_set_of (newDecoderState e opts run_world)))"
proof -
  let ?d = "newDecoderState e opts (run_world\<lparr>ticks := 2\<rparr>)"
  have w: "quiet (root ?d)" "dir (root ?d) run_index = Some 0" "inodes (root ?d) 0 = concat (map packet_bytes run_packets)"
    "separator (root ?d) = slash" "listing (root ?d) = [run_index]"
    by (simp_all add: newDecoderState_def run_world_def quiet_def)
  have "int (length (inodes (root ?d) 0)) \<le> maxFileSize ?d" unfolding w(3) run_file_size using assms by (simp add: newDecoderState_def)
  moreover have "good_packets run_sid (maxPacketSize ?d) run_packets" using run_good assms by (simp add: newDecoderState_def)
  moreover have "recoverySetID ?d \<in> {zeroID, run_sid}" by (simp add: newDecoderState_def)
  ultimately obtain n where "streamPAR2Packets run_index (handlePacket run_index) ?d = apsnd (later n) (forG (\<lambda>(h, body). handlePacket run_index h body) run_packets
      (if run_packets = [] then ?d else ?d\<lparr>recoverySetID := run_sid\<rparr>))"
    using index.stream_packets[OF w(1-3)] by blast
  moreover have "run_packets \<noteq> []" by (simp add: run_packets_def)
  moreover have "forG (\<lambda>(h, body). handlePacket run_index h body) run_packets (?d\<lparr>recoverySetID := run_sid\<rparr>) = (Ret (), run_set_of ?d)"
    by (rule run_handled) (simp_all add: w(4), simp_all add: newDecoderState_def)
  ultimately have "streamPAR2Packets run_index (handlePacket run_index) ?d = (Ret (), later n (run_set_of ?d))" by simp
  moreover have "(later n (run_set_of ?d))\<lparr>protectedFiles := sort_files (protectedFiles (later n (run_set_of ?d)))\<rparr> = later n (run_set_of ?d)"
    by (simp add: later_def run_set_of_def sort_files_def)
  ultimately have index: "loadIndexFile run_index ?d = (Ret (), later n (run_set_of ?d))" by (simp add: loadIndexFile_def go_basic)
  have f: "faults (root (later n (run_set_of ?d))) k = None" "cancelAt (root (later n (run_set_of ?d))) = None" for n k
    using w(1) by (simp_all add: later_def run_set_of_def quiet_def)
  have "loadVolumeFiles run_index (later n (run_set_of ?d)) = (Ret (), later (n + 3) (run_set_of ?d))"
    using w(5) f by (simp add: loadVolumeFiles_def loadVolume_def go_defs onRoot_def later_def run_set_of_def)
  moreover have "bindG sysCall (\<lambda>_. sysCall) run_world = (Ret (), run_world\<lparr>ticks := 2\<rparr>)"
    by (simp add: go_defs run_world_def)
  ultimately have "NewDecoder e opts run_index run_world = Ret (later (n + 3) (run_set_of ?d))"
    using index by (simp add: NewDecoder_def go_basic)
  moreover have "later (n + 3) (run_set_of ?d) = later (n + 5) (run_set_of (newDecoderState e opts run_world))"
    by (simp add: later_def run_set_of_def newDecoderState_def run_world_def)
  ultimately show thesis using that by simp
qed

section \<open>The loaded set\<close>

lemma run_ready:
  assumes d: "d = later n (run_set_of (newDecoderState e opts run_world))" and e: "0 < NumGoroutines opts"
  shows "damaged_set (\<lambda>_. [1, 2, 3, 4]) d" "repairable_set d" "NumGoroutines opts = 1 \<Longrightarrow> fair_schedules small_env lost_sched d"
proof -
  have f: "protectedFiles d = [run_file]" "sliceByteCount d = 4" "fileChecksums d = [(fd_FileID run_file, run_ifsc)]"
    "Decoder.parityShards d = [(0, [1, 2, 3, 4])]" "candidateFiles d = []" "candidateByID d = []" "0 \<le> memoryLimit d" "numGoroutines d = NumGoroutines opts"
    using e by (simp_all add: d later_def run_set_of_def newDecoderState_def run_file_def)
  have w: "dir (root d) = [run_index \<mapsto> 0]" "nextInode (root d) = 1" "\<And>k. randText (root d) k = replicate 16 0x41" "quiet (root d)"
    by (simp_all add: d later_def run_set_of_def newDecoderState_def run_world_def quiet_def)
  have r: "ByteCount run_file = 4" "fd_Hash run_file = md5 [1, 2, 3, 4]" "ChecksumPairs run_ifsc = [sample_pair]" "Filename run_file = [0x61]"
    by (simp_all add: run_file_def run_ifsc_def)
  have i: "length run_index = 6" "run_index \<noteq> [0x61]" by (simp_all add: run_index_def ascii_def)
  have l: "length (tempName t (replicate 16 0x41)) > 6" for t by (simp add: tempName_def repairTempMarker_def ascii_def)
  have t: "tempName t (replicate 16 0x41) \<noteq> [0x61]" "tempName t (replicate 16 0x41) \<noteq> run_index" for t
    using l[of t] i(1) by (auto dest!: arg_cong[of _ _ length])
  have "disk_ready d" using t by (simp add: disk_ready_def wf_world_def temps_apart_def f w r)
  moreover have "no_chance (\<lambda>_. [1, 2, 3, 4]) d run_file" using i by (simp add: no_chance_def w r)
  ultimately show "damaged_set (\<lambda>_. [1, 2, 3, 4]) d"
    using e by (intro one_block_damaged[OF f(1) r(1,2) f(2,3) r(3) f(4-7)]) (simp_all add: f)
  show "repairable_set d" using t by (simp add: repairable_set_def candidate_names_def wf_world_def temps_apart_def f w r)
  show "fair_schedules small_env lost_sched d" if "NumGoroutines opts = 1"
    using that by (intro one_block_schedules[OF f(1) r(1) f(2,4)]) (simp add: f)
qed

end
