(* ===== verification/Flags.thy ===== *)
theory Flags
  imports Decoder
begin

text \<open>
  The parts of Go's standard library that \<open>src/cmd/gopar/main.go\<close> uses to read its arguments: \<open>FlagSet.Parse\<close> of
  package \<open>flag\<close> with error handling \<open>ContinueOnError\<close>, and \<open>ParseInt\<close> (base 0, 64 bits) and \<open>ParseBool\<close> of package
  \<open>strconv\<close>, with which flags of type \<open>int\<close>, \<open>int64\<close> and \<open>bool\<close> are set. A failure is \<open>None\<close>: the program
  looks only at whether there was one.
\<close>

section \<open>Numbers and truth values\<close>

definition lower :: "u8 \<Rightarrow> u8" where
  "lower c = c OR 0x20"

definition digit_of :: "u8 \<Rightarrow> nat option" where
  "digit_of c =
     (if 0x30 \<le> c \<and> c \<le> 0x39 then Some (unat (c - 0x30))
      else if 0x61 \<le> lower c \<and> lower c \<le> 0x7a then Some (unat (lower c - 0x61 + 10))
      else None)"

fun digits_value :: "nat \<Rightarrow> bytes \<Rightarrow> nat \<Rightarrow> nat option" where
  "digits_value base [] n = Some n"
| "digits_value base (c # cs) n =
     (if c = 0x5f then digits_value base cs n
      else case digit_of c of
          None \<Rightarrow> None
        | Some d \<Rightarrow>
            if base \<le> d \<or> 2 ^ 64 \<le> n * base + d then None
            else digits_value base cs (n * base + d))"

definition split_base :: "bytes \<Rightarrow> nat \<times> bytes" where
  "split_base s =
     (if hd s \<noteq> 0x30 then (10, s)
      else if 3 \<le> length s \<and> lower (s ! 1) = 0x62 then (2, drop 2 s)
      else if 3 \<le> length s \<and> lower (s ! 1) = 0x6f then (8, drop 2 s)
      else if 3 \<le> length s \<and> lower (s ! 1) = 0x78 then (16, drop 2 s)
      else (8, drop 1 s))"

text \<open>The last character seen by \<open>underscoreOK\<close>: none, a digit, an underscore, something else.\<close>

datatype saw = SawStart | SawDigit | SawUnderscore | SawOther

fun underscore_loop :: "bool \<Rightarrow> saw \<Rightarrow> bytes \<Rightarrow> bool" where
  "underscore_loop hex saw [] = (saw \<noteq> SawUnderscore)"
| "underscore_loop hex saw (c # cs) =
     (if 0x30 \<le> c \<and> c \<le> 0x39 \<or> hex \<and> 0x61 \<le> lower c \<and> lower c \<le> 0x66 then underscore_loop hex SawDigit cs
      else if c = 0x5f then saw = SawDigit \<and> underscore_loop hex SawUnderscore cs
      else saw \<noteq> SawUnderscore \<and> underscore_loop hex SawOther cs)"

definition underscoreOK :: "bytes \<Rightarrow> bool" where
  "underscoreOK s =
     (if 2 \<le> length s \<and> hd s = 0x30 \<and> lower (s ! 1) \<in> {0x62, 0x6f, 0x78}
      then underscore_loop (lower (s ! 1) = 0x78) SawDigit (drop 2 s)
      else underscore_loop False SawStart s)"

definition ParseUint :: "bytes \<Rightarrow> nat option" where
  "ParseUint s =
     (if s = [] then None
      else case split_base s of (base, ds) \<Rightarrow>
        (case digits_value base ds 0 of
           None \<Rightarrow> None
         | Some n \<Rightarrow> if 0x5f \<in> set ds \<and> \<not> underscoreOK s then None else Some n))"

definition ParseInt :: "bytes \<Rightarrow> int option" where
  "ParseInt s =
     (if s = [] then None
      else let neg = hd s = 0x2d;
               u = (if hd s = 0x2b \<or> neg then tl s else s)
        in case ParseUint u of
             None \<Rightarrow> None
           | Some un \<Rightarrow>
               if \<not> neg \<and> 2 ^ 63 \<le> un \<or> neg \<and> 2 ^ 63 < un then None
               else Some (if neg then - int un else int un))"

definition ParseBool :: "bytes \<Rightarrow> bool option" where
  "ParseBool s =
     (if s \<in> set (map ascii [''1'', ''t'', ''T'', ''TRUE'', ''true'', ''True'']) then Some True
      else if s \<in> set (map ascii [''0'', ''f'', ''F'', ''FALSE'', ''false'', ''False'']) then Some False
      else None)"

section \<open>Flags\<close>

text \<open>A registered flag: whether it is one that needs no argument, and what setting it does to the variables.\<close>

record 'o flag_value =
  IsBoolFlag :: bool
  SetFlag :: "bytes \<Rightarrow> 'o \<Rightarrow> 'o option"

text \<open>What \<open>parseOne\<close> comes to: a flag was set, the flags are over, or an error.\<close>

datatype 'o seen = Seen "bytes list" 'o | Over "bytes list" | Refused

definition set_with :: "'o option \<Rightarrow> bytes list \<Rightarrow> 'o seen" where
  "set_with r args = (case r of None \<Rightarrow> Refused | Some v \<Rightarrow> Seen args v)"

definition split_name :: "bytes \<Rightarrow> bytes \<times> bytes option" where
  "split_name nm =
     (let n = hd nm # takeWhile (\<lambda>b. b \<noteq> 0x3d) (tl nm)
      in (n, if length n < length nm then Some (drop (length n + 1) nm) else None))"

fun set_flag :: "'o flag_value \<Rightarrow> bytes option \<Rightarrow> bytes list \<Rightarrow> 'o \<Rightarrow> 'o seen" where
  "set_flag fv (Some v) args vars = set_with (SetFlag fv v vars) args"
| "set_flag fv None args vars =
     (if IsBoolFlag fv then set_with (SetFlag fv (ascii ''true'') vars) args
      else case args of [] \<Rightarrow> Refused | v # args \<Rightarrow> set_with (SetFlag fv v vars) args)"

definition parseOne :: "(bytes \<Rightarrow> 'o flag_value option) \<Rightarrow> bytes list \<Rightarrow> 'o \<Rightarrow> 'o seen" where
  "parseOne formal args vars =
     (case args of
        [] \<Rightarrow> Over []
      | s # rest \<Rightarrow>
          if length s < 2 \<or> hd s \<noteq> 0x2d then Over args
          else if s = ascii ''--'' then Over rest
          else let nm = (if s ! 1 = 0x2d then drop 2 s else drop 1 s)
            in if hd nm = 0x2d \<or> hd nm = 0x3d then Refused
               else case split_name nm of (n, v) \<Rightarrow>
                 (case formal n of None \<Rightarrow> Refused | Some fv \<Rightarrow> set_flag fv v rest vars))"

lemma set_flag_shorter: "set_flag fv v args vars = Seen args' vars' \<Longrightarrow> length args' \<le> length args"
  by (cases "(fv, v, args, vars)" rule: set_flag.cases) (auto simp: set_with_def split: option.splits if_splits list.splits)

lemma parseOne_shorter: "parseOne formal args vars = Seen args' vars' \<Longrightarrow> length args' < length args"
  using set_flag_shorter by (fastforce simp: parseOne_def Let_def split: list.splits if_splits option.splits prod.splits)

function Parse :: "(bytes \<Rightarrow> 'o flag_value option) \<Rightarrow> bytes list \<Rightarrow> 'o \<Rightarrow> ('o \<times> bytes list) option" where
  "Parse formal args vars =
     (case parseOne formal args vars of
        Seen args' vars' \<Rightarrow> Parse formal args' vars'
      | Over rest \<Rightarrow> Some (vars, rest)
      | Refused \<Rightarrow> None)"
  by pat_completeness auto
termination by (relation "measure (\<lambda>(_, args, _). length args)") (auto dest: parseOne_shorter)

declare Parse.simps [simp del]

section \<open>Decimal numbers\<close>

text \<open>Numbers as they are usually written are read back.\<close>

fun show_nat :: "nat \<Rightarrow> bytes" where
  "show_nat n = (if n < 10 then [] else show_nat (n div 10)) @ [0x30 + of_nat (n mod 10)]"

declare show_nat.simps [simp del]

definition show_int :: "int \<Rightarrow> bytes" where
  "show_int i = (if i < 0 then 0x2d # show_nat (nat (- i)) else show_nat (nat i))"

lemma decimal_digit:
  assumes "d < 10"
  shows "digit_of (0x30 + of_nat d) = Some d" "(0x30 + of_nat d :: u8) \<notin> {0x5f, 0x2d, 0x2b}" "(0x30 + of_nat d :: u8) = 0x30 \<longleftrightarrow> d = 0"
proof -
  have "d \<in> set [0..<10]" using assms by simp
  then have "d = 0 \<or> d = 1 \<or> d = 2 \<or> d = 3 \<or> d = 4 \<or> d = 5 \<or> d = 6 \<or> d = 7 \<or> d = 8 \<or> d = 9"
    by (simp add: upt_rec) auto
  then show "digit_of (0x30 + of_nat d) = Some d" "(0x30 + of_nat d :: u8) \<notin> {0x5f, 0x2d, 0x2b}" "(0x30 + of_nat d :: u8) = 0x30 \<longleftrightarrow> d = 0"
    by (elim disjE; simp add: digit_of_def)+
qed

lemma digits_value_show: "n < 2 ^ 64 \<Longrightarrow> digits_value 10 (show_nat n @ r) 0 = digits_value 10 r n"
proof (induction n arbitrary: r rule: show_nat.induct)
  case (1 n)
  have d: "digit_of (0x30 + of_nat (n mod 10)) = Some (n mod 10)" "(0x30 + of_nat (n mod 10) :: u8) \<noteq> 0x5f"
    using decimal_digit[of "n mod 10"] by auto
  show ?case
  proof (cases "n < 10")
    case True
    then show ?thesis using d by (subst show_nat.simps) simp
  next
    case False
    then have "digits_value 10 (show_nat (n div 10) @ (0x30 + of_nat (n mod 10)) # r) 0 =
        digits_value 10 ((0x30 + of_nat (n mod 10)) # r) (n div 10)"
      using 1 by simp
    moreover have "n div 10 * 10 + n mod 10 = n" "\<not> 10 \<le> n mod 10" by simp_all
    ultimately show ?thesis using d 1(2) False by (subst show_nat.simps) simp
  qed
qed

lemma show_nat_chars: "show_nat n \<noteq> []" "b \<in> set (show_nat n) \<Longrightarrow> b \<notin> {0x5f, 0x2d, 0x2b}"
  "hd (show_nat n) = 0x30 \<longleftrightarrow> n = 0"
proof -
  show ne: "show_nat n \<noteq> []" for n by (subst show_nat.simps) simp
  show "b \<in> set (show_nat n) \<Longrightarrow> b \<notin> {0x5f, 0x2d, 0x2b}"
  proof (induction n rule: show_nat.induct)
    case (1 n)
    then show ?case using decimal_digit(2)[of "n mod 10"] by (subst (asm) (2) show_nat.simps) (auto split: if_splits)
  qed
  show "hd (show_nat n) = 0x30 \<longleftrightarrow> n = 0"
  proof (induction n rule: show_nat.induct)
    case (1 n)
    then show ?case
      using decimal_digit(3)[of n] ne[of "n div 10"] by (cases "n < 10"; subst show_nat.simps) (simp_all add: hd_append)
  qed
qed

lemma ParseUint_show: "n < 2 ^ 64 \<Longrightarrow> ParseUint (show_nat n) = Some n"
proof (cases "n = 0")
  case True
  then show ?thesis by (simp add: show_nat.simps ParseUint_def split_base_def)
next
  case False
  moreover assume "n < 2 ^ 64"
  ultimately show ?thesis
    using digits_value_show[of n "[]"] show_nat_chars[where n = n] by (auto simp: ParseUint_def split_base_def)
qed

lemma ParseInt_show:
  assumes "- (2 ^ 63) \<le> i" "i < 2 ^ 63"
  shows "ParseInt (show_int i) = Some i"
proof (cases "i < 0")
  case True
  then have "nat (- i) \<le> 2 ^ 63" using assms by (simp add: nat_le_iff)
  then show ?thesis using True ParseUint_show[of "nat (- i)"] by (simp add: ParseInt_def show_int_def)
next
  case False
  then have n: "nat i < 2 ^ 63" using assms by (simp add: nat_less_iff)
  have "hd (show_nat (nat i)) \<notin> {0x5f, 0x2d, 0x2b}" using show_nat_chars hd_in_set by metis
  then show ?thesis using False n ParseUint_show[of "nat i"] show_nat_chars(1) by (auto simp: ParseInt_def show_int_def)
qed

end
