(* ===== verification/CLI.thy ===== *)
theory CLI
  imports Sample_Run Flags
begin

text \<open>
  The command line of \<open>src/cmd/gopar/main.go\<close>: its flags and arguments, the limits passed to the decoder, the
  candidates, and the exit codes of \<open>verify\<close> and \<open>repair\<close>. \<open>numCPU\<close> stands for \<open>runtime.NumCPU\<close>, \<open>glob\<close> for \<open>filepath.Glob\<close> and
  \<open>filepath.Rel\<close> on the directory of the set, \<open>profilePath\<close> for the resolution of the path of a profile, which is relative to
  the working directory: it is the name in the directory of the set that the path leads to, or \<open>None\<close> if it leads elsewhere.
  The content of the profiles is arbitrary. It is written when the program ends, although the CPU profiler may flush parts of it
  earlier. Commands are ASCII. Output and signals as such are not modelled.
\<close>

section \<open>Options\<close>

definition ExitSuccess :: int where "ExitSuccess = 0"
definition ExitRepairPossible :: int where "ExitRepairPossible = 1"
definition ExitRepairNotPossible :: int where "ExitRepairNotPossible = 2"
definition ExitInvalidCommandLineArguments :: int where "ExitInvalidCommandLineArguments = 3"
definition ExitLogicError :: int where "ExitLogicError = 4"

lemmas exit_codes = ExitSuccess_def ExitRepairPossible_def ExitRepairNotPossible_def ExitInvalidCommandLineArguments_def
  ExitLogicError_def

record cliOptions =
  numThreads :: int
  memMB :: int
  cpuProfile :: bytes
  memProfile :: bytes
  maxFileSizeMB :: int
  verbose :: bool
  versionFlag :: bool
  candidates :: "bytes list"
  cmd :: bytes
  par2Path :: bytes

text \<open>The variables of \<open>parseCLIFlags\<close> with the defaults of their flags; the fields \<open>cmd\<close> and \<open>par2Path\<close> are filled in
  from the arguments that follow the flags.\<close>

definition default_options :: "int \<Rightarrow> cliOptions" where
  "default_options cpus =
     \<lparr>numThreads = cpus, memMB = 16, cpuProfile = [], memProfile = [], maxFileSizeMB = 100, verbose = False,
      versionFlag = False, candidates = [], cmd = [], par2Path = []\<rparr>"

definition version_options :: cliOptions where
  "version_options =
     \<lparr>numThreads = 0, memMB = 0, cpuProfile = [], memProfile = [], maxFileSizeMB = 0, verbose = False,
      versionFlag = True, candidates = [], cmd = [], par2Path = []\<rparr>"

definition int_flag :: "((int \<Rightarrow> int) \<Rightarrow> 'o \<Rightarrow> 'o) \<Rightarrow> 'o flag_value" where
  "int_flag upd = \<lparr>IsBoolFlag = False, SetFlag = (\<lambda>v vars. map_option (\<lambda>i. upd (\<lambda>_. i) vars) (ParseInt v))\<rparr>"

definition bool_flag :: "((bool \<Rightarrow> bool) \<Rightarrow> 'o \<Rightarrow> 'o) \<Rightarrow> 'o flag_value" where
  "bool_flag upd = \<lparr>IsBoolFlag = True, SetFlag = (\<lambda>v vars. map_option (\<lambda>b. upd (\<lambda>_. b) vars) (ParseBool v))\<rparr>"

definition string_flag :: "((bytes \<Rightarrow> bytes) \<Rightarrow> 'o \<Rightarrow> 'o) \<Rightarrow> 'o flag_value" where
  "string_flag upd = \<lparr>IsBoolFlag = False, SetFlag = (\<lambda>v vars. Some (upd (\<lambda>_. v) vars))\<rparr>"

text \<open>A flag that accumulates the values it is given.\<close>

definition stringSliceFlag :: "((bytes list \<Rightarrow> bytes list) \<Rightarrow> 'o \<Rightarrow> 'o) \<Rightarrow> 'o flag_value" where
  "stringSliceFlag upd = \<lparr>IsBoolFlag = False, SetFlag = (\<lambda>v vars. Some (upd (\<lambda>s. s @ [v]) vars))\<rparr>"

definition cli_flags :: "(bytes \<times> cliOptions flag_value) list" where
  "cli_flags =
     [(ascii ''t'', int_flag numThreads_update),
      (ascii ''m'', int_flag memMB_update),
      (ascii ''cpuprofile'', string_flag cpuProfile_update),
      (ascii ''memprofile'', string_flag memProfile_update),
      (ascii ''max-file-size'', int_flag maxFileSizeMB_update),
      (ascii ''v'', bool_flag verbose_update),
      (ascii ''version'', bool_flag versionFlag_update),
      (ascii ''candidate'', stringSliceFlag candidates_update)]"

definition known_commands :: "bytes list" where
  "known_commands = [ascii ''v'', ascii ''verify'', ascii ''r'', ascii ''repair'']"

definition parseCLIFlags :: "int \<Rightarrow> bytes list \<Rightarrow> cliOptions option \<times> int" where
  "parseCLIFlags cpus args =
     (case Parse (map_of cli_flags) args (default_options cpus) of
        None \<Rightarrow> (None, ExitInvalidCommandLineArguments)
      | Some (vars, parsedArgs) \<Rightarrow>
          if versionFlag vars then (Some version_options, ExitSuccess)
          else (case parsedArgs of
              c # path # _ \<Rightarrow>
                let c = map toLower c in
                if c \<notin> set known_commands then (None, ExitInvalidCommandLineArguments)
                else (Some (vars\<lparr>cmd := c, par2Path := path\<rparr>), ExitSuccess)
            | _ \<Rightarrow> (None, ExitInvalidCommandLineArguments)))"

definition decoderOptions :: "cliOptions \<Rightarrow> DecoderOptions" where
  "decoderOptions opts =
     (let memLimitBytes = int64 (memMB opts * 1024 * 1024);
          maxFileLimitBytes = int64 (maxFileSizeMB opts * 1024 * 1024);
          maxPacketLimitBytes = max (int64 (maxFileLimitBytes * 5) sdiv 4) (128 * 1024 * 1024)
      in \<lparr>NumGoroutines = numThreads opts, MemoryLimit = memLimitBytes, MaxFileSize = maxFileLimitBytes,
          MaxPacketSize = maxPacketLimitBytes\<rparr>)"

definition Base :: "u8 \<Rightarrow> bytes \<Rightarrow> bytes" where
  "Base sep path =
     (if path = [] then [dot]
      else let b = takeWhile (\<lambda>b. b \<noteq> sep) (dropWhile (\<lambda>b. b = sep) (rev path))
        in if b = [] then [sep] else rev b)"

section \<open>Commands\<close>

definition isPattern :: "bytes \<Rightarrow> bool" where
  "isPattern c \<longleftrightarrow> list_ex (\<lambda>b. b = 0x2a \<or> b = 0x3f \<or> b = 0x5b) c"

definition expandCandidates :: "(bytes \<Rightarrow> bytes list res) \<Rightarrow> bytes list \<Rightarrow> unit dec" where
  "expandCandidates glob =
     forG (\<lambda>c. if \<not> isPattern c then AddCandidateFile c
                else bindG (liftR (glob c)) (forG AddCandidateFile))"

definition runVerificationAndReport :: "(nat \<Rightarrow> nat \<Rightarrow> genv) \<Rightarrow> nat list \<Rightarrow> (ShardCounts \<times> int) dec" where
  "runVerificationAndReport envs sched =
     tryG (VerifyScans envs sched) (\<lambda>_. bindG (getG shardCountsLocked) (\<lambda>counts. retG (counts, ExitSuccess)))
       (\<lambda>_. retG (\<lparr>UsableDataShardCount = 0, UnusableDataShardCount = 0, UsableParityShardCount = 0,
          UnusableParityShardCount = 0, RenamesNeeded = 0, FilesNeedingRebuild = 0\<rparr>, ExitLogicError))"

definition handleVerifyCommand :: "ShardCounts \<Rightarrow> int" where
  "handleVerifyCommand counts =
     (if \<not> RepairNeeded counts then ExitSuccess
      else if RepairPossible counts then ExitRepairPossible
      else ExitRepairNotPossible)"

definition handleRepairCommand :: "env \<Rightarrow> repair_sched \<Rightarrow> ShardCounts \<Rightarrow> int dec" where
  "handleRepairCommand e sc counts =
     (if \<not> RepairNeeded counts then retG ExitSuccess
      else if \<not> RepairPossible counts then retG ExitRepairNotPossible
      else tryG (Repair e sc) (\<lambda>_. retG ExitSuccess) (\<lambda>_. retG ExitRepairNotPossible))"

definition isVerify :: "bytes \<Rightarrow> bool" where
  "isVerify c \<longleftrightarrow> c = ascii ''v'' \<or> c = ascii ''verify''"

definition isRepair :: "bytes \<Rightarrow> bool" where
  "isRepair c \<longleftrightarrow> c = ascii ''r'' \<or> c = ascii ''repair''"

definition dispatch :: "env \<Rightarrow> repair_sched \<Rightarrow> bytes \<Rightarrow> ShardCounts \<Rightarrow> int dec" where
  "dispatch e sc c counts =
     (if isVerify c then retG (handleVerifyCommand counts)
      else if isRepair c then handleRepairCommand e sc counts
      else retG ExitInvalidCommandLineArguments)"

text \<open>What the run is given: the machine, the schedules of the goroutines and the file name patterns.\<close>

record cli_env =
  machine :: env
  numCPU :: int
  scanEnvs :: "nat \<Rightarrow> nat \<Rightarrow> genv"
  scanSched :: "nat list"
  repairSched :: repair_sched
  globber :: "bytes \<Rightarrow> bytes list res"
  profilePath :: "bytes \<Rightarrow> name option"
  cpuData :: bytes
  memData :: bytes
  unwinds :: bool

section \<open>Profiles\<close>

text \<open>\<open>os.Create\<close>: an existing file is truncated, a missing one is created. The result is the file if it is in the directory
  of the set.\<close>

definition os_create :: "name option \<Rightarrow> (world, handle option) go" where
  "os_create place = (case place of
       None \<Rightarrow> bindG sysCall (\<lambda>_. retG None)
     | Some n \<Rightarrow> sysWrite (\<lambda>w. case dir w n of
           Some i \<Rightarrow> (Ret (Some i), set_inode i (\<lambda>_. []) w)
         | None \<Rightarrow> (Ret (Some (nextInode w)), w\<lparr>dir := (dir w)(n \<mapsto> nextInode w), listing := listing w @ [n],
                      inodes := (inodes w)(nextInode w := []), nextInode := nextInode w + 1\<rparr>)) (\<lambda>_. id))"

definition write_profile :: "handle option \<Rightarrow> bytes \<Rightarrow> (world, unit) go" where
  "write_profile f bs = (case f of None \<Rightarrow> retG () | Some i \<Rightarrow> tryG (writeAt i bs 0) retG (\<lambda>_. retG ()))"

definition setupProfiling :: "cli_env \<Rightarrow> bytes \<Rightarrow> (world, handle option) go" where
  "setupProfiling ce cpu =
     (if cpu = [] then retG None
      else tryG (os_create (profilePath ce cpu)) (\<lambda>f.
          tryG sysCall (\<lambda>_. retG f) (\<lambda>_. errG ''failed to start CPU profiling''))
        (\<lambda>_. errG ''failed to create CPU profile file''))"

text \<open>The cleanup that \<open>setupProfiling\<close> returns.\<close>

definition cleanup :: "cli_env \<Rightarrow> handle option \<Rightarrow> bytes \<Rightarrow> (world, unit) go" where
  "cleanup ce cpuFile mem =
     bindG (write_profile cpuFile (cpuData ce)) (\<lambda>_.
       if mem = [] then retG ()
       else tryG (os_create (profilePath ce mem)) (\<lambda>f. write_profile f (memData ce)) (\<lambda>_. retG ()))"

section \<open>The program\<close>

definition run_decoder :: "cli_env \<Rightarrow> cliOptions \<Rightarrow> int dec" where
  "run_decoder ce opts =
     tryG (expandCandidates (globber ce) (candidates opts)) (\<lambda>_.
       bindG (runVerificationAndReport (scanEnvs ce) (scanSched ce)) (\<lambda>(counts, code).
         if code \<noteq> ExitSuccess then retG code else dispatch (machine ce) (repairSched ce) (cmd opts) counts))
       (\<lambda>_. retG ExitInvalidCommandLineArguments)"

definition run_set :: "cli_env \<Rightarrow> cliOptions \<Rightarrow> (world, int) go" where
  "run_set ce opts w =
     (case NewDecoder (machine ce) (decoderOptions opts) (Base (separator w) (par2Path opts)) w of
        Ret d \<Rightarrow> (case run_decoder ce opts d of (r, d') \<Rightarrow> (r, root d'))
      | Error _ \<Rightarrow> (Ret ExitInvalidCommandLineArguments, w)
      | Panic p \<Rightarrow> (Panic p, w))"

text \<open>The deferred cleanup runs when \<open>runCLI\<close> returns, and when a panic of its own goroutine unwinds it; a panic of
  another goroutine ends the program at once. \<open>unwinds\<close> says which it is.\<close>

definition runCLI :: "cli_env \<Rightarrow> bytes list \<Rightarrow> (world, int) go" where
  "runCLI ce args w =
     (case parseCLIFlags (numCPU ce) args of
        (None, code) \<Rightarrow> (Ret code, w)
      | (Some opts, _) \<Rightarrow>
          if versionFlag opts then (Ret ExitSuccess, w)
          else (case setupProfiling ce (cpuProfile opts) w of
              (Ret cpuFile, w1) \<Rightarrow>
                (case run_set ce opts w1 of (r, w2) \<Rightarrow>
                   (r, if is_ret r \<or> unwinds ce then snd (cleanup ce cpuFile (memProfile opts) w2) else w2))
            | (Error _, w1) \<Rightarrow> (Ret ExitLogicError, w1)
            | (Panic p, w1) \<Rightarrow> (Panic p, w1)))"

section \<open>Verification only reads\<close>

definition disk_is :: "world \<Rightarrow> FileDescPacket list \<Rightarrow> Decoder \<Rightarrow> bool" where
  "disk_is w fs d \<longleftrightarrow> same_files w (root d) \<and> protectedFiles d = fs"

lemma file_pred_disk_is: "file_pred (disk_is w fs)"
  using same_files_trans by (auto simp: file_pred_def disk_is_def)

lemma keeps_disk_root: "reads m \<Longrightarrow> keeps (disk_is w fs) (onRoot m)"
  by (rule keeps_onRoot[OF file_pred_disk_is])

lemma keeps_disk_state [keeps]: "keeps (disk_is w fs) (updState fid f)" "keeps (disk_is w fs) (setDamage fid dm)"
  by (auto simp: keeps_def updState_def setDamage_def disk_is_def split: option.splits)

lemma reads_hashes: "reads (computeFileMD5 f)" "reads (quickHash16K f n)"
proof -
  have b: "reads (bindG m k)" if "reads m" "\<And>x. reads (k x)" for m :: "(world, 'a) go" and k :: "'a \<Rightarrow> (world, 'b) go"
    unfolding reads_def
  proof
    fix w
    obtain r w1 where m: "m w = (r, w1)" by (cases "m w")
    then have "same_files w w1" using that(1) by (metis reads_def snd_conv)
    then show "same_files w (snd (bindG m k w))"
      using that(2) m same_files_trans by (cases r) (auto simp: bindG_def reads_def)
  qed
  have r: "reads (retG x)" for x :: bytes by (simp add: reads_def retG_def)
  show "reads (computeFileMD5 f)" unfolding computeFileMD5_def by (intro b r reads_ops)
  show "reads (quickHash16K f n)" unfolding quickHash16K_def by (intro b r reads_ops)
qed

lemma keeps_disk_init: "keeps (disk_is w fs) initFileIntegrity"
  unfolding initFileIntegrity_def init_file_def Let_def by (intro keeps) (auto simp: disk_is_def)

lemma keeps_disk_prescans:
  "keeps (disk_is w fs) prescanCandidateMatches" "keeps (disk_is w fs) prescanProtectedMatches" "keeps (disk_is w fs) checkFileExistence"
proof -
  have "keeps (disk_is w fs) (prescan_candidate missing path cid)" for missing path cid
    unfolding prescan_candidate_def by (intro keeps keeps_disk_root reads_ops reads_hashes)
  then have "keeps (disk_is w fs) (prescan_loop missing cs resolved)" for missing cs resolved
    by (induction cs arbitrary: resolved) (auto intro!: keeps keeps_disk_root split: if_splits)
  moreover have "keeps (disk_is w fs) missingByQuickKey" unfolding missingByQuickKey_def by (intro keeps)
  ultimately show "keeps (disk_is w fs) prescanCandidateMatches" unfolding prescanCandidateMatches_def by (intro keeps)
  have "keeps (disk_is w fs) (prescan_protected fd)" for fd
    unfolding prescan_protected_def by (intro keeps keeps_disk_root reads_ops reads_hashes)
  then have "keeps (disk_is w fs) (prescan_protected_loop fds)" for fds
    by (induction fds) (auto intro!: keeps keeps_disk_root)
  then show "keeps (disk_is w fs) prescanProtectedMatches" unfolding prescanProtectedMatches_def by (intro keeps)
  show "keeps (disk_is w fs) checkFileExistence"
    unfolding checkFileExistence_def check_exists_def by (intro keeps keeps_disk_root reads_ops)
qed

lemma keeps_disk_verify: "keeps (disk_is w fs) (scan s envs sched)" "keeps (disk_is w fs) verifyProtectedFilesHashes"
proof -
  show "keeps (disk_is w fs) (scan s envs sched)"
    unfolding scan_def collect_def Let_def by (intro keeps keeps_disk_root) (auto intro!: keeps)
  have "keeps (disk_is w fs) (detectRenameCandidate fd st)" for fd st
    unfolding detectRenameCandidate_def Let_def
    by (auto intro!: keeps keeps_disk_root split: list.split prod.split)
  then show "keeps (disk_is w fs) verifyProtectedFilesHashes"
    unfolding verifyProtectedFilesHashes_def verify_file_def verifySingleFileHash_def
    by (intro keeps keeps_disk_root reads_ops)
qed

lemma keeps_disk_VerifyScans: "keeps (disk_is w fs) (VerifyScans envs sched)"
  unfolding VerifyScans_def by (intro keeps keeps_disk_init keeps_disk_prescans keeps_disk_verify keeps_disk_root reads_ops)

lemma keeps_disk_candidates: "keeps (disk_is w fs) (expandCandidates glob cs)"
  unfolding expandCandidates_def AddCandidateFile_def by (intro keeps) (auto simp: disk_is_def Let_def)

section \<open>Exit codes\<close>

lemma post_true: "post m (\<lambda>_ _. True) (\<lambda>_. True) s"
  by (auto simp: post_def split: prod.splits res.splits)

lemma handle_codes: "handleVerifyCommand counts \<in> {0..4}"
    "post (handleRepairCommand e sc counts) (\<lambda>code _. code \<in> {0..4}) (\<lambda>_. True) d"
  by (simp add: handleVerifyCommand_def exit_codes)
    (auto simp: handleRepairCommand_def post_basic exit_codes post_ret intro!: post_try[where J' = "\<lambda>_. True"] post_true)

lemma run_decoder_codes: "post (run_decoder ce opts) (\<lambda>code _. code \<in> {0..4}) (\<lambda>_. True) d"
proof -
  have "post (dispatch e sc c counts) (\<lambda>code _. code \<in> {0..4}) (\<lambda>_. True) d" for e sc c counts d
    using handle_codes by (simp add: dispatch_def post_basic exit_codes)
  then have after: "post (case x of (counts, code) \<Rightarrow> if code \<noteq> ExitSuccess then retG code else dispatch e sc c counts)
      (\<lambda>code _. code \<in> {0..4}) (\<lambda>_. True) d" if "snd x \<in> {0..4}" for x :: "ShardCounts \<times> int" and e sc c d
    using that by (auto simp: post_basic split: prod.split)
  have report: "post (runVerificationAndReport envs sched) (\<lambda>x _. snd x \<in> {0..4}) (\<lambda>_. True) d" for envs sched d
    unfolding runVerificationAndReport_def
    by (rule post_try[where J' = "\<lambda>_. True"], rule post_mono[OF post_true]) (simp_all add: post_bind post_basic exit_codes)
  show ?thesis
    unfolding run_decoder_def
  proof (rule post_try[where J' = "\<lambda>_. True"])
    show "post (expandCandidates (globber ce) (candidates opts)) (\<lambda>x. post (bindG (runVerificationAndReport (scanEnvs ce) (scanSched ce))
        (\<lambda>(counts, code). if code \<noteq> ExitSuccess then retG code else dispatch (machine ce) (repairSched ce) (cmd opts) counts))
        (\<lambda>code _. code \<in> {0..4}) (\<lambda>_. True)) (\<lambda>_. True) d"
      unfolding post_bind by (rule post_mono[OF post_true], rule post_mono[OF report]) (rule after, assumption, rule TrueI, rule TrueI)
  qed (simp_all add: post_basic exit_codes)
qed

lemma run_decoder_verify:
  assumes "isVerify (cmd opts)"
  shows "keeps (disk_is w fs) (run_decoder ce opts)"
proof -
  have "keeps (disk_is w fs) (dispatch e sc (cmd opts) counts)" for e sc counts
    using assms by (simp add: dispatch_def keeps)
  then show ?thesis
    unfolding run_decoder_def runVerificationAndReport_def
    by (intro keeps_try keeps_bind keeps_simple keeps_disk_candidates keeps_disk_VerifyScans) (auto intro!: keeps split: prod.split)
qed

text \<open>When the decoder runs to exit code 0, the set was verified, and repaired if it had to be.\<close>

lemma run_decoder_success:
  assumes r: "run_decoder ce opts d = (Ret 0, d')" and ids: "distinct (map fd_FileID (protectedFiles d))"
    and rep: "isRepair (cmd opts) \<Longrightarrow> \<forall>dc. expandCandidates (globber ce) (candidates opts) d = (Ret (), dc) \<longrightarrow> repairable_set dc"
    and c: "isVerify (cmd opts) \<or> isRepair (cmd opts)"
  shows "all_hashed (protectedFiles d) (root d')"
proof -
  obtain dc where dc: "expandCandidates (globber ce) (candidates opts) d = (Ret (), dc)"
      "bindG (runVerificationAndReport (scanEnvs ce) (scanSched ce)) (\<lambda>(counts, code).
         if code \<noteq> ExitSuccess then retG code else dispatch (machine ce) (repairSched ce) (cmd opts) counts) dc = (Ret 0, d')"
    using r unfolding run_decoder_def tryG_def by (auto simp: retG_def exit_codes split: prod.splits res.splits)
  have c: "protectedFiles dc = protectedFiles d"
    using keeps_D[OF keeps_disk_candidates _ dc(1), of "root d" "protectedFiles d"] by (simp add: disk_is_def)
  then obtain d1 where d1: "VerifyScans (scanEnvs ce) (scanSched ce) dc = (Ret (), d1)"
      "dispatch (machine ce) (repairSched ce) (cmd opts) (shardCountsLocked d1) d1 = (Ret 0, d')"
    using dc(2) unfolding runVerificationAndReport_def
    by (auto simp: bindG_def tryG_def retG_def getG_def exit_codes split: prod.splits res.splits)
  have verdict: "all_hashed (protectedFiles d) (root d1)" if "\<not> RepairNeeded (shardCountsLocked d1)"
    using VerifyScans_sound[OF _ d1(1)] settled_verdict[OF _ _ that] ids c
    by (fastforce simp: all_hashed_def restored_def content_hash_def sound_def same_files_def)
  show ?thesis
  proof (cases "isVerify (cmd opts)")
    case True
    then have "\<not> RepairNeeded (shardCountsLocked d1)" "d' = d1"
      using d1(2) by (auto simp: dispatch_def handleVerifyCommand_def retG_def exit_codes split: if_splits)
    then show ?thesis using verdict by simp
  next
    case False
    then have rc: "isRepair (cmd opts)" "repairable_set dc" using assms(4) rep dc(1) by blast+
    have "\<not> RepairNeeded (shardCountsLocked d1) \<and> d' = d1 \<or> (\<exists>u. Repair (machine ce) (repairSched ce) d1 = (Ret u, d'))"
      using d1(2) False rc(1)
      by (auto simp: dispatch_def handleRepairCommand_def tryG_def retG_def exit_codes split: if_splits prod.splits res.splits)
    then show ?thesis
      using verdict post_D(1)[OF post_Repair[OF VerifyScans_verified(1)[OF rc(2) d1(1)]]] c by auto
  qed
qed

section \<open>What profiles change\<close>

text \<open>The names in the directory of the set that the flags for profiles lead to.\<close>

definition profile_names :: "cli_env \<Rightarrow> cliOptions \<Rightarrow> name set" where
  "profile_names ce opts = {n. \<exists>p\<in>{cpuProfile opts, memProfile opts}. p \<noteq> [] \<and> profilePath ce p = Some n}"

text \<open>From \<open>w\<close> to \<open>w'\<close> only files under names in \<open>P\<close> were created or written.\<close>

definition only_in :: "name set \<Rightarrow> world \<Rightarrow> world \<Rightarrow> bool" where
  "only_in P w w' \<longleftrightarrow> (\<forall>n. n \<notin> P \<longrightarrow> dir w' n = dir w n) \<and> (\<forall>n i. dir w n = Some i \<longrightarrow> dir w' n = Some i) \<and>
     (\<forall>i<nextInode w. (\<forall>m\<in>P. dir w m \<noteq> Some i) \<longrightarrow> inodes w' i = inodes w i) \<and> nextInode w \<le> nextInode w' \<and>
     (\<forall>m\<in>P. \<forall>i. dir w' m = Some i \<longrightarrow> dir w m = Some i \<or> nextInode w \<le> i)"

definition handle_in :: "name set \<Rightarrow> world \<Rightarrow> handle option \<Rightarrow> bool" where
  "handle_in P w f \<longleftrightarrow> (\<forall>i. f = Some i \<longrightarrow> nextInode w \<le> i \<or> (\<exists>m\<in>P. dir w m = Some i))"

lemma only_in_refl [simp]: "only_in P w w"
  by (simp add: only_in_def)

lemma only_in_same: "only_in P w w1 \<Longrightarrow> same_files w1 w2 \<Longrightarrow> only_in P w w2"
  by (simp add: only_in_def same_files_def)

lemma only_in_set_inode: "only_in P w w1 \<Longrightarrow> handle_in P w (Some i) \<Longrightarrow> only_in P w (set_inode i f w1)"
  by (auto simp: only_in_def handle_in_def set_inode_def)

lemma only_in_tick [simp]: "only_in P w (tick w1) = only_in P w w1"
  by (simp add: only_in_def tick_def)

lemma gives_create:
  assumes "\<And>n. place = Some n \<Longrightarrow> n \<in> P"
  shows "gives (only_in P w) (os_create place) (handle_in P w)"
proof (cases place)
  case None
  have "gives (only_in P w) sysCall (\<lambda>_. True)" unfolding sysCall_def by (simp add: gives_keeps keeps)
  then show ?thesis unfolding os_create_def None option.case by (rule gives_bind) (simp add: gives_ret handle_in_def)
next
  case (Some n)
  have n: "n \<in> P" using assms Some by simp
  have old: "handle_in P w (Some i)" if "only_in P w w1" "dir w1 n = Some i" for w1 i
    using that n by (auto simp: only_in_def handle_in_def)
  have new: "only_in P w (w1\<lparr>dir := (dir w1)(n \<mapsto> nextInode w1), listing := l, inodes := (inodes w1)(nextInode w1 := []),
      nextInode := nextInode w1 + 1\<rparr>)" "handle_in P w (Some (nextInode w1))" if "only_in P w w1" "dir w1 n = None" for w1 l
    using that n by (auto simp: only_in_def handle_in_def)
  show ?thesis
    using new[of "tick _"] old[of "tick _"] only_in_set_inode[OF _ old, of "tick _" "tick _"]
    unfolding gives_def keeps_def os_create_def Some option.case sysWrite_def
    by (auto split: option.splits)
qed

lemma keeps_write_profile:
  assumes "handle_in P w f"
  shows "keeps (only_in P w) (write_profile f bs)"
proof (cases f)
  case (Some i)
  have "keeps (only_in P w) (writeAt i bs 0)"
    using only_in_set_inode[of P w "tick _" i] assms Some
    unfolding keeps_def writeAt_def sysWrite_def by (auto split: option.splits)
  then show ?thesis unfolding write_profile_def Some option.case by (intro keeps)
qed (simp add: write_profile_def keeps)

lemma gives_setup: "gives (only_in (profile_names ce opts) w) (setupProfiling ce (cpuProfile opts)) (handle_in (profile_names ce opts) w)"
proof -
  have sys: "gives (only_in P w) sysCall (\<lambda>_. True)" for P unfolding sysCall_def by (simp add: gives_keeps keeps)
  have err: "gives I (errG e) R" for I :: "world \<Rightarrow> bool" and e and R :: "handle option \<Rightarrow> bool"
    by (simp add: gives_def keeps errG_def)
  show ?thesis
    unfolding setupProfiling_def
    by (intro gives_if gives_ret gives_try[OF gives_create] gives_try[OF sys] err) (auto simp: handle_in_def profile_names_def)
qed

lemma keeps_cleanup: "handle_in (profile_names ce opts) w f \<Longrightarrow> keeps (only_in (profile_names ce opts) w) (cleanup ce f (memProfile opts))"
  unfolding cleanup_def
  by (intro keeps_bind keeps_if keeps_simple keeps_write_profile keeps_try_gives[OF gives_create]) (auto simp: profile_names_def)

lemma runCLI_runs:
  assumes "parseCLIFlags (numCPU ce) args = (Some opts, c)" "\<not> versionFlag opts"
  obtains (failed) r w1 where "only_in (profile_names ce opts) w w1" "runCLI ce args w = (r, w1)" "r = Ret ExitLogicError \<or> (\<exists>p. r = Panic p)"
  | (ran) f w1 r w2 w3 where "setupProfiling ce (cpuProfile opts) w = (Ret f, w1)" "only_in (profile_names ce opts) w w1" "handle_in (profile_names ce opts) w f"
      "run_set ce opts w1 = (r, w2)" "runCLI ce args w = (r, w3)" "w3 = w2 \<or> w3 = snd (cleanup ce f (memProfile opts) w2)"
proof -
  obtain x w1 where s: "setupProfiling ce (cpuProfile opts) w = (x, w1)" by (cases "setupProfiling ce (cpuProfile opts) w")
  have w1: "only_in (profile_names ce opts) w w1" using gives_setup[of ce opts w] s unfolding gives_def keeps_def by (metis only_in_refl snd_conv)
  show thesis
  proof (cases x)
    case (Ret f)
    have "handle_in (profile_names ce opts) w f" using gives_setup[of ce opts w] s Ret unfolding gives_def by (metis only_in_refl)
    moreover obtain r w2 where "run_set ce opts w1 = (r, w2)" by (cases "run_set ce opts w1")
    ultimately show thesis using ran[of f w1 r w2] s Ret w1 assms by (auto simp: runCLI_def)
  qed (use failed s w1 assms in \<open>auto simp: runCLI_def\<close>)
qed

text \<open>A run that is not asked to repair leaves the files as they are, and ends with one of the exit codes.\<close>

lemma run_set_codes:
  assumes "run_set ce opts w = (Ret code, w')"
  shows "code \<in> {0..4}"
proof (cases "NewDecoder (machine ce) (decoderOptions opts) (Base (separator w) (par2Path opts)) w")
  case (Ret d)
  then have "run_decoder ce opts d = (Ret code, snd (run_decoder ce opts d))"
    using assms by (cases "run_decoder ce opts d") (simp add: run_set_def)
  then show ?thesis using run_decoder_codes[of ce opts d] unfolding post_def by (metis case_prod_conv res.case(1))
qed (use assms in \<open>auto simp: run_set_def exit_codes\<close>)

lemma run_set_verify:
  assumes "isVerify (cmd opts)" "run_set ce opts w = (r, w')"
  shows "same_files w w'"
proof (cases "NewDecoder (machine ce) (decoderOptions opts) (Base (separator w) (par2Path opts)) w")
  case (Ret d)
  obtain x d' where x: "run_decoder ce opts d = (x, d')" by (cases "run_decoder ce opts d")
  have "same_files w (root d)" using NewDecoder_loaded[OF Ret] by (simp add: loaded_def)
  moreover have "disk_is (root d) (protectedFiles d) d'"
    by (rule keeps_D[OF run_decoder_verify[OF assms(1)] _ x]) (simp add: disk_is_def)
  ultimately show ?thesis using assms(2) Ret x same_files_trans by (auto simp: run_set_def disk_is_def)
qed (use assms(2) in \<open>auto simp: run_set_def\<close>)

text \<open>Profiles that lie elsewhere change no file of the directory.\<close>

lemma sysCall_files: "sysCall w = (r, w') \<Longrightarrow> same_files w w'"
  by (auto simp: sysCall_def sysRead_def tick_def same_files_def split: option.splits)

lemma profiles_elsewhere:
  assumes "profile_names ce opts = {}" "setupProfiling ce (cpuProfile opts) w = (Ret f, w1)"
  shows "f = None" "same_files w2 (snd (cleanup ce f (memProfile opts) w2))"
proof -
  have p: "p \<noteq> [] \<Longrightarrow> profilePath ce p = None" if "p \<in> {cpuProfile opts, memProfile opts}" for p
    using assms(1) that unfolding profile_names_def by (cases "profilePath ce p") blast+
  show f: "f = None"
    using assms(2) p[of "cpuProfile opts"]
    by (auto simp: setupProfiling_def os_create_def go_basic split: if_splits prod.splits res.splits)
  have "same_files w2 (snd (tryG (os_create None) (\<lambda>f. write_profile f (memData ce)) (\<lambda>_. retG ()) w2))"
    using sysCall_files by (auto simp: os_create_def write_profile_def go_basic split: prod.splits res.splits)
  then show "same_files w2 (snd (cleanup ce f (memProfile opts) w2))"
    using p[of "memProfile opts"] by (simp add: f cleanup_def write_profile_def go_basic same_files_def)
qed

text \<open>The set that the commands work on: loaded, with the candidates of the command line.\<close>

definition cli_set :: "cli_env \<Rightarrow> cliOptions \<Rightarrow> world \<Rightarrow> Decoder option" where
  "cli_set ce opts w =
     (case setupProfiling ce (cpuProfile opts) w of
        (Ret _, w1) \<Rightarrow>
          (case NewDecoder (machine ce) (decoderOptions opts) (Base (separator w1) (par2Path opts)) w1 of
             Ret d \<Rightarrow> (case expandCandidates (globber ce) (candidates opts) d of (Ret _, dc) \<Rightarrow> Some dc | _ \<Rightarrow> None)
           | _ \<Rightarrow> None)
      | _ \<Rightarrow> None)"

lemma run_set_success:
  assumes "setupProfiling ce (cpuProfile opts) w = (Ret f, w1)" "run_set ce opts w1 = (Ret ExitSuccess, w2)"
    and c: "isVerify (cmd opts) \<or> isRepair (cmd opts)"
    and rep: "\<And>dc. isRepair (cmd opts) \<Longrightarrow> cli_set ce opts w = Some dc \<Longrightarrow> repairable_set dc"
  shows "\<exists>dc. cli_set ce opts w = Some dc \<and> all_hashed (protectedFiles dc) w2"
proof -
  obtain d d' where d: "NewDecoder (machine ce) (decoderOptions opts) (Base (separator w1) (par2Path opts)) w1 = Ret d"
      "run_decoder ce opts d = (Ret 0, d')" "w2 = root d'"
    using assms(2) by (auto simp: run_set_def exit_codes split: res.splits prod.splits)
  have ids: "distinct (map fd_FileID (protectedFiles d))" using NewDecoder_loaded[OF d(1)] by (simp add: loaded_def dec_ok_def)
  obtain x dc where x: "expandCandidates (globber ce) (candidates opts) d = (Ret x, dc)"
    using d(2) by (auto simp: run_decoder_def tryG_def retG_def exit_codes split: prod.splits res.splits)
  then have dc: "cli_set ce opts w = Some dc" using assms(1) d(1) by (simp add: cli_set_def)
  have "protectedFiles dc = protectedFiles d"
    using keeps_D[OF keeps_disk_candidates _ x, of "root d" "protectedFiles d"] by (simp add: disk_is_def)
  moreover have "all_hashed (protectedFiles d) (root d')" using run_decoder_success[OF d(2) ids _ c] rep dc x by auto
  ultimately show ?thesis using dc d(3) by simp
qed

lemma all_hashed_same: "all_hashed fs w \<Longrightarrow> same_files w w' \<Longrightarrow> all_hashed fs w'"
  by (simp add: all_hashed_def restored_def content_hash_def same_files_def)

lemma parsed_command:
  assumes "parseCLIFlags cpus args = (Some opts, c)" "\<not> versionFlag opts"
  shows "isVerify (cmd opts) \<or> isRepair (cmd opts)"
  using assms by (auto simp: parseCLIFlags_def Let_def known_commands_def version_options_def isVerify_def isRepair_def split: option.splits if_splits list.splits)

text \<open>What a run without a repair does.\<close>

definition written_names :: "cli_env \<Rightarrow> bytes list \<Rightarrow> name set" where
  "written_names ce args = (case parseCLIFlags (numCPU ce) args of (None, _) \<Rightarrow> {} | (Some opts, _) \<Rightarrow> profile_names ce opts)"

lemma parse_codes: "parseCLIFlags cpus args = (o', c) \<Longrightarrow> c \<in> {0..4}"
  by (auto simp: parseCLIFlags_def exit_codes Let_def split: option.splits list.splits if_splits)

lemma verify_effect:
  assumes v: "\<And>opts c. parseCLIFlags (numCPU ce) args = (Some opts, c) \<Longrightarrow> versionFlag opts \<or> isVerify (cmd opts)"
    and run: "runCLI ce args w = (r, w')"
  shows "only_in (written_names ce args) w w' \<and> (\<forall>code. r = Ret code \<longrightarrow> code \<in> {0..4})"
proof -
  obtain o' c where p: "parseCLIFlags (numCPU ce) args = (o', c)" by (cases "parseCLIFlags (numCPU ce) args")
  show ?thesis
  proof (cases "\<exists>opts. o' = Some opts \<and> \<not> versionFlag opts")
    case False
    then show ?thesis using p run parse_codes[OF p] by (auto simp: runCLI_def exit_codes split: option.splits)
  next
    case True
    then obtain opts where o: "parseCLIFlags (numCPU ce) args = (Some opts, c)" "\<not> versionFlag opts" "isVerify (cmd opts)" using v p by blast
    have P: "written_names ce args = profile_names ce opts" by (simp add: written_names_def o(1))
    show ?thesis
      using o(1,2)
    proof (cases rule: runCLI_runs[of ce args opts c w])
      case (failed x w1)
      then show ?thesis using run by (auto simp: P exit_codes)
    next
      case (ran f w1 x w2 w3)
      have "only_in (profile_names ce opts) w w2" by (rule only_in_same[OF ran(2) run_set_verify[OF o(3) ran(4)]])
      moreover from this have "only_in (profile_names ce opts) w (snd (cleanup ce f (memProfile opts) w2))"
        using keeps_cleanup[OF ran(3)] by (simp add: keeps_def)
      ultimately show ?thesis using ran(4-6) run run_set_codes[of ce opts w1] by (auto simp: P)
    qed
  qed
qed

definition sample_cli :: cli_env where
  "sample_cli = \<lparr>machine = small_env, numCPU = 1, scanEnvs = (\<lambda>_ _. quiet_genv), scanSched = [],
     repairSched = lost_sched, globber = (\<lambda>_. Ret []), profilePath = (\<lambda>_. None), cpuData = [], memData = [], unwinds = True\<rparr>"

definition verify_args :: "bytes list" where
  "verify_args = [ascii ''verify'', ascii ''s.par2'']"

definition verify_options :: cliOptions where
  "verify_options = \<lparr>numThreads = 1, memMB = 16, cpuProfile = [], memProfile = [], maxFileSizeMB = 100, verbose = False,
     versionFlag = False, candidates = [], cmd = ascii ''verify'', par2Path = ascii ''s.par2''\<rparr>"

lemma verify_args_parse: "parseCLIFlags 1 verify_args = (Some verify_options, ExitSuccess)"
  by (simp add: parseCLIFlags_def Parse.simps parseOne_def verify_args_def verify_options_def default_options_def
      known_commands_def Let_def ascii_def toLower_def)

definition repair_args :: "bytes list" where
  "repair_args = [ascii ''repair'', run_index]"

definition repair_options :: cliOptions where
  "repair_options = verify_options\<lparr>cmd := ascii ''repair'', par2Path := run_index\<rparr>"

lemma repair_args_parse: "parseCLIFlags 1 repair_args = (Some repair_options, ExitSuccess)"
  by (simp add: parseCLIFlags_def Parse.simps parseOne_def repair_args_def repair_options_def verify_options_def default_options_def
      known_commands_def run_index_def Let_def ascii_def toLower_def)

text \<open>A repair of the set from its bytes, by the whole program.\<close>

lemma repair_runs:
  obtains d w' where "cli_set sample_cli repair_options run_world = Some d" "repairable_set d" "protectedFiles d = [run_file]"
    "runCLI sample_cli repair_args run_world = (Ret ExitSuccess, w')"
proof -
  have o: "decoderOptions repair_options = \<lparr>NumGoroutines = 1, MemoryLimit = 16777216, MaxFileSize = 104857600, MaxPacketSize = 134217728\<rparr>"
    by (simp add: decoderOptions_def repair_options_def verify_options_def int64_def Let_def)
  have b: "Base (separator run_world) (par2Path repair_options) = run_index"
    by (simp add: Base_def run_world_def repair_options_def run_index_def ascii_def slash_def Let_def)
  let ?o = "decoderOptions repair_options"
  obtain n where n: "NewDecoder small_env ?o run_index run_world = Ret (later n (run_set_of (newDecoderState small_env ?o run_world)))"
    using run_loads[of ?o small_env] by (auto simp: o)
  define d where "d = later n (run_set_of (newDecoderState small_env ?o run_world))"
  note r = run_ready[OF d_def]
  have D: "damaged_set (\<lambda>_. [1, 2, 3, 4]) d" "repairable_set d" "fair_schedules small_env lost_sched d" using r by (simp_all add: o)
  obtain d1 where d1: "VerifyScans (\<lambda>_ _. quiet_genv) [] d = (Ret (), d1)" "found_well (\<lambda>_. [1, 2, 3, 4]) d d1"
    using damaged_verifies[OF D(1), of "\<lambda>_ _. quiet_genv"] sample_ok(8) by blast
  have rec: "recoverable (\<lambda>_. [1, 2, 3, 4]) d1" by (rule found_recoverable[OF D(1) d1(2)])
  have possible: "RepairPossible (shardCountsLocked d1)" using rec by (simp add: recoverable_def parity_known_def)
  obtain d2 where d2: "Repair small_env lost_sched d1 = (Ret (), d2)" using Repair_restores[OF rec found_fair[OF D(1) d1(2) D(3)]] by blast
  have rep: "handleRepairCommand small_env lost_sched (shardCountsLocked d1) d1 = (Ret ExitSuccess, if RepairNeeded (shardCountsLocked d1) then d2 else d1)"
    using d2 possible by (simp add: handleRepairCommand_def go_basic)
  have c: "candidates repair_options = []" "isRepair (cmd repair_options)" "\<not> isVerify (cmd repair_options)" "cpuProfile repair_options = []"
      "memProfile repair_options = []" "\<not> versionFlag repair_options"
    by (simp_all add: repair_options_def verify_options_def isRepair_def isVerify_def ascii_def)
  have m: "machine sample_cli = small_env" "scanEnvs sample_cli = (\<lambda>_ _. quiet_genv)" "scanSched sample_cli = []" "repairSched sample_cli = lost_sched"
      "numCPU sample_cli = 1"
    by (simp_all add: sample_cli_def)
  have "run_decoder sample_cli repair_options d = (Ret ExitSuccess, if RepairNeeded (shardCountsLocked d1) then d2 else d1)"
    using d1(1) rep by (simp add: run_decoder_def expandCandidates_def runVerificationAndReport_def dispatch_def go_basic c m)
  then have run: "run_set sample_cli repair_options run_world = (Ret ExitSuccess, root (if RepairNeeded (shardCountsLocked d1) then d2 else d1))"
    using n by (simp add: run_set_def b m d_def)
  have prof: "setupProfiling sample_cli (cpuProfile repair_options) run_world = (Ret None, run_world)" by (simp add: setupProfiling_def c retG_def)
  have "cli_set sample_cli repair_options run_world = Some d" 
    unfolding cli_set_def prof using n by (simp add: b m d_def expandCandidates_def c(1))
  moreover have "\<exists>w'. runCLI sample_cli repair_args run_world = (Ret ExitSuccess, w')"
    using run prof by (simp add: runCLI_def repair_args_parse m c(6))
  moreover have "protectedFiles d = [run_file]" by (simp add: d_def later_def run_set_of_def)
  ultimately show thesis using D(2) that by blast
qed

text \<open>A verification that writes a memory profile into the directory.\<close>

definition profile_cli :: cli_env where
  "profile_cli = sample_cli\<lparr>profilePath := Some\<rparr>"

definition profile_args :: "bytes list" where
  "profile_args = [ascii ''-memprofile'', [0x70], ascii ''verify'', ascii ''s.par2'']"

lemma profile_args_parse: "parseCLIFlags 1 profile_args = (Some (verify_options\<lparr>memProfile := [0x70]\<rparr>), ExitSuccess)"
  by (simp add: parseCLIFlags_def Parse.simps parseOne_def profile_args_def verify_options_def default_options_def set_with_def
      split_name_def cli_flags_def string_flag_def known_commands_def Let_def ascii_def toLower_def)

section \<open>Writing flags\<close>

text \<open>The flags a caller may give, and the ways to write one: with one or two dashes, the value after an equals sign or
  as the next argument.\<close>

datatype setting = Threads int | Memory int | CPUProfile bytes | MemProfile bytes | MaxFileSize_MB int | Verbose bool
  | Candidate bytes

fun setting_name :: "setting \<Rightarrow> bytes" where
  "setting_name (Threads _) = ascii ''t''"
| "setting_name (Memory _) = ascii ''m''"
| "setting_name (CPUProfile _) = ascii ''cpuprofile''"
| "setting_name (MemProfile _) = ascii ''memprofile''"
| "setting_name (MaxFileSize_MB _) = ascii ''max-file-size''"
| "setting_name (Verbose _) = ascii ''v''"
| "setting_name (Candidate _) = ascii ''candidate''"

fun setting_value :: "setting \<Rightarrow> bytes" where
  "setting_value (Threads i) = show_int i"
| "setting_value (Memory i) = show_int i"
| "setting_value (CPUProfile p) = p"
| "setting_value (MemProfile p) = p"
| "setting_value (MaxFileSize_MB i) = show_int i"
| "setting_value (Verbose b) = ascii (if b then ''true'' else ''false'')"
| "setting_value (Candidate p) = p"

fun set_option :: "cliOptions \<Rightarrow> setting \<Rightarrow> cliOptions" where
  "set_option opts (Threads i) = opts\<lparr>numThreads := i\<rparr>"
| "set_option opts (Memory i) = opts\<lparr>memMB := i\<rparr>"
| "set_option opts (CPUProfile p) = opts\<lparr>cpuProfile := p\<rparr>"
| "set_option opts (MemProfile p) = opts\<lparr>memProfile := p\<rparr>"
| "set_option opts (MaxFileSize_MB i) = opts\<lparr>maxFileSizeMB := i\<rparr>"
| "set_option opts (Verbose b) = opts\<lparr>verbose := b\<rparr>"
| "set_option opts (Candidate p) = opts\<lparr>candidates := candidates opts @ [p]\<rparr>"

text \<open>Numbers fit 64 bits; the flag \<open>-v\<close> without a value means true.\<close>

fun writable :: "bool \<Rightarrow> setting \<Rightarrow> bool" where
  "writable joined (Threads i) = (- (2 ^ 63) \<le> i \<and> i < 2 ^ 63)"
| "writable joined (Memory i) = (- (2 ^ 63) \<le> i \<and> i < 2 ^ 63)"
| "writable joined (MaxFileSize_MB i) = (- (2 ^ 63) \<le> i \<and> i < 2 ^ 63)"
| "writable joined (Verbose b) = (joined \<or> b)"
| "writable joined _ = True"

fun is_verbose :: "setting \<Rightarrow> bool" where
  "is_verbose (Verbose _) = True"
| "is_verbose _ = False"

definition flag_args :: "bool \<times> bool \<times> setting \<Rightarrow> bytes list" where
  "flag_args f =
     (case f of (two, joined, st) \<Rightarrow>
        let flg = (if two then ascii ''--'' else ascii ''-'') @ setting_name st
        in if joined then [flg @ ascii ''='' @ setting_value st]
           else if is_verbose st then [flg]
           else [flg, setting_value st])"

lemma before_equals:
  assumes "0x3d \<notin> set nm"
  shows "takeWhile (\<lambda>b. b \<noteq> 0x3d) (nm @ 0x3d # v) = nm" "takeWhile (\<lambda>b. b \<noteq> 0x3d) nm = nm"
  using assms by (induction nm) auto

lemma split_name_joined: "nm \<noteq> [] \<Longrightarrow> 0x3d \<notin> set nm \<Longrightarrow> split_name (nm @ 0x3d # v) = (nm, Some v)"
  by (cases nm) (simp_all add: split_name_def Let_def before_equals)

lemma split_name_alone: "nm \<noteq> [] \<Longrightarrow> 0x3d \<notin> set nm \<Longrightarrow> split_name nm = (nm, None)"
  by (cases nm) (simp_all add: split_name_def Let_def before_equals)

lemma setting_name_chars: "setting_name st \<noteq> []" "0x3d \<notin> set (setting_name st)" "hd (setting_name st) \<notin> {0x2d, 0x3d}"
  by (cases st; simp add: ascii_def)+

lemma registered:
  assumes "writable joined st"
  shows "\<exists>fv. map_of cli_flags (setting_name st) = Some fv \<and> SetFlag fv (setting_value st) opts = Some (set_option opts st) \<and>
    (IsBoolFlag fv \<longleftrightarrow> is_verbose st)"
  using assms
  by (cases st) (auto simp: cli_flags_def int_flag_def string_flag_def bool_flag_def stringSliceFlag_def ParseInt_show ParseBool_def ascii_def)

text \<open>A flag written in any of these ways is set.\<close>

lemma parseOne_flag:
  assumes "writable joined st"
  shows "parseOne (map_of cli_flags) (flag_args (two, joined, st) @ rest) opts = Seen rest (set_option opts st)"
proof -
  obtain fv where fv: "map_of cli_flags (setting_name st) = Some fv" "SetFlag fv (setting_value st) opts = Some (set_option opts st)"
      "IsBoolFlag fv \<longleftrightarrow> is_verbose st" using registered[OF assms] by blast
  obtain c nm where nm: "setting_name st = c # nm" "c \<noteq> 0x2d" "c \<noteq> 0x3d" using setting_name_chars[of st] by (cases "setting_name st") auto
  have sp: "split_name (c # nm @ 0x3d # v) = (c # nm, Some v)" "split_name (c # nm) = (c # nm, None)" for v
    using split_name_joined[of "c # nm"] split_name_alone[of "c # nm"] setting_name_chars(2)[of st] nm by auto
  have sv: "setting_value st = ascii ''true''" if "\<not> joined" "is_verbose st" using assms that by (cases st) auto
  show ?thesis
    using fv nm sp sv
    by (cases two; cases joined; cases "is_verbose st")
      (simp_all add: parseOne_def flag_args_def Let_def set_with_def ascii_def)
qed

lemma Parse_flags:
  assumes "\<forall>(two, joined, st)\<in>set fs. writable joined st" "parseOne (map_of cli_flags) rest (foldl set_option opts (map (snd \<circ> snd) fs)) = Over rest'"
  shows "Parse (map_of cli_flags) (concat (map flag_args fs) @ rest) opts = Some (foldl set_option opts (map (snd \<circ> snd) fs), rest')"
  using assms
proof (induction fs arbitrary: opts)
  case Nil
  then show ?case by (simp add: Parse.simps)
next
  case (Cons f fs)
  obtain two joined st where f: "f = (two, joined, st)" by (cases f)
  then show ?case using Cons by (simp add: Parse.simps[of _ "flag_args _ @ _"] parseOne_flag)
qed

lemma set_options_keep_version: "versionFlag (foldl set_option opts sts) = versionFlag opts"
proof (induction sts arbitrary: opts)
  case (Cons st sts)
  then show ?case by (cases st) simp_all
qed simp

lemma command_no_flag:
  assumes "map toLower c \<in> set known_commands"
  shows "length c < 2 \<or> hd c \<noteq> 0x2d"
  using assms by (cases c) (auto simp: known_commands_def ascii_def toLower_def split: if_splits)

definition repair_flags :: "(bool \<times> bool \<times> setting) list" where
  "repair_flags = [(False, False, Threads 8), (True, True, Memory (- 1)), (False, False, Verbose True), (True, False, Candidate [0x61]),
     (False, True, Candidate [0x62]), (False, True, Threads 4)]"

section \<open>Properties\<close>

text \<open>C7. Exit code 0 of a run of \<open>verify\<close> or \<open>repair\<close> means that the set was loaded and every protected file is under its own name with
  the recorded MD5 when the program ends, under every fault, cancellation and schedule. No profile is
  written into the directory of the set. For \<open>repair\<close> the set is \<open>repairable_set\<close>: no candidate of the command line has the name
  of a protected file, the protected files have different names, and no name of a temporary file is the name of
  a protected file.\<close>

theorem exit_code_zero_means_intact:
  assumes "parseCLIFlags (numCPU ce) args = (Some opts, c)" "\<not> versionFlag opts" "profile_names ce opts = {}"
    and "\<And>d. isRepair (cmd opts) \<Longrightarrow> cli_set ce opts w = Some d \<Longrightarrow> repairable_set d"
    and "runCLI ce args w = (Ret ExitSuccess, w')"
  shows "\<exists>d. cli_set ce opts w = Some d \<and>
    (\<forall>fd\<in>set (protectedFiles d). \<exists>i. dir w' (Filename fd) = Some i \<and> md5 (inodes w' i) = fd_Hash fd)"
  using assms(1,2)
proof (cases rule: runCLI_runs[of ce args opts c w])
  case (failed r w1)
  then show ?thesis using assms(5) by (auto simp: exit_codes)
next
  case (ran f w1 r w2 w3)
  then have run: "run_set ce opts w1 = (Ret ExitSuccess, w2)" and w': "w' = w2 \<or> w' = snd (cleanup ce f (memProfile opts) w2)"
    using assms(5) by auto
  obtain d where d: "cli_set ce opts w = Some d" "all_hashed (protectedFiles d) w2"
    using run_set_success[OF ran(1) run parsed_command[OF assms(1,2)] assms(4)] by blast
  have "all_hashed (protectedFiles d) w'"
    using w' d(2) all_hashed_same[OF d(2) profiles_elsewhere(2)[OF assms(3) ran(1)]] by auto
  then show ?thesis using d(1) by (auto simp: all_hashed_def restored_def content_hash_def)
qed

theorem exit_code_zero_means_intact_witness:
  "\<exists>w'. dir run_world [0x61] = None \<and> runCLI sample_cli repair_args run_world = (Ret ExitSuccess, w') \<and>
     (\<exists>i. dir w' [0x61] = Some i \<and> md5 (inodes w' i) = md5 [1, 2, 3, 4])"
proof -
  obtain d w' where r: "cli_set sample_cli repair_options run_world = Some d" "repairable_set d" "protectedFiles d = [run_file]"
    "runCLI sample_cli repair_args run_world = (Ret ExitSuccess, w')" using repair_runs .
  have "parseCLIFlags (numCPU sample_cli) repair_args = (Some repair_options, ExitSuccess)" by (simp add: repair_args_parse sample_cli_def)
  moreover have "\<not> versionFlag repair_options" "profile_names sample_cli repair_options = {}"
    by (simp_all add: repair_options_def verify_options_def profile_names_def)
  ultimately have "\<exists>i. dir w' (Filename run_file) = Some i \<and> md5 (inodes w' i) = fd_Hash run_file"
    using exit_code_zero_means_intact[of sample_cli repair_args repair_options ExitSuccess run_world w'] r by auto
  moreover have "dir run_world [0x61] = None" by (simp add: run_world_def run_index_def ascii_def)
  ultimately show ?thesis using r(4) by (auto simp: run_file_def)
qed

text \<open>C38. \<open>verify\<close> only reads, its profiles apart: whatever the arguments, unless they ask for a repair, the program creates and
  writes no file of the directory except under the names that \<open>-cpuprofile\<close> and \<open>-memprofile\<close> lead to. Every file
  that was there keeps its name, and its bytes unless one of these names leads to it; under every other name nothing is created. It
  ends with one of its five exit codes or a panic.\<close>

theorem verify_only_reads:
  assumes "\<And>opts c. parseCLIFlags (numCPU ce) args = (Some opts, c) \<Longrightarrow> versionFlag opts \<or> isVerify (cmd opts)"
    and "wf_world w" "runCLI ce args w = (r, w')"
  shows "(\<forall>n. n \<notin> written_names ce args \<longrightarrow> dir w' n = dir w n) \<and>
    (\<forall>n i. dir w n = Some i \<longrightarrow> dir w' n = Some i \<and> ((\<forall>m\<in>written_names ce args. dir w m \<noteq> Some i) \<longrightarrow> inodes w' i = inodes w i)) \<and>
    (\<forall>code. r = Ret code \<longrightarrow> code \<in> {0..4})"
proof -
  have "only_in (written_names ce args) w w'" "\<forall>code. r = Ret code \<longrightarrow> code \<in> {0..4}"
    using verify_effect[OF _ assms(3)] assms(1) by auto
  then show ?thesis using assms(2) by (simp add: only_in_def wf_world_def)
qed

theorem verify_only_reads_witness:
  "\<exists>r w'. runCLI profile_cli profile_args run_world = (r, w') \<and> dir w' run_index = Some 0 \<and> inodes w' 0 = inodes run_world 0 \<and>
     dir w' [0x61] = None \<and> written_names profile_cli profile_args = {[0x70]}"
proof -
  obtain r w' where run: "runCLI profile_cli profile_args run_world = (r, w')" by (cases "runCLI profile_cli profile_args run_world")
  have p: "parseCLIFlags (numCPU profile_cli) profile_args = (Some (verify_options\<lparr>memProfile := [0x70]\<rparr>), ExitSuccess)"
    by (simp add: profile_args_parse profile_cli_def sample_cli_def)
  then have v: "versionFlag opts \<or> isVerify (cmd opts)" if "parseCLIFlags (numCPU profile_cli) profile_args = (Some opts, c)" for opts c
    using that by (auto simp: verify_options_def isVerify_def)
  have P: "written_names profile_cli profile_args = {[0x70]}"
    by (simp add: written_names_def p) (auto simp: profile_names_def verify_options_def profile_cli_def)
  have w: "wf_world run_world" "dir run_world run_index = Some 0" "dir run_world [0x70] \<noteq> Some 0" "dir run_world [0x61] = None"
    by (auto simp: wf_world_def run_world_def run_index_def ascii_def split: if_splits)
  then show ?thesis using verify_only_reads[OF v w(1) run] run P by auto
qed

text \<open>C39. However the flags are written, in any order and number, the program gets the options they say, with
  the last value of a repeated flag and all the candidates in order: with one or two dashes, with the value joined by
  an equals sign or as the next argument, and numbers in decimal over the whole range of 64 bits. The
  command is recognised in any case, and what follows the path is ignored.\<close>

theorem flags_are_read_as_written:
  assumes "\<forall>(two, joined, st)\<in>set fs. writable joined st" "map toLower c \<in> set known_commands"
  shows "parseCLIFlags cpus (concat (map flag_args fs) @ c # path # rest) =
    (Some ((foldl set_option (default_options cpus) (map (snd \<circ> snd) fs))\<lparr>cmd := map toLower c, par2Path := path\<rparr>), ExitSuccess)"
proof -
  have "parseOne (map_of cli_flags) (c # path # rest) opts = Over (c # path # rest)" for opts
    using command_no_flag[OF assms(2)] by (simp add: parseOne_def)
  then show ?thesis
    using Parse_flags[OF assms(1)] assms(2) by (simp add: parseCLIFlags_def set_options_keep_version default_options_def)
qed

theorem flags_are_read_as_written_witness:
  "parseCLIFlags 2 (concat (map flag_args repair_flags) @ [ascii ''Repair'', [0x73]]) =
    (Some ((default_options 2)\<lparr>numThreads := 4, memMB := - 1, verbose := True, candidates := [[0x61], [0x62]], cmd := ascii ''repair'',
      par2Path := [0x73]\<rparr>), ExitSuccess)"
  using flags_are_read_as_written[of repair_flags "ascii ''Repair''" 2 "[0x73]" "[]"]
  by (simp add: repair_flags_def known_commands_def ascii_def toLower_def default_options_def)

end
