(* ===== verification/Report.thy ===== *)
theory Report
  imports Verify_Complete
begin

text \<open>
  The report at the end of a verification, \<open>logVerificationReport\<close> of \<open>src/par2/scan.go\<close>: the status logged for every
  protected file, the counters of the summary and the verdict. The text of the messages is left out. The report agrees with the shard
  counts, on which the commands decide, and with the disk.
\<close>

section \<open>Statuses and the summary\<close>

datatype fileStatus = StatusMisnamed bytes | StatusMissing | StatusSizeMismatch nat | StatusDamaged nat nat | StatusCorrupt | StatusOK

datatype verdict = MissingBlocks | MustRebuild | MustRename | AllOK

record report =
  statuses :: "(bytes \<times> fileStatus) list"
  okCount :: nat
  missingCount :: nat
  damagedCount :: nat
  renameCount :: nat
  rep_verdict :: verdict

definition missing_blocks :: "fileIntegrityState \<Rightarrow> nat" where
  "missing_blocks state = fold (\<lambda>loc n. if Offset loc = -1 then n + 1 else n) (ShardLocations state) 0"

definition report_file :: "FileDescPacket \<Rightarrow> report \<Rightarrow> report dec" where
  "report_file fd r =
     bindG (getState (fd_FileID fd)) (\<lambda>state.
       let say = (\<lambda>status r. r\<lparr>statuses := statuses r @ [(Filename fd, status)]\<rparr>) in
       if RenameSource state \<noteq> [] then retG (say (StatusMisnamed (RenameSource state)) (r\<lparr>renameCount := renameCount r + 1\<rparr>))
       else case Damage state of
           damageMissing \<Rightarrow> retG (say StatusMissing (r\<lparr>missingCount := missingCount r + 1\<rparr>))
         | damageWrongSize \<Rightarrow> retG (say (StatusSizeMismatch (ByteCount fd)) (r\<lparr>damagedCount := damagedCount r + 1\<rparr>))
         | damageWrongHash \<Rightarrow>
             let missing = missing_blocks state
             in retG (say (if missing > 0 then StatusDamaged missing (length (ShardLocations state)) else StatusCorrupt)
                  (r\<lparr>damagedCount := damagedCount r + 1\<rparr>))
         | _ \<Rightarrow> retG (say StatusOK (r\<lparr>okCount := okCount r + 1\<rparr>)))"

definition report_verdict :: "ShardCounts \<Rightarrow> verdict" where
  "report_verdict finalCounts =
     (if UnusableDataShardCount finalCounts > 0 then MissingBlocks
      else if FilesNeedingRebuild finalCounts > 0 then MustRebuild
      else if RenamesNeeded finalCounts > 0 then MustRename
      else AllOK)"

definition logVerificationReport :: "ShardCounts \<Rightarrow> report dec" where
  "logVerificationReport finalCounts =
     bindG (getG protectedFiles) (\<lambda>fs.
       foldG report_file fs
         \<lparr>statuses = [], okCount = 0, missingCount = 0, damagedCount = 0, renameCount = 0, rep_verdict = report_verdict finalCounts\<rparr>)"

section \<open>The report as a function of the states\<close>

definition status_of :: "FileDescPacket \<Rightarrow> fileIntegrityState \<Rightarrow> fileStatus" where
  "status_of fd state =
     (if RenameSource state \<noteq> [] then StatusMisnamed (RenameSource state)
      else case Damage state of
          damageMissing \<Rightarrow> StatusMissing
        | damageWrongSize \<Rightarrow> StatusSizeMismatch (ByteCount fd)
        | damageWrongHash \<Rightarrow>
            if missing_blocks state > 0 then StatusDamaged (missing_blocks state) (length (ShardLocations state)) else StatusCorrupt
        | _ \<Rightarrow> StatusOK)"

fun is_misnamed :: "fileStatus \<Rightarrow> bool" where
  "is_misnamed (StatusMisnamed _) = True"
| "is_misnamed _ = False"

fun is_damaged :: "fileStatus \<Rightarrow> bool" where
  "is_damaged (StatusSizeMismatch _) = True"
| "is_damaged (StatusDamaged _ _) = True"
| "is_damaged StatusCorrupt = True"
| "is_damaged _ = False"

definition tally :: "(fileStatus \<Rightarrow> bool) \<Rightarrow> (FileDescPacket \<times> fileIntegrityState) list \<Rightarrow> nat" where
  "tally P js = length (filter (\<lambda>(fd, st). P (status_of fd st)) js)"

definition summarises :: "(FileDescPacket \<times> fileIntegrityState) list \<Rightarrow> verdict \<Rightarrow> report \<Rightarrow> bool" where
  "summarises js v r \<longleftrightarrow> statuses r = map (\<lambda>(fd, st). (Filename fd, status_of fd st)) js \<and> rep_verdict r = v \<and>
     okCount r = tally (\<lambda>x. x = StatusOK) js \<and> missingCount r = tally (\<lambda>x. x = StatusMissing) js \<and>
     damagedCount r = tally is_damaged js \<and> renameCount r = tally is_misnamed js"

lemma report_file_step:
  assumes "map_of (fileIntegrity d) (fd_FileID fd) = Some st" "summarises js v r"
  shows "\<exists>r'. report_file fd r d = (Ret r', d) \<and> summarises (js @ [(fd, st)]) v r'"
  using assms
  by (cases "Damage st"; cases "RenameSource st = []")
    (auto simp: report_file_def getState_def bindG_def retG_def Let_def summarises_def status_of_def tally_def)

lemma report_loop:
  assumes "list_all2 (\<lambda>fd st. map_of (fileIntegrity d) (fd_FileID fd) = Some st) fs sts" "summarises js v r"
  shows "\<exists>r'. foldG report_file fs r d = (Ret r', d) \<and> summarises (js @ zip fs sts) v r'"
  using assms
proof (induction fs sts arbitrary: js r rule: list_all2_induct)
  case (Cons fd fs st sts)
  then obtain r1 where "report_file fd r d = (Ret r1, d)" "summarises (js @ [(fd, st)]) v r1"
    using report_file_step by blast
  then show ?case using Cons(3)[of "js @ [(fd, st)]" r1] by (simp add: bindG_def)
qed simp

text \<open>Every status is counted once, and the counters are those of the states.\<close>

lemma tally_partition:
  "tally (\<lambda>x. x = StatusOK) js + tally (\<lambda>x. x = StatusMissing) js + tally is_damaged js + tally is_misnamed js = length js"
proof (induction js)
  case (Cons j js)
  obtain fd st where "j = (fd, st)" by (cases j)
  then show ?case using Cons by (cases "status_of fd st") (simp_all add: tally_def)
qed (simp add: tally_def)

lemma tally_states:
  assumes "length fs = length sts"
  shows "tally is_misnamed (zip fs sts) = length (filter (\<lambda>st. RenameSource st \<noteq> []) sts)"
    "tally (\<lambda>x. x = StatusMissing) (zip fs sts) + tally is_damaged (zip fs sts) =
       length (filter (\<lambda>st. RenameSource st = [] \<and> needsRebuild st) sts)"
  using assms
proof (induction fs sts rule: list_induct2)
  case (Cons fd fs st sts)
  have "is_misnamed (status_of fd st) \<longleftrightarrow> RenameSource st \<noteq> []"
    "(status_of fd st = StatusMissing) \<noteq> is_damaged (status_of fd st) \<longleftrightarrow> RenameSource st = [] \<and> needsRebuild st"
    "\<not> (status_of fd st = StatusMissing \<and> is_damaged (status_of fd st))"
    by (cases "Damage st"; simp add: status_of_def needsRebuild_def)+
  then show "tally is_misnamed (zip (fd # fs) (st # sts)) = length (filter (\<lambda>st. RenameSource st \<noteq> []) (st # sts))"
    "tally (\<lambda>x. x = StatusMissing) (zip (fd # fs) (st # sts)) + tally is_damaged (zip (fd # fs) (st # sts)) =
       length (filter (\<lambda>st. RenameSource st = [] \<and> needsRebuild st) (st # sts))"
    using Cons by (auto simp: tally_def)
qed (simp_all add: tally_def)

lemma names_logged: "length fs = length sts \<Longrightarrow> map fst (map (\<lambda>(fd, st). (Filename fd, status_of fd st)) (zip fs sts)) = map Filename fs"
  by (induction fs sts rule: list_induct2) simp_all

lemma log_loop: "logVerificationReport sc d = foldG report_file (protectedFiles d)
    \<lparr>statuses = [], okCount = 0, missingCount = 0, damagedCount = 0, renameCount = 0, rep_verdict = report_verdict sc\<rparr> d"
  by (simp add: logVerificationReport_def bindG_def getG_def)

lemma states_in_order:
  assumes "sound w fs s d"
  shows "list_all2 (\<lambda>fd st. map_of (fileIntegrity d) (fd_FileID fd) = Some st) fs (map snd (fileIntegrity d))"
proof -
  have k: "map fst (fileIntegrity d) = map fd_FileID fs" "distinct (map fst (fileIntegrity d))"
    using assms by (simp_all add: sound_def)
  have l: "length (fileIntegrity d) = length fs" using arg_cong[OF k(1), of length] by simp
  have "map_of (fileIntegrity d) (fd_FileID (fs ! i)) = Some (snd (fileIntegrity d ! i))" if "i < length fs" for i
  proof -
    have "fst (fileIntegrity d ! i) = fd_FileID (fs ! i)" using arg_cong[OF k(1), of "\<lambda>l. l ! i"] that l by simp
    then have "(fd_FileID (fs ! i), snd (fileIntegrity d ! i)) \<in> set (fileIntegrity d)" using that l by (metis nth_mem prod.collapse)
    then show ?thesis using k(2) by simp
  qed
  then show ?thesis using l by (simp add: list_all2_conv_all_nth)
qed

lemma filter_snd_length: "length (filter (\<lambda>(_, x). P x) al) = length (filter P (map snd al))"
  by (induction al) auto

lemma status_OK:
  assumes "sound w fs s d" "decided fs d" "(n, StatusOK) \<in> set (map (\<lambda>(fd, st). (Filename fd, status_of fd st)) (zip fs (map snd (fileIntegrity d))))"
  shows "\<exists>fd\<in>set fs. Filename fd = n \<and> content_hash (root d) n = Some (fd_Hash fd)"
proof -
  obtain fd st where f: "(fd, st) \<in> set (zip fs (map snd (fileIntegrity d)))" "Filename fd = n" "status_of fd st = StatusOK"
    using assms(3) unfolding set_map by fastforce
  then have fd: "fd \<in> set fs" "map_of (fileIntegrity d) (fd_FileID fd) = Some st"
    using states_in_order[OF assms(1)] unfolding list_all2_iff by (blast dest: set_zip_leftD)+
  then obtain st' where "map_of (fileIntegrity d) (fd_FileID fd) = Some st'" "state_sound w fd st'"
    using assms(1) unfolding sound_def by blast
  then have "state_sound w fd st" using fd(2) by (simp only: option.inject)
  moreover have "settled st" using assms(2) fd unfolding decided_def by blast
  then have "Damage st = damageNone" using f(3) by (auto simp: status_of_def settled_def split: fileDamage.splits if_splits)
  ultimately have "content_hash w n = Some (fd_Hash fd)" using f(2) by (simp add: state_sound_def)
  then have "content_hash (root d) n = Some (fd_Hash fd)" using assms(1) by (simp add: sound_def content_hash_def same_files_def)
  then show ?thesis using fd(1) f(2) by blast
qed

section \<open>Property\<close>

text \<open>C40. The report is right: after a verification that returns, whatever failed meanwhile, it has one status for every
  protected file, the four counters add up to the number of files, the misnamed files are the renames needed and the missing and
  damaged ones the files to rebuild, the verdict is that all files are fine exactly when no repair is needed, and a file with status OK has its
  recorded MD5 on disk.\<close>

theorem report_is_right:
  assumes "distinct (map fd_FileID (protectedFiles d))" "VerifyScans envs sched d = (Ret u, d')"
  shows "\<exists>r. logVerificationReport (shardCountsLocked d') d' = (Ret r, d') \<and>
    map fst (statuses r) = map Filename (protectedFiles d) \<and>
    okCount r + missingCount r + damagedCount r + renameCount r = length (protectedFiles d) \<and>
    renameCount r = RenamesNeeded (shardCountsLocked d') \<and>
    missingCount r + damagedCount r = FilesNeedingRebuild (shardCountsLocked d') \<and>
    (rep_verdict r = AllOK \<longleftrightarrow> \<not> RepairNeeded (shardCountsLocked d')) \<and>
    (\<forall>n. (n, StatusOK) \<in> set (statuses r) \<longrightarrow> (\<exists>fd\<in>set (protectedFiles d). Filename fd = n \<and> content_hash (root d') n = Some (fd_Hash fd)))"
proof -
  let ?fs = "protectedFiles d" and ?sts = "map snd (fileIntegrity d')" and ?sc = "shardCountsLocked d'"
  let ?r0 = "\<lparr>statuses = [], okCount = 0, missingCount = 0, damagedCount = 0, renameCount = 0, rep_verdict = report_verdict ?sc\<rparr>"
  have s: "sound (root d) ?fs (sliceByteCount d) d'" "decided ?fs d'" using VerifyScans_sound[OF assms] by blast+
  note ord = states_in_order[OF s(1)]
  then have len: "length ?fs = length ?sts" by (rule list_all2_lengthD)
  have p: "protectedFiles d' = ?fs" using s(1) by (simp add: sound_def)
  have "summarises [] (report_verdict ?sc) ?r0" by (simp add: summarises_def tally_def)
  then obtain r where r: "logVerificationReport ?sc d' = (Ret r, d')" "summarises (zip ?fs ?sts) (report_verdict ?sc) r"
    using report_loop[OF ord, of "[]"] p unfolding append_Nil by (metis (lifting) log_loop)
  have ok: "\<exists>fd\<in>set ?fs. Filename fd = n \<and> content_hash (root d') n = Some (fd_Hash fd)" if "(n, StatusOK) \<in> set (statuses r)" for n
    using status_OK[OF s] that r(2) by (simp add: summarises_def)
  have "rep_verdict r = AllOK \<longleftrightarrow> \<not> RepairNeeded ?sc" using r(2) by (simp add: summarises_def report_verdict_def RepairNeeded_def)
  moreover have "map fst (statuses r) = map Filename ?fs"
    using r(2) names_logged[OF len] unfolding summarises_def by (simp only:)
  moreover have "okCount r + missingCount r + damagedCount r + renameCount r = length ?fs"
    using r(2) tally_partition[of "zip ?fs ?sts"] len unfolding summarises_def by simp
  moreover have "renameCount r = RenamesNeeded ?sc" "missingCount r + damagedCount r = FilesNeedingRebuild ?sc"
    using r(2) tally_states[OF len] unfolding summarises_def counts_fields filter_snd_length by (simp_all only:)
  ultimately show ?thesis using r(1) ok by blast
qed

theorem report_is_right_witness:
  "\<exists>d' r. VerifyScans (\<lambda>_ _. quiet_genv) [] sample_set = (Ret (), d') \<and>
     logVerificationReport (shardCountsLocked d') d' = (Ret r, d') \<and> rep_verdict r = AllOK"
proof -
  obtain d' where d': "VerifyScans (\<lambda>_ _. quiet_genv) [] sample_set = (Ret (), d')" "\<not> RepairNeeded (shardCountsLocked d')"
    using sample_verifies by blast
  then show ?thesis using report_is_right[OF sample_ok(2) d'(1)] by blast
qed

end
