(* ===== verification/Sessions.thy ===== *)
theory Sessions
  imports Verify_Repair
begin

text \<open>
  A decoder over its life: a set is loaded, then candidates are added and the set is verified and repaired, in any order and
  any number of times, with calls that fail and files that change in between. The step relation has one rule per exported
  operation of \<open>src/par2\<close> that changes the decoder, and what holds in every reachable state is shown by rule induction.
\<close>

section \<open>Steps\<close>

inductive api_step :: "Decoder \<Rightarrow> Decoder \<Rightarrow> bool" where
  add_candidate: "AddCandidateFile path d = (r, d') \<Longrightarrow> api_step d d'"
| verify: "VerifyScans envs sched d = (r, d') \<Longrightarrow> api_step d d'"
| repair: "Repair e sc d = (r, d') \<Longrightarrow> api_step d d'"
| elsewhere: "api_step d (d\<lparr>root := w\<rparr>)"

text \<open>\<open>session d0 d\<close>: \<open>d0\<close> was loaded, on a machine with at least one processor, and steps led from it to \<open>d\<close>.\<close>

inductive session :: "Decoder \<Rightarrow> Decoder \<Rightarrow> bool" where
  load: "env_ok e \<Longrightarrow> NewDecoder e opts fn w = Ret d0 \<Longrightarrow> session d0 d0"
| step: "session d0 d \<Longrightarrow> api_step d d' \<Longrightarrow> session d0 d'"

inductive_cases api_stepE: "api_step d d'"

section \<open>Well-formed decoders\<close>

text \<open>The state of a protected file: it is about that file, has a location for each of its blocks, with an offset
  or the mark \<open>-1\<close>, and a rename source only from the registered candidates.\<close>

definition state_typed :: "Decoder \<Rightarrow> FileID \<Rightarrow> fileIntegrityState \<Rightarrow> bool" where
  "state_typed d fid st \<longleftrightarrow> (\<exists>fd\<in>set (protectedFiles d). fd_FileID fd = fid \<and> fis_FileID st = fid \<and> fis_Filename st = Filename fd \<and>
     length (ShardLocations st) = unat (shardCount (ByteCount fd) (sliceByteCount d))) \<and>
     (\<forall>l\<in>set (ShardLocations st). -1 \<le> Offset l) \<and>
     (RenameSource st = [] \<or> RenameSource st \<in> fst ` set (candidateFiles d))"

text \<open>Candidates are registered under identifiers made from their names, in both directions: the identifier of every candidate
  is looked up as a candidate with that identifier. This is the candidate itself unless two names have the same MD5.\<close>

definition candidates_typed :: "Decoder \<Rightarrow> bool" where
  "candidates_typed d \<longleftrightarrow> distinct (map fst (candidateFiles d)) \<and> distinct (map fst (candidateByID d)) \<and>
     (\<forall>(path, fid)\<in>set (candidateFiles d). fid = md5 (ascii ''candidate:'' @ path)) \<and>
     (\<forall>(fid, path)\<in>set (candidateByID d). (path, fid) \<in> set (candidateFiles d)) \<and>
     (\<forall>(path, fid)\<in>set (candidateFiles d). \<exists>path'. map_of (candidateByID d) fid = Some path' \<and> (path', fid) \<in> set (candidateFiles d))"

definition typed :: "Decoder \<Rightarrow> Decoder \<Rightarrow> bool" where
  "typed d0 d \<longleftrightarrow> numGoroutines d = numGoroutines d0 \<and> memoryLimit d = memoryLimit d0 \<and> protectedFiles d = protectedFiles d0 \<and> sliceByteCount d = sliceByteCount d0 \<and> recoverySetID d = recoverySetID d0 \<and>
     fileChecksums d = fileChecksums d0 \<and> Decoder.parityShards d = Decoder.parityShards d0 \<and> parityFileBlocks d = parityFileBlocks d0 \<and>
     candidates_typed d \<and> distinct (map fst (fileIntegrity d)) \<and> (\<forall>(fid, st)\<in>set (fileIntegrity d). state_typed d fid st)"

lemma typed_root [simp]: "typed d0 (d\<lparr>root := w\<rparr>) = typed d0 d"
  by (simp add: typed_def candidates_typed_def state_typed_def)

text \<open>Verification and repair leave the candidates as they are.\<close>

definition held :: "Decoder \<Rightarrow> (bytes \<times> FileID) list \<Rightarrow> Decoder \<Rightarrow> bool" where
  "held d0 cs d \<longleftrightarrow> typed d0 d \<and> candidateFiles d = cs"

lemma keeps_held_root [keeps]: "keeps (held d0 cs) (onRoot m)"
  by (auto simp: keeps_def onRoot_def held_def split: prod.splits)

lemma gives_held:
  "gives (held d0 cs) (getG protectedFiles) (\<lambda>x. x = protectedFiles d0)" "gives (held d0 cs) (getG sliceByteCount) (\<lambda>x. x = sliceByteCount d0)"
  "gives (held d0 cs) (getG candidateFiles) (\<lambda>x. x = cs)"
  by (simp_all add: gives_def keeps go_defs typed_def held_def)

lemma set_update: "set (AList.update k v al) \<subseteq> insert (k, v) (set al)"
  by (induction al) auto

text \<open>Storing a state that is well formed.\<close>

lemma held_store:
  assumes d: "held d0 cs d" and new: "state_typed d fid st"
  shows "held d0 cs (d\<lparr>fileIntegrity := AList.update fid st (fileIntegrity d)\<rparr>)" (is "held d0 cs ?d")
proof -
  have same: "state_typed ?d g x = state_typed d g x" "candidates_typed ?d = candidates_typed d" for g x
    by (simp_all add: state_typed_def candidates_typed_def)
  have "\<forall>(g, x)\<in>set (AList.update fid st (fileIntegrity d)). state_typed d g x"
    using set_update[of fid st "fileIntegrity d"] new d unfolding held_def typed_def by blast
  then show ?thesis using d unfolding held_def typed_def same by (simp add: distinct_update)
qed

lemma keeps_held_update:
  assumes "\<And>d st. candidateFiles d = cs \<Longrightarrow> state_typed d fid st \<Longrightarrow> state_typed d fid (f st)"
  shows "keeps (held d0 cs) (updState fid f)"
  unfolding keeps_def
proof (intro allI impI)
  fix d assume d: "held d0 cs d"
  show "held d0 cs (snd (updState fid f d))"
  proof (cases "map_of (fileIntegrity d) fid")
    case (Some st)
    have "state_typed d fid st" using map_of_SomeD[OF Some] d unfolding held_def typed_def by blast
    moreover have "candidateFiles d = cs" using d by (simp add: held_def)
    ultimately show ?thesis using held_store[OF d] assms Some by (simp add: updState_def)
  qed (use d in \<open>simp add: updState_def\<close>)
qed

lemma keeps_held_damage [keeps]: "keeps (held d0 cs) (setDamage fid dm)"
  unfolding setDamage_def by (rule keeps_held_update) (simp add: state_typed_def)

lemma state_typed_whole:
  assumes "state_typed d fid st" "r = [] \<or> r \<in> fst ` set (candidateFiles d)"
  shows "state_typed d fid (setWhole cid bs (st\<lparr>RenameSource := r, Damage := dm\<rparr>))"
    "state_typed d fid (setWhole cid bs (st\<lparr>Damage := dm\<rparr>))" "state_typed d fid (setWhole cid bs (st\<lparr>RenameSource := r\<rparr>))"
    "state_typed d fid (st\<lparr>RenameSource := r\<rparr>)" "state_typed d fid (st\<lparr>Damage := dm, RenameSource := r\<rparr>)"
proof -
  have "-1 \<le> int (i * bs)" for i by (simp del: of_nat_mult)
  then show "state_typed d fid (setWhole cid bs (st\<lparr>RenameSource := r, Damage := dm\<rparr>))"
    "state_typed d fid (setWhole cid bs (st\<lparr>Damage := dm\<rparr>))" "state_typed d fid (setWhole cid bs (st\<lparr>RenameSource := r\<rparr>))"
    using assms by (auto simp: state_typed_def setWhole_def wholeLocations_def simp del: of_nat_mult)
qed (use assms in \<open>auto simp: state_typed_def\<close>)

section \<open>Verification\<close>

lemma held_init: "keeps (held d0 cs) initFileIntegrity"
proof -
  have clear: "keeps (held d0 cs) (modG (\<lambda>d. d\<lparr>fileIntegrity := []\<rparr>))"
    by (rule keeps_mod) (auto simp: held_def typed_def candidates_typed_def)
  have init: "keeps (held d0 cs) (init_file f n)" if f: "f \<in> set (protectedFiles d0)" for f n
  proof -
    let ?st = "\<lparr>fis_FileID = fd_FileID f, fis_Filename = Filename f, Damage = damageUnchecked, RenameSource = [],
      ShardLocations = replicate (unat (shardCount (ByteCount f) (sliceByteCount d0))) missingLocation\<rparr>"
    have "held d0 cs (d\<lparr>fileIntegrity := AList.update (fd_FileID f) ?st (fileIntegrity d)\<rparr>)" if d: "held d0 cs d" for d
      by (rule held_store[OF d]) (use f d in \<open>auto simp: state_typed_def missingLocation_def held_def typed_def\<close>)
    then show ?thesis
      unfolding init_file_def by (intro keeps_bind_gives[OF gives_held(2)]) (auto simp: Let_def intro!: keeps)
  qed
  show ?thesis
    unfolding initFileIntegrity_def
    by (rule keeps_bind[OF clear], rule keeps_bind_gives[OF gives_held(1)]) (auto intro!: keeps init)
qed

lemma held_prescans: "keeps (held d0 cs) prescanCandidateMatches" "keeps (held d0 cs) prescanProtectedMatches"
proof -
  have cand: "keeps (held d0 cs) (prescan_candidate missing path cid)" if "(path, cid) \<in> set cs" for missing path cid
  proof -
    have "path \<in> fst ` set cs" using that by force
    then show ?thesis unfolding prescan_candidate_def by (intro keeps keeps_held_update state_typed_whole(3)) auto
  qed
  have loop: "keeps (held d0 cs) (prescan_loop missing xs resolved)" if "set xs \<subseteq> set cs" for missing xs resolved
    using that by (induction xs arbitrary: resolved) (auto intro!: keeps cand split: if_splits)
  have "keeps (held d0 cs) missingByQuickKey" unfolding missingByQuickKey_def by (intro keeps)
  then show "keeps (held d0 cs) prescanCandidateMatches"
    unfolding prescanCandidateMatches_def by (intro keeps_bind_gives[OF gives_held(3)]) (auto intro!: keeps loop)
  have "keeps (held d0 cs) (prescan_protected fd)" for fd
    unfolding prescan_protected_def by (intro keeps keeps_held_update state_typed_whole(2)) auto
  then have "keeps (held d0 cs) (prescan_protected_loop fds)" for fds by (induction fds) (auto intro!: keeps)
  then show "keeps (held d0 cs) prescanProtectedMatches" unfolding prescanProtectedMatches_def by (intro keeps)
qed

lemma held_scan: "keeps (held d0 cs) (scan s envs sched)"
proof -
  have "keeps (held d0 cs) (collect m)" for m
    unfolding collect_def
    by (intro keeps keeps_held_update) (auto simp: state_typed_def dest!: set_update_subset_insert[THEN subsetD])
  then show ?thesis unfolding scan_def Let_def by (intro keeps)
qed

lemma registered_candidate:
  assumes "held d0 cs d" "map_of (candidateByID d) fid = Some q"
  shows "q \<in> fst ` set cs"
proof -
  have "(q, fid) \<in> set cs"
    using map_of_SomeD[OF assms(2)] assms(1) unfolding held_def typed_def candidates_typed_def by blast
  then show ?thesis by force
qed

lemma gives_registered: "gives (held d0 cs) (detectRenameCandidate fd st) (\<lambda>p. p \<noteq> [] \<longrightarrow> p \<in> fst ` set cs)"
proof (cases "ShardLocations st")
  case (Cons l ls)
  have g: "gives (held d0 cs) (getG (\<lambda>d. (map_of (candidateByID d) (loc_FileID l), sliceByteCount d)))
      (\<lambda>x. \<forall>q. fst x = Some q \<longrightarrow> q \<in> fst ` set cs)"
    using registered_candidate by (auto simp: gives_def keeps getG_def)
  have k: "gives (held d0 cs) (onRoot m) (\<lambda>_. True)" for m by (simp add: gives_keeps keeps)
  show ?thesis
    unfolding detectRenameCandidate_def Cons list.case
    by (intro gives_if gives_ret gives_bind[OF g]; (simp split: prod.split)?)
      (auto simp: Let_def intro!: gives_if gives_ret gives_try[OF k] split: option.splits)
qed (simp add: detectRenameCandidate_def gives_ret)

lemma held_hashes: "keeps (held d0 cs) verifyProtectedFilesHashes"
proof -
  have "keeps (held d0 cs) (verify_file fd)" for fd
    unfolding verify_file_def verifySingleFileHash_def
    by (intro keeps_bind keeps_getState keeps_if keeps_simple keeps_bind_gives[OF gives_registered] keeps_held_damage keeps_held_root
        keeps_try keeps_held_update state_typed_whole(4,5)) auto
  then show ?thesis unfolding verifyProtectedFilesHashes_def by (intro keeps)
qed

lemma held_VerifyScans: "keeps (held d0 cs) (VerifyScans envs sched)"
proof -
  have "keeps (held d0 cs) checkFileExistence" unfolding checkFileExistence_def check_exists_def by (intro keeps)
  then show ?thesis unfolding VerifyScans_def by (intro keeps held_init held_prescans held_scan held_hashes)
qed

section \<open>Repair\<close>

lemma held_repoint:
  assumes "held d0 cs d"
  shows "held d0 cs (d\<lparr>fileIntegrity := map (apsnd (repoint old new)) (fileIntegrity d)\<rparr>)" (is "held d0 cs ?d")
proof -
  have same: "state_typed ?d g x = state_typed d g x" "candidates_typed ?d = candidates_typed d" for g x
    by (simp_all add: state_typed_def candidates_typed_def)
  have "state_typed d g (repoint old new x)" if "state_typed d g x" for g x
    using that by (auto simp: state_typed_def repoint_def)
  then have "\<forall>(g, x)\<in>set (map (apsnd (repoint old new)) (fileIntegrity d)). state_typed d g x"
    using assms unfolding held_def typed_def by fastforce
  moreover have "map fst (map (apsnd (repoint old new)) (fileIntegrity d)) = map fst (fileIntegrity d)" by simp
  ultimately show ?thesis using assms unfolding held_def typed_def same by simp
qed

lemma held_renames: "keeps (held d0 cs) renameMisnamedFiles"
proof -
  have "keeps (held d0 cs) (rename_misnamed fd)" for fd
    unfolding rename_misnamed_def ensureParentDir_def
    by (intro keeps keeps_held_update state_typed_whole(1,4)) (auto simp: held_repoint split: option.splits)
  then show ?thesis unfolding renameMisnamedFiles_def by (intro keeps)
qed

lemma held_planRepair: "keeps (held d0 cs) (planRepair n)"
  unfolding planRepair_def buildFlatLocs_def buildNeedsWrite_def Let_def by (intro keeps)

text \<open>The pipeline changes its decoder on the disk only.\<close>

definition pipe_held :: "Decoder \<Rightarrow> (bytes \<times> FileID) list \<Rightarrow> repairPipeline \<Rightarrow> bool" where
  "pipe_held d0 cs p \<longleftrightarrow> held d0 cs (pd p)"

lemma keeps_pipe [keeps]:
  "keeps (pipe_held d0 cs) (onDisk m)" "keeps (pipe_held d0 cs) (onDecoder (ensureParentDir n))"
proof -
  show "keeps (pipe_held d0 cs) (onDisk m)"
    using keeps_D[OF keeps_held_root] by (fastforce simp: keeps_def onDecoder_def onDisk_def pipe_held_def split: prod.splits)
  have "keeps (held d0 cs) (ensureParentDir n)" unfolding ensureParentDir_def by (intro keeps)
  then show "keeps (pipe_held d0 cs) (onDecoder (ensureParentDir n))"
    by (auto simp: keeps_def onDecoder_def pipe_held_def split: prod.splits)
qed

lemma keeps_deferring: "keeps I m \<Longrightarrow> keeps I c \<Longrightarrow> keeps I (deferring m c)"
  by (auto simp: keeps_def deferring_def split: prod.splits)

lemma keeps_pipe_mod [keeps]:
  "(\<And>p. pd (f p) = pd p) \<Longrightarrow> keeps (pipe_held d0 cs) (modG f)"
  by (rule keeps_mod) (simp add: pipe_held_def)

lemma keeps_ignoring [keeps]: "keeps (pipe_held d0 cs) (ignoring m)"
  unfolding ignoring_def by (intro keeps)

lemma pipe_held_executeChunk: "keeps (pipe_held d0 cs) (executeChunk e sched k)"
proof -
  have out: "keeps (pipe_held d0 cs) (getOutput t)" for t unfolding getOutput_def Let_def by (intro keeps) simp_all
  have src: "keeps (pipe_held d0 cs) (getSource t)" for t unfolding getSource_def by (intro keeps) simp_all
  have shard: "keeps (pipe_held d0 cs) (setDataShard i x)" for i x unfolding setDataShard_def by (intro keeps) simp_all
  have "keeps (pipe_held d0 cs) (read_shard c st x)" for c st x
    unfolding read_shard_def Let_def by (cases x) (auto intro!: keeps src shard)
  moreover have "keeps (pipe_held d0 cs) (read_parity c st x)" for c st x
    unfolding read_parity_def by (cases x) (auto intro!: keeps)
  moreover have "keeps (pipe_held d0 cs) (write_shard st x)" for st x
    unfolding write_shard_def by (cases x) (auto intro!: keeps out)
  moreover have "keeps (pipe_held d0 cs) (reconstruct_chunk e sched)"
    unfolding reconstruct_chunk_def by (intro keeps) simp_all
  ultimately show ?thesis unfolding executeChunk_def Let_def by (intro keeps) (auto intro!: keeps)
qed

lemma keeps_install: "keeps (pipe_held d0 cs) (install sched)"
proof -
  have "keeps (pipe_held d0 cs) (install_file fd)" for fd unfolding install_file_def by (intro keeps)
  moreover have "keeps (pipe_held d0 cs) check_outputs" unfolding check_outputs_def by (auto intro!: keeps)
  moreover have "keeps (pipe_held d0 cs) release_handles" unfolding release_handles_def by (auto intro!: keeps)
  moreover have "keeps (pipe_held d0 cs) (finishRebuiltFiles sched fds)" for fds unfolding finishRebuiltFiles_def by (intro keeps)
  ultimately show ?thesis unfolding install_def by (intro keeps)
qed

lemma held_Repair: "keeps (held d0 cs) (Repair e sc)"
proof -
  have "keeps (pipe_held d0 cs) pipeline_close" unfolding pipeline_close_def by (auto intro!: keeps)
  then have "keeps (pipe_held d0 cs) (run_pipeline e sc)"
    unfolding run_pipeline_def run_chunks_def by (intro keeps_deferring keeps pipe_held_executeChunk keeps_install)
  then have "pipe_held d0 cs p'" if "run_pipeline e sc p = (r, p')" "pipe_held d0 cs p" for p r p'
    using that by (auto dest: keeps_D)
  then have "keeps (held d0 cs) (withPipeline (run_pipeline e sc) p)" for p
    by (fastforce simp: keeps_def withPipeline_def pipe_held_def split: prod.splits)
  then show ?thesis unfolding Repair_def by (intro keeps held_renames held_planRepair)
qed

section \<open>Candidates and loading\<close>

lemma update_absent: "map_of al k = None \<Longrightarrow> AList.update k v al = al @ [(k, v)]"
  by (induction al) (auto split: if_splits)

lemma typed_AddCandidateFile: "keeps (typed d0) (AddCandidateFile path)"
proof -
  have "typed d0 (d\<lparr>candidateFiles := AList.update p (md5 (ascii ''candidate:'' @ p)) (candidateFiles d),
      candidateByID := AList.update (md5 (ascii ''candidate:'' @ p)) p (candidateByID d)\<rparr>)" (is "typed d0 ?d")
    if d: "typed d0 d" and new: "map_of (candidateFiles d) p = None" for d p
  proof -
    let ?fid = "md5 (ascii ''candidate:'' @ p)"
    have files: "set (AList.update p ?fid (candidateFiles d)) = insert (p, ?fid) (set (candidateFiles d))"
      using update_absent[OF new] by simp
    have "candidates_typed ?d"
      using d set_update[of ?fid p "candidateByID d"] unfolding typed_def candidates_typed_def
      by (auto simp: files distinct_update update_conv)
    moreover have "state_typed ?d g x" if "state_typed d g x" for g x using that by (auto simp: state_typed_def files)
    ultimately show ?thesis using d unfolding typed_def by auto
  qed
  then show ?thesis unfolding AddCandidateFile_def Let_def by (intro keeps) auto
qed

text \<open>A set that was just loaded has no states and no candidates, and goroutines and memory to work with.\<close>

definition blank :: "Decoder \<Rightarrow> bool" where
  "blank d \<longleftrightarrow> fileIntegrity d = [] \<and> candidateFiles d = [] \<and> candidateByID d = [] \<and> 0 < numGoroutines d \<and> 0 < memoryLimit d"

lemma NewDecoder_blank:
  assumes "env_ok e" "NewDecoder e opts fn w = Ret d"
  shows "blank d"
proof -
  have f: "file_pred blank" by (simp add: file_pred_def blank_def)
  have handlers: "keeps blank (handlePacket fn h body)" "keeps blank (handleVolumePacket fn h body)" for fn h body
    unfolding handlePacket_def handleVolumePacket_def by (intro keeps; auto simp: blank_def storeRecovery_def)+
  have "keeps blank (streamPAR2Packets fn (handlePacket fn))" "keeps blank (loadSingleVolumeFile fn)" for fn
    unfolding loadSingleVolumeFile_def by (rule keeps_stream[OF f]; auto simp: handlers blank_def)+
  then have "keeps blank (loadIndexFile fn)" "keeps blank (loadVolumeFiles fn)"
    unfolding loadIndexFile_def loadVolumeFiles_def loadVolume_def
    by (intro keeps keeps_onRoot[OF f] reads_ops; auto simp: blank_def)+
  moreover have "blank (newDecoderState e opts w')" for w'
    using num_goroutines_pos[OF assms(1), of 0] by (simp add: blank_def newDecoderState_def num_goroutines_def)
  ultimately show ?thesis
    using assms(2) unfolding NewDecoder_def by (auto simp: bindG_def split: prod.splits res.splits dest!: keeps_D)
qed

section \<open>Reachable states\<close>

lemma api_step_typed:
  assumes "api_step d d'" "typed d0 d"
  shows "typed d0 d'"
proof -
  have h: "held d0 (candidateFiles d) d" using assms(2) by (simp add: held_def)
  have "typed d0 d'" if "AddCandidateFile path d = (r, d')" for path r by (rule keeps_D[OF typed_AddCandidateFile assms(2) that])
  moreover have "typed d0 d'" if "VerifyScans envs sched d = (r, d')" for envs sched r
    using keeps_D[OF held_VerifyScans h that] by (simp add: held_def)
  moreover have "typed d0 d'" if "Repair e sc d = (r, d')" for e sc r using keeps_D[OF held_Repair h that] by (simp add: held_def)
  ultimately show ?thesis using assms by (auto elim!: api_stepE)
qed

lemma session_typed: "session d0 d \<Longrightarrow> typed d0 d"
proof (induction rule: session.induct)
  case (load e opts fn w d0)
  then show ?case using NewDecoder_blank by (force simp: typed_def candidates_typed_def blank_def)
qed (rule api_step_typed)

lemma session_loaded: "session d0 d \<Longrightarrow> dec_ok d0 \<and> files_sorted (protectedFiles d0) \<and> 0 < numGoroutines d0 \<and> 0 < memoryLimit d0"
proof (induction rule: session.induct)
  case (load e opts fn w d0)
  then show ?case using NewDecoder_blank[OF load] NewDecoder_loaded[OF load(2)] by (simp add: loaded_def blank_def)
qed

text \<open>Before the first verification there are no states, so that a repair of a set with files runs into a nil pointer.\<close>

lemma repair_unverified_panics:
  assumes "env_ok e" "NewDecoder e opts fn w = Ret d" "protectedFiles d \<noteq> []"
  shows "Repair e' sc d = (Panic nilDeref, d)"
proof -
  obtain f fs where f: "protectedFiles d = f # fs" using assms(3) by (cases "protectedFiles d") auto
  have "fileIntegrity d = []" using NewDecoder_blank[OF assms(1,2)] by (simp add: blank_def)
  then have "rename_misnamed f d = (Panic nilDeref, d)" by (simp add: rename_misnamed_def bindG_def getState_def)
  then show ?thesis by (simp add: Repair_def renameMisnamedFiles_def bindG_def getG_def f)
qed

section \<open>Property\<close>

definition empty_set :: Decoder where
  "empty_set = newDecoderState small_env \<lparr>NumGoroutines = 0, MemoryLimit = 0, MaxFileSize = 0, MaxPacketSize = 0\<rparr>
     ((one_file [0x61] [])\<lparr>ticks := 8\<rparr>)"

lemma empty_loads: "\<exists>n. NewDecoder small_env \<lparr>NumGoroutines = 0, MemoryLimit = 0, MaxFileSize = 0, MaxPacketSize = 0\<rparr> [0x61] (one_file [0x61] []) =
    Ret (empty_set\<lparr>root := (one_file [0x61] [])\<lparr>ticks := n\<rparr>\<rparr>)"
  by (simp add: NewDecoder_def loadIndexFile_def loadVolumeFiles_def streamPAR2Packets_def stream_loop.simps go_defs onRoot_def
      newDecoderState_def one_file_def empty_set_def ReadHeader_def sort_files_def)

text \<open>C10. A decoder is well formed all its life: in every state that loading a set and then adding candidates, verifying and
  repairing lead to, in any order, whichever calls fail and however the files change in between, the loaded packets are
  as they were and well formed, there are goroutines and memory to work with, the states are of protected files, each
  with its own name and exactly one location for each block of its file, with an offset that is not negative or the mark for a missing
  block, and only registered candidates are planned to be renamed. Candidates are registered in both directions: every
  identifier that is looked up leads to a registered candidate with this identifier, and the identifier of every registered
  candidate, the MD5 of its name with a prefix, is looked up as a candidate with the same identifier.\<close>

theorem decoder_stays_well_formed:
  assumes "session d0 d"
  shows "dec_ok d0 \<and> files_sorted (protectedFiles d0) \<and> 0 < numGoroutines d \<and> 0 < memoryLimit d \<and> typed d0 d"
  using session_loaded[OF assms] session_typed[OF assms] by (simp add: typed_def)

theorem decoder_stays_well_formed_witness:
  "\<exists>d0 d. session d0 d \<and> candidateFiles d = [([0x62], md5 (ascii ''candidate:b''))] \<and>
     map_of (candidateByID d) (md5 (ascii ''candidate:b'')) = Some [0x62]"
proof -
  obtain n where "NewDecoder small_env \<lparr>NumGoroutines = 0, MemoryLimit = 0, MaxFileSize = 0, MaxPacketSize = 0\<rparr> [0x61] (one_file [0x61] []) =
      Ret (empty_set\<lparr>root := (one_file [0x61] [])\<lparr>ticks := n\<rparr>\<rparr>)" using empty_loads by blast
  then have s: "session (empty_set\<lparr>root := (one_file [0x61] [])\<lparr>ticks := n\<rparr>\<rparr>) (empty_set\<lparr>root := (one_file [0x61] [])\<lparr>ticks := n\<rparr>\<rparr>)" (is "session ?d ?d")
    by (rule session.load[OF small_env_ok(1)])
  have b: "DefangPath slash [0x62] = Ret [0x62]" by code_simp
  obtain r d where d: "AddCandidateFile [0x62] ?d = (r, d)" by (cases "AddCandidateFile [0x62] ?d")
  then have ses: "session ?d d" using session.step[OF s api_step.add_candidate] by blast
  have files: "candidateFiles d = [([0x62], md5 (ascii ''candidate:b''))]"
    using d b by (simp add: AddCandidateFile_def go_defs empty_set_def newDecoderState_def one_file_def ascii_def) (auto simp: modG_def Let_def ascii_def)
  have "candidates_typed d" using decoder_stays_well_formed[OF ses] by (simp add: typed_def)
  then have "map_of (candidateByID d) (md5 (ascii ''candidate:b'')) = Some [0x62]" unfolding candidates_typed_def files by (elim conjE) (simp del: map_of_eq_Some_iff)
  then show ?thesis using ses files by blast
qed

end
