(* ===== verification/Spec2Isabelle.thy ===== *)
theory Spec2Isabelle
  imports GF16_Slices RS_Coder CLI Report Sessions Verify_Restores
begin

text \<open>
  \<^bold>\<open>Verification of par2engine, a PAR2 verification and repair engine in Go.\<close>

  \<^bold>\<open>The program.\<close> A PAR2 set protects files: an index file lists them with their lengths and MD5 digests
  and gives the CRC32 and MD5 of every block (slice) of every file; recovery volumes hold parity blocks, linear
  combinations of all the data blocks over the field with \<open>2 ^ 16\<close> elements. Package \<open>gf16\<close> computes in this field,
  one element at a time and on whole byte slices, with SSSE3 and AVX2 kernels; package \<open>rs\<close> builds the Reed-Solomon
  code on it, with a matrix product that is split among goroutines; package \<open>par2\<close> loads a set (\<open>decoder.go\<close>,
  \<open>packet.go\<close>), looks for the blocks of the protected files on disk (\<open>scan.go\<close>, with the sliding checksum of
  \<open>checksummer.go\<close> and the table of \<open>crc_table.go\<close>) and rebuilds what is damaged (\<open>repair.go\<close>, with \<open>rs\<close>);
  \<open>cmd/gopar\<close> is the command line: it loads a set, registers candidate files, verifies, and repairs if asked to.

  \<^bold>\<open>The model.\<close> A Go call is a value of type \<open>res\<close> (\<open>Prelude\<close>): a result, an \<open>error\<close> value, or a panic, so that every
  early return is a branch, and so is an index, slice or pointer that the data could put out of range. The loops of the scalar
  kernels, which index within lengths that \<open>validateSlicePair\<close> has checked, and arrays of fixed size read and write lists
  without such a branch. \<open>make\<close> panics when the length comes from the set and is beyond \<open>maxAlloc\<close>, the \<open>2 ^ 48\<close> bytes that the Go runtime
  addresses (\<open>makeslice\<close> in \<open>Prelude\<close>: the window, the buffers of the scan and of the repair); packet bodies are bounded by
  the limit of the caller, which is taken to be below it, and running out of memory below it is not modelled. Code with state is a function of type \<open>('s, 'a) go\<close>
  (\<open>Go_IO\<close>) from a state to such a result and the next state, whatever the result. The state of the disk is the
  record \<open>world\<close>: names, inodes with their bytes, and a clock that advances with every system call; at each tick an
  arbitrary function of the world decides whether the call fails, whether the context is cancelled, and which random
  text is drawn, so that a theorem over all worlds is a theorem over all faults. Goroutines are interleaved by
  an explicit schedule, a list of actions that every safety theorem leaves arbitrary. Iteration over a Go map is
  iteration over an association list whose order the theorems leave arbitrary. Machine integers are words, and
  the \<open>int64\<close> arithmetic that could wrap is done with its wrap-around written out or on integers with the bounds proved.

  \<^bold>\<open>Theories and sources.\<close>
  \<^item> \<open>Prelude\<close>: machine types, results, slices and indices of Go, the lemma collections of the development.
  \<^item> \<open>GF16_Field\<close>: the field as polynomials over two elements modulo the PAR2 polynomial, with its laws;
    the specification that the code is measured against.
  \<^item> \<open>GF16\<close> (\<open>src/gf16/gf16.go\<close>): bootstrap multiplication, initialisation of the tables, \<open>Times\<close>, \<open>Inverse\<close>, \<open>Div\<close>, \<open>Pow\<close>.
  \<^item> \<open>Bytes\<close>, \<open>GF16_Scalar\<close>, \<open>GF16_Vector\<close>, \<open>GF16_Slices\<close> (\<open>src/gf16/gf16.go\<close>, \<open>gf16_amd64.go\<close>, \<open>gf16_nonamd64.go\<close>,
    \<open>asm.go\<close>, \<open>gf16_amd64.s\<close>): product tables and portable kernels, the SSSE3 and AVX2 kernels instruction by
    instruction, the dispatchers of each build. Every build gives the portable result, which is the field product.
  \<^item> \<open>RS_Matrix\<close> (\<open>src/rs/matrix.go\<close>): matrices, row operations through the kernels, Gaussian elimination, inverse.
  \<^item> \<open>RS_Parallel\<close>, \<open>RS_Coder\<close> (\<open>src/rs/rs.go\<close>): the split of a chunk among goroutines, their kernel calls as atomic steps
    under a schedule, the generators, parity and reconstruction. Reconstruction returns the original data, reports a
    singular system, or reports too few shards; it never returns wrong data.
  \<^item> \<open>CRC_Window\<close> (\<open>src/par2/checksummer.go\<close>), \<open>CRC_Table\<close> (\<open>src/par2/crc_table.go\<close>): the sliding checksum equals the
    checksum recomputed at every offset; the open-addressing table refines the map it is built from.
  \<^item> \<open>MD5\<close>, \<open>Packet\<close> (\<open>src/par2/packet.go\<close>): the digest of RFC 1321, headers and the four packet bodies with their
    encoders (round trips), identifiers, and the file names that are let through.
  \<^item> \<open>Go_IO\<close>, \<open>Decoder\<close>, \<open>Decoder_Load\<close> (\<open>src/par2/decoder.go\<close>): the world and its system calls, the packet stream with its
    resynchronisation, loading the index and the volumes, candidates, shard accounting; a loaded set is well formed.
  \<^item> \<open>Integrity\<close>, \<open>Scan\<close> (\<open>src/par2/scan.go\<close>): states of the files, existence check, prescans, renames; the block
    scanner with its goroutines and the collector, and \<open>VerifyScans\<close>.
  \<^item> \<open>Scan_Sound\<close>, \<open>Scan_Windows\<close>, \<open>Scan_Index\<close>, \<open>Verify_Phases\<close>, \<open>Verify_Complete\<close>: what a scan reports is true; no phase
    panics; every block in its place is found; the verdict of \<open>VerifyScans\<close> holds on the disk.
  \<^item> \<open>Repair_Plan\<close>, \<open>Repair\<close> (\<open>src/par2/repair.go\<close>): the plan with its chunk size, and the pipeline: reading a chunk,
    reconstruction, temp files, the goroutines that finish the rebuilt files, installation, cleanup.
  \<^item> \<open>Repair_Sound\<close>, \<open>Repair_Files\<close>, \<open>Verify_Repair\<close>: what a repair does to the disk, whatever fails. Files are
    left alone, or are protected files that now have their recorded MD5, or were moved to one; a repair that
    reports success leaves every protected file with its recorded MD5.
  \<^item> \<open>Repair_Chunks\<close>, \<open>Repair_Run\<close>, \<open>Repair_Finish\<close>, \<open>Repair_Restores\<close>: the run of a repair in which no call fails, chunk by
    chunk, through finishing and installing to the original files. \<open>Verify_Locations\<close>: every location that a verification
    reports is genuine. \<open>Verify_Restores\<close>: from the damaged files, \<open>VerifyScans\<close> and \<open>Repair\<close> restore the originals.
  \<^item> \<open>Report\<close> (\<open>src/par2/scan.go\<close>): the statuses, counters and verdict that are logged after a verification; they agree with
    the shard counts and with the disk.
  \<^item> \<open>Sessions\<close>: the exported operations of the decoder as an inductive step relation; what holds in every reachable state.
  \<^item> \<open>Flags\<close>: the parser of package \<open>flag\<close> and the numbers and truth values of package \<open>strconv\<close>, as the command line uses them.
  \<^item> \<open>CLI\<close> (\<open>src/cmd/gopar/main.go\<close>): flags and arguments, profiles, candidates, dispatch, exit codes; flags are read as they are
    written, exit code 0 means that the files are intact, and unless a repair is asked for nothing is written but
    profiles. \<open>Sample_Run\<close>: a PAR2 set as bytes, which the program loads and repairs in the sample run of \<open>CLI\<close>.

  \<^bold>\<open>Interfaces.\<close> What one part relies on in another is a locale, interpreted on the definitions of the part that
  provides it: \<open>slice_kernel\<close> (a kernel that maps a function over the elements of a slice: the scalar, SSSE3, AVX2 and
  dispatched kernels, each with the block size it needs), \<open>system_solver\<close> (a solver of linear systems: Gaussian elimination,
  for the coder), \<open>packet_handler\<close> (a handler that keeps a set well formed: those of the index file and of the volumes, for
  the packet stream) and \<open>checksum_index\<close> (a table from checksums to blocks: the lookup table, for the scanner).

  \<^bold>\<open>What the theorems need.\<close> The safety of a repair (C5 to C7) is for sets whose names do not clash (\<open>repairable_set\<close>): a candidate that
  is itself a protected file can be renamed away, and the code does not exclude it. That a repair succeeds (C1, C2) is for
  runs in which no call fails; C1 is for sets without candidates and files that are not longer than recorded, C2 for runs without
  planned renames. Verification returns (C11 to C13) on sets whose checksum packets list no more blocks than their files
  have and whose slices fit an allocation. Each condition is in the statement; without the
  ones on names, lengths, checksum packets and slices the code does misbehave.

  \<^bold>\<open>Loops and bounds.\<close> Loops over data are structural or have a termination proof: the packet stream recurs on the
  bytes that remain, the sliding window on the offsets that remain. The probe loops of the lookup table,
  which end only because the table is never full, are \<open>partial_function (option)\<close>, and building a table and looking up in it
  are proved to return. A goroutine that is never scheduled is the one other way not to return: the parallel product is then
  \<open>None\<close>, and fair schedules are proved to finish it. The goroutines that finish rebuilt files make three calls each, so
  their schedule is followed by three steps of each, which is what waiting for them does.

  \<^bold>\<open>Not modelled.\<close> The text of log messages and progress reports: output only. What the profilers write: the content of a profile is arbitrary. \<open>Close\<close> and getters of the decoder. The
  little-endian check of package \<open>rs\<close> at start-up, \<open>filepath.Glob\<close> and the paths of profiles (parameters of the command
  line model), the generator of benchmark files \<open>cmd/genperf\<close>, and \<open>tools.go\<close>, which only imports. The memory layout of
  buffers that several slices share is modelled where a result depends on it (kernels in place); elsewhere a slice is a list.
\<close>

end
